(* ===== verification/Xv6_Prelude.thy ===== *)
theory Xv6_Prelude
  imports Main "HOL-Library.Word"
begin

text \<open>
  The prelude of the xv6 development: the C integer types at their widths
  (src/kernel/types.h), the outcome type every kernel operation returns, little-endian
  encodings of integers in byte arrays, writes into byte arrays, and the generic lemmas on
  lists and words that the component theories share.
\<close>

unbundle bit_operations_syntax

named_theorems res_simps \<open>rewriting with the outcome type\<close>
named_theorems le_simps \<open>little-endian encodings\<close>
named_theorems lock_simps \<open>moving state updates out of a critical section\<close>

subsection \<open>C integer types\<close>

type_synonym uint8 = "8 word"
type_synonym uint16 = "16 word"
type_synonym uint32 = "32 word"
type_synonym uint64 = "64 word"
type_synonym byte = "8 word"
type_synonym addr = "64 word"

text \<open>
  A C \<open>int\<close> that stays far from its limits is an \<open>int\<close>.
\<close>

subsection \<open>Outcomes of kernel code\<close>

text \<open>
  Kernel code ends in one of four ways: it returns a value (\<open>Ok\<close>; the new state is part
  of the value), it calls \<open>panic\<close> (\<open>Panic\<close> with the message), it spins on a condition that
  nothing this CPU does can change (\<open>Spin\<close>: a lock that another CPU holds, a loop with no
  exit), or it gives up the CPU inside \<open>sleep\<close> or \<open>sched\<close> (\<open>Slept\<close> with the state at the
  moment of the context switch).
\<close>

datatype ('s, 'a) res = Ok 'a | Panic string | Spin | Slept 's

primrec rbind :: "('s, 'a) res \<Rightarrow> ('a \<Rightarrow> ('s, 'b) res) \<Rightarrow> ('s, 'b) res" where
  "rbind (Ok x) f = f x"
| "rbind (Panic e) f = Panic e"
| "rbind Spin f = Spin"
| "rbind (Slept s) f = Slept s"

lemma rbind_cong [fundef_cong]:
  "m = m' \<Longrightarrow> (\<And>x. m' = Ok x \<Longrightarrow> f x = f' x) \<Longrightarrow> rbind m f = rbind m' f'"
  by (cases m') auto

lemma rbind_Ok_iff [res_simps]: "rbind m f = Ok y \<longleftrightarrow> (\<exists>x. m = Ok x \<and> f x = Ok y)"
  by (cases m) auto

lemma rbind_Panic_iff:
  "rbind m f = Panic e \<longleftrightarrow> m = Panic e \<or> (\<exists>x. m = Ok x \<and> f x = Panic e)"
  by (cases m) auto

lemma rbind_assoc [res_simps]: "rbind (rbind m f) g = rbind m (\<lambda>x. rbind (f x) g)"
  by (cases m) auto

lemma rbind_OkE [elim]:
  assumes "rbind m f = Ok y"
  obtains x where "m = Ok x" and "f x = Ok y"
  using assms by (cases m) auto

lemma rbind_if: "rbind (if c then a else b) f = (if c then rbind a f else rbind b f)"
  by simp

text \<open>An outcome whose value satisfies a predicate whenever there is one.\<close>

definition ok_with :: "('s, 'a) res \<Rightarrow> ('a \<Rightarrow> bool) \<Rightarrow> bool" where
  "ok_with r P \<longleftrightarrow> (\<exists>x. r = Ok x \<and> P x)"

lemma ok_withI [intro]: "r = Ok x \<Longrightarrow> P x \<Longrightarrow> ok_with r P"
  by (auto simp: ok_with_def)

lemma ok_with_Ok [simp]: "ok_with (Ok x) P = P x"
  by (auto simp: ok_with_def)

lemma ok_with_bind: "ok_with m P \<Longrightarrow> (\<And>x. P x \<Longrightarrow> ok_with (f x) Q) \<Longrightarrow> ok_with (rbind m f) Q"
  by (auto simp: ok_with_def)

subsection \<open>Little-endian integers in byte lists\<close>

fun le_bytes :: "nat \<Rightarrow> 'a::len word \<Rightarrow> byte list" where
  "le_bytes 0 w = []"
| "le_bytes (Suc n) w = ucast w # le_bytes n (drop_bit 8 w)"

fun le_word :: "byte list \<Rightarrow> 'a::len word" where
  "le_word [] = 0"
| "le_word (b # bs) = ucast b OR push_bit 8 (le_word bs)"

lemma length_le_bytes [simp]: "length (le_bytes n w) = n"
  by (induction n arbitrary: w) auto

lemma le_word_le_bytes: "le_word (le_bytes n w) = take_bit (8 * n) (w :: 'a::len word)"
proof (induction n arbitrary: w)
  case 0
  then show ?case by simp
next
  case (Suc n)
  show ?case
    by (rule bit_word_eqI) (auto simp: Suc.IH bit_simps)
qed

lemma le_word_le_bytes2 [simp, le_simps]: "le_word (le_bytes 2 w) = (w :: uint16)"
  by (simp add: le_word_le_bytes take_bit_word_eq_self)

lemma le_word_le_bytes4 [simp, le_simps]: "le_word (le_bytes 4 w) = (w :: uint32)"
  by (simp add: le_word_le_bytes take_bit_word_eq_self)

lemma le_word_le_bytes8 [simp, le_simps]: "le_word (le_bytes 8 w) = (w :: uint64)"
  by (simp add: le_word_le_bytes take_bit_word_eq_self)

lemma le_word_replicate0 [simp, le_simps]: "le_word (replicate n 0) = 0"
  by (induction n) auto

subsection \<open>Reading and writing pieces of a byte array\<close>

text \<open>
  \<open>blit xs i ys\<close> is the array \<open>xs\<close> after the bytes \<open>ys\<close> have been stored from index
  \<open>i\<close> on, what \<open>memmove(xs + i, ys, length ys)\<close> does to an array; \<open>slice xs i n\<close> are the
  \<open>n\<close> bytes from index \<open>i\<close> on.
\<close>

definition blit :: "'a list \<Rightarrow> nat \<Rightarrow> 'a list \<Rightarrow> 'a list" where
  "blit xs i ys = take i xs @ ys @ drop (i + length ys) xs"

definition slice :: "'a list \<Rightarrow> nat \<Rightarrow> nat \<Rightarrow> 'a list" where
  "slice xs i n = take n (drop i xs)"

lemma length_blit [simp]: "i + length ys \<le> length xs \<Longrightarrow> length (blit xs i ys) = length xs"
  by (simp add: blit_def)

lemma length_slice [simp]: "i + n \<le> length xs \<Longrightarrow> length (slice xs i n) = n"
  by (simp add: slice_def)

lemma nth_blit:
  assumes "i + length ys \<le> length xs" and "k < length xs"
  shows "blit xs i ys ! k = (if i \<le> k \<and> k < i + length ys then ys ! (k - i) else xs ! k)"
proof -
  have "min (length xs) i = i" using assms by simp
  then show ?thesis
    using assms by (auto simp: blit_def nth_append min_def)
qed

lemma nth_slice: "i + n \<le> length xs \<Longrightarrow> k < n \<Longrightarrow> slice xs i n ! k = xs ! (i + k)"
  by (simp add: slice_def)

lemma slice_blit_same [simp]:
  "i + length ys \<le> length xs \<Longrightarrow> n = length ys \<Longrightarrow> slice (blit xs i ys) i n = ys"
  by (simp add: slice_def blit_def)

lemma slice_blit_disjoint:
  assumes "i + length ys \<le> length xs" and "j + n \<le> length xs"
    and "j + n \<le> i \<or> i + length ys \<le> j"
  shows "slice (blit xs i ys) j n = slice xs j n"
  by (rule nth_equalityI) (use assms in \<open>auto simp: nth_slice nth_blit\<close>)

lemma slice_full [simp]: "n = length xs \<Longrightarrow> slice xs 0 n = xs"
  by (simp add: slice_def)

lemma blit_full [simp]: "length ys = length xs \<Longrightarrow> blit xs 0 ys = ys"
  by (simp add: blit_def)

lemma slice_replicate [simp]: "i + n \<le> k \<Longrightarrow> slice (replicate k x) i n = replicate n x"
  by (simp add: slice_def min_def)

lemma blit_slice_id: "i + n \<le> length xs \<Longrightarrow> blit xs i (slice xs i n) = xs"
  by (rule nth_equalityI) (auto simp: nth_blit nth_slice)

lemma blit_blit_same:
  assumes "i + length ys \<le> length xs" and "length zs = length ys"
  shows "blit (blit xs i ys) i zs = blit xs i zs"
  by (rule nth_equalityI) (use assms in \<open>auto simp: nth_blit\<close>)

lemma blit_commute:
  assumes "i + length ys \<le> length xs" and "j + length zs \<le> length xs"
    and "j + length zs \<le> i \<or> i + length ys \<le> j"
  shows "blit (blit xs i ys) j zs = blit (blit xs j zs) i ys"
  by (rule nth_equalityI) (use assms in \<open>auto simp: nth_blit\<close>)

text \<open>Integer fields of a byte array, at a byte offset.\<close>

definition get16 :: "byte list \<Rightarrow> nat \<Rightarrow> uint16" where
  "get16 xs i = le_word (slice xs i 2)"

definition get32 :: "byte list \<Rightarrow> nat \<Rightarrow> uint32" where
  "get32 xs i = le_word (slice xs i 4)"

definition put16 :: "byte list \<Rightarrow> nat \<Rightarrow> uint16 \<Rightarrow> byte list" where
  "put16 xs i w = blit xs i (le_bytes 2 w)"

definition put32 :: "byte list \<Rightarrow> nat \<Rightarrow> uint32 \<Rightarrow> byte list" where
  "put32 xs i w = blit xs i (le_bytes 4 w)"

lemma length_put16 [simp]: "i + 2 \<le> length xs \<Longrightarrow> length (put16 xs i w) = length xs"
  by (simp add: put16_def)

lemma length_put32 [simp]: "i + 4 \<le> length xs \<Longrightarrow> length (put32 xs i w) = length xs"
  by (simp add: put32_def)

lemma get16_put16 [simp]: "i + 2 \<le> length xs \<Longrightarrow> get16 (put16 xs i w) i = w"
  by (simp add: get16_def put16_def le_word_le_bytes2)

lemma get32_put32 [simp]: "i + 4 \<le> length xs \<Longrightarrow> get32 (put32 xs i w) i = w"
  by (simp add: get32_def put32_def le_word_le_bytes4)

lemma get32_put32_other:
  "i + 4 \<le> length xs \<Longrightarrow> j + 4 \<le> length xs \<Longrightarrow> j + 4 \<le> i \<or> i + 4 \<le> j \<Longrightarrow>
   get32 (put32 xs i w) j = get32 xs j"
  by (simp add: get32_def put32_def slice_blit_disjoint)

lemma get16_put16_other:
  "i + 2 \<le> length xs \<Longrightarrow> j + 2 \<le> length xs \<Longrightarrow> j + 2 \<le> i \<or> i + 2 \<le> j \<Longrightarrow>
   get16 (put16 xs i w) j = get16 xs j"
  by (simp add: get16_def put16_def slice_blit_disjoint)

lemma get32_put16_other:
  "i + 2 \<le> length xs \<Longrightarrow> j + 4 \<le> length xs \<Longrightarrow> j + 4 \<le> i \<or> i + 2 \<le> j \<Longrightarrow>
   get32 (put16 xs i w) j = get32 xs j"
  by (simp add: get32_def put16_def slice_blit_disjoint)

lemma get16_put32_other:
  "i + 4 \<le> length xs \<Longrightarrow> j + 2 \<le> length xs \<Longrightarrow> j + 2 \<le> i \<or> i + 4 \<le> j \<Longrightarrow>
   get16 (put32 xs i w) j = get16 xs j"
  by (simp add: get16_def put32_def slice_blit_disjoint)

lemma get32_replicate0 [simp]: "i + 4 \<le> n \<Longrightarrow> get32 (replicate n 0) i = 0"
  by (simp add: get32_def)

lemma get16_replicate0 [simp]: "i + 2 \<le> n \<Longrightarrow> get16 (replicate n 0) i = 0"
  by (simp add: get16_def)

subsection \<open>Words\<close>

lemma unat_add_le: "unat a + unat b < 2 ^ LENGTH('a) \<Longrightarrow> unat (a + b :: 'a::len word) = unat a + unat b"
  by (simp add: unat_word_ariths)

lemma of_nat_inj64: "i < 2 ^ 64 \<Longrightarrow> j < 2 ^ 64 \<Longrightarrow> (of_nat i :: uint64) = of_nat j \<longleftrightarrow> i = j"
  by (auto simp: word_of_nat_eq_iff take_bit_nat_eq_self)

lemma unat_less8: "unat (x :: 8 word) < 256"
  using unsigned_less [of x] by simp

lemma unat_less16: "unat (x :: 16 word) < 65536"
  using unsigned_less [of x] by simp

lemma unat_less32: "unat (x :: 32 word) < 4294967296"
  using unsigned_less [of x] by simp

lemma unat_less64: "unat (x :: 64 word) < 18446744073709551616"
  using unsigned_less [of x] by simp

lemma unat_ucast_32_64 [simp]: "unat (ucast (n :: uint32) :: uint64) = unat n"
  using unat_less32 [of n] by (simp add: unsigned_ucast_eq take_bit_nat_eq_self)

lemma ucast_32_64_of_nat: "(ucast (n :: uint32) :: uint64) = of_nat (unat n)"
  by simp

lemma unat_of_nat64 [simp]: "n < 18446744073709551616 \<Longrightarrow> unat (of_nat n :: uint64) = n"
  by (simp add: unat_of_nat take_bit_nat_eq_self)

lemma unat_of_nat32 [simp]: "n < 4294967296 \<Longrightarrow> unat (of_nat n :: uint32) = n"
  by (simp add: unat_of_nat take_bit_nat_eq_self)

lemma unat_of_nat16 [simp]: "n < 65536 \<Longrightarrow> unat (of_nat n :: uint16) = n"
  by (simp add: unat_of_nat take_bit_nat_eq_self)

end
