(* ===== verification/Kprintf.thy ===== *)
theory Kprintf
  imports Xv6_Prelude
begin

text \<open>
  Formatted output, src/kernel/printf.c: the bytes \<open>printf\<close> passes to \<open>consputc\<close>, in order. The
  arguments are a list of \<open>varg\<close>; \<open>va_arg\<close> on an argument that is not there or of another
  type is undefined in C and prints nothing here. The state \<open>printf\<close> works on, with its lock and
  the output device, is in \<open>Uart\<close>.
\<close>

datatype varg = AInt "32 word" | APtr uint64 | AStr "byte list option"

definition ascii :: "string \<Rightarrow> byte list" where
  "ascii str = map of_char str"

definition digits :: "byte list" where
  "digits = ascii ''0123456789abcdef''"

text \<open>The loop of \<open>printint\<close>, least significant digit first. A base below 2 does not occur.\<close>

function printint_digits :: "nat \<Rightarrow> nat \<Rightarrow> byte list" where
  "printint_digits base x =
     digits ! (x mod base) # (if x div base = 0 \<or> base < 2 then [] else printint_digits base (x div base))"
  by auto
termination
  by (relation "measure snd") (auto simp: div_greater_zero_iff)

definition printint :: "32 word \<Rightarrow> nat \<Rightarrow> bool \<Rightarrow> byte list" where
  "printint xx base sign =
     (let neg = sign \<and> sint xx < 0;
          x = (if neg then - xx else xx);
          buf = printint_digits base (unat x);
          buf = (if neg then buf @ ascii ''-'' else buf)
      in rev buf)"

definition printptr :: "uint64 \<Rightarrow> byte list" where
  "printptr x = ascii ''0x'' @ map (\<lambda>i. digits ! unat (drop_bit 60 (push_bit (4 * i) x))) [0..<16]"

fun printf_conv :: "byte \<Rightarrow> varg list \<Rightarrow> byte list \<times> varg list" where
  "printf_conv c args =
     (if c = of_char (CHR ''d'') then (case args of AInt x # as \<Rightarrow> (printint x 10 True, as) | _ \<Rightarrow> ([], args))
      else if c = of_char (CHR ''x'') then (case args of AInt x # as \<Rightarrow> (printint x 16 True, as) | _ \<Rightarrow> ([], args))
      else if c = of_char (CHR ''p'') then (case args of APtr x # as \<Rightarrow> (printptr x, as) | _ \<Rightarrow> ([], args))
      else if c = of_char (CHR ''s'') then
        (case args of AStr None # as \<Rightarrow> (ascii ''(null)'', as) | AStr (Some str) # as \<Rightarrow> (takeWhile (\<lambda>b. b \<noteq> 0) str, as)
         | _ \<Rightarrow> ([], args))
      else if c = of_char (CHR ''%'') then (ascii ''%'', args)
      else (ascii ''%'' @ [c], args))"

fun printf_bytes :: "byte list \<Rightarrow> varg list \<Rightarrow> byte list" where
  "printf_bytes [] args = []"
| "printf_bytes (c # fmt) args =
     (if c = 0 then []
      else if c \<noteq> of_char (CHR ''%'') then c # printf_bytes fmt args
      else case fmt of
             [] \<Rightarrow> []
           | c # fmt \<Rightarrow> if c = 0 then []
               else (case printf_conv c args of (out, args) \<Rightarrow> out @ printf_bytes fmt args))"

subsection \<open>Numbers read back\<close>

definition digit_val :: "byte \<Rightarrow> nat" where
  "digit_val b = (if unat b < 58 then unat b - 48 else unat b - 87)"

definition read_digits :: "nat \<Rightarrow> byte list \<Rightarrow> nat" where
  "read_digits base bs = foldl (\<lambda>n b. n * base + digit_val b) 0 bs"

definition read_int :: "nat \<Rightarrow> byte list \<Rightarrow> int" where
  "read_int base bs = (case bs of [] \<Rightarrow> 0 | b # bs' \<Rightarrow>
     if b = of_char (CHR ''-'') then - int (read_digits base bs') else int (read_digits base bs))"

lemma digits_facts: "\<forall>d \<in> set [0..<16]. digit_val (digits ! d) = d \<and> digits ! d \<noteq> of_char (CHR ''-'')"
  by code_simp

lemma digit_val_digits: "d < 16 \<Longrightarrow> digit_val (digits ! d) = d"
  and digits_not_minus: "d < 16 \<Longrightarrow> digits ! d \<noteq> of_char (CHR ''-'')"
  using digits_facts by simp_all

declare printint_digits.simps [simp del]

lemma printint_digits_value:
  assumes "2 \<le> base" and "base \<le> 16"
  shows "foldr (\<lambda>b n. n * base + digit_val b) (printint_digits base x) 0 = x"
proof (induction x rule: less_induct)
  case (less x)
  have m: "digit_val (digits ! (x mod base)) = x mod base"
    using assms mod_less_divisor [of base x] by (intro digit_val_digits) linarith
  show ?case
  proof (cases "x div base = 0")
    case True
    then show ?thesis using assms m by (subst printint_digits.simps) (simp add: div_eq_0_iff)
  next
    case False
    then have "x div base < x" using assms by (intro div_less_dividend) (auto intro: gr0I)
    with less False show ?thesis using assms m by (subst printint_digits.simps) simp
  qed
qed

lemma read_digits_rev: "read_digits base (rev bs) = foldr (\<lambda>b n. n * base + digit_val b) bs 0"
  by (simp add: read_digits_def foldl_conv_foldr)

lemma printint_digits_set: "2 \<le> base \<Longrightarrow> base \<le> 16 \<Longrightarrow> b \<in> set (printint_digits base x) \<Longrightarrow> \<exists>d < 16. b = digits ! d"
proof (induction x rule: less_induct)
  case (less x)
  have m: "x mod base < 16" using less.prems(1,2) mod_less_divisor [of base x] by linarith
  show ?case
  proof (cases "x div base = 0")
    case True
    then show ?thesis using less.prems(3) m by (subst (asm) printint_digits.simps) auto
  next
    case False
    then have "x div base < x" using less.prems(1) by (auto simp: div_greater_zero_iff)
    moreover have "b = digits ! (x mod base) \<or> b \<in> set (printint_digits base (x div base))"
      using less.prems False by (simp add: printint_digits.simps [of base x])
    ultimately show ?thesis using less.IH [OF _ less.prems(1,2)] m by blast
  qed
qed

lemma printint_digits_Cons: "printint_digits base x \<noteq> []"
  by (subst printint_digits.simps) simp

lemma sint_uint32: "sint (x :: 32 word) = uint x - (if bit x 31 then 2 ^ 32 else 0)"
  using uint_lt2p [of x]
  by (simp add: sint_uint signed_take_bit_eq_take_bit_minus bit_uint_iff take_bit_int_eq_self)

lemma uint_neg32: "sint (x :: 32 word) < 0 \<Longrightarrow> int (unat (- x)) = - sint x"
proof -
  assume neg: "sint x < 0"
  have b: "bit x 31" using neg by (auto simp: sint_uint32 split: if_splits)
  then have "uint x \<noteq> 0" by (metis bit_0_eq bot_apply bot_bool_def uint_0_iff)
  moreover have "uint x < 2 ^ 32" "0 \<le> uint x" using uint_lt2p [of x] by simp_all
  ultimately have "(- uint x) mod 2 ^ 32 = 2 ^ 32 - uint x"
    using zmod_minus1 by (simp add: zmod_zminus1_eq_if)
  then show ?thesis using b by (simp add: sint_uint32 uint_nat [symmetric] uint_word_ariths)
qed

text \<open>C37: the digits \<open>printf\<close> prints for \<open>%d\<close> and \<open>%x\<close> are those of the number. Read back in the
  same base, with the sign, they give the argument, for every int, INT_MIN included.\<close>

theorem printint_reads_back:
  assumes "base = 10 \<or> base = 16"
  shows "read_int base (printint x base True) = sint x"
proof -
  have base: "2 \<le> base" "base \<le> 16" using assms by auto
  let ?ds = "\<lambda>x. rev (printint_digits base x)"
  have val: "read_digits base (?ds n) = n" for n
    using printint_digits_value [OF base] by (simp add: read_digits_rev)
  have not_minus: "hd (?ds n) \<noteq> of_char (CHR ''-'')" "?ds n \<noteq> []" for n
    using printint_digits_set [OF base] digits_not_minus printint_digits_Cons [of base n]
    by (auto simp: hd_rev) (metis last_in_set)
  show ?thesis
  proof (cases "sint x < 0")
    case True
    then have "printint x base True = of_char (CHR ''-'') # ?ds (unat (- x))"
      by (simp add: printint_def ascii_def)
    then show ?thesis using val uint_neg32 [OF True] by (simp add: read_int_def)
  next
    case False
    then have "printint x base True = ?ds (unat x)" by (simp add: printint_def)
    moreover have "sint x = int (unat x)" using False by (auto simp: sint_uint32 split: if_splits) (use uint_lt2p [of x] in simp)
    ultimately show ?thesis using val [of "unat x"] not_minus [of "unat x"]
      by (cases "?ds (unat x)") (auto simp: read_int_def)
  qed
qed

theorem printint_reads_back_witness:
  "read_int 10 (printint 0x80000000 10 True) = - 2147483648"
  using printint_reads_back [of 10 "0x80000000"] by (simp add: sint_uint32 bit_simps)

end
