(* ===== verification/Kstring.thy ===== *)
theory Kstring
  imports Xv6_Prelude
begin

text \<open>
  The kernel's byte and string routines (src/kernel/string.c), over a byte-addressed memory:
  \<open>memset\<close>, \<open>memcmp\<close>, \<open>memmove\<close>, \<open>memcpy\<close>, \<open>strncmp\<close>, \<open>strncpy\<close>,
  \<open>safestrcpy\<close> and \<open>strlen\<close>, each written as the loop the C code runs. The lemmas give each
  routine its closed form: \<open>memmove\<close> copies the source as it was before the call also when
  the areas overlap, and \<open>safestrcpy\<close> leaves a terminated string.
\<close>

type_synonym memory = "addr \<Rightarrow> byte"

subsection \<open>The routines\<close>

text \<open>The loop \<open>for(i = 0; i < n; i++) cdst[i] = c;\<close>.\<close>

function memset_loop :: "memory \<Rightarrow> addr \<Rightarrow> byte \<Rightarrow> nat \<Rightarrow> nat \<Rightarrow> memory" where
  "memset_loop m cdst c i n =
     (if i < n then memset_loop (m(cdst + of_nat i := c)) cdst c (Suc i) n else m)"
  by pat_completeness auto
termination
  by (relation "measure (\<lambda>(m, cdst, c, i, n). n - i)") auto

definition memset :: "memory \<Rightarrow> addr \<Rightarrow> uint32 \<Rightarrow> uint32 \<Rightarrow> memory" where
  "memset m dst c n = memset_loop m dst (ucast c) 0 (unat n)"

text \<open>\<open>while(n-- > 0)\<close> over two pointers; the result is the difference of the first two
  bytes that differ, as \<open>uchar\<close> values.\<close>

fun memcmp :: "memory \<Rightarrow> addr \<Rightarrow> addr \<Rightarrow> nat \<Rightarrow> int" where
  "memcmp m s1 s2 0 = 0"
| "memcmp m s1 s2 (Suc n) =
     (if m s1 \<noteq> m s2 then int (unat (m s1)) - int (unat (m s2))
      else memcmp m (s1 + 1) (s2 + 1) n)"

text \<open>\<open>while(n-- > 0) *--d = *--s;\<close> and \<open>while(n-- > 0) *d++ = *s++;\<close>\<close>

fun memmove_down :: "memory \<Rightarrow> addr \<Rightarrow> addr \<Rightarrow> nat \<Rightarrow> memory" where
  "memmove_down m d s 0 = m"
| "memmove_down m d s (Suc n) = memmove_down (m(d - 1 := m (s - 1))) (d - 1) (s - 1) n"

fun memmove_up :: "memory \<Rightarrow> addr \<Rightarrow> addr \<Rightarrow> nat \<Rightarrow> memory" where
  "memmove_up m d s 0 = m"
| "memmove_up m d s (Suc n) = memmove_up (m(d := m s)) (d + 1) (s + 1) n"

definition memmove :: "memory \<Rightarrow> addr \<Rightarrow> addr \<Rightarrow> uint32 \<Rightarrow> memory" where
  "memmove m dst src n =
     (if n = 0 then m
      else if src < dst \<and> src + ucast n > dst
      then memmove_down m (dst + ucast n) (src + ucast n) (unat n)
      else memmove_up m dst src (unat n))"

definition memcpy :: "memory \<Rightarrow> addr \<Rightarrow> addr \<Rightarrow> uint32 \<Rightarrow> memory" where
  "memcpy m dst src n = memmove m dst src n"

text \<open>
  \<open>strncmp\<close> only reads, so it takes the two strings as the bytes its pointers see:
  \<open>p i\<close> is \<open>p[i]\<close>. \<open>ptr m a\<close> is the string at address \<open>a\<close> of a memory and
  \<open>arr xs\<close> a C array held as a list.
\<close>

definition ptr :: "memory \<Rightarrow> addr \<Rightarrow> nat \<Rightarrow> byte" where
  "ptr m a i = m (a + of_nat i)"

definition arr :: "byte list \<Rightarrow> nat \<Rightarrow> byte" where
  "arr xs i = (if i < length xs then xs ! i else 0)"

fun strncmp :: "(nat \<Rightarrow> byte) \<Rightarrow> (nat \<Rightarrow> byte) \<Rightarrow> nat \<Rightarrow> int" where
  "strncmp p q 0 = 0"
| "strncmp p q (Suc n) =
     (if p 0 \<noteq> 0 \<and> p 0 = q 0 then strncmp (\<lambda>i. p (Suc i)) (\<lambda>i. q (Suc i)) n
      else int (unat (p 0)) - int (unat (q 0)))"

text \<open>
  \<open>strncpy\<close>: the copying loop \<open>while(n-- > 0 && (*s++ = *t++) != 0)\<close> gives back \<open>s\<close>
  and \<open>n\<close> as it leaves them, and the padding loop \<open>while(n-- > 0) *s++ = 0\<close> goes on from there.
\<close>

function strncpy_copy :: "memory \<Rightarrow> addr \<Rightarrow> addr \<Rightarrow> int \<Rightarrow> memory \<times> addr \<times> int" where
  "strncpy_copy m s t n =
     (if n > 0
      then (let m' = m(s := m t)
            in if m t \<noteq> 0 then strncpy_copy m' (s + 1) (t + 1) (n - 1)
               else (m', s + 1, n - 1))
      else (m, s, n - 1))"
  by pat_completeness auto
termination
  by (relation "measure (\<lambda>(m, s, t, n). nat n)") auto

function strncpy_pad :: "memory \<Rightarrow> addr \<Rightarrow> int \<Rightarrow> memory" where
  "strncpy_pad m s n = (if n > 0 then strncpy_pad (m(s := 0)) (s + 1) (n - 1) else m)"
  by pat_completeness auto
termination
  by (relation "measure (\<lambda>(m, s, n). nat n)") auto

definition strncpy :: "memory \<Rightarrow> addr \<Rightarrow> addr \<Rightarrow> int \<Rightarrow> memory" where
  "strncpy m s t n = (case strncpy_copy m s t n of (m, s, n) \<Rightarrow> strncpy_pad m s n)"

text \<open>\<open>safestrcpy\<close>: the loop \<open>while(--n > 0 && (*s++ = *t++) != 0)\<close>, then \<open>*s = 0\<close>.\<close>

function safestrcpy_loop :: "memory \<Rightarrow> addr \<Rightarrow> addr \<Rightarrow> int \<Rightarrow> memory \<times> addr" where
  "safestrcpy_loop m s t n =
     (if n - 1 > 0
      then (let m' = m(s := m t)
            in if m t \<noteq> 0 then safestrcpy_loop m' (s + 1) (t + 1) (n - 1) else (m', s + 1))
      else (m, s))"
  by pat_completeness auto
termination
  by (relation "measure (\<lambda>(m, s, t, n). nat n)") auto

definition safestrcpy :: "memory \<Rightarrow> addr \<Rightarrow> addr \<Rightarrow> int \<Rightarrow> memory" where
  "safestrcpy m s t n =
     (if n \<le> 0 then m
      else case safestrcpy_loop m s t n of (m, s) \<Rightarrow> m(s := 0))"

text \<open>\<open>for(n = 0; s[n]; n++);\<close> has no bound of its own: \<open>None\<close> is a loop that finds no
  terminating byte.\<close>

partial_function (option) strlen_loop :: "(nat \<Rightarrow> byte) \<Rightarrow> nat \<Rightarrow> nat option" where
  "strlen_loop s n = (if s n = 0 then Some n else strlen_loop s (Suc n))"

definition strlen :: "(nat \<Rightarrow> byte) \<Rightarrow> nat option" where
  "strlen s = strlen_loop s 0"

declare memset_loop.simps [simp del]
declare strncpy_copy.simps [simp del]
declare strncpy_pad.simps [simp del]
declare safestrcpy_loop.simps [simp del]

subsection \<open>Areas of memory\<close>

text \<open>\<open>mem_write m a bs\<close> stores the bytes \<open>bs\<close> from address \<open>a\<close> on, \<open>mem_read m a n\<close>
  reads \<open>n\<close> bytes, \<open>in_area a n x\<close> says that \<open>x\<close> is one of the \<open>n\<close> addresses from
  \<open>a\<close> on (modulo the size of the address space).\<close>

definition mem_write :: "memory \<Rightarrow> addr \<Rightarrow> byte list \<Rightarrow> memory" where
  "mem_write m a bs = (\<lambda>x. if unat (x - a) < length bs then bs ! unat (x - a) else m x)"

definition mem_read :: "memory \<Rightarrow> addr \<Rightarrow> nat \<Rightarrow> byte list" where
  "mem_read m a n = map (\<lambda>i. m (a + of_nat i)) [0..<n]"

abbreviation in_area :: "addr \<Rightarrow> nat \<Rightarrow> addr \<Rightarrow> bool" where
  "in_area a n x \<equiv> unat (x - a) < n"

lemma length_mem_read [simp]: "length (mem_read m a n) = n"
  by (simp add: mem_read_def)

lemma mem_read_0 [simp]: "mem_read m a 0 = []"
  by (simp add: mem_read_def)

lemma nth_mem_read [simp]: "i < n \<Longrightarrow> mem_read m a n ! i = m (a + of_nat i)"
  by (simp add: mem_read_def)

lemma mem_write_Nil [simp]: "mem_write m a [] = m"
  by (simp add: mem_write_def)

lemma mem_write_other: "\<not> in_area a (length bs) x \<Longrightarrow> mem_write m a bs x = m x"
  by (simp add: mem_write_def)

lemma mem_write_nth:
  "i < length bs \<Longrightarrow> length bs \<le> 2 ^ 64 \<Longrightarrow> mem_write m a bs (a + of_nat i) = bs ! i"
  by (simp add: mem_write_def unat_of_nat take_bit_nat_eq_self)

lemma mem_read_write_same [simp]:
  "length bs \<le> 2 ^ 64 \<Longrightarrow> n = length bs \<Longrightarrow> mem_read (mem_write m a bs) a n = bs"
  by (rule nth_equalityI) (auto simp: mem_write_nth)

lemma mem_read_write_disjoint:
  "(\<And>i. i < n \<Longrightarrow> \<not> in_area a (length bs) (b + of_nat i)) \<Longrightarrow>
   mem_read (mem_write m a bs) b n = mem_read m b n"
  by (rule nth_equalityI) (auto simp: mem_write_other)

lemma mem_read_cong:
  "(\<And>i. i < n \<Longrightarrow> m (a + of_nat i) = m' (a + of_nat i)) \<Longrightarrow> mem_read m a n = mem_read m' a n"
  by (simp add: mem_read_def)

lemma unat_diff1: "x \<noteq> a \<Longrightarrow> unat (x - (a + 1)) = unat (x - a :: addr) - 1"
  using unat_minus_one [of "x - a"] by (simp add: algebra_simps)

lemma mem_write_Cons:
  assumes "length bs < 2 ^ 64"
  shows "mem_write m a (b # bs) = mem_write (m(a := b)) (a + 1) bs"
proof
  fix x
  show "mem_write m a (b # bs) x = mem_write (m(a := b)) (a + 1) bs x"
  proof (cases "x = a")
    case True
    have "unat (a - (a + 1)) = 2 ^ 64 - 1"
      by (simp add: unsigned_minus_1_eq_mask mask_eq_exp_minus_1)
    with True assms show ?thesis by (simp add: mem_write_def)
  next
    case False
    then have nz: "unat (x - a) \<noteq> 0" by (simp add: unat_eq_0)
    with False show ?thesis
      by (cases "unat (x - a)") (auto simp: mem_write_def unat_diff1)
  qed
qed

lemma mem_write_snoc:
  assumes "length bs < 2 ^ 64"
  shows "mem_write m a (bs @ [b]) = (mem_write m a bs)(a + of_nat (length bs) := b)"
proof
  fix x
  have "x = a + of_nat (length bs) \<longleftrightarrow> x - a = of_nat (length bs)"
    by (auto simp: algebra_simps)
  then have eq: "x = a + of_nat (length bs) \<longleftrightarrow> unat (x - a) = length bs"
    using assms by (simp add: word_unat_eq_iff [of "x - a"] unat_of_nat take_bit_nat_eq_self)
  show "mem_write m a (bs @ [b]) x = ((mem_write m a bs)(a + of_nat (length bs) := b)) x"
    by (cases "unat (x - a) = length bs")
      (auto simp: eq mem_write_def nth_append less_Suc_eq)
qed

lemma mem_read_Suc: "mem_read m s (Suc n) = m s # mem_read m (s + 1) n"
  by (rule nth_equalityI) (auto simp: nth_Cons add.assoc split: nat.splits)

lemma mem_read_snoc: "mem_read m s (Suc n) = mem_read m s n @ [m (s + of_nat n)]"
  by (simp add: mem_read_def)

lemma mem_read_upd_other:
  "(\<And>i. i < n \<Longrightarrow> s + of_nat i \<noteq> a) \<Longrightarrow> mem_read (m(a := v)) s n = mem_read m s n"
  by (rule mem_read_cong) simp

lemma mem_write_upd_other:
  "\<not> in_area d (length bs) a \<Longrightarrow> mem_write (m(a := v)) d bs = (mem_write m d bs)(a := v)"
  by (auto simp: mem_write_def fun_eq_iff)

lemma in_area_offset:
  "i < 2 ^ 64 \<Longrightarrow> n \<le> 2 ^ 64 \<Longrightarrow> in_area d n (d + of_nat i) \<longleftrightarrow> i < n"
  by (simp add: unat_of_nat take_bit_nat_eq_self)

subsection \<open>memset and memmove\<close>

lemma memset_loop_eq:
  assumes "n < 2 ^ 64" and "i \<le> n"
  shows "memset_loop m d c i n = mem_write m (d + of_nat i) (replicate (n - i) c)"
  using assms
proof (induction m d c i n rule: memset_loop.induct)
  case (1 m d c i n)
  show ?case
  proof (cases "i < n")
    case True
    then have "replicate (n - i) c = c # replicate (n - Suc i) c"
      by (metis Suc_diff_Suc replicate_Suc)
    moreover have "n - Suc i < 2 ^ 64" using "1.prems" by simp
    ultimately have "mem_write m (d + of_nat i) (replicate (n - i) c) =
        mem_write (m(d + of_nat i := c)) (d + of_nat (Suc i)) (replicate (n - Suc i) c)"
      by (simp add: mem_write_Cons algebra_simps)
    moreover have "memset_loop (m(d + of_nat i := c)) d c (Suc i) n =
        mem_write (m(d + of_nat i := c)) (d + of_nat (Suc i)) (replicate (n - Suc i) c)"
      using True "1.prems" by (intro "1.IH") simp_all
    ultimately show ?thesis using True by (simp only: memset_loop.simps [of m d c i n] if_True)
  next
    case False
    with "1.prems" have "i = n" by simp
    then show ?thesis by (simp add: memset_loop.simps [of m d c n n])
  qed
qed

lemma unat32_less64: "unat (n :: uint32) < 2 ^ 64"
  using unat_less32 [of n] by simp

lemma memset_eq: "memset m d c n = mem_write m d (replicate (unat n) (ucast c))"
  using unat32_less64 [of n] by (simp add: memset_def memset_loop_eq)

lemma memset_at: "memset m d c n x = (if in_area d (unat n) x then ucast c else m x)"
  by (simp add: memset_eq mem_write_def)

lemma memmove_up_eq:
  assumes "n < 2 ^ 64" and "\<And>i j. i < j \<Longrightarrow> j < n \<Longrightarrow> d + of_nat i \<noteq> s + of_nat j"
  shows "memmove_up m d s n = mem_write m d (mem_read m s n)"
  using assms
proof (induction n arbitrary: m d s)
  case 0
  then show ?case by simp
next
  case (Suc n)
  have "d + 1 + of_nat i \<noteq> s + 1 + of_nat j" if "i < j" "j < n" for i j
    using Suc.prems(2) [of "Suc i" "Suc j"] that by (simp add: algebra_simps)
  then have "memmove_up (m(d := m s)) (d + 1) (s + 1) n =
      mem_write (m(d := m s)) (d + 1) (mem_read (m(d := m s)) (s + 1) n)"
    using Suc.prems(1) by (intro Suc.IH) simp_all
  moreover have "mem_read (m(d := m s)) (s + 1) n = mem_read m (s + 1) n"
    by (rule mem_read_upd_other) (use Suc.prems(2) [of 0 "Suc _"] in \<open>force simp: algebra_simps\<close>)
  ultimately show ?case
    using Suc.prems(1) by (simp add: mem_read_Suc mem_write_Cons)
qed

lemma memmove_down_eq:
  assumes "n < 2 ^ 64" and "\<And>i j. j < i \<Longrightarrow> i < n \<Longrightarrow> d + of_nat i \<noteq> s + of_nat j"
  shows "memmove_down m (d + of_nat n) (s + of_nat n) n = mem_write m d (mem_read m s n)"
  using assms
proof (induction n arbitrary: m)
  case 0
  then show ?case by simp
next
  case (Suc n)
  let ?m = "m(d + of_nat n := m (s + of_nat n))"
  have "memmove_down m (d + of_nat (Suc n)) (s + of_nat (Suc n)) (Suc n) =
      memmove_down ?m (d + of_nat n) (s + of_nat n) n"
    by (simp add: algebra_simps)
  also have "\<dots> = mem_write ?m d (mem_read ?m s n)"
    using Suc.prems by (intro Suc.IH) simp_all
  also have "mem_read ?m s n = mem_read m s n"
    by (rule mem_read_upd_other) (use Suc.prems(2) [of _ n] in force)
  also have "mem_write ?m d (mem_read m s n) =
      (mem_write m d (mem_read m s n))(d + of_nat n := m (s + of_nat n))"
    using Suc.prems(1) by (intro mem_write_upd_other) simp
  also have "\<dots> = mem_write m d (mem_read m s (Suc n))"
    using Suc.prems(1) mem_write_snoc [of "mem_read m s n" m d] by (simp add: mem_read_snoc)
  finally show ?case .
qed

text \<open>Offsets of two areas that do not run over the end of the address space.\<close>

lemma offsets_ne:
  fixes d s :: addr
  assumes "unat d + i < 2 ^ 64" and "unat s + j < 2 ^ 64" and "unat d + i \<noteq> unat s + j"
  shows "d + of_nat i \<noteq> s + of_nat j"
proof -
  have "unat (d + of_nat i) = unat d + i" and "unat (s + of_nat j) = unat s + j"
    using assms by (simp_all add: unat_word_ariths unat_of_nat take_bit_nat_eq_self)
  with assms(3) show ?thesis by metis
qed

lemma memmove_eq:
  assumes "unat src + unat n < 2 ^ 64" and "unat dst + unat n < 2 ^ 64"
  shows "memmove m dst src n = mem_write m dst (mem_read m src (unat n))"
proof -
  have n: "unat n < 2 ^ 64" by (rule unat32_less64)
  have end_src: "unat (src + ucast n) = unat src + unat n"
    using assms by (simp add: unat_word_ariths)
  show ?thesis
  proof (cases "src < dst \<and> src + ucast n > dst")
    case True
    have "memmove m dst src n = memmove_down m (dst + of_nat (unat n)) (src + of_nat (unat n)) (unat n)"
      using True by (auto simp: memmove_def)
    also have "\<dots> = mem_write m dst (mem_read m src (unat n))"
      using True n assms by (intro memmove_down_eq offsets_ne) (auto simp: word_less_nat_alt)
    finally show ?thesis .
  next
    case False
    have sep: "unat dst \<le> unat src \<or> unat src + unat n \<le> unat dst"
      using False end_src by (auto simp: word_less_nat_alt)
    have "memmove m dst src n = memmove_up m dst src (unat n)"
      using False by (auto simp: memmove_def)
    also have "\<dots> = mem_write m dst (mem_read m src (unat n))"
      using sep n assms by (intro memmove_up_eq offsets_ne) auto
    finally show ?thesis .
  qed
qed

lemma memcmp_0_iff: "memcmp m a b n = 0 \<longleftrightarrow> mem_read m a n = mem_read m b n"
  by (induction m a b n rule: memcmp.induct) (auto simp: mem_read_Suc word_uint_eq_iff)

subsection \<open>Strings\<close>

text \<open>\<open>cstr s n\<close>: the bytes of the string \<open>s\<close> up to its terminating zero, at most \<open>n\<close>.\<close>

definition cstr :: "(nat \<Rightarrow> byte) \<Rightarrow> nat \<Rightarrow> byte list" where
  "cstr s n = takeWhile (\<lambda>b. b \<noteq> 0) (map s [0..<n])"

lemma cstr_0 [simp]: "cstr s 0 = []"
  by (simp add: cstr_def)

lemma cstr_Suc: "cstr s (Suc n) = (if s 0 = 0 then [] else s 0 # cstr (\<lambda>i. s (Suc i)) n)"
  by (simp add: cstr_def map_upt_Suc del: upt_Suc)

lemma length_cstr_le: "length (cstr s n) \<le> n"
  using length_takeWhile_le [of "\<lambda>b. b \<noteq> 0" "map s [0..<n]"] by (simp add: cstr_def)

lemma cstr_cong: "(\<And>i. i < n \<Longrightarrow> s i = t i) \<Longrightarrow> cstr s n = cstr t n"
proof -
  assume "\<And>i. i < n \<Longrightarrow> s i = t i"
  then have "map s [0..<n] = map t [0..<n]" by simp
  then show ?thesis by (simp only: cstr_def)
qed

lemma cstr_nonzero: "b \<in> set (cstr s n) \<Longrightarrow> b \<noteq> 0"
  by (auto simp: cstr_def dest: set_takeWhileD)

lemma strncmp_0_iff: "strncmp p q n = 0 \<longleftrightarrow> cstr p n = cstr q n"
  by (induction p q n rule: strncmp.induct) (auto simp: cstr_Suc word_uint_eq_iff)

lemma strlen_loop_first_zero:
  "s (n + k) = 0 \<Longrightarrow> (\<And>j. j < k \<Longrightarrow> s (n + j) \<noteq> 0) \<Longrightarrow> strlen_loop s n = Some (n + k)"
proof (induction k arbitrary: n)
  case 0
  then show ?case by (simp add: strlen_loop.simps)
next
  case (Suc k)
  have "s n \<noteq> 0" using Suc.prems(2) [of 0] by simp
  moreover have "strlen_loop s (Suc n) = Some (Suc n + k)"
    using Suc.prems(1) Suc.prems(2) [of "Suc _"] by (intro Suc.IH) auto
  ultimately show ?case by (simp add: strlen_loop.simps [of s n])
qed

lemma strlen_first_zero: "s k = 0 \<Longrightarrow> (\<And>j. j < k \<Longrightarrow> s j \<noteq> 0) \<Longrightarrow> strlen s = Some k"
  using strlen_loop_first_zero [of s 0 k] by (simp add: strlen_def)

lemma ptr_Suc: "(\<lambda>i. ptr m t (Suc i)) = ptr m (t + 1)"
  by (auto simp: ptr_def algebra_simps)

lemma ptr_0 [simp]: "ptr m t 0 = m t"
  by (simp add: ptr_def)

text \<open>The bytes \<open>strncpy\<close> stores: the string, then zeros up to \<open>n\<close> bytes.\<close>

definition strncpy_bytes :: "nat \<Rightarrow> (nat \<Rightarrow> byte) \<Rightarrow> byte list" where
  "strncpy_bytes n s = cstr s n @ replicate (n - length (cstr s n)) 0"

lemma length_strncpy_bytes [simp]: "length (strncpy_bytes n s) = n"
  using length_cstr_le [of s n] by (simp add: strncpy_bytes_def)

lemma strncpy_bytes_Suc:
  "strncpy_bytes (Suc n) s =
     (if s 0 = 0 then replicate (Suc n) 0 else s 0 # strncpy_bytes n (\<lambda>i. s (Suc i)))"
  by (simp add: strncpy_bytes_def cstr_Suc)

lemma strncpy_bytes_cong: "cstr s n = cstr t n \<Longrightarrow> strncpy_bytes n s = strncpy_bytes n t"
  by (simp add: strncpy_bytes_def)

lemma strncpy_pad_eq:
  "n < 2 ^ 64 \<Longrightarrow> strncpy_pad m s (int n) = mem_write m s (replicate n 0)"
proof (induction n arbitrary: m s)
  case 0
  then show ?case by (simp add: strncpy_pad.simps)
next
  case (Suc n)
  then show ?case
    by (subst strncpy_pad.simps) (simp add: mem_write_Cons)
qed

lemma strncpy_Suc:
  "strncpy m s t (int (Suc n)) =
     (if m t = 0 then strncpy_pad (m(s := 0)) (s + 1) (int n)
      else strncpy (m(s := m t)) (s + 1) (t + 1) (int n))"
  by (simp add: strncpy_def strncpy_copy.simps [of m s t "1 + int n"] Let_def)

lemma strncpy_eq:
  assumes "n < 2 ^ 64" and "\<And>i j. i < n \<Longrightarrow> j < n \<Longrightarrow> s + of_nat i \<noteq> t + of_nat j"
  shows "strncpy m s t (int n) = mem_write m s (strncpy_bytes n (ptr m t))"
  using assms
proof (induction n arbitrary: m s t)
  case 0
  then show ?case
    by (simp add: strncpy_def strncpy_copy.simps strncpy_pad.simps strncpy_bytes_def)
next
  case (Suc n)
  have cstr_eq: "cstr (ptr (m(s := m t)) (t + 1)) n = cstr (ptr m (t + 1)) n"
  proof (rule cstr_cong)
    fix i assume "i < n"
    then show "ptr (m(s := m t)) (t + 1) i = ptr m (t + 1) i"
      using Suc.prems(2) [of 0 "Suc i"] by (simp add: ptr_def algebra_simps)
  qed
  show ?case
  proof (cases "m t = 0")
    case True
    with Suc.prems(1) show ?thesis
      by (simp only: strncpy_Suc if_True strncpy_pad_eq)
        (simp add: strncpy_bytes_Suc mem_write_Cons strncpy_pad_eq)
  next
    case False
    have "strncpy (m(s := m t)) (s + 1) (t + 1) (int n) =
        mem_write (m(s := m t)) (s + 1) (strncpy_bytes n (ptr (m(s := m t)) (t + 1)))"
    proof (rule Suc.IH)
      show "n < 2 ^ 64" using Suc.prems(1) by simp
      fix i j assume "i < n" "j < n"
      then show "s + 1 + of_nat i \<noteq> t + 1 + of_nat j"
        using Suc.prems(2) [of "Suc i" "Suc j"] by (simp add: algebra_simps)
    qed
    with False Suc.prems(1) show ?thesis
      by (simp only: strncpy_Suc if_False)
        (simp add: strncpy_bytes_cong [OF cstr_eq] strncpy_bytes_Suc ptr_Suc mem_write_Cons)
  qed
qed

text \<open>
  The bytes \<open>safestrcpy\<close> stores. When the source ends early its zero is copied and one more
  zero follows it; otherwise the last of the \<open>n\<close> bytes is the zero.
\<close>

definition safestrcpy_bytes :: "nat \<Rightarrow> (nat \<Rightarrow> byte) \<Rightarrow> byte list" where
  "safestrcpy_bytes n s =
     cstr s (n - 1) @ (if length (cstr s (n - 1)) < n - 1 then [0, 0] else [0])"

lemma length_safestrcpy_bytes: "0 < n \<Longrightarrow> length (safestrcpy_bytes n s) \<le> n"
  using length_cstr_le [of s "n - 1"] by (auto simp: safestrcpy_bytes_def)

lemma safestrcpy_Suc:
  "safestrcpy m s t (int (Suc (Suc n))) =
     (if m t = 0 then m(s := 0, s + 1 := 0)
      else safestrcpy (m(s := m t)) (s + 1) (t + 1) (int (Suc n)))"
  by (simp add: safestrcpy_def safestrcpy_loop.simps [of m s t "2 + int n"] Let_def)

lemma safestrcpy_eq:
  assumes "n < 2 ^ 64" and "0 < n"
    and "\<And>i j. i < n \<Longrightarrow> j < n \<Longrightarrow> s + of_nat i \<noteq> t + of_nat j"
  shows "safestrcpy m s t (int n) = mem_write m s (safestrcpy_bytes n (ptr m t))"
proof -
  have "n < 2 ^ 64 - 1 \<Longrightarrow> (\<And>i j. i < Suc n \<Longrightarrow> j < Suc n \<Longrightarrow> s + of_nat i \<noteq> t + of_nat j) \<Longrightarrow>
    safestrcpy m s t (int (Suc n)) = mem_write m s (safestrcpy_bytes (Suc n) (ptr m t))" for n
  proof (induction n arbitrary: m s t)
    case 0
    then show ?case
      by (simp add: safestrcpy_def safestrcpy_loop.simps safestrcpy_bytes_def mem_write_Cons)
  next
    case (Suc n)
    have cstr_eq: "cstr (ptr (m(s := m t)) (t + 1)) n = cstr (ptr m (t + 1)) n"
    proof (rule cstr_cong)
      fix i assume "i < n"
      then show "ptr (m(s := m t)) (t + 1) i = ptr m (t + 1) i"
        using Suc.prems(2) [of 0 "Suc i"] by (simp add: ptr_def algebra_simps)
    qed
    show ?case
    proof (cases "m t = 0")
      case True
      then show ?thesis
        by (simp only: safestrcpy_Suc if_True)
          (simp add: safestrcpy_bytes_def cstr_Suc mem_write_Cons)
    next
      case False
      have "safestrcpy (m(s := m t)) (s + 1) (t + 1) (int (Suc n)) =
          mem_write (m(s := m t)) (s + 1)
            (safestrcpy_bytes (Suc n) (ptr (m(s := m t)) (t + 1)))"
      proof (rule Suc.IH)
        show "n < 2 ^ 64 - 1" using Suc.prems(1) by simp
        fix i j assume "i < Suc n" "j < Suc n"
        then show "s + 1 + of_nat i \<noteq> t + 1 + of_nat j"
          using Suc.prems(2) [of "Suc i" "Suc j"] by (simp add: algebra_simps)
      qed
      moreover have "safestrcpy_bytes (Suc n) (ptr (m(s := m t)) (t + 1)) =
          safestrcpy_bytes (Suc n) (ptr m (t + 1))"
        by (simp add: safestrcpy_bytes_def cstr_eq)
      moreover have "safestrcpy_bytes (Suc (Suc n)) (ptr m t) =
          m t # safestrcpy_bytes (Suc n) (ptr m (t + 1))"
        using False by (simp add: safestrcpy_bytes_def cstr_Suc ptr_Suc)
      moreover have "length (safestrcpy_bytes (Suc n) (ptr m (t + 1))) < 2 ^ 64"
        using length_safestrcpy_bytes [of "Suc n" "ptr m (t + 1)"] Suc.prems(1) by simp
      ultimately show ?thesis
        using False by (simp only: safestrcpy_Suc if_False) (simp add: mem_write_Cons)
    qed
  qed
  from this [of "n - 1"] assms show ?thesis by simp
qed

lemma cstr_append_zero:
  "(\<And>b. b \<in> set xs \<Longrightarrow> b \<noteq> 0) \<Longrightarrow> length xs < n \<Longrightarrow> (\<And>i. i < length xs \<Longrightarrow> s i = xs ! i) \<Longrightarrow>
   s (length xs) = 0 \<Longrightarrow> cstr s n = xs"
proof (induction xs arbitrary: s n)
  case Nil
  then show ?case by (cases n) (auto simp: cstr_Suc)
next
  case (Cons x xs)
  then obtain k where n: "n = Suc k" by (cases n) auto
  have "s 0 = x" using Cons.prems(3) [of 0] by simp
  moreover have "x \<noteq> 0" using Cons.prems(1) by simp
  moreover have "cstr (\<lambda>i. s (Suc i)) k = xs"
    using Cons.prems(1,2) Cons.prems(3) [of "Suc _"] Cons.prems(4) n by (intro Cons.IH) auto
  ultimately show ?case using n by (simp add: cstr_Suc)
qed

subsection \<open>Pointers and page-table entries in memory\<close>

text \<open>A 64-bit load and store at a byte address, as C does them on this little-endian machine.\<close>

definition load64 :: "memory \<Rightarrow> addr \<Rightarrow> uint64" where
  "load64 m a = le_word (mem_read m a 8)"

definition store64 :: "memory \<Rightarrow> addr \<Rightarrow> uint64 \<Rightarrow> memory" where
  "store64 m a v = mem_write m a (le_bytes 8 v)"

lemma load64_store64 [simp]: "load64 (store64 m a v) a = v"
  by (simp add: load64_def store64_def)

lemma load64_cong: "(\<And>i. i < 8 \<Longrightarrow> m (a + of_nat i) = m' (a + of_nat i)) \<Longrightarrow> load64 m a = load64 m' a"
  unfolding load64_def by (subst mem_read_cong) auto

lemma store64_other: "\<not> in_area a 8 x \<Longrightarrow> store64 m a v x = m x"
  by (simp add: store64_def mem_write_other)

lemma load64_zeroed: "(\<And>i. i < 8 \<Longrightarrow> m (a + of_nat i) = 0) \<Longrightarrow> load64 m a = 0"
proof -
  assume "\<And>i. i < 8 \<Longrightarrow> m (a + of_nat i) = 0"
  then have "mem_read m a 8 = replicate 8 0"
    by (intro nth_equalityI) auto
  then show ?thesis by (simp only: load64_def le_word_replicate0)
qed

text \<open>C27: memmove copies \<open>n\<close> bytes as they were before the call, whether or not the two
  areas overlap, and changes nothing else, for areas that end inside the address space.\<close>

theorem memmove_correct:
  assumes "unat src + unat n < 2 ^ 64" and "unat dst + unat n < 2 ^ 64"
  shows "memmove m dst src n x =
    (if unat (x - dst) < unat n then m (src + (x - dst)) else m x)"
proof (cases "in_area dst (unat n) x")
  case True
  then show ?thesis
    using memmove_eq [OF assms, of m] by (simp add: mem_write_def)
next
  case False
  then show ?thesis
    using memmove_eq [OF assms, of m] by (simp add: mem_write_def)
qed

text \<open>The overlapping case that copies downwards: four bytes moved up by two.\<close>

theorem memmove_correct_witness:
  "memmove (\<lambda>a. ucast a) 102 100 4 105 = 103 \<and> memmove (\<lambda>a. ucast a) 102 100 4 106 = 106"
  using memmove_correct [of 100 4 102 "\<lambda>a. ucast a" 105]
    memmove_correct [of 100 4 102 "\<lambda>a. ucast a" 106] by simp

text \<open>\<open>safestrcpy\<close> with room for \<open>n > 0\<close> bytes leaves a terminated string: the source up
  to \<open>n - 1\<close> bytes; it writes only inside the \<open>n\<close> bytes of the destination.\<close>

lemma safestrcpy_terminates_string:
  assumes "0 < n" and "n < 2 ^ 64"
    and "\<forall>i < n. \<forall>j < n. s + of_nat i \<noteq> t + of_nat j"
  shows "cstr (ptr (safestrcpy m s t (int n)) s) n = cstr (ptr m t) (n - 1)
    \<and> (\<forall>x. n \<le> unat (x - s) \<longrightarrow> safestrcpy m s t (int n) x = m x)"
proof -
  let ?bs = "safestrcpy_bytes n (ptr m t)"
  have eq: "safestrcpy m s t (int n) = mem_write m s ?bs"
    using assms by (intro safestrcpy_eq) auto
  have len: "length ?bs \<le> n"
    using assms(1) by (rule length_safestrcpy_bytes)
  have nth: "ptr (mem_write m s ?bs) s i = ?bs ! i" if "i < length ?bs" for i
    using that len assms(2) by (simp add: ptr_def mem_write_nth)
  have "cstr (ptr (mem_write m s ?bs) s) n = cstr (ptr m t) (n - 1)"
  proof (rule cstr_append_zero)
    show "length (cstr (ptr m t) (n - 1)) < n"
      using length_cstr_le [of "ptr m t" "n - 1"] assms(1) by simp
    show "ptr (mem_write m s ?bs) s (length (cstr (ptr m t) (n - 1))) = 0"
      by (subst nth) (auto simp: safestrcpy_bytes_def nth_append)
    fix i assume "i < length (cstr (ptr m t) (n - 1))"
    then show "ptr (mem_write m s ?bs) s i = cstr (ptr m t) (n - 1) ! i"
      by (subst nth) (auto simp: safestrcpy_bytes_def nth_append)
  qed (rule cstr_nonzero)
  moreover have "\<forall>x. n \<le> unat (x - s) \<longrightarrow> mem_write m s ?bs x = m x"
    using len by (auto simp: mem_write_def)
  ultimately show ?thesis by (simp only: eq)
qed

end
