(* ===== verification/Spinlock.thy ===== *)
theory Spinlock
  imports Kstring
begin

text \<open>
  The machine state all kernel components share (memory, the CPUs of src/kernel/proc.h, the
  spin locks) and src/kernel/spinlock.c. An operation runs on the CPU whose number is in
  register \<open>tp\<close>. The first part models \<open>push_off\<close>, \<open>pop_off\<close>, \<open>acquire\<close>,
  \<open>release\<close> and \<open>holding\<close> as this CPU executes them; the second part splits
  \<open>acquire\<close> and \<open>release\<close> at their atomic instructions and runs any number of CPUs
  interleaved, for mutual exclusion.
\<close>

subsection \<open>State\<close>

record spinlock =
  lk_locked :: uint32
  lk_name :: string
  lk_cpu :: "nat option"

text \<open>\<open>c_intr\<close> is the interrupt-enable bit of \<open>sstatus\<close> of that CPU.\<close>

record cpu =
  c_proc :: "nat option"
  c_noff :: int
  c_intena :: bool
  c_intr :: bool

text \<open>The sleep locks of the kernel (one per buffer and per inode table entry) and its spin
  locks; every sleep lock holds a spin lock of its own.\<close>

datatype sleepid = BufSleep nat | InodeSleep nat

datatype lock = KmemLock | BcacheLock | ItableLock | LogLock | FtableLock | PidLock
  | WaitLock | TicksLock | ConsLock | UartLock | PrLock | VdiskLock
  | ProcLock nat | PipeLock addr | SleepSpin sleepid

text \<open>\<open>kend\<close>, \<open>etext\<close> and \<open>trampoline\<close> are the symbols the linker script defines.\<close>

record machine =
  mem :: memory
  kend :: addr
  etext :: addr
  trampoline :: addr
  cpus :: "nat \<Rightarrow> cpu"
  tp :: nat
  locks :: "lock \<Rightarrow> spinlock"

definition mycpu :: "('z) machine_scheme \<Rightarrow> cpu" where
  "mycpu s = cpus s (tp s)"

definition set_mycpu :: "cpu \<Rightarrow> ('z) machine_scheme \<Rightarrow> ('z) machine_scheme" where
  "set_mycpu c s = s\<lparr>cpus := (cpus s)(tp s := c)\<rparr>"

definition intr_get :: "('z) machine_scheme \<Rightarrow> bool" where
  "intr_get s = c_intr (mycpu s)"

definition intr_off :: "('z) machine_scheme \<Rightarrow> ('z) machine_scheme" where
  "intr_off s = set_mycpu ((mycpu s)\<lparr>c_intr := False\<rparr>) s"

definition intr_on :: "('z) machine_scheme \<Rightarrow> ('z) machine_scheme" where
  "intr_on s = set_mycpu ((mycpu s)\<lparr>c_intr := True\<rparr>) s"

subsection \<open>Operations\<close>

definition initlock :: "lock \<Rightarrow> string \<Rightarrow> ('z) machine_scheme \<Rightarrow> ('z) machine_scheme" where
  "initlock lk nm s =
     s\<lparr>locks := (locks s)(lk := \<lparr>lk_locked = 0, lk_name = nm, lk_cpu = None\<rparr>)\<rparr>"

definition push_off :: "('z) machine_scheme \<Rightarrow> ('z) machine_scheme" where
  "push_off s =
     (let old = intr_get s;
          s = intr_off s;
          s = (if c_noff (mycpu s) = 0 then set_mycpu ((mycpu s)\<lparr>c_intena := old\<rparr>) s else s)
      in set_mycpu ((mycpu s)\<lparr>c_noff := c_noff (mycpu s) + 1\<rparr>) s)"

definition pop_off :: "('z) machine_scheme \<Rightarrow> ('z machine_scheme, 'z machine_scheme) res" where
  "pop_off s =
     (if intr_get s then Panic ''pop_off - interruptible''
      else if c_noff (mycpu s) < 1 then Panic ''pop_off''
      else (let s = set_mycpu ((mycpu s)\<lparr>c_noff := c_noff (mycpu s) - 1\<rparr>) s
            in if c_noff (mycpu s) = 0 \<and> c_intena (mycpu s) then Ok (intr_on s) else Ok s))"

definition holding :: "lock \<Rightarrow> ('z) machine_scheme \<Rightarrow> bool" where
  "holding lk s = (lk_locked (locks s lk) \<noteq> 0 \<and> lk_cpu (locks s lk) = Some (tp s))"

text \<open>
  While another CPU holds the lock the test-and-set of \<open>acquire\<close> keeps failing, and nothing
  this CPU does lets it go on: \<open>Spin\<close>.
\<close>

definition acquire :: "lock \<Rightarrow> ('z) machine_scheme \<Rightarrow> ('z machine_scheme, 'z machine_scheme) res" where
  "acquire lk s =
     (let s = push_off s
      in if holding lk s then Panic ''acquire''
         else if lk_locked (locks s lk) \<noteq> 0 then Spin
         else Ok (s\<lparr>locks := (locks s)(lk := (locks s lk)\<lparr>lk_locked := 1, lk_cpu := Some (tp s)\<rparr>)\<rparr>))"

definition release :: "lock \<Rightarrow> ('z) machine_scheme \<Rightarrow> ('z machine_scheme, 'z machine_scheme) res" where
  "release lk s =
     (if \<not> holding lk s then Panic ''release''
      else pop_off (s\<lparr>locks := (locks s)(lk := (locks s lk)\<lparr>lk_cpu := None, lk_locked := 0\<rparr>)\<rparr>))"

subsection \<open>A lock that is free, a CPU between critical sections\<close>

definition unheld :: "lock \<Rightarrow> ('z) machine_scheme \<Rightarrow> bool" where
  "unheld lk s \<longleftrightarrow> lk_locked (locks s lk) = 0 \<and> lk_cpu (locks s lk) = None"

text \<open>
  The bookkeeping of \<open>push_off\<close> is consistent: inside a critical section interrupts are off;
  outside one, \<open>intena\<close> is what interrupts are.
\<close>

definition quiet :: "('z) machine_scheme \<Rightarrow> bool" where
  "quiet s \<longleftrightarrow> 0 \<le> c_noff (mycpu s)
     \<and> (0 < c_noff (mycpu s) \<longrightarrow> \<not> c_intr (mycpu s))
     \<and> (c_noff (mycpu s) = 0 \<longrightarrow> c_intena (mycpu s) = c_intr (mycpu s))"

definition acquired :: "lock \<Rightarrow> ('z) machine_scheme \<Rightarrow> ('z) machine_scheme" where
  "acquired lk s = (push_off s)
     \<lparr>locks := (locks s)(lk := (locks s lk)\<lparr>lk_locked := 1, lk_cpu := Some (tp s)\<rparr>)\<rparr>"

lemma machine_frame_set_mycpu [simp]:
  "mem (set_mycpu c s) = mem s" "kend (set_mycpu c s) = kend s"
  "etext (set_mycpu c s) = etext s" "trampoline (set_mycpu c s) = trampoline s"
  "tp (set_mycpu c s) = tp s" "locks (set_mycpu c s) = locks s"
  "mycpu (set_mycpu c s) = c" "machine.more (set_mycpu c s) = machine.more s"
  by (simp_all add: set_mycpu_def mycpu_def)

lemma push_off_eq:
  "push_off s = s\<lparr>cpus := (cpus s)(tp s := (mycpu s)
     \<lparr>c_intr := False,
      c_intena := (if c_noff (mycpu s) = 0 then c_intr (mycpu s) else c_intena (mycpu s)),
      c_noff := c_noff (mycpu s) + 1\<rparr>)\<rparr>"
  by (simp add: push_off_def intr_off_def intr_get_def set_mycpu_def mycpu_def Let_def)

definition cpu_off :: "(nat \<Rightarrow> cpu) \<Rightarrow> nat \<Rightarrow> nat \<Rightarrow> cpu" where
  "cpu_off cs h = cs(h := (cs h)
     \<lparr>c_intr := False, c_intena := (if c_noff (cs h) = 0 then c_intr (cs h) else c_intena (cs h)), c_noff := c_noff (cs h) + 1\<rparr>)"

lemma acquired_upd:
  "acquired lk s = s\<lparr>cpus := cpu_off (cpus s) (tp s),
     locks := (locks s)(lk := (locks s lk)\<lparr>lk_locked := 1, lk_cpu := Some (tp s)\<rparr>)\<rparr>"
  by (simp add: acquired_def push_off_eq cpu_off_def mycpu_def)

lemma machine_frame_push_off [simp]:
  "mem (push_off s) = mem s" "kend (push_off s) = kend s"
  "etext (push_off s) = etext s" "trampoline (push_off s) = trampoline s"
  "tp (push_off s) = tp s" "locks (push_off s) = locks s"
  "machine.more (push_off s) = machine.more s"
  by (simp_all add: push_off_eq)

lemma holding_push_off [simp]: "holding lk (push_off s) = holding lk s"
  by (simp add: holding_def)

lemma unheld_not_holding: "unheld lk s \<Longrightarrow> \<not> holding lk s"
  by (simp add: unheld_def holding_def)

lemma acquire_unheld [simp]: "unheld lk s \<Longrightarrow> acquire lk s = Ok (acquired lk s)"
  by (simp add: acquire_def Let_def holding_def unheld_def acquired_def)

lemma pop_off_push_off_cpu:
  assumes "quiet s" and "cpus t = cpus (push_off s)" and "tp t = tp s"
  shows "pop_off t = Ok (t\<lparr>cpus := cpus s\<rparr>)"
  using assms
  by (auto simp: pop_off_def quiet_def intr_get_def intr_on_def mycpu_def set_mycpu_def
      push_off_eq Let_def fun_upd_idem_iff)

text \<open>
  The pairing law of the lock: when the code between \<open>acquire\<close> and \<open>release\<close> leaves the
  CPU and the lock alone, \<open>release\<close> succeeds and puts both back as they were.
\<close>

lemma release_acquired:
  assumes "unheld lk s" and "quiet s"
    and "locks t = locks (acquired lk s)" and "cpus t = cpus (acquired lk s)" and "tp t = tp s"
  shows "release lk t = Ok (t\<lparr>locks := locks s, cpus := cpus s\<rparr>)"
proof -
  have hold: "holding lk t"
    using assms(3,5) by (simp add: holding_def acquired_def)
  have restored: "(locks t)(lk := (locks t lk)\<lparr>lk_cpu := None, lk_locked := 0\<rparr>) = locks s"
    using assms(1,3) by (auto simp: unheld_def acquired_def fun_eq_iff)
  have "pop_off (t\<lparr>locks := locks s\<rparr>) = Ok ((t\<lparr>locks := locks s\<rparr>)\<lparr>cpus := cpus s\<rparr>)"
    using assms(2,4,5) by (intro pop_off_push_off_cpu) (simp_all add: acquired_def)
  with hold restored show ?thesis by (simp add: release_def)
qed

lemma quiet_acquired [simp]: "quiet s \<Longrightarrow> quiet (acquired lk s)"
  by (auto simp: quiet_def acquired_def push_off_eq mycpu_def)

lemma unheld_acquired [simp]: "lk' \<noteq> lk \<Longrightarrow> unheld lk' (acquired lk s) = unheld lk' s"
  by (simp add: unheld_def acquired_def)

lemma machine_frame_acquired [simp]:
  "mem (acquired lk s) = mem s" "kend (acquired lk s) = kend s"
  "etext (acquired lk s) = etext s" "trampoline (acquired lk s) = trampoline s"
  "tp (acquired lk s) = tp s" "machine.more (acquired lk s) = machine.more s"
  by (simp_all add: acquired_def push_off_eq)

lemma holding_acquired [simp]: "holding lk (acquired lk s)"
  by (simp add: holding_def acquired_def)

lemma quiet_cong:
  "cpus s = cpus t \<Longrightarrow> tp s = tp t \<Longrightarrow> quiet s = quiet t"
  by (simp add: quiet_def mycpu_def)

lemma unheld_cong: "locks s lk = locks t lk \<Longrightarrow> unheld lk s = unheld lk t"
  by (simp add: unheld_def)

lemma cpus_update_idem [simp]: "c = cpus t \<Longrightarrow> t\<lparr>cpus := c\<rparr> = (t :: 'z machine_scheme)"
  by (cases t) simp

lemma locks_update_idem [simp]: "l = locks t \<Longrightarrow> t\<lparr>locks := l\<rparr> = (t :: 'z machine_scheme)"
  by (cases t) simp

lemma unheld_mem_update [simp]: "unheld lk (s\<lparr>mem := m\<rparr>) = unheld lk s"
  by (simp add: unheld_def)

lemma quiet_mem_update [simp]: "quiet (s\<lparr>mem := m\<rparr>) = quiet s"
  by (simp add: quiet_def mycpu_def)

text \<open>
  The shape in which the components use the pairing law. An update of any other field inside a
  critical section is the same update before it (\<open>lock_simps\<close>), so a critical section
  collapses to its body by rewriting.
\<close>

lemma release_acquired_same [lock_simps]:
  assumes "unheld lk s" and "quiet s"
  shows "release lk (acquired lk s) = Ok s"
proof -
  have "release lk (acquired lk s) = Ok ((acquired lk s)\<lparr>locks := locks s, cpus := cpus s\<rparr>)"
    by (rule release_acquired [OF assms]) simp_all
  then show ?thesis by (simp add: acquired_def push_off_eq)
qed

definition curproc :: "('z) machine_scheme \<Rightarrow> nat option" where
  "curproc s = c_proc (mycpu s)"

lemma curproc_acquired [lock_simps]: "curproc (acquired lk s) = curproc s"
  by (simp add: curproc_def acquired_def push_off_eq mycpu_def)

lemma machine_lock_simps [lock_simps]:
  "(acquired lk s)\<lparr>mem := m\<rparr> = acquired lk (s\<lparr>mem := m\<rparr>)"
  "unheld lk (s\<lparr>mem := m\<rparr>) = unheld lk s"
  "quiet (s\<lparr>mem := m\<rparr>) = quiet s"
  "curproc (s\<lparr>mem := m\<rparr>) = curproc s"
  by (simp_all add: acquired_def push_off_eq mycpu_def curproc_def)

text \<open>Two locks can be taken in either order, so they need not be released in reverse order.\<close>

lemma acquired_commute:
  assumes "quiet s" and "lk \<noteq> lk'"
  shows "acquired lk (acquired lk' s) = acquired lk' (acquired lk s)"
proof -
  have "0 \<le> c_noff (mycpu s)" using assms(1) by (simp add: quiet_def)
  then show ?thesis
    using assms(2) by (simp add: acquired_def push_off_eq mycpu_def fun_upd_twist)
qed

lemma release_acquired_inner:
  assumes "quiet s" and "lk \<noteq> lk'" and "unheld lk s"
  shows "release lk (acquired lk' (acquired lk s)) = Ok (acquired lk' s)"
proof -
  have "release lk (acquired lk (acquired lk' s)) = Ok (acquired lk' s)"
    using assms by (intro release_acquired_same) simp_all
  then show ?thesis by (simp only: acquired_commute [OF assms(1,2)])
qed

declare acquire_unheld [lock_simps] quiet_acquired [lock_simps] unheld_acquired [lock_simps]

subsection \<open>Many CPUs and one lock\<close>

text \<open>
  Where a CPU stands with respect to the lock: outside, spinning in the test-and-set loop of
  \<open>acquire\<close>, past the successful swap but before \<open>lk->cpu = mycpu()\<close>, in its critical
  section, or in \<open>release\<close> after \<open>lk->cpu = 0\<close> and before the store that frees the lock.
\<close>

datatype lkpc = Outside | Spinning | Swapped | Inside | Cleared

definition on_cpu :: "nat \<Rightarrow> machine \<Rightarrow> machine" where
  "on_cpu i m = m\<lparr>tp := i\<rparr>"

text \<open>The atomic swap of \<open>acquire\<close>: the old value of \<open>locked\<close>, which becomes 1.\<close>

definition test_and_set :: "lock \<Rightarrow> ('z) machine_scheme \<Rightarrow> uint32 \<times> ('z) machine_scheme" where
  "test_and_set lk s = (lk_locked (locks s lk),
     s\<lparr>locks := (locks s)(lk := (locks s lk)\<lparr>lk_locked := 1\<rparr>)\<rparr>)"

inductive lock_step :: "lock \<Rightarrow> machine \<times> (nat \<Rightarrow> lkpc) \<Rightarrow> machine \<times> (nat \<Rightarrow> lkpc) \<Rightarrow> bool"
  for lk where
  enter: "pc i = Outside \<Longrightarrow> \<not> holding lk (push_off (on_cpu i m)) \<Longrightarrow>
     lock_step lk (m, pc) (push_off (on_cpu i m), pc(i := Spinning))"
| spin: "pc i = Spinning \<Longrightarrow> test_and_set lk (on_cpu i m) = (v, m') \<Longrightarrow> v \<noteq> 0 \<Longrightarrow>
     lock_step lk (m, pc) (m', pc)"
| swap: "pc i = Spinning \<Longrightarrow> test_and_set lk (on_cpu i m) = (v, m') \<Longrightarrow> v = 0 \<Longrightarrow>
     lock_step lk (m, pc) (m', pc(i := Swapped))"
| record_cpu: "pc i = Swapped \<Longrightarrow>
     lock_step lk (m, pc)
       ((on_cpu i m)\<lparr>locks := (locks m)(lk := (locks m lk)\<lparr>lk_cpu := Some i\<rparr>)\<rparr>, pc(i := Inside))"
| clear_cpu: "pc i = Inside \<Longrightarrow> holding lk (on_cpu i m) \<Longrightarrow>
     lock_step lk (m, pc)
       ((on_cpu i m)\<lparr>locks := (locks m)(lk := (locks m lk)\<lparr>lk_cpu := None\<rparr>)\<rparr>, pc(i := Cleared))"
| store: "pc i = Cleared \<Longrightarrow>
     pop_off ((on_cpu i m)\<lparr>locks := (locks m)(lk := (locks m lk)\<lparr>lk_locked := 0\<rparr>)\<rparr>) = Ok m' \<Longrightarrow>
     lock_step lk (m, pc) (m', pc(i := Outside))"
| other: "locks m' lk = locks m lk \<Longrightarrow> lock_step lk (m, pc) (m', pc)"

inductive lock_reachable :: "lock \<Rightarrow> machine \<times> (nat \<Rightarrow> lkpc) \<Rightarrow> bool" for lk where
  start: "unheld lk m \<Longrightarrow> lock_reachable lk (m, \<lambda>_. Outside)"
| step: "lock_reachable lk c \<Longrightarrow> lock_step lk c d \<Longrightarrow> lock_reachable lk d"

fun owns :: "lkpc \<Rightarrow> bool" where
  "owns Outside = False"
| "owns Spinning = False"
| "owns _ = True"

lemma owns_Inside: "p = Inside \<Longrightarrow> owns p"
  by simp

fun lock_inv :: "lock \<Rightarrow> machine \<times> (nat \<Rightarrow> lkpc) \<Rightarrow> bool" where
  "lock_inv lk (m, pc) \<longleftrightarrow>
     (\<forall>i j. owns (pc i) \<and> owns (pc j) \<longrightarrow> i = j)
     \<and> (lk_locked (locks m lk) \<noteq> 0 \<longleftrightarrow> (\<exists>i. owns (pc i)))
     \<and> (\<forall>i. lk_cpu (locks m lk) = Some i \<longleftrightarrow> pc i = Inside)"

lemma lock_inv_ownerI:
  assumes "\<And>j. owns (pc j) \<longleftrightarrow> j = i" and "lk_locked (locks m lk) \<noteq> 0"
    and "\<And>j. lk_cpu (locks m lk) = Some j \<longleftrightarrow> pc j = Inside"
  shows "lock_inv lk (m, pc)"
  using assms by simp

lemma pop_off_locks: "pop_off s = Ok s' \<Longrightarrow> locks s' = locks s"
  by (auto simp: pop_off_def Let_def intr_on_def split: if_splits)

lemma on_cpu_locks [simp]: "locks (on_cpu i m) = locks m" "tp (on_cpu i m) = i"
  by (simp_all add: on_cpu_def)

lemma lock_inv_freeI:
  assumes "\<And>j. \<not> owns (pc j)" and "lk_locked (locks m lk) = 0" and "lk_cpu (locks m lk) = None"
  shows "lock_inv lk (m, pc)"
proof -
  have "pc j \<noteq> Inside" for j using assms(1) [of j] by (cases "pc j") simp_all
  with assms show ?thesis by simp
qed

lemma lock_inv_owner:
  assumes "lock_inv lk (m, pc)" and "owns (pc i)"
  shows "owns (pc j) \<longleftrightarrow> j = i" and "lk_locked (locks m lk) \<noteq> 0"
    and "j \<noteq> i \<Longrightarrow> pc j \<noteq> Inside"
proof -
  show one: "owns (pc j) \<longleftrightarrow> j = i" and "lk_locked (locks m lk) \<noteq> 0"
    using assms by auto
  from one show "j \<noteq> i \<Longrightarrow> pc j \<noteq> Inside"
    by (cases "pc j") auto
qed

lemma lock_step_inv: "lock_step lk c d \<Longrightarrow> lock_inv lk c \<Longrightarrow> lock_inv lk d"
proof (induction rule: lock_step.induct)
  case (enter pc i m)
  have "owns ((pc(i := Spinning)) j) = owns (pc j)"
    and "((pc(i := Spinning)) j = Inside) = (pc j = Inside)" for j
    using enter.hyps by auto
  with enter.prems show ?case by (simp del: fun_upd_apply)
next
  case (spin pc i m v m')
  then show ?case by (auto simp: test_and_set_def)
next
  case (swap pc i m v m')
  have free: "\<not> owns (pc j)" for j
    using swap by (auto simp: test_and_set_def)
  then have "pc j \<noteq> Inside" for j by (metis owns_Inside)
  with swap.prems have "lk_cpu (locks m lk) = None"
    by (cases "lk_cpu (locks m lk)") auto
  with swap free show ?case
    by (intro lock_inv_ownerI [of _ i]) (auto simp: test_and_set_def \<open>\<And>j. pc j \<noteq> Inside\<close>)
next
  case (record_cpu pc i m)
  have "owns (pc i)" using record_cpu.hyps by simp
  note own = lock_inv_owner [OF record_cpu.prems this]
  show ?case
    by (rule lock_inv_ownerI [of _ i]) (use own record_cpu.hyps in auto)
next
  case (clear_cpu pc i m)
  have "owns (pc i)" using clear_cpu.hyps by simp
  note own = lock_inv_owner [OF clear_cpu.prems this]
  show ?case
    by (rule lock_inv_ownerI [of _ i]) (use own in auto)
next
  case (store pc i m m')
  have "owns (pc i)" using store.hyps by simp
  note own = lock_inv_owner [OF store.prems this]
  have locks': "locks m' = (locks m)(lk := (locks m lk)\<lparr>lk_locked := 0\<rparr>)"
    using store.hyps by (simp add: pop_off_locks)
  have "pc j \<noteq> Inside" for j
    using own(3) [of j] store.hyps by (cases "j = i") simp_all
  then have "lk_cpu (locks m lk) = None"
    using store.prems by (cases "lk_cpu (locks m lk)") auto
  then show ?case
    by (intro lock_inv_freeI) (use own(1) locks' in auto)
next
  case (other m' m pc)
  then show ?case by simp
qed

lemma lock_reachable_inv: "lock_reachable lk c \<Longrightarrow> lock_inv lk c"
proof (induction rule: lock_reachable.induct)
  case (start m)
  then show ?case by (simp add: unheld_def)
next
  case (step c d)
  then show ?case by (blast intro: lock_step_inv)
qed

text \<open>The sequential \<open>acquire\<close> and \<open>release\<close> are runs of the atomic steps of one CPU.\<close>

lemma acquire_steps:
  assumes "acquire lk (on_cpu i m) = Ok m'" and "pc i = Outside"
  shows "(lock_step lk)\<^sup>*\<^sup>* (m, pc) (m', pc(i := Inside))"
proof -
  let ?p = "push_off (on_cpu i m)"
  have h: "\<not> holding lk ?p" and z: "lk_locked (locks ?p lk) = 0"
    and m': "m' = ?p\<lparr>locks := (locks ?p)(lk := (locks ?p lk)\<lparr>lk_locked := 1, lk_cpu := Some i\<rparr>)\<rparr>"
    using assms(1) by (auto simp: acquire_def Let_def split: if_splits)
  let ?q = "?p\<lparr>locks := (locks ?p)(lk := (locks ?p lk)\<lparr>lk_locked := 1\<rparr>)\<rparr>"
  have tpp: "on_cpu i ?p = ?p" "on_cpu i ?q = ?q"
    by (simp_all add: on_cpu_def push_off_eq)
  have s1: "lock_step lk (m, pc) (?p, pc(i := Spinning))"
    by (rule lock_step.enter) (use assms(2) h in simp_all)
  have s2: "lock_step lk (?p, pc(i := Spinning)) (?q, (pc(i := Spinning))(i := Swapped))"
    by (rule lock_step.swap) (use z in \<open>simp_all add: test_and_set_def tpp\<close>)
  have s3: "lock_step lk (?q, pc(i := Swapped))
      ((on_cpu i ?q)\<lparr>locks := (locks ?q)(lk := (locks ?q lk)\<lparr>lk_cpu := Some i\<rparr>)\<rparr>,
       (pc(i := Swapped))(i := Inside))"
    by (rule lock_step.record_cpu) simp
  have "(on_cpu i ?q)\<lparr>locks := (locks ?q)(lk := (locks ?q lk)\<lparr>lk_cpu := Some i\<rparr>)\<rparr> = m'"
    by (simp add: m' on_cpu_def push_off_eq)
  with s3 have s4: "lock_step lk (?q, pc(i := Swapped)) (m', pc(i := Inside))"
    by (simp only: fun_upd_upd)
  from s2 have "lock_step lk (?p, pc(i := Spinning)) (?q, pc(i := Swapped))"
    by (simp only: fun_upd_upd)
  with s1 have "(lock_step lk)\<^sup>*\<^sup>* (m, pc) (?q, pc(i := Swapped))"
    by (rule rtranclp.rtrancl_into_rtrancl [OF r_into_rtranclp])
  then show ?thesis using s4 by (rule rtranclp.rtrancl_into_rtrancl)
qed

lemma release_steps:
  assumes "release lk (on_cpu i m) = Ok m'" and "pc i = Inside"
  shows "(lock_step lk)\<^sup>*\<^sup>* (m, pc) (m', pc(i := Outside))"
proof -
  have h: "holding lk (on_cpu i m)"
    and pop: "pop_off ((on_cpu i m)\<lparr>locks := (locks m)(lk := (locks m lk)\<lparr>lk_cpu := None, lk_locked := 0\<rparr>)\<rparr>) = Ok m'"
    using assms(1) by (auto simp: release_def split: if_splits)
  let ?q = "(on_cpu i m)\<lparr>locks := (locks m)(lk := (locks m lk)\<lparr>lk_cpu := None\<rparr>)\<rparr>"
  have s1: "lock_step lk (m, pc) (?q, pc(i := Cleared))"
    by (rule lock_step.clear_cpu) (use assms(2) h in simp_all)
  have s2: "lock_step lk (?q, pc(i := Cleared)) (m', (pc(i := Cleared))(i := Outside))"
  proof (rule lock_step.store)
    show "pop_off ((on_cpu i ?q)\<lparr>locks := (locks ?q)(lk := (locks ?q lk)\<lparr>lk_locked := 0\<rparr>)\<rparr>) = Ok m'"
      using pop by (simp add: on_cpu_def)
  qed simp
  then have "lock_step lk (?q, pc(i := Cleared)) (m', pc(i := Outside))"
    by (simp only: fun_upd_upd)
  with s1 show ?thesis
    by (rule rtranclp.rtrancl_into_rtrancl [OF r_into_rtranclp])
qed

text \<open>C9: In every interleaving of any number of CPUs at most one is in the critical section
  of a lock, and \<open>holding\<close>, asked on a CPU, is true exactly while that CPU is in it.\<close>

theorem spinlock_mutual_exclusion:
  assumes "lock_reachable lk (m, pc)"
  shows "(pc i = Inside \<and> pc j = Inside \<longrightarrow> i = j) \<and> (holding lk (on_cpu i m) \<longleftrightarrow> pc i = Inside)"
proof -
  have inv: "lock_inv lk (m, pc)"
    using assms by (rule lock_reachable_inv)
  then have "holding lk (on_cpu i m) \<longleftrightarrow> pc i = Inside"
    by (auto simp: holding_def) (metis owns_Inside)
  moreover have "pc i = Inside \<and> pc j = Inside \<longrightarrow> i = j"
    using inv owns_Inside by (simp del: owns.simps)
  ultimately show ?thesis by simp
qed

definition idle_cpu :: cpu where
  "idle_cpu = \<lparr>c_proc = None, c_noff = 0, c_intena = True, c_intr = True\<rparr>"

definition boot_machine :: machine where
  "boot_machine = \<lparr>mem = (\<lambda>_. 0), kend = 0x80021000, etext = 0x80008000, trampoline = 0x80007000,
     cpus = (\<lambda>_. idle_cpu), tp = 0, locks = (\<lambda>_. \<lparr>lk_locked = 0, lk_name = [], lk_cpu = None\<rparr>)\<rparr>"

lemma boot_unheld [simp]: "unheld lk boot_machine"
  by (simp add: boot_machine_def unheld_def)

lemma boot_quiet [simp]: "quiet boot_machine"
  by (simp add: boot_machine_def quiet_def mycpu_def idle_cpu_def)

lemma lock_reachable_steps: "(lock_step lk)\<^sup>*\<^sup>* c d \<Longrightarrow> lock_reachable lk c \<Longrightarrow> lock_reachable lk d"
  by (induction rule: rtranclp_induct) (auto intro: lock_reachable.step)

text \<open>CPU 2 acquires the lock of the page allocator: it is inside, and CPU 1 is not.\<close>

theorem spinlock_mutual_exclusion_witness:
  "\<exists>m. acquire KmemLock (on_cpu 2 boot_machine) = Ok m
     \<and> holding KmemLock (on_cpu 2 m) \<and> \<not> holding KmemLock (on_cpu 1 m)"
proof -
  have "unheld KmemLock (on_cpu 2 boot_machine)"
    by (simp add: unheld_def boot_machine_def)
  then have acq: "acquire KmemLock (on_cpu 2 boot_machine) = Ok (acquired KmemLock (on_cpu 2 boot_machine))"
    by simp
  have "lock_reachable KmemLock
      (acquired KmemLock (on_cpu 2 boot_machine), (\<lambda>_. Outside)(2 := Inside))"
    by (rule lock_reachable_steps [OF acquire_steps [OF acq] lock_reachable.start]) simp_all
  from spinlock_mutual_exclusion [OF this, of 2 2] spinlock_mutual_exclusion [OF this, of 1 2] acq
  show ?thesis by auto
qed

end
