(* ===== verification/Kalloc.thy ===== *)
theory Kalloc
  imports Spinlock
begin

text \<open>
  The physical page allocator, src/kernel/kalloc.c. The free list is threaded through the
  free pages themselves: \<open>freelist\<close> is the address of the first one (0 for none) and the first
  eight bytes of a free page hold the address of the next (\<open>struct run\<close>). The invariant
  \<open>kmem_inv s ps\<close> says that the list holds exactly the pages \<open>ps\<close>, each once, each inside
  the memory the allocator owns. The locale \<open>page_allocator\<close> is what the clients of the
  allocator rely on; \<open>kalloc\<close> and \<open>kfree\<close> are its interpretation.
\<close>

subsection \<open>Layout of physical memory (src/kernel/memlayout.h, src/kernel/riscv.h)\<close>

abbreviation (input) PGSIZE :: uint64 where "PGSIZE \<equiv> 4096"
abbreviation (input) KERNBASE :: uint64 where "KERNBASE \<equiv> 0x80000000"

definition PHYSTOP :: uint64 where
  "PHYSTOP = KERNBASE + 128*1024*1024"

definition PGROUNDUP :: "uint64 \<Rightarrow> uint64" where
  "PGROUNDUP sz = (sz + PGSIZE - 1) AND NOT (PGSIZE - 1)"

definition PGROUNDDOWN :: "uint64 \<Rightarrow> uint64" where
  "PGROUNDDOWN a = a AND NOT (PGSIZE - 1)"

lemma PHYSTOP_eq: "PHYSTOP = 0x88000000"
  by (simp add: PHYSTOP_def)

subsection \<open>The allocator\<close>

record kmem_state = machine +
  freelist :: addr

definition kfree :: "addr \<Rightarrow> ('z) kmem_state_scheme \<Rightarrow> ('z kmem_state_scheme, 'z kmem_state_scheme) res" where
  "kfree pa s =
     (if pa mod PGSIZE \<noteq> 0 \<or> pa < kend s \<or> pa \<ge> PHYSTOP then Panic ''kfree''
      else (let s = s\<lparr>mem := memset (mem s) pa 1 4096\<rparr>
            in rbind (acquire KmemLock s) (\<lambda>s.
               let s = s\<lparr>mem := store64 (mem s) pa (freelist s)\<rparr>;
                   s = s\<lparr>freelist := pa\<rparr>
               in release KmemLock s)))"

definition kalloc :: "('z) kmem_state_scheme \<Rightarrow> ('z kmem_state_scheme, addr \<times> 'z kmem_state_scheme) res" where
  "kalloc s =
     rbind (acquire KmemLock s) (\<lambda>s.
     let r = freelist s;
         s = (if r \<noteq> 0 then s\<lparr>freelist := load64 (mem s) r\<rparr> else s)
     in rbind (release KmemLock s) (\<lambda>s.
        let s = (if r \<noteq> 0 then s\<lparr>mem := memset (mem s) r 5 4096\<rparr> else s)
        in Ok (r, s)))"

text \<open>The loop of \<open>freerange\<close> ends: \<open>kfree\<close> panics at the end of RAM, far below the point
  where \<open>p + PGSIZE\<close> would wrap around.\<close>

lemma kfree_Ok_bound: "kfree pa s = Ok s' \<Longrightarrow> pa < PHYSTOP"
  by (auto simp: kfree_def split: if_splits)

function freerange_loop ::
    "addr \<Rightarrow> addr \<Rightarrow> ('z) kmem_state_scheme \<Rightarrow> ('z kmem_state_scheme, 'z kmem_state_scheme) res" where
  "freerange_loop p pa_end s =
     (if p + PGSIZE \<le> pa_end
      then rbind (kfree p s) (\<lambda>s. freerange_loop (p + PGSIZE) pa_end s)
      else Ok s)"
  by pat_completeness auto
termination
proof (relation "measure (\<lambda>(p, pa_end, s). 2 ^ 64 - unat p)")
  fix p pa_end :: addr and s s' :: "'z kmem_state_scheme"
  assume "kfree p s = Ok s'"
  then have "p < PHYSTOP" by (rule kfree_Ok_bound)
  then have "unat p < 0x88000000" by (simp add: PHYSTOP_eq word_less_nat_alt)
  then show "((p + PGSIZE, pa_end, s'), (p, pa_end, s)) \<in> measure (\<lambda>(p, pa_end, s). 2 ^ 64 - unat p)"
    by (simp add: unat_word_ariths)
qed simp

declare freerange_loop.simps [simp del]

definition freerange ::
    "addr \<Rightarrow> addr \<Rightarrow> ('z) kmem_state_scheme \<Rightarrow> ('z kmem_state_scheme, 'z kmem_state_scheme) res" where
  "freerange pa_start pa_end s = freerange_loop (PGROUNDUP pa_start) pa_end s"

definition kinit :: "('z) kmem_state_scheme \<Rightarrow> ('z kmem_state_scheme, 'z kmem_state_scheme) res" where
  "kinit s = (let s = initlock KmemLock ''kmem'' s in freerange (kend s) PHYSTOP s)"

subsection \<open>Pages\<close>

definition page_aligned :: "addr \<Rightarrow> bool" where
  "page_aligned p \<longleftrightarrow> p mod PGSIZE = 0"

text \<open>A page the allocator may hand out.\<close>

definition ram_page :: "('z) kmem_state_scheme \<Rightarrow> addr \<Rightarrow> bool" where
  "ram_page s p \<longleftrightarrow> page_aligned p \<and> kend s \<le> p \<and> p < PHYSTOP"

text \<open>The number of the page an address is in.\<close>

definition pageno :: "addr \<Rightarrow> nat" where
  "pageno x = unat x div 4096"

lemma aligned_unat: "page_aligned p \<longleftrightarrow> unat p mod 4096 = 0"
  by (simp add: page_aligned_def word_unat_eq_iff unat_mod)

lemma in_page_iff:
  assumes "page_aligned p"
  shows "in_area p 4096 x \<longleftrightarrow> pageno x = pageno p"
proof -
  obtain k where k: "unat p = 4096 * k"
    using assms by (auto simp: aligned_unat)
  have "unat x < 2 ^ 64" "unat p < 2 ^ 64"
    by (simp_all add: unat_less64)
  with k show ?thesis
    by (auto simp: unat_sub_if' pageno_def)
qed

lemma pageno_inj:
  assumes "page_aligned p" "page_aligned q" "pageno p = pageno q"
  shows "p = q"
  using assms div_mult_mod_eq [of "unat p" 4096] div_mult_mod_eq [of "unat q" 4096]
  by (simp add: aligned_unat pageno_def word_unat_eq_iff)

lemma pageno_offset:
  assumes "page_aligned p" and "i < 4096"
  shows "pageno (p + of_nat i) = pageno p"
proof -
  have "in_area p 4096 (p + of_nat i)"
    using assms(2) by simp
  with assms(1) show ?thesis by (simp only: in_page_iff)
qed

lemma load64_other_page:
  assumes "page_aligned p" and "page_aligned q" and "p \<noteq> q"
    and "\<And>x. pageno x \<noteq> pageno q \<Longrightarrow> m' x = m x"
  shows "load64 m' p = load64 m p"
proof (rule load64_cong)
  fix i :: nat assume "i < 8"
  then have "pageno (p + of_nat i) = pageno p"
    using assms(1) by (intro pageno_offset) simp_all
  with assms show "m' (p + of_nat i) = m (p + of_nat i)"
    using pageno_inj [of p q] by metis
qed

lemma memset_page_other:
  "page_aligned q \<Longrightarrow> pageno x \<noteq> pageno q \<Longrightarrow> memset m q c 4096 x = m x"
  using in_page_iff [of q x] by (simp add: memset_at)

lemma memset_page_at:
  "page_aligned q \<Longrightarrow> pageno x = pageno q \<Longrightarrow> memset m q c 4096 x = ucast c"
  using in_page_iff [of q x] by (simp add: memset_at)

lemma store64_page_other:
  assumes "page_aligned q" and "i \<le> 4088" and "pageno x \<noteq> pageno q"
  shows "store64 m (q + of_nat i) v x = m x"
proof (rule store64_other, rule notI)
  assume in8: "in_area (q + of_nat i) 8 x"
  have "x = q + of_nat (i + unat (x - (q + of_nat i)))"
    by simp
  moreover have "i + unat (x - (q + of_nat i)) < 4096"
    using in8 assms(2) by simp
  ultimately have "pageno x = pageno q"
    using pageno_offset [OF assms(1)] by metis
  with assms(3) show False by simp
qed

subsection \<open>The free list\<close>

fun flist :: "memory \<Rightarrow> addr \<Rightarrow> addr list \<Rightarrow> bool" where
  "flist m h [] \<longleftrightarrow> h = 0"
| "flist m h (p # ps) \<longleftrightarrow> h = p \<and> p \<noteq> 0 \<and> flist m (load64 m p) ps"

text \<open>The state between two calls: the list is well formed, the lock is free, the kernel
  image ends above address 0.\<close>

definition kmem_inv :: "('z) kmem_state_scheme \<Rightarrow> addr list \<Rightarrow> bool" where
  "kmem_inv s ps \<longleftrightarrow> flist (mem s) (freelist s) ps \<and> distinct ps \<and> (\<forall>p \<in> set ps. ram_page s p)
     \<and> 0 < kend s \<and> unheld KmemLock s \<and> quiet s"

lemma flist_other:
  assumes "flist m h ps" and "\<And>p. p \<in> set ps \<Longrightarrow> load64 m' p = load64 m p"
  shows "flist m' h ps"
  using assms by (induction ps arbitrary: h) auto

lemma flist_unique: "flist m h ps \<Longrightarrow> flist m h qs \<Longrightarrow> ps = qs"
proof (induction ps arbitrary: h qs)
  case Nil
  then show ?case by (cases qs) auto
next
  case (Cons p ps)
  then show ?case by (cases qs) auto
qed

lemma flist_other_page:
  assumes "flist m h ps" and "\<And>p. p \<in> set ps \<Longrightarrow> page_aligned p \<and> p \<noteq> q" and "page_aligned q"
    and "\<And>x. pageno x \<noteq> pageno q \<Longrightarrow> m' x = m x"
  shows "flist m' h ps"
  using assms by (intro flist_other [OF assms(1)] load64_other_page) auto

lemma ram_page_nonzero: "0 < kend s \<Longrightarrow> ram_page s p \<Longrightarrow> p \<noteq> 0"
  by (auto simp: ram_page_def)

lemma ram_page_update [simp]:
  "ram_page (s\<lparr>mem := m\<rparr>) p = ram_page s p" "ram_page (s\<lparr>freelist := f\<rparr>) p = ram_page s p"
  by (simp_all add: ram_page_def)

lemma ram_page_fun [simp]:
  "ram_page (s\<lparr>mem := m\<rparr>) = ram_page s" "ram_page (s\<lparr>freelist := f\<rparr>) = ram_page s"
  by (simp_all add: fun_eq_iff)

lemma kmem_frames [simp]:
  "unheld lk (s\<lparr>freelist := f\<rparr>) = unheld lk s" "quiet (s\<lparr>freelist := f\<rparr>) = quiet s"
  by (simp_all add: unheld_def quiet_def mycpu_def)

lemma kmem_lock_simps [lock_simps]:
  "freelist (acquired lk s) = freelist s"
  "(acquired lk s)\<lparr>freelist := f\<rparr> = acquired lk (s\<lparr>freelist := f\<rparr>)"
  "unheld lk (s\<lparr>freelist := f\<rparr>) = unheld lk s"
  "quiet (s\<lparr>freelist := f\<rparr>) = quiet s"
  "curproc (s\<lparr>freelist := f\<rparr>) = curproc s"
  by (simp_all add: acquired_upd unheld_def quiet_def mycpu_def curproc_def)

lemma freelist_acquired [simp]: "freelist (acquired lk s) = freelist s"
  by (simp add: acquired_def push_off_eq)

lemma kmem_more_acquired [simp]: "kmem_state.more (acquired lk s) = kmem_state.more s"
  by (simp add: acquired_def push_off_eq)

text \<open>What the two operations return, exactly.\<close>

lemma kfree_eq:
  assumes "ram_page s p" and "unheld KmemLock s" and "quiet s"
  shows "kfree p s =
    Ok (s\<lparr>mem := store64 (memset (mem s) p 1 4096) p (freelist s), freelist := p\<rparr>)"
proof -
  let ?s = "s\<lparr>mem := memset (mem s) p 1 4096\<rparr>"
  let ?t = "(acquired KmemLock ?s)\<lparr>mem := store64 (memset (mem s) p 1 4096) p (freelist s), freelist := p\<rparr>"
  have "release KmemLock ?t = Ok (?t\<lparr>locks := locks ?s, cpus := cpus ?s\<rparr>)"
    using assms by (intro release_acquired) simp_all
  moreover have "?t\<lparr>locks := locks ?s, cpus := cpus ?s\<rparr> =
      s\<lparr>mem := store64 (memset (mem s) p 1 4096) p (freelist s), freelist := p\<rparr>"
    by (simp add: acquired_def push_off_eq)
  ultimately show ?thesis
    using assms by (simp add: kfree_def ram_page_def page_aligned_def Let_def not_less not_le)
qed

lemma kalloc_eq:
  assumes "unheld KmemLock s" and "quiet s"
  shows "kalloc s = (if freelist s = 0 then Ok (0, s) else
    Ok (freelist s, s\<lparr>mem := memset (mem s) (freelist s) 5 4096,
                      freelist := load64 (mem s) (freelist s)\<rparr>))"
proof -
  let ?t = "(acquired KmemLock s)\<lparr>freelist := load64 (mem s) (freelist s)\<rparr>"
  have r1: "release KmemLock ?t = Ok (?t\<lparr>locks := locks s, cpus := cpus s\<rparr>)"
    using assms by (intro release_acquired) simp_all
  have e1: "?t\<lparr>locks := locks s, cpus := cpus s\<rparr> = s\<lparr>freelist := load64 (mem s) (freelist s)\<rparr>"
    by (simp add: acquired_def push_off_eq)
  have r0: "release KmemLock (acquired KmemLock s) = Ok ((acquired KmemLock s)\<lparr>locks := locks s, cpus := cpus s\<rparr>)"
    using assms by (intro release_acquired) simp_all
  have e0: "(acquired KmemLock s)\<lparr>locks := locks s, cpus := cpus s\<rparr> = s"
    by (simp add: acquired_def push_off_eq)
  show ?thesis
    using assms r1 e1 r0 e0 by (simp add: kalloc_def Let_def)
qed

lemma kalloc_Nil: "kmem_inv s [] \<Longrightarrow> kalloc s = Ok (0, s)"
  by (simp add: kmem_inv_def kalloc_eq)

lemma kalloc_Cons:
  assumes "kmem_inv s (p # ps)"
  shows "kalloc s = Ok (p, s\<lparr>mem := memset (mem s) p 5 4096, freelist := load64 (mem s) p\<rparr>)"
  using assms by (simp add: kmem_inv_def kalloc_eq)

lemma kmem_inv_kalloc:
  assumes "kmem_inv s (p # ps)"
  shows "kmem_inv (s\<lparr>mem := memset (mem s) p 5 4096, freelist := load64 (mem s) p\<rparr>) ps"
proof -
  have p: "page_aligned p" and qs: "\<And>q. q \<in> set ps \<Longrightarrow> page_aligned q \<and> q \<noteq> p"
    and fl: "flist (mem s) (load64 (mem s) p) ps"
    using assms by (auto simp: kmem_inv_def ram_page_def)
  have "flist (memset (mem s) p 5 4096) (load64 (mem s) p) ps"
    using p qs by (intro flist_other_page [OF fl]) (auto simp: memset_page_other)
  with assms show ?thesis by (auto simp: kmem_inv_def)
qed

lemma kmem_inv_kfree:
  assumes "kmem_inv s ps" and "ram_page s p" and "p \<notin> set ps"
  shows "kmem_inv (s\<lparr>mem := store64 (memset (mem s) p 1 4096) p (freelist s), freelist := p\<rparr>) (p # ps)"
proof -
  let ?m = "store64 (memset (mem s) p 1 4096) p (freelist s)"
  have p: "page_aligned p" and qs: "\<And>q. q \<in> set ps \<Longrightarrow> page_aligned q \<and> q \<noteq> p"
    and fl: "flist (mem s) (freelist s) ps"
    using assms by (auto simp: kmem_inv_def ram_page_def)
  have "?m x = mem s x" if "pageno x \<noteq> pageno p" for x
    using that p store64_page_other [OF p, of 0 x] by (simp add: memset_page_other)
  then have "flist ?m (freelist s) ps"
    using p qs by (intro flist_other_page [OF fl]) auto
  moreover have "p \<noteq> 0"
    using assms ram_page_nonzero by (auto simp: kmem_inv_def)
  ultimately show ?thesis
    using assms by (auto simp: kmem_inv_def)
qed

subsection \<open>Rounding to pages\<close>

lemma PGROUNDDOWN_unat: "unat (PGROUNDDOWN a) = unat a div 4096 * 4096"
proof -
  have mask12: "PGSIZE - 1 = mask 12"
    by (simp add: mask_eq_exp_minus_1)
  have "PGROUNDDOWN a = push_bit 12 (drop_bit 12 a)"
    unfolding PGROUNDDOWN_def mask12
    by (rule bit_word_eqI) (auto simp: bit_simps)
  moreover have "unat a div 4096 * 4096 < 2 ^ 64"
    using unat_less64 [of a] by simp
  ultimately show ?thesis
    by (simp add: drop_bit_eq_div push_bit_eq_mult unat_word_ariths unat_div)
qed

lemma PGROUNDDOWN_aligned [simp]: "page_aligned (PGROUNDDOWN a)"
  by (simp add: aligned_unat PGROUNDDOWN_unat)

lemma PGROUNDDOWN_le: "PGROUNDDOWN a \<le> a"
  by (simp add: word_le_nat_alt PGROUNDDOWN_unat)

lemma pageno_PGROUNDDOWN [simp]: "pageno (PGROUNDDOWN a) = pageno a"
  by (simp add: pageno_def PGROUNDDOWN_unat)

lemma PGROUNDDOWN_id [simp]: "page_aligned a \<Longrightarrow> PGROUNDDOWN a = a"
  by (rule pageno_inj) simp_all

lemma PGROUNDUP_unat:
  assumes "unat a + 4095 < 2 ^ 64"
  shows "unat (PGROUNDUP a) = (unat a + 4095) div 4096 * 4096"
proof -
  have "PGROUNDUP a = PGROUNDDOWN (a + 4095)"
    by (simp add: PGROUNDUP_def PGROUNDDOWN_def add.commute)
  moreover have "unat (a + 4095) = unat a + 4095"
    using assms by (simp add: unat_word_ariths)
  ultimately show ?thesis by (simp add: PGROUNDDOWN_unat)
qed

lemma PGROUNDUP_aligned [simp]: "page_aligned (PGROUNDUP a)"
proof -
  have "PGROUNDUP a = PGROUNDDOWN (a + 4095)"
    by (simp add: PGROUNDUP_def PGROUNDDOWN_def add.commute)
  then show ?thesis by simp
qed

subsection \<open>Filling the free list at boot\<close>

lemma next_page:
  assumes "page_aligned p" and "p < PHYSTOP"
  shows "page_aligned (p + PGSIZE)" and "p < p + PGSIZE" and "p + PGSIZE \<le> PHYSTOP"
    and "pageno (p + PGSIZE) = Suc (pageno p)"
    and "page_aligned q \<Longrightarrow> p \<le> q \<longleftrightarrow> q = p \<or> p + PGSIZE \<le> q"
proof -
  have lt: "unat p < 0x88000000" using assms(2) by (simp add: PHYSTOP_eq word_less_nat_alt)
  then have eq: "unat (p + PGSIZE) = unat p + 4096" by (simp add: unat_word_ariths)
  obtain k where k: "unat p = 4096 * k" using assms(1) by (auto simp: aligned_unat)
  show "page_aligned (p + PGSIZE)" by (simp add: aligned_unat eq k)
  show "p < p + PGSIZE" by (simp only: word_less_nat_alt eq)
  show "pageno (p + PGSIZE) = Suc (pageno p)" by (simp add: pageno_def eq k)
  have "unat p + 4096 \<le> 0x88000000" using lt k by simp
  then show "p + PGSIZE \<le> PHYSTOP" by (simp only: word_le_nat_alt eq PHYSTOP_eq) simp
  assume "page_aligned q"
  then obtain j where j: "unat q = 4096 * j" by (auto simp: aligned_unat)
  have "k \<le> j \<longleftrightarrow> j = k \<or> k + 1 \<le> j" by linarith
  then have "4096 * k \<le> 4096 * j \<longleftrightarrow> 4096 * j = 4096 * k \<or> 4096 * k + 4096 \<le> 4096 * j"
    using mult_le_cancel1 [of 4096 "k + 1" j] by (simp add: add.commute)
  then show "p \<le> q \<longleftrightarrow> q = p \<or> p + PGSIZE \<le> q"
    by (simp only: word_le_nat_alt eq word_unat_eq_iff k j)
qed

lemma freerange_loop_inv:
  assumes "kmem_inv s ps" and "page_aligned p" and "kend s \<le> p" and "p \<le> PHYSTOP"
    and "\<And>q. q \<in> set ps \<Longrightarrow> q < p"
  shows "\<exists>s' qs. freerange_loop p PHYSTOP s = Ok s' \<and> kmem_inv s' qs \<and> kend s' = kend s
     \<and> set qs = set ps \<union> {q. page_aligned q \<and> p \<le> q \<and> q < PHYSTOP}"
  using assms
proof (induction "0x88000 - pageno p" arbitrary: p s ps rule: less_induct)
  case less
  show ?case
  proof (cases "p = PHYSTOP")
    case True
    then have "freerange_loop p PHYSTOP s = Ok s"
      by (subst freerange_loop.simps) (simp add: PHYSTOP_eq)
    with less.prems(1) True show ?thesis by auto
  next
    case False
    with less.prems(4) have lt: "p < PHYSTOP" by simp
    note np = next_page [OF less.prems(2) lt]
    have ram: "ram_page s p" using less.prems lt by (simp add: ram_page_def)
    have new: "p \<notin> set ps" using less.prems(5) by blast
    define s1 where "s1 = s\<lparr>mem := store64 (memset (mem s) p 1 4096) p (freelist s), freelist := p\<rparr>"
    have kf: "kfree p s = Ok s1"
      using less.prems(1) ram by (simp add: kfree_eq kmem_inv_def s1_def)
    have inv1: "kmem_inv s1 (p # ps)"
      unfolding s1_def by (rule kmem_inv_kfree [OF less.prems(1) ram new])
    have "unat p < 0x88000000" using lt by (simp add: PHYSTOP_eq word_less_nat_alt)
    then have "pageno p < 0x88000" by (simp add: pageno_def)
    then have "0x88000 - pageno (p + PGSIZE) < 0x88000 - pageno p"
      by (simp only: np(4))
    moreover have "kend s1 \<le> p + PGSIZE"
      using less.prems(3) np(2) by (simp add: s1_def)
    moreover have "q < p + PGSIZE" if "q \<in> set (p # ps)" for q
      using that less.prems(5) [of q] np(2) by auto
    ultimately obtain s' qs where
      rest: "freerange_loop (p + PGSIZE) PHYSTOP s1 = Ok s'" "kmem_inv s' qs" "kend s' = kend s1"
        "set qs = set (p # ps) \<union> {q. page_aligned q \<and> p + PGSIZE \<le> q \<and> q < PHYSTOP}"
      using less.hyps [OF _ inv1 np(1) _ np(3)] by blast
    have "{q. page_aligned q \<and> p \<le> q \<and> q < PHYSTOP} =
        insert p {q. page_aligned q \<and> p + PGSIZE \<le> q \<and> q < PHYSTOP}"
      using np(5) less.prems(2) lt by blast
    then have "set qs = set ps \<union> {q. page_aligned q \<and> p \<le> q \<and> q < PHYSTOP}"
      using rest(4) by simp
    moreover have "freerange_loop p PHYSTOP s = Ok s'"
      by (subst freerange_loop.simps) (simp only: np(3) kf rest(1) if_True rbind.simps)
    ultimately show ?thesis
      using rest(2,3) by (auto simp: s1_def)
  qed
qed

lemma round_up_le: "(a + 4095) div 4096 \<le> j \<longleftrightarrow> a \<le> j * (4096 :: nat)"
proof -
  have "(a + 4095) div 4096 \<le> j \<longleftrightarrow> (a + 4095) div 4096 < Suc j"
    by (simp only: less_Suc_eq_le)
  also have "\<dots> \<longleftrightarrow> a + 4095 < Suc j * 4096" by (rule div_less_iff_less_mult) simp
  also have "\<dots> \<longleftrightarrow> a \<le> j * 4096" by (simp add: less_Suc_eq_le)
  finally show ?thesis .
qed

lemma kinit_inv:
  assumes "0 < kend s" and "kend s \<le> PHYSTOP" and "freelist s = 0" and "quiet s"
  shows "\<exists>s' qs. kinit s = Ok s' \<and> kmem_inv s' qs \<and> kend s' = kend s
     \<and> set qs = {q. ram_page s q}"
proof -
  let ?s = "initlock KmemLock ''kmem'' s"
  let ?p = "PGROUNDUP (kend s)"
  have k: "unat (kend s) \<le> 0x88000000"
    using assms(2) by (simp add: PHYSTOP_eq word_le_nat_alt)
  then have up: "unat ?p = (unat (kend s) + 4095) div 4096 * 4096"
    by (intro PGROUNDUP_unat) simp
  have inv: "kmem_inv ?s []"
    using assms by (simp add: kmem_inv_def initlock_def unheld_def quiet_def mycpu_def)
  have ge: "kend s \<le> ?p" and le: "?p \<le> PHYSTOP"
    using k by (simp_all add: word_le_nat_alt up PHYSTOP_eq)
  have first: "?p \<le> q \<longleftrightarrow> kend s \<le> q" if "page_aligned q" for q
  proof -
    obtain j where "unat q = 4096 * j" using \<open>page_aligned q\<close> by (auto simp: aligned_unat)
    then show ?thesis by (simp add: word_le_nat_alt up round_up_le mult.commute)
  qed
  obtain s' qs where "freerange_loop ?p PHYSTOP ?s = Ok s'" "kmem_inv s' qs" "kend s' = kend ?s"
    "set qs = set [] \<union> {q. page_aligned q \<and> ?p \<le> q \<and> q < PHYSTOP}"
    using freerange_loop_inv [OF inv, of ?p] ge le by (auto simp: initlock_def)
  moreover have "{q. page_aligned q \<and> ?p \<le> q \<and> q < PHYSTOP} = {q. ram_page s q}"
    using first by (auto simp: ram_page_def)
  ultimately show ?thesis
    by (auto simp: kinit_def freerange_def initlock_def)
qed

subsection \<open>The allocator's contract\<close>

fun allocs :: "('s \<Rightarrow> ('s, addr \<times> 's) res) \<Rightarrow> nat \<Rightarrow> 's \<Rightarrow> ('s, addr list \<times> 's) res" where
  "allocs al 0 s = Ok ([], s)"
| "allocs al (Suc n) s = rbind (al s) (\<lambda>(p, s). rbind (allocs al n s) (\<lambda>(ps, s). Ok (p # ps, s)))"

fun frees :: "(addr \<Rightarrow> 's \<Rightarrow> ('s, 's) res) \<Rightarrow> addr list \<Rightarrow> 's \<Rightarrow> ('s, 's) res" where
  "frees fr [] s = Ok s"
| "frees fr (p # ps) s = rbind (fr p s) (\<lambda>s. frees fr ps s)"

locale page_allocator =
  fixes inv :: "'s \<Rightarrow> addr list \<Rightarrow> bool"
    and page :: "'s \<Rightarrow> addr \<Rightarrow> bool"
    and alloc :: "'s \<Rightarrow> ('s, addr \<times> 's) res"
    and free :: "addr \<Rightarrow> 's \<Rightarrow> ('s, 's) res"
  assumes inv_distinct: "inv s ps \<Longrightarrow> distinct ps"
    and inv_pages: "inv s ps \<Longrightarrow> p \<in> set ps \<Longrightarrow> page s p \<and> p \<noteq> 0"
    and alloc_none: "inv s [] \<Longrightarrow> alloc s = Ok (0, s)"
    and alloc_some: "inv s (p # ps) \<Longrightarrow> \<exists>s'. alloc s = Ok (p, s') \<and> inv s' ps \<and> page s' = page s"
    and free_page: "inv s ps \<Longrightarrow> page s p \<Longrightarrow> p \<notin> set ps \<Longrightarrow>
          \<exists>s'. free p s = Ok s' \<and> inv s' (p # ps) \<and> page s' = page s"
begin

lemma allocs_take:
  "inv s ps \<Longrightarrow> n \<le> length ps \<Longrightarrow>
     \<exists>s'. allocs alloc n s = Ok (take n ps, s') \<and> inv s' (drop n ps) \<and> page s' = page s"
proof (induction n arbitrary: s ps)
  case (Suc n)
  then obtain p ps' where ps: "ps = p # ps'" by (cases ps) auto
  with Suc.prems obtain s1 where s1: "alloc s = Ok (p, s1)" "inv s1 ps'" "page s1 = page s"
    using alloc_some by blast
  with Suc ps obtain s2 where "allocs alloc n s1 = Ok (take n ps', s2)" "inv s2 (drop n ps')"
    "page s2 = page s1"
    by fastforce
  with s1 ps show ?case by auto
qed auto

lemma frees_push:
  "inv s ps \<Longrightarrow> distinct qs \<Longrightarrow> set qs \<inter> set ps = {} \<Longrightarrow> \<forall>q \<in> set qs. page s q \<Longrightarrow>
     \<exists>s'. frees free qs s = Ok s' \<and> inv s' (rev qs @ ps) \<and> page s' = page s"
proof (induction qs arbitrary: s ps)
  case (Cons q qs)
  then obtain s1 where s1: "free q s = Ok s1" "inv s1 (q # ps)" "page s1 = page s"
    using free_page [of s ps q] by auto
  with Cons.prems have "\<exists>s'. frees free qs s1 = Ok s' \<and> inv s' (rev qs @ q # ps) \<and> page s' = page s1"
    by (intro Cons.IH) auto
  with s1 show ?case by auto
qed auto

lemma conserve:
  assumes "inv s ps" and "n \<le> length ps"
  shows "\<exists>qs s1. allocs alloc n s = Ok (qs, s1) \<and> length qs = n \<and> distinct qs
     \<and> (\<forall>q \<in> set qs. page s q \<and> q \<noteq> 0)
     \<and> (\<forall>rs. distinct rs \<and> set rs = set qs \<longrightarrow>
          (\<exists>s2. frees free rs s1 = Ok s2 \<and> inv s2 (rev rs @ drop n ps)))"
proof -
  obtain s1 where s1: "allocs alloc n s = Ok (take n ps, s1)" "inv s1 (drop n ps)" "page s1 = page s"
    using allocs_take [OF assms] by blast
  have d: "distinct ps" using assms(1) by (rule inv_distinct)
  have pg: "page s q \<and> q \<noteq> 0" if "q \<in> set (take n ps)" for q
    using that inv_pages [OF assms(1)] by (auto dest: in_set_takeD)
  have "\<exists>s2. frees free rs s1 = Ok s2 \<and> inv s2 (rev rs @ drop n ps)"
    if "distinct rs" "set rs = set (take n ps)" for rs
    using that frees_push [OF s1(2) that(1)] pg s1(3) set_take_disj_set_drop_if_distinct [OF d, of n n]
    by auto
  with s1 d pg assms(2) show ?thesis by (intro exI [of _ "take n ps"] exI [of _ s1]) auto
qed

lemma exhausted:
  assumes "inv s ps"
  shows "\<exists>s1. allocs alloc (length ps) s = Ok (ps, s1) \<and> alloc s1 = Ok (0, s1)"
  using allocs_take [OF assms, of "length ps"] alloc_none by auto

end

interpretation kmem: page_allocator kmem_inv ram_page kalloc kfree
proof
  fix s :: "'a kmem_state_scheme" and ps p
  show "kmem_inv s ps \<Longrightarrow> distinct ps" by (simp add: kmem_inv_def)
  show "kmem_inv s ps \<Longrightarrow> p \<in> set ps \<Longrightarrow> ram_page s p \<and> p \<noteq> 0"
    using ram_page_nonzero by (auto simp: kmem_inv_def)
  show "kmem_inv s [] \<Longrightarrow> kalloc s = Ok (0, s)" by (rule kalloc_Nil)
  show "kmem_inv s (p # ps) \<Longrightarrow>
      \<exists>s'. kalloc s = Ok (p, s') \<and> kmem_inv s' ps \<and> ram_page s' = ram_page s"
    using kalloc_Cons [of s p ps] kmem_inv_kalloc [of s p ps] by (simp add: ram_page_fun)
  show "kmem_inv s ps \<Longrightarrow> ram_page s p \<Longrightarrow> p \<notin> set ps \<Longrightarrow>
      \<exists>s'. kfree p s = Ok s' \<and> kmem_inv s' (p # ps) \<and> ram_page s' = ram_page s"
    using kfree_eq [of s p] kmem_inv_kfree [of s ps p] by (simp add: ram_page_fun kmem_inv_def)
qed

subsection \<open>Properties\<close>

text \<open>A machine with one free page, the last one of RAM.\<close>

definition one_page :: kmem_state where
  "one_page = machine.extend boot_machine \<lparr>freelist = 0x87fff000\<rparr>"

lemma one_page_inv: "kmem_inv one_page [0x87fff000]"
  by (simp add: kmem_inv_def one_page_def machine.defs boot_machine_def unheld_def quiet_def
      mycpu_def idle_cpu_def ram_page_def page_aligned_def PHYSTOP_eq load64_zeroed)

text \<open>C26: after boot every page of RAM above the kernel image is free, exactly once: \<open>kinit\<close>
  returns, and the free list it builds holds precisely the page frames from \<open>kend\<close> to
  \<open>PHYSTOP\<close> without repetition.\<close>

theorem kinit_frees_all_ram:
  assumes "0 < kend s" and "kend s \<le> PHYSTOP" and "freelist s = 0" and "quiet s"
  shows "\<exists>s' qs. kinit s = Ok s' \<and> flist (mem s') (freelist s') qs \<and> distinct qs
     \<and> set qs = {q. page_aligned q \<and> kend s \<le> q \<and> q < PHYSTOP}"
  using kinit_inv [OF assms] by (auto simp: kmem_inv_def ram_page_def)

theorem kinit_frees_all_ram_witness:
  "\<exists>s' qs. kinit (one_page\<lparr>freelist := 0\<rparr>) = Ok s' \<and> flist (mem s') (freelist s') qs \<and> distinct qs
     \<and> set qs = {q. page_aligned q \<and> 0x80021000 \<le> q \<and> q < PHYSTOP}"
proof -
  have k: "kend (one_page\<lparr>freelist := 0\<rparr>) = 0x80021000"
    by (simp add: one_page_def boot_machine_def machine.defs)
  have "0 < kend (one_page\<lparr>freelist := 0\<rparr>)" "kend (one_page\<lparr>freelist := 0\<rparr>) \<le> PHYSTOP"
    unfolding k PHYSTOP_eq by simp_all
  moreover have "quiet (one_page\<lparr>freelist := 0\<rparr>)"
    using one_page_inv by (simp add: kmem_inv_def)
  ultimately show ?thesis
    using kinit_frees_all_ram [of "one_page\<lparr>freelist := 0\<rparr>"] unfolding k by simp
qed

text \<open>C10: pages are conserved. As many calls of \<open>kalloc\<close> as there are free pages succeed with
  pages that are non-null, in RAM and pairwise distinct; giving them back to \<open>kfree\<close> in any
  order never panics and makes every one of them free again.\<close>

theorem kalloc_kfree_conserve:
  assumes "kmem_inv s ps" and "n \<le> length ps"
  shows "\<exists>qs s1. allocs kalloc n s = Ok (qs, s1) \<and> length qs = n \<and> distinct qs
     \<and> (\<forall>q \<in> set qs. ram_page s q \<and> q \<noteq> 0)
     \<and> (\<forall>rs. distinct rs \<and> set rs = set qs \<longrightarrow>
          (\<exists>s2. frees kfree rs s1 = Ok s2 \<and> kmem_inv s2 (rev rs @ drop n ps)))"
  using assms by (rule kmem.conserve)

theorem kalloc_kfree_conserve_witness:
  "\<exists>qs s1. allocs kalloc 1 one_page = Ok (qs, s1) \<and> length qs = 1 \<and> distinct qs"
  using kalloc_kfree_conserve [OF one_page_inv, of 1] by auto

text \<open>C31: a call of \<open>kalloc\<close> returns the null pointer and leaves the machine alone exactly
  when no page is free; otherwise the page it returns is filled with the junk byte 5, every byte
  outside that page keeps its value, and the CPU and all locks are as before the call.\<close>

theorem kalloc_result:
  assumes "kmem_inv s ps"
  shows "\<exists>p s'. kalloc s = Ok (p, s') \<and> (p = 0 \<longleftrightarrow> ps = [])
     \<and> (p = 0 \<longrightarrow> s' = s)
     \<and> (p \<noteq> 0 \<longrightarrow> ram_page s p \<and> (\<forall>x. mem s' x = (if pageno x = pageno p then 5 else mem s x))
          \<and> kmem_inv s' (tl ps))
     \<and> cpus s' = cpus s \<and> locks s' = locks s"
proof (cases ps)
  case Nil
  with assms show ?thesis by (simp add: kalloc_Nil)
next
  case (Cons p qs)
  then have inv: "kmem_inv s (p # qs)" using assms by simp
  have "ram_page s p" "p \<noteq> 0" using kmem.inv_pages [OF inv, of p] by simp_all
  with Cons kalloc_Cons [OF inv] kmem_inv_kalloc [OF inv] show ?thesis
    by (auto simp: ram_page_def memset_page_at memset_page_other)
qed

theorem kalloc_result_witness:
  "\<exists>p s'. kalloc one_page = Ok (p, s') \<and> p \<noteq> 0
     \<and> (\<forall>x. mem s' x = (if pageno x = pageno p then 5 else mem one_page x))"
  using kalloc_result [OF one_page_inv] by blast

end
