(* ===== verification/Vm_Map.thy ===== *)
theory Vm_Map
  imports Vm
begin

text \<open>
  What the page-table code of Vm does to the address space a page table describes. \<open>tbls\<close>
  and \<open>view\<close> read a page table out of memory; the lemmas say how they react to a store into
  one entry, to a new table and to writes elsewhere, and the operations of src/kernel/vm.c are
  then characterised by their effect on \<open>view\<close>.
\<close>

subsection \<open>Entries\<close>

lemma and1_bit: "e AND 1 \<noteq> 0 \<longleftrightarrow> bit (e :: uint64) 0"
  by (simp add: and_one_eq bit_0 odd_iff_mod_2_eq_one flip: not_mod_2_eq_0_eq_1)

definition pix :: "nat \<Rightarrow> uint64 \<Rightarrow> nat" where
  "pix level va = unat va div 2 ^ (12 + 9 * level) mod 512"

lemma pix_less [simp]: "pix l va < 512"
  by (simp add: pix_def)

lemma unat_PX: "level \<le> 2 \<Longrightarrow> unat (PX level va) = pix level va"
proof -
  have "PX level va = take_bit 9 (drop_bit (12 + 9 * level) va)"
    by (simp add: PX_def take_bit_eq_mask mask_eq_exp_minus_1)
  then have eq: "unat (PX level va) = unat va div unat (2 ^ (12 + 9 * level) :: uint64) mod 512"
    by (simp add: take_bit_eq_mod drop_bit_eq_div unat_mod unat_div)
  assume "level \<le> 2"
  then have "level = 0 \<or> level = 1 \<or> level = 2" by linarith
  then have "unat (2 ^ (12 + 9 * level) :: uint64) = 2 ^ (12 + 9 * level)"
    by (elim disjE) simp_all
  then show ?thesis by (simp only: eq pix_def)
qed

lemma pte_at_PX: "level \<le> 2 \<Longrightarrow> pte_at pt (PX level va) = pt + of_nat (8 * pix level va)"
  by (simp add: pte_at_def flip: unat_PX)

text \<open>Below \<open>MAXVA\<close> the three indices are the digits of the page number.\<close>

lemma pageno_pix:
  assumes "va < MAXVA"
  shows "pageno va = pix 0 va + 512 * (pix 1 va + 512 * pix 2 va)"
proof -
  let ?p = "unat va div 4096"
  have "unat va < 0x4000000000" using assms by (simp add: MAXVA_eq word_less_nat_alt)
  then have "?p < 0x4000000" by simp
  then have "?p div 262144 < 256" by simp
  then have "pix 2 va = ?p div 262144" by (simp add: pix_def flip: div_mult2_eq)
  moreover have "pix 1 va = ?p div 512 mod 512" by (simp add: pix_def flip: div_mult2_eq)
  moreover have "pix 0 va = ?p mod 512" by (simp add: pix_def)
  moreover have "?p div 262144 = ?p div 512 div 512" by (simp flip: div_mult2_eq)
  ultimately show ?thesis
    by (simp add: pageno_def)
qed

definition same_pix :: "nat \<Rightarrow> uint64 \<Rightarrow> uint64 \<Rightarrow> bool" where
  "same_pix l va va' \<longleftrightarrow> (\<forall>k \<le> l. pix k va = pix k va')"

lemma same_pix_Suc: "same_pix (Suc l) va va' \<longleftrightarrow> pix (Suc l) va = pix (Suc l) va' \<and> same_pix l va va'"
  by (auto simp: same_pix_def le_Suc_eq)

lemma same_pix_0: "same_pix 0 va va' \<longleftrightarrow> pix 0 va = pix 0 va'"
  by (simp add: same_pix_def)

lemma pix_pageno: "pix k va = pageno va div 512 ^ k mod 512"
  by (simp add: pix_def pageno_def power_add power_mult flip: div_mult2_eq)

lemma same_pix_pageno:
  assumes "va < MAXVA" and "va' < MAXVA"
  shows "same_pix 2 va va' \<longleftrightarrow> pageno va = pageno va'"
proof
  assume "same_pix 2 va va'"
  then have "pix 0 va = pix 0 va'" "pix 1 va = pix 1 va'" "pix 2 va = pix 2 va'"
    by (simp_all add: same_pix_def)
  then show "pageno va = pageno va'" using assms by (simp add: pageno_pix)
next
  assume "pageno va = pageno va'"
  then show "same_pix 2 va va'" by (simp add: same_pix_def pix_pageno)
qed

lemma PTE2PA_mk:
  assumes "page_aligned pa" and "take_bit 10 perm = perm"
  shows "PTE2PA (PA2PTE pa OR perm OR PTE_V) = pa"
proof -
  have low: "12 \<le> n" if "bit pa n" for n
  proof (rule ccontr)
    assume "\<not> 12 \<le> n"
    have "take_bit 12 pa = 0"
      using assms(1) by (simp add: page_aligned_def take_bit_eq_mod)
    then have "\<not> bit (take_bit 12 pa) n" by simp
    with that \<open>\<not> 12 \<le> n\<close> show False by (simp add: bit_take_bit_iff)
  qed
  have hi: "n < 10" if "bit perm n" for n
    using assms(2) that by (metis bit_take_bit_iff)
  show ?thesis
    unfolding PTE2PA_def PA2PTE_def
    by (rule bit_word_eqI) (use low in \<open>auto simp: bit_simps dest!: hi\<close>)
qed

lemma PTE2PA_link: "page_aligned pa \<Longrightarrow> PTE2PA (PA2PTE pa OR PTE_V) = pa"
  using PTE2PA_mk [of pa 0] by simp

lemma PTE2PA_aligned [simp]: "page_aligned (PTE2PA e)"
proof -
  have "take_bit 12 (PTE2PA e) = 0"
    unfolding PTE2PA_def by (rule bit_word_eqI) (auto simp: bit_simps)
  then show ?thesis by (simp add: page_aligned_def take_bit_eq_mod)
qed

lemma PTE_FLAGS_mk:
  assumes "take_bit 10 perm = perm"
  shows "PTE_FLAGS (PA2PTE pa OR perm OR PTE_V) = perm OR PTE_V"
proof -
  have hi: "n < 10" if "bit perm n" for n
    using assms that by (metis bit_take_bit_iff)
  have m: "(0x3FF :: uint64) = mask 10" by (simp add: mask_eq_exp_minus_1)
  show ?thesis
    unfolding PTE_FLAGS_def PA2PTE_def m
    by (rule bit_word_eqI) (use hi in \<open>auto simp: bit_simps\<close>)
qed

definition ent :: "memory \<Rightarrow> addr \<Rightarrow> nat \<Rightarrow> uint64" where
  "ent m pt i = load64 m (pt + of_nat (8 * i))"

definition agree :: "memory \<Rightarrow> memory \<Rightarrow> addr \<Rightarrow> bool" where
  "agree m m' q \<longleftrightarrow> (\<forall>x. pageno x = pageno q \<longrightarrow> m' x = m x)"

lemma agree_refl [simp]: "agree m m q"
  by (simp add: agree_def)

lemma agree_trans: "agree m m' q \<Longrightarrow> agree m' m'' q \<Longrightarrow> agree m m'' q"
  by (simp add: agree_def)

lemma ent_agree:
  assumes "page_aligned pt" and "agree m m' pt" and "i < 512"
  shows "ent m' pt i = ent m pt i"
  unfolding ent_def
proof (rule load64_cong)
  fix k :: nat assume "k < 8"
  have eq: "pt + of_nat (8 * i) + of_nat k = pt + of_nat (8 * i + k)" by (simp add: add.assoc)
  have "pageno (pt + of_nat (8 * i + k)) = pageno pt"
    using assms \<open>k < 8\<close> by (intro pageno_offset) auto
  then show "m' (pt + of_nat (8 * i) + of_nat k) = m (pt + of_nat (8 * i) + of_nat k)"
    using assms(2) unfolding eq agree_def by blast
qed

lemma offset_in_area:
  "a < 4096 \<Longrightarrow> b < 4096 \<Longrightarrow> unat (of_nat a - of_nat b :: addr) < 8 \<Longrightarrow> b \<le> a \<and> a < b + 8"
  by (auto simp: unat_sub_if' split: if_splits)

lemma ent_store:
  assumes "i < 512" and "j < 512"
  shows "ent (store64 m (pt + of_nat (8 * i)) v) pt j = (if j = i then v else ent m pt j)"
proof (cases "j = i")
  case True
  then show ?thesis by (simp add: ent_def)
next
  case False
  have "load64 (store64 m (pt + of_nat (8 * i)) v) (pt + of_nat (8 * j)) = load64 m (pt + of_nat (8 * j))"
  proof (rule load64_cong, rule store64_other, rule notI)
    fix k :: nat
    assume k: "k < 8" and "in_area (pt + of_nat (8 * i)) 8 (pt + of_nat (8 * j) + of_nat k)"
    then have "unat (of_nat (8 * j + k) - of_nat (8 * i) :: addr) < 8"
      by (simp add: algebra_simps)
    then have "8 * i \<le> 8 * j + k \<and> 8 * j + k < 8 * i + 8"
      using assms k by (intro offset_in_area) simp_all
    then show False
      using False k by simp
  qed
  with False show ?thesis by (simp add: ent_def)
qed

lemma store_slot_agree:
  assumes "page_aligned pt" and "page_aligned q" and "q \<noteq> pt" and "i < 512"
  shows "agree m (store64 m (pt + of_nat (8 * i)) v) q"
  unfolding agree_def
proof (intro allI impI)
  fix x assume "pageno x = pageno q"
  then have "pageno x \<noteq> pageno pt" using assms pageno_inj by metis
  then show "store64 m (pt + of_nat (8 * i)) v x = m x"
    using assms by (intro store64_page_other) auto
qed

subsection \<open>The tables of a page table and what it maps\<close>

fun tbls :: "memory \<Rightarrow> nat \<Rightarrow> addr \<Rightarrow> addr list" where
  "tbls m 0 pt = [pt]"
| "tbls m (Suc l) pt =
     pt # concat (map (\<lambda>i. if bit (ent m pt i) 0 then tbls m l (PTE2PA (ent m pt i)) else []) [0..<512])"

fun view :: "memory \<Rightarrow> nat \<Rightarrow> addr \<Rightarrow> uint64 \<Rightarrow> uint64" where
  "view m 0 pt va = ent m pt (pix 0 va)"
| "view m (Suc l) pt va =
     (if bit (ent m pt (pix (Suc l) va)) 0 then view m l (PTE2PA (ent m pt (pix (Suc l) va))) va else 0)"

text \<open>The tables below entry \<open>i\<close>.\<close>

definition sub :: "memory \<Rightarrow> nat \<Rightarrow> addr \<Rightarrow> nat \<Rightarrow> addr list" where
  "sub m l pt i = (if bit (ent m pt i) 0 then tbls m l (PTE2PA (ent m pt i)) else [])"

lemma tbls_Suc: "tbls m (Suc l) pt = pt # concat (map (sub m l pt) [0..<512])"
  by (simp add: sub_def [abs_def])

declare tbls.simps(2) [simp del]

lemma pt_in_tbls [simp]: "pt \<in> set (tbls m l pt)"
  by (cases l) (simp_all add: tbls_Suc)

lemma set_concat_upt: "set (concat (map f [0..<n])) = (\<Union>i < n. set (f i))"
  by auto

lemma map_upt_cong: "(\<And>i. i < n \<Longrightarrow> f i = g i) \<Longrightarrow> map f [0..<n] = map g [0..<n]"
  by simp

lemma set_tbls_Suc: "set (tbls m (Suc l) pt) = insert pt (\<Union>i < 512. set (sub m l pt i))"
  unfolding tbls_Suc list.set set_concat_upt by (rule refl)

lemma distinct_concat_upt:
  "distinct (concat (map f [0..<n])) \<longleftrightarrow>
     (\<forall>i < n. distinct (f i)) \<and> (\<forall>i < n. \<forall>j < n. i \<noteq> j \<longrightarrow> set (f i) \<inter> set (f j) = {})"
proof (induction n)
  case (Suc n)
  have "concat (map f [0..<Suc n]) = concat (map f [0..<n]) @ f n" by simp
  moreover have "(\<forall>i < Suc n. \<forall>j < Suc n. i \<noteq> j \<longrightarrow> set (f i) \<inter> set (f j) = {}) \<longleftrightarrow>
      (\<forall>i < n. \<forall>j < n. i \<noteq> j \<longrightarrow> set (f i) \<inter> set (f j) = {}) \<and> (\<forall>i < n. set (f i) \<inter> set (f n) = {})"
    unfolding less_Suc_eq by blast
  moreover have "(\<forall>i < Suc n. distinct (f i)) \<longleftrightarrow> (\<forall>i < n. distinct (f i)) \<and> distinct (f n)"
    unfolding less_Suc_eq by blast
  moreover have "set (concat (map f [0..<n])) \<inter> set (f n) = {} \<longleftrightarrow> (\<forall>i < n. set (f i) \<inter> set (f n) = {})"
    unfolding set_concat_upt by blast
  ultimately show ?case
    using Suc.IH by (simp only: distinct_append) blast
qed simp

lemma distinct_tbls_Suc:
  "distinct (tbls m (Suc l) pt) \<longleftrightarrow>
     (\<forall>i < 512. distinct (sub m l pt i) \<and> pt \<notin> set (sub m l pt i))
     \<and> (\<forall>i < 512. \<forall>j < 512. i \<noteq> j \<longrightarrow> set (sub m l pt i) \<inter> set (sub m l pt j) = {})"
  unfolding tbls_Suc distinct.simps distinct_concat_upt set_concat_upt by blast

lemma tbls_aligned: "page_aligned pt \<Longrightarrow> q \<in> set (tbls m l pt) \<Longrightarrow> page_aligned q"
proof (induction l arbitrary: pt)
  case (Suc l)
  then show ?case
    by (auto simp: set_tbls_Suc sub_def split: if_splits intro: Suc.IH [OF PTE2PA_aligned])
qed simp

lemma sub_aligned: "q \<in> set (sub m l pt i) \<Longrightarrow> page_aligned q"
  by (auto simp: sub_def split: if_splits intro: tbls_aligned [OF PTE2PA_aligned])

text \<open>Writes outside the tables are not seen.\<close>

lemma tbls_frame:
  assumes "page_aligned pt" and "\<And>q. q \<in> set (tbls m l pt) \<Longrightarrow> agree m m' q"
  shows "tbls m' l pt = tbls m l pt \<and> view m' l pt = view m l pt"
  using assms
proof (induction l arbitrary: pt)
  case 0
  then show ?case by (auto simp: ent_agree fun_eq_iff)
next
  case (Suc l)
  have e: "ent m' pt i = ent m pt i" if "i < 512" for i
    using Suc.prems that by (intro ent_agree) simp_all
  have s: "tbls m' l (PTE2PA (ent m pt i)) = tbls m l (PTE2PA (ent m pt i))
      \<and> view m' l (PTE2PA (ent m pt i)) = view m l (PTE2PA (ent m pt i))"
    if "i < 512" "bit (ent m pt i) 0" for i
    using that Suc.prems(2) by (intro Suc.IH) (auto simp: set_tbls_Suc sub_def)
  have "sub m' l pt i = sub m l pt i" if "i < 512" for i
    using that e s by (simp add: sub_def)
  then have "map (sub m' l pt) [0..<512] = map (sub m l pt) [0..<512]"
    by (rule map_upt_cong)
  then have "tbls m' (Suc l) pt = tbls m (Suc l) pt"
    by (simp only: tbls_Suc)
  moreover have "view m' (Suc l) pt va = view m (Suc l) pt va" for va
    using e [of "pix (Suc l) va"] s [of "pix (Suc l) va"] by simp
  ultimately show ?case by auto
qed

lemma sub_frame:
  assumes "page_aligned pt" and "ent m' pt i = ent m pt i"
    and "\<And>q. q \<in> set (sub m l pt i) \<Longrightarrow> agree m m' q"
  shows "sub m' l pt i = sub m l pt i"
    and "bit (ent m pt i) 0 \<Longrightarrow> view m' l (PTE2PA (ent m pt i)) = view m l (PTE2PA (ent m pt i))"
  using assms tbls_frame [of "PTE2PA (ent m pt i)" m l m'] by (auto simp: sub_def split: if_splits)

text \<open>
  A change below entry \<open>i\<close> of a table, in which entry \<open>i\<close> comes to point to the table
  \<open>c\<close>, leaves what is below the other entries alone.
\<close>

lemma subtree_link:
  assumes "page_aligned pt" and "i < 512"
    and other: "\<And>j. j < 512 \<Longrightarrow> j \<noteq> i \<Longrightarrow> ent m' pt j = ent m pt j"
    and link: "bit (ent m' pt i) 0" "PTE2PA (ent m' pt i) = c"
    and off: "\<And>q. page_aligned q \<Longrightarrow> q \<noteq> pt \<Longrightarrow> q \<notin> set (tbls m' l c) \<Longrightarrow> agree m m' q"
    and apart: "\<And>j q. j < 512 \<Longrightarrow> j \<noteq> i \<Longrightarrow> q \<in> set (sub m l pt j) \<Longrightarrow> q \<noteq> pt \<and> q \<notin> set (tbls m' l c)"
  shows "sub m' l pt i = tbls m' l c"
    and "j < 512 \<Longrightarrow> j \<noteq> i \<Longrightarrow> sub m' l pt j = sub m l pt j"
    and "view m' (Suc l) pt va =
      (if pix (Suc l) va = i then view m' l c va else view m (Suc l) pt va)"
proof -
  show "sub m' l pt i = tbls m' l c" using link by (simp add: sub_def)
  have agr: "agree m m' q" if "j < 512" "j \<noteq> i" "q \<in> set (sub m l pt j)" for j q
    using off [OF sub_aligned [OF that(3)]] apart [OF that] by blast
  show "sub m' l pt j = sub m l pt j" if "j < 512" "j \<noteq> i" for j
    using sub_frame(1) [OF assms(1) other [OF that]] agr that by blast
  show "view m' (Suc l) pt va = (if pix (Suc l) va = i then view m' l c va else view m (Suc l) pt va)"
  proof (cases "pix (Suc l) va = i")
    case True
    then show ?thesis using link by simp
  next
    case False
    let ?j = "pix (Suc l) va"
    have "bit (ent m pt ?j) 0 \<Longrightarrow> view m' l (PTE2PA (ent m pt ?j)) = view m l (PTE2PA (ent m pt ?j))"
      using sub_frame(2) [OF assms(1) other [OF pix_less False]] agr [OF pix_less False] by blast
    with False other [OF pix_less False] show ?thesis by simp
  qed
qed

subsection \<open>The slot of a virtual address\<close>

text \<open>The address of the leaf entry of \<open>va\<close>, 0 when a table on the way is missing.\<close>

fun slot :: "memory \<Rightarrow> nat \<Rightarrow> addr \<Rightarrow> uint64 \<Rightarrow> addr" where
  "slot m 0 pt va = pt + of_nat (8 * pix 0 va)"
| "slot m (Suc l) pt va =
     (if bit (ent m pt (pix (Suc l) va)) 0 then slot m l (PTE2PA (ent m pt (pix (Suc l) va))) va else 0)"

lemma walk_levels_slot: "l \<le> 2 \<Longrightarrow> walk_levels l pt va False s = Ok (slot (mem s) l pt va, s)"
proof (induction l arbitrary: pt)
  case 0
  then show ?case by (simp add: pte_at_PX)
next
  case (Suc l)
  have "load64 (mem s) (pte_at pt (PX (Suc l) va)) = ent (mem s) pt (pix (Suc l) va)"
    using Suc.prems by (simp add: ent_def pte_at_PX)
  with Suc show ?case by (simp add: and1_bit Let_def)
qed

lemma slot_in_tbls:
  "slot m l pt va \<noteq> 0 \<Longrightarrow>
     \<exists>q \<in> set (tbls m l pt). slot m l pt va = q + of_nat (8 * pix 0 va)"
proof (induction l arbitrary: pt)
  case (Suc l)
  let ?i = "pix (Suc l) va"
  from Suc.prems have b: "bit (ent m pt ?i) 0" and s: "slot m l (PTE2PA (ent m pt ?i)) va \<noteq> 0"
    by (auto split: if_splits)
  from Suc.IH [OF s] obtain q where q: "q \<in> set (tbls m l (PTE2PA (ent m pt ?i)))"
    "slot m l (PTE2PA (ent m pt ?i)) va = q + of_nat (8 * pix 0 va)" by blast
  have "q \<in> set (sub m l pt ?i)" using q(1) b by (simp add: sub_def)
  then have "q \<in> set (tbls m (Suc l) pt)"
    unfolding set_tbls_Suc using pix_less by blast
  with q(2) b show ?case by auto
qed auto

lemma offset_nonzero:
  assumes "page_aligned q" and "q \<noteq> 0" and "i < 512"
  shows "q + of_nat (8 * i) \<noteq> 0"
proof
  assume "q + of_nat (8 * i) = 0"
  then have "pageno 0 = pageno q"
    using pageno_offset [OF assms(1), of "8 * i"] assms(3) by simp
  then show False
    using pageno_inj [of 0 q] assms by (simp add: aligned_unat)
qed

lemma view_slot:
  "view m l pt va = (if slot m l pt va = 0 \<and> 0 < l then view m l pt va else load64 m (slot m l pt va))"
proof (induction l arbitrary: pt)
  case 0
  then show ?case by (simp add: ent_def)
next
  case (Suc l)
  show ?case
  proof (cases "slot m (Suc l) pt va = 0")
    case False
    let ?c = "PTE2PA (ent m pt (pix (Suc l) va))"
    from False have "bit (ent m pt (pix (Suc l) va)) 0" "slot m l ?c va \<noteq> 0"
      by (auto split: if_splits)
    with Suc.IH [of ?c] show ?thesis by (cases l) auto
  qed auto
qed

lemma view_at_slot: "slot m l pt va \<noteq> 0 \<Longrightarrow> view m l pt va = load64 m (slot m l pt va)"
  using view_slot [of m l pt va] by simp

lemma view_no_slot:
  assumes "slot m l pt va = 0" and "page_aligned pt" and "\<And>q. q \<in> set (tbls m l pt) \<Longrightarrow> q \<noteq> 0"
  shows "view m l pt va = 0"
  using assms
proof (induction l arbitrary: pt)
  case 0
  then show ?case using offset_nonzero [of pt "pix 0 va"] by simp
next
  case (Suc l)
  let ?i = "pix (Suc l) va"
  have "q \<noteq> 0" if "bit (ent m pt ?i) 0" "q \<in> set (tbls m l (PTE2PA (ent m pt ?i)))" for q
  proof -
    have "q \<in> set (sub m l pt ?i)" using that by (simp add: sub_def)
    then show ?thesis using Suc.prems(3) [of q] pix_less unfolding set_tbls_Suc by blast
  qed
  with Suc show ?case by (auto split: if_splits)
qed

lemma store_slot:
  assumes "page_aligned pt" and "distinct (tbls m l pt)" and "slot m l pt va \<noteq> 0"
  shows "tbls (store64 m (slot m l pt va) v) l pt = tbls m l pt
     \<and> (\<forall>va'. view (store64 m (slot m l pt va) v) l pt va' =
          (if same_pix l va' va then v else view m l pt va'))
     \<and> slot (store64 m (slot m l pt va) v) l pt va = slot m l pt va"
  using assms
proof (induction l arbitrary: pt)
  case 0
  have "ent (store64 m (pt + of_nat (8 * pix 0 va)) v) pt (pix 0 va') =
      (if pix 0 va' = pix 0 va then v else ent m pt (pix 0 va'))" for va'
    by (rule ent_store) simp_all
  then show ?case by (simp add: same_pix_0)
next
  case (Suc l)
  let ?i = "pix (Suc l) va"
  let ?c = "PTE2PA (ent m pt ?i)"
  let ?a = "slot m l ?c va"
  let ?m = "store64 m ?a v"
  have b: "bit (ent m pt ?i) 0" and nz: "?a \<noteq> 0"
    using Suc.prems(3) by (auto split: if_splits)
  have sl: "slot m (Suc l) pt va = ?a" using b by simp
  have subi: "sub m l pt ?i = tbls m l ?c" using b by (simp add: sub_def)
  have d: "\<And>i. i < 512 \<Longrightarrow> distinct (sub m l pt i)" "\<And>i. i < 512 \<Longrightarrow> pt \<notin> set (sub m l pt i)"
      "\<And>i j. i < 512 \<Longrightarrow> j < 512 \<Longrightarrow> i \<noteq> j \<Longrightarrow> set (sub m l pt i) \<inter> set (sub m l pt j) = {}"
    using Suc.prems(2) unfolding distinct_tbls_Suc by blast+
  have dc: "distinct (tbls m l ?c)" using d(1) [OF pix_less, of "Suc l" va] subi by simp
  have IH: "tbls ?m l ?c = tbls m l ?c"
      "\<And>va'. view ?m l ?c va' = (if same_pix l va' va then v else view m l ?c va')"
      "slot ?m l ?c va = ?a"
    using Suc.IH [OF _ dc nz] by auto
  obtain q0 where q0: "q0 \<in> set (tbls m l ?c)" "?a = q0 + of_nat (8 * pix 0 va)"
    using slot_in_tbls [OF nz] by blast
  have q0a: "page_aligned q0" using q0(1) by (rule tbls_aligned [OF PTE2PA_aligned])
  have off: "agree m ?m q" if "page_aligned q" "q \<notin> set (tbls m l ?c)" for q
  proof -
    have "q \<noteq> q0" using that(2) q0(1) by blast
    then show ?thesis unfolding q0(2) by (rule store_slot_agree [OF q0a that(1) _ pix_less])
  qed
  have ptn: "pt \<notin> set (tbls m l ?c)" using d(2) [OF pix_less, of "Suc l" va] subi by simp
  have entpt: "ent ?m pt j = ent m pt j" if "j < 512" for j
    using that Suc.prems(1) off ptn by (intro ent_agree) auto
  have ap: "q \<noteq> pt \<and> q \<notin> set (tbls ?m l ?c)" if "j < 512" "j \<noteq> ?i" "q \<in> set (sub m l pt j)" for j q
    using that d(2) [of j] d(3) [of j ?i] subi IH(1) by auto
  have link: "bit (ent ?m pt ?i) 0" "PTE2PA (ent ?m pt ?i) = ?c"
    using entpt [OF pix_less] b by simp_all
  have offm: "agree m ?m q" if "page_aligned q" "q \<noteq> pt" "q \<notin> set (tbls ?m l ?c)" for q
    using that off IH(1) by simp
  have subs: "sub ?m l pt j = sub m l pt j" if "j < 512" for j
  proof (cases "j = ?i")
    case True
    then show ?thesis using link b IH(1) by (simp add: sub_def)
  next
    case False
    show ?thesis
      by (rule subtree_link(2) [OF Suc.prems(1) pix_less entpt link offm ap that False])
  qed
  then have "map (sub ?m l pt) [0..<512] = map (sub m l pt) [0..<512]"
    by (rule map_upt_cong)
  then have tb: "tbls ?m (Suc l) pt = tbls m (Suc l) pt" by (simp only: tbls_Suc)
  have "view ?m (Suc l) pt va' = (if same_pix (Suc l) va' va then v else view m (Suc l) pt va')" for va'
  proof -
    have "view ?m (Suc l) pt va' = (if pix (Suc l) va' = ?i then view ?m l ?c va' else view m (Suc l) pt va')"
      by (rule subtree_link(3) [OF Suc.prems(1) pix_less entpt link offm ap])
    then show ?thesis using IH(2) [of va'] b by (auto simp: same_pix_Suc)
  qed
  then show ?case
    unfolding sl using tb entpt [OF pix_less] b IH(3) by simp
qed

subsection \<open>A walk that allocates tables\<close>

definition pt_inv :: "('z) kmem_state_scheme \<Rightarrow> nat \<Rightarrow> addr \<Rightarrow> addr list \<Rightarrow> bool" where
  "pt_inv s l pt ps \<longleftrightarrow> kmem_inv s ps \<and> distinct (tbls (mem s) l pt @ ps)
     \<and> (\<forall>q \<in> set (tbls (mem s) l pt). ram_page s q)"

lemma pt_invD:
  assumes "pt_inv s l pt ps"
  shows "kmem_inv s ps" "distinct (tbls (mem s) l pt)" "distinct ps" "page_aligned pt"
    "q \<in> set (tbls (mem s) l pt) \<Longrightarrow> ram_page s q"
    "q \<in> set (tbls (mem s) l pt) \<Longrightarrow> q \<notin> set ps"
    "q \<in> set (tbls (mem s) l pt) \<Longrightarrow> page_aligned q"
    "q \<in> set (tbls (mem s) l pt) \<Longrightarrow> q \<noteq> 0"
proof -
  show "page_aligned pt" using assms pt_in_tbls [of pt "mem s" l] by (auto simp: pt_inv_def ram_page_def)
  assume "q \<in> set (tbls (mem s) l pt)"
  then have "ram_page s q" using assms by (simp add: pt_inv_def)
  moreover have "0 < kend s" using assms by (simp add: pt_inv_def kmem_inv_def)
  ultimately show "q \<noteq> 0" using ram_page_nonzero by blast
qed (use assms in \<open>auto simp: pt_inv_def ram_page_def\<close>)

text \<open>A zeroed page is an empty table at every level.\<close>

lemma zero_page_table:
  assumes "\<And>x. pageno x = pageno p \<Longrightarrow> m x = 0" and "page_aligned p"
  shows "ent m p i = 0 \<or> 512 \<le> i" "tbls m l p = [p]" "view m l p va = 0"
proof -
  have e: "ent m p i = 0" if "i < 512" for i
    unfolding ent_def
  proof (rule load64_zeroed)
    fix k :: nat assume "k < 8"
    have "pageno (p + of_nat (8 * i + k)) = pageno p"
      using that \<open>k < 8\<close> by (intro pageno_offset [OF assms(2)]) simp
    then show "m (p + of_nat (8 * i) + of_nat k) = 0"
      using assms(1) by (simp add: add.assoc)
  qed
  then show "ent m p i = 0 \<or> 512 \<le> i" by force
  have "map (sub m l p) [0..<512] = map (\<lambda>_. []) [0..<512]" for l
    by (rule map_upt_cong) (simp add: sub_def e)
  then have "concat (map (sub m l p) [0..<512]) = []" for l
    by (simp only:) simp
  then show "tbls m l p = [p]" by (cases l) (simp_all add: tbls_Suc)
  show "view m l p va = 0" by (cases l) (simp_all add: e)
qed

text \<open>The state after a new table \<open>p\<close> has been linked at slot \<open>i\<close> of \<open>pt\<close>.\<close>

definition linked :: "memory \<Rightarrow> addr \<Rightarrow> nat \<Rightarrow> addr \<Rightarrow> memory" where
  "linked m pt i p = store64 (memset (memset m p 5 4096) p 0 4096) (pt + of_nat (8 * i)) (PA2PTE p OR PTE_V)"

lemma linked_props:
  assumes "page_aligned pt" and "page_aligned p" and "p \<noteq> pt" and "i < 512"
  shows "page_aligned q \<Longrightarrow> q \<noteq> pt \<Longrightarrow> q \<noteq> p \<Longrightarrow> agree m (linked m pt i p) q"
    and "pageno x = pageno p \<Longrightarrow> linked m pt i p x = 0"
    and "ent (linked m pt i p) pt i = PA2PTE p OR PTE_V"
    and "j < 512 \<Longrightarrow> j \<noteq> i \<Longrightarrow> ent (linked m pt i p) pt j = ent m pt j"
proof -
  let ?z = "memset (memset m p 5 4096) p 0 4096"
  have z: "agree m ?z q" if "page_aligned q" "q \<noteq> p" for q
  proof -
    have "pageno q \<noteq> pageno p" using that assms(2) pageno_inj by blast
    then show ?thesis using assms(2) by (simp add: agree_def memset_page_other)
  qed
  show "agree m (linked m pt i p) q" if "page_aligned q" "q \<noteq> pt" "q \<noteq> p" for q
    unfolding linked_def
    by (rule agree_trans [OF z [OF that(1,3)] store_slot_agree [OF assms(1) that(1,2) assms(4)]])
  show "linked m pt i p x = 0" if "pageno x = pageno p" for x
  proof -
    have "agree ?z (linked m pt i p) p"
      unfolding linked_def by (rule store_slot_agree [OF assms(1,2) assms(3) assms(4)])
    then show ?thesis using that assms(2) by (simp add: agree_def memset_page_at)
  qed
  show "ent (linked m pt i p) pt i = PA2PTE p OR PTE_V"
    unfolding linked_def using ent_store [OF assms(4,4)] by simp
  show "ent (linked m pt i p) pt j = ent m pt j" if "j < 512" "j \<noteq> i"
  proof -
    have "agree m ?z pt" using z [OF assms(1)] assms(3) by blast
    then show ?thesis
      unfolding linked_def using ent_store [OF assms(4) that(1)] that ent_agree [OF assms(1) _ that(1)]
      by simp
  qed
qed

text \<open>
  What a walk that may allocate does: it takes the pages \<open>new\<close> from the free list and makes
  them tables, changes no other page and nothing of the view, and returns the slot, or 0 when
  the free list ran out.
\<close>

definition same_but_mem :: "('z) kmem_state_scheme \<Rightarrow> ('z) kmem_state_scheme \<Rightarrow> bool" where
  "same_but_mem s s' \<longleftrightarrow> s' = s\<lparr>mem := mem s', freelist := freelist s'\<rparr>"

lemma same_but_memI [simp]: "same_but_mem s s" "same_but_mem s (s\<lparr>mem := m\<rparr>)"
    "same_but_mem s (s\<lparr>mem := m, freelist := f\<rparr>)"
  by (simp_all add: same_but_mem_def)

lemma same_but_mem_trans: "same_but_mem s s' \<Longrightarrow> same_but_mem s' s'' \<Longrightarrow> same_but_mem s s''"
proof -
  assume "same_but_mem s s'" "same_but_mem s' s''"
  then obtain m f m' f' where "s' = s\<lparr>mem := m, freelist := f\<rparr>" "s'' = s'\<lparr>mem := m', freelist := f'\<rparr>"
    unfolding same_but_mem_def by blast
  then show ?thesis by simp
qed

lemma same_but_memD:
  assumes "same_but_mem s s'"
  shows "ram_page s' = ram_page s" "kend s' = kend s" "tp s' = tp s" "cpus s' = cpus s" "locks s' = locks s"
    "etext s' = etext s" "trampoline s' = trampoline s" "kmem_state.more s' = kmem_state.more s"
    "unheld lk s' = unheld lk s" "quiet s' = quiet s"
proof -
  obtain m f where "s' = s\<lparr>mem := m, freelist := f\<rparr>" using assms unfolding same_but_mem_def by blast
  then show "ram_page s' = ram_page s" "kend s' = kend s" "tp s' = tp s" "cpus s' = cpus s" "locks s' = locks s"
    "etext s' = etext s" "trampoline s' = trampoline s" "kmem_state.more s' = kmem_state.more s"
    "unheld lk s' = unheld lk s" "quiet s' = quiet s"
    by simp_all
qed

lemma UN_update:
  "i < n \<Longrightarrow> (\<And>j. j < n \<Longrightarrow> g j = (if j = i then f i \<union> N else f j)) \<Longrightarrow>
     (\<Union>j < n. g j) = (\<Union>j < (n :: nat). f j) \<union> N"
  by (auto split: if_splits)

definition walked :: "('z) kmem_state_scheme \<Rightarrow> ('z) kmem_state_scheme \<Rightarrow> nat \<Rightarrow> addr \<Rightarrow> uint64 \<Rightarrow>
    addr \<Rightarrow> addr list \<Rightarrow> addr list \<Rightarrow> bool" where
  "walked s s' l pt va a new ps' \<longleftrightarrow>
     same_but_mem s s' \<and> pt_inv s' l pt ps'
     \<and> set (tbls (mem s') l pt) = set (tbls (mem s) l pt) \<union> set new
     \<and> view (mem s') l pt = view (mem s) l pt
     \<and> (\<forall>q. page_aligned q \<and> q \<notin> set (tbls (mem s') l pt) \<longrightarrow> agree (mem s) (mem s') q)
     \<and> a = slot (mem s') l pt va
     \<and> (a = 0 \<longrightarrow> ps' = [])"

lemma walk_step:
  assumes inv: "pt_inv s (Suc l) pt (new1 @ new2 @ ps')"
    and sbm: "same_but_mem s s1"
    and i: "i = pix (Suc l) va"
    and other: "\<And>j. j < 512 \<Longrightarrow> j \<noteq> i \<Longrightarrow> ent (mem s1) pt j = ent (mem s) pt j"
    and link: "bit (ent (mem s1) pt i) 0" "PTE2PA (ent (mem s1) pt i) = c"
    and tc: "set (tbls (mem s1) l c) = set (sub (mem s) l pt i) \<union> set new1"
    and vc: "\<And>va'. pix (Suc l) va' = i \<Longrightarrow> view (mem s1) l c va' = view (mem s) (Suc l) pt va'"
    and off: "\<And>q. page_aligned q \<Longrightarrow> q \<noteq> pt \<Longrightarrow> q \<notin> set (tbls (mem s1) l c) \<Longrightarrow> agree (mem s) (mem s1) q"
    and w: "walked s1 s' l c va a new2 ps'"
  shows "walked s s' (Suc l) pt va a (new1 @ new2) ps'"
proof -
  let ?m = "mem s" and ?m1 = "mem s1" and ?m' = "mem s'"
  have i512: "i < 512" by (simp add: i)
  have pta: "page_aligned pt" using pt_invD(4) [OF inv] .
  note D = pt_invD(2) [OF inv, unfolded distinct_tbls_Suc]
  have w': "same_but_mem s1 s'" "pt_inv s' l c ps'" "set (tbls ?m' l c) = set (tbls ?m1 l c) \<union> set new2"
     "view ?m' l c = view ?m1 l c"
     "\<And>q. page_aligned q \<Longrightarrow> q \<notin> set (tbls ?m' l c) \<Longrightarrow> agree ?m1 ?m' q"
     "a = slot ?m' l c va" "a = 0 \<longrightarrow> ps' = []"
    using w by (simp_all add: walked_def)
  have T: "set (tbls ?m' l c) = set (sub ?m l pt i) \<union> set (new1 @ new2)"
    using w'(3) tc by auto
  have notps: "q \<notin> set (new1 @ new2)" if "q \<in> set (tbls ?m (Suc l) pt)" for q
    using pt_invD(6) [OF inv that] by simp
  have ptT: "pt \<notin> set (tbls ?m' l c)"
    using T D i512 notps [OF pt_in_tbls] by blast
  have e1: "ent ?m' pt j = ent ?m1 pt j" if "j < 512" for j
    using that pta w'(5) [OF pta ptT] by (intro ent_agree)
  have other': "ent ?m' pt j = ent ?m pt j" if "j < 512" "j \<noteq> i" for j
    using e1 other that by simp
  have link': "bit (ent ?m' pt i) 0" "PTE2PA (ent ?m' pt i) = c"
    using e1 [OF i512] link by simp_all
  have off': "agree ?m ?m' q" if "page_aligned q" "q \<noteq> pt" "q \<notin> set (tbls ?m' l c)" for q
    using that off [of q] w'(5) [of q] w'(3) agree_trans by blast
  have ap: "q \<noteq> pt \<and> q \<notin> set (tbls ?m' l c)" if "j < 512" "j \<noteq> i" "q \<in> set (sub ?m l pt j)" for j q
  proof -
    have "q \<in> set (tbls ?m (Suc l) pt)" using that unfolding set_tbls_Suc by blast
    then show ?thesis using D that T notps i512 by blast
  qed
  have subi: "sub ?m' l pt i = tbls ?m' l c"
    using link' by (simp add: sub_def)
  have subj: "sub ?m' l pt j = sub ?m l pt j" if "j < 512" "j \<noteq> i" for j
    by (rule subtree_link(2) [OF pta i512 other' link' off' ap that])
  have vw: "view ?m' (Suc l) pt va' = view ?m (Suc l) pt va'" for va'
  proof -
    have "view ?m' (Suc l) pt va' = (if pix (Suc l) va' = i then view ?m' l c va' else view ?m (Suc l) pt va')"
      by (rule subtree_link(3) [OF pta i512 other' link' off' ap])
    then show ?thesis using w'(4) vc [of va'] by simp
  qed
  have TS: "set (tbls ?m' (Suc l) pt) = set (tbls ?m (Suc l) pt) \<union> set (new1 @ new2)"
  proof -
    have "set (sub ?m' l pt j) = (if j = i then set (sub ?m l pt i) \<union> set (new1 @ new2) else set (sub ?m l pt j))"
      if "j < 512" for j using that subi subj [of j] T by (cases "j = i") simp_all
    then have "(\<Union>j < 512. set (sub ?m' l pt j)) = (\<Union>j < 512. set (sub ?m l pt j)) \<union> set (new1 @ new2)"
      using i512 by (intro UN_update)
    then show ?thesis unfolding set_tbls_Suc by blast
  qed
  have "distinct (sub ?m' l pt j) \<and> pt \<notin> set (sub ?m' l pt j)" if "j < 512" for j
    using that subi subj [of j] D ptT pt_invD(2) [OF w'(2)] by (cases "j = i") simp_all
  moreover have "set (sub ?m' l pt j) \<inter> set (sub ?m' l pt k) = {}" if "j < 512" "k < 512" "j \<noteq> k" for j k
    using that subi subj [of j] subj [of k] D ap [of j] ap [of k]
    by (cases "j = i"; cases "k = i") (simp_all, blast+)
  ultimately have dt: "distinct (tbls ?m' (Suc l) pt)"
    unfolding distinct_tbls_Suc by blast
  have ps: "set (tbls ?m' (Suc l) pt) \<inter> set ps' = {}"
    using TS pt_invD(6) [OF inv] pt_invD(3) [OF inv] by auto
  have ram: "ram_page s' q" if "q \<in> set (tbls ?m' (Suc l) pt)" for q
  proof -
    have "q \<in> set (tbls ?m (Suc l) pt) \<or> q \<in> set (new1 @ new2 @ ps')" using that TS by auto
    then have "ram_page s q"
      using pt_invD(5) [OF inv] pt_invD(1) [OF inv] by (auto simp: kmem_inv_def)
    then show ?thesis using same_but_memD(1) [OF same_but_mem_trans [OF sbm w'(1)]] by simp
  qed
  have "pt_inv s' (Suc l) pt ps'"
    unfolding pt_inv_def distinct_append using dt ps ram pt_invD(1,3) [OF w'(2)] by blast
  moreover have "agree ?m ?m' q" if "page_aligned q" "q \<notin> set (tbls ?m' (Suc l) pt)" for q
  proof (rule off' [OF that(1)])
    show "q \<noteq> pt" using that(2) pt_in_tbls by blast
    have "q \<notin> set (sub ?m' l pt i)" using that(2) i512 unfolding set_tbls_Suc by blast
    then show "q \<notin> set (tbls ?m' l c)" by (simp only: subi) simp
  qed
  moreover have "a = slot ?m' (Suc l) pt va"
    using link' w'(6) i by simp
  ultimately show ?thesis
    unfolding walked_def using TS ext [of "view ?m' (Suc l) pt", OF vw] w'(7) same_but_mem_trans [OF sbm w'(1)]
    by blast
qed

lemma freelist_mem_commute: "s\<lparr>freelist := f, mem := m\<rparr> = s\<lparr>mem := m, freelist := f\<rparr>"
  by (cases s) simp

lemma kmem_inv_mem:
  assumes "kmem_inv s ps" and "\<And>q. q \<in> set ps \<Longrightarrow> agree (mem s) m' q"
  shows "kmem_inv (s\<lparr>mem := m'\<rparr>) ps"
proof -
  have "load64 m' q = load64 (mem s) q" if "q \<in> set ps" for q
    using ent_agree [of q "mem s" m' 0] that assms by (auto simp: ent_def kmem_inv_def ram_page_def)
  then have "flist m' (freelist s) ps"
    using flist_other [of "mem s" "freelist s" ps m'] assms(1) by (simp add: kmem_inv_def)
  then show ?thesis using assms(1) by (simp add: kmem_inv_def)
qed

lemma pt_inv_child:
  assumes "pt_inv s (Suc l) pt ps" and "i < 512" and "bit (ent (mem s) pt i) 0"
  shows "pt_inv s l (PTE2PA (ent (mem s) pt i)) ps"
proof -
  have s: "sub (mem s) l pt i = tbls (mem s) l (PTE2PA (ent (mem s) pt i))"
    using assms(3) by (simp add: sub_def)
  have sb: "q \<in> set (tbls (mem s) (Suc l) pt)" if "q \<in> set (sub (mem s) l pt i)" for q
    using that assms(2) unfolding set_tbls_Suc by blast
  have "distinct (sub (mem s) l pt i)"
    using pt_invD(2) [OF assms(1)] assms(2) unfolding distinct_tbls_Suc by blast
  then show ?thesis
    unfolding pt_inv_def distinct_append s [symmetric]
    using pt_invD(1,3) [OF assms(1)] pt_invD(5,6) [OF assms(1) sb] by blast
qed

lemma walked_stop:
  assumes "pt_inv s (Suc l) pt []" and "\<not> bit (ent (mem s) pt (pix (Suc l) va)) 0"
  shows "walked s s (Suc l) pt va 0 [] []"
  using assms by (simp add: walked_def)

text \<open>The new table: the page \<open>p\<close> off the free list, zeroed and linked.\<close>

lemma pt_inv_linked:
  assumes inv: "pt_inv s (Suc l) pt (p # ps)" and i: "i < 512"
  shows "pt_inv (s\<lparr>mem := linked (mem s) pt i p, freelist := load64 (mem s) p\<rparr>) l p ps"
    and "tbls (linked (mem s) pt i p) l p = [p]" and "view (linked (mem s) pt i p) l p va = 0"
    and "page_aligned p" and "p \<noteq> pt"
proof -
  let ?m = "linked (mem s) pt i p"
  have ka: "kmem_inv s (p # ps)" using pt_invD(1) [OF inv] .
  have pa: "page_aligned p" and pr: "ram_page s p"
    using ka by (auto simp: kmem_inv_def ram_page_def)
  have ppt: "p \<noteq> pt" using pt_invD(6) [OF inv pt_in_tbls] by auto
  then show "page_aligned p" "p \<noteq> pt" using pa by simp_all
  note L = linked_props [OF pt_invD(4) [OF inv] pa ppt i]
  have qs: "page_aligned q \<and> q \<noteq> pt \<and> q \<noteq> p" if "q \<in> set ps" for q
    using that ka pt_invD(6) [OF inv pt_in_tbls] by (auto simp: kmem_inv_def ram_page_def)
  show tb: "tbls ?m l p = [p]" by (rule zero_page_table(2) [OF L(2) pa])
  show "view ?m l p va = 0" by (rule zero_page_table(3) [OF L(2) pa])
  let ?s = "s\<lparr>mem := memset (mem s) p 5 4096, freelist := load64 (mem s) p\<rparr>"
  have "kmem_inv ?s ps" by (rule kmem_inv_kalloc [OF ka])
  moreover have "agree (mem ?s) ?m q" if "q \<in> set ps" for q
  proof -
    have "pageno q \<noteq> pageno p" using qs [OF that] pa pageno_inj by blast
    then show ?thesis
      using L(1) [of q] qs [OF that] pa by (simp add: agree_def memset_page_other)
  qed
  ultimately have "kmem_inv (?s\<lparr>mem := ?m\<rparr>) ps" by (rule kmem_inv_mem)
  then have "kmem_inv (s\<lparr>mem := ?m, freelist := load64 (mem s) p\<rparr>) ps" by (simp add: freelist_mem_commute)
  then show "pt_inv (s\<lparr>mem := ?m, freelist := load64 (mem s) p\<rparr>) l p ps"
    using tb pr ka by (auto simp: pt_inv_def kmem_inv_def)
qed

lemma walk_alloc:
  assumes "l \<le> 2" and "pt_inv s l pt ps"
  shows "\<exists>a s' new ps'. walk_levels l pt va True s = Ok (a, s') \<and> ps = new @ ps'
     \<and> walked s s' l pt va a new ps'"
  using assms
proof (induction l arbitrary: s pt ps)
  case 0
  have "pt + of_nat (8 * pix 0 va) \<noteq> 0"
    using pt_invD(4) [OF 0(2)] pt_invD(8) [OF 0(2), of pt] by (intro offset_nonzero) simp_all
  then have "walked s s 0 pt va (pt + of_nat (8 * pix 0 va)) [] ps"
    using 0(2) by (simp add: walked_def)
  then show ?case by (auto simp: pte_at_PX)
next
  case (Suc l)
  let ?i = "pix (Suc l) va"
  let ?e = "ent (mem s) pt ?i"
  have ld: "load64 (mem s) (pte_at pt (PX (Suc l) va)) = ?e"
    using Suc.prems(1) by (simp add: ent_def pte_at_PX)
  have l2: "l \<le> 2" using Suc.prems(1) by simp
  show ?case
  proof (cases "bit ?e 0")
    case True
    have "pt_inv s l (PTE2PA ?e) ps" by (rule pt_inv_child [OF Suc.prems(2) pix_less True])
    then obtain a s' new ps' where w: "walk_levels l (PTE2PA ?e) va True s = Ok (a, s')"
      "ps = new @ ps'" "walked s s' l (PTE2PA ?e) va a new ps'"
      using Suc.IH [OF l2] by blast
    have "walked s s' (Suc l) pt va a ([] @ new) ps'"
      by (rule walk_step [where i = ?i and c = "PTE2PA ?e", OF _ _ _ _ _ _ _ _ _ w(3)])
         (use Suc.prems(2) w(2) True in \<open>simp_all add: sub_def\<close>)
    with w True show ?thesis by (auto simp: ld and1_bit Let_def)
  next
    case False
    show ?thesis
    proof (cases ps)
      case Nil
      then have "walk_levels (Suc l) pt va True s = Ok (0, s)"
        using False pt_invD(1) [OF Suc.prems(2)] by (simp add: ld and1_bit Let_def kalloc_Nil)
      with Nil walked_stop [OF _ False] Suc.prems(2) show ?thesis by auto
    next
      case (Cons p ps1)
      let ?s1 = "s\<lparr>mem := linked (mem s) pt ?i p, freelist := load64 (mem s) p\<rparr>"
      note I = pt_inv_linked [OF Suc.prems(2) [unfolded Cons] pix_less [of "Suc l" va]]
      note L = linked_props [OF pt_invD(4) [OF Suc.prems(2)] I(4,5) pix_less [of "Suc l" va]]
      obtain a s' new ps' where w: "walk_levels l p va True ?s1 = Ok (a, s')"
        "ps1 = new @ ps'" "walked ?s1 s' l p va a new ps'"
        using Suc.IH [OF l2 I(1)] by blast
      have "p \<noteq> 0" using pt_invD(1) [OF Suc.prems(2)] Cons kmem.inv_pages [of s ps p] by simp
      moreover have link: "store64 (memset (memset (mem s) p 5 4096) p 0 4096) (pte_at pt (PX (Suc l) va))
          (PA2PTE p OR PTE_V) = linked (mem s) pt ?i p"
        using Suc.prems(1) by (simp add: linked_def pte_at_PX)
      ultimately have run: "walk_levels (Suc l) pt va True s = Ok (a, s')"
        using False kalloc_Cons [OF pt_invD(1) [OF Suc.prems(2), unfolded Cons]] w(1) link
        by (simp add: ld and1_bit Let_def freelist_mem_commute)
      have "walked s s' (Suc l) pt va a ([p] @ new) ps'"
      proof (rule walk_step [where i = ?i and c = p, OF _ _ _ _ _ _ _ _ _ w(3)])
        show "bit (ent (mem ?s1) pt ?i) 0" using L(3) by (simp add: bit_simps)
        show "PTE2PA (ent (mem ?s1) pt ?i) = p" using L(3) PTE2PA_link [OF I(4)] by simp
      qed (use Suc.prems(2) Cons w(2) False I(2,3) L(1,4) in \<open>simp_all add: sub_def\<close>)
      moreover have "ps = ([p] @ new) @ ps'" using Cons w(2) by simp
      ultimately show ?thesis using run by blast
    qed
  qed
qed

subsection \<open>Operations on one page table\<close>

abbreviation vmap :: "('z) kmem_state_scheme \<Rightarrow> addr \<Rightarrow> uint64 \<Rightarrow> uint64" where
  "vmap s pt \<equiv> view (mem s) 2 pt"

abbreviation tables :: "('z) kmem_state_scheme \<Rightarrow> addr \<Rightarrow> addr set" where
  "tables s pt \<equiv> set (tbls (mem s) 2 pt)"

definition grown :: "('z) kmem_state_scheme \<Rightarrow> ('z) kmem_state_scheme \<Rightarrow> addr \<Rightarrow> addr list \<Rightarrow> addr list \<Rightarrow> bool" where
  "grown s s' pt new ps' \<longleftrightarrow> same_but_mem s s' \<and> pt_inv s' 2 pt ps'
     \<and> tables s' pt = tables s pt \<union> set new
     \<and> (\<forall>q. page_aligned q \<and> q \<notin> tables s' pt \<longrightarrow> agree (mem s) (mem s') q)"

lemma grown_refl: "pt_inv s 2 pt ps \<Longrightarrow> grown s s pt [] ps"
  by (simp add: grown_def)

lemma grown_trans:
  assumes "grown s s1 pt n1 ps1" and "grown s1 s2 pt n2 ps2"
  shows "grown s s2 pt (n1 @ n2) ps2"
proof -
  have "same_but_mem s s2"
    using assms same_but_mem_trans unfolding grown_def by blast
  moreover have "tables s2 pt = tables s pt \<union> set (n1 @ n2)"
    using assms by (auto simp: grown_def)
  moreover have "agree (mem s) (mem s2) q" if "page_aligned q" "q \<notin> tables s2 pt" for q
  proof (rule agree_trans)
    have "q \<notin> tables s1 pt" using that assms(2) by (simp add: grown_def)
    then show "agree (mem s) (mem s1) q" using that assms(1) by (simp add: grown_def)
    show "agree (mem s1) (mem s2) q" using that assms(2) by (simp add: grown_def)
  qed
  ultimately show ?thesis using assms(2) unfolding grown_def by blast
qed

lemma walked_grown: "walked s s' 2 pt va a new ps' \<Longrightarrow> grown s s' pt new ps' \<and> vmap s' pt = vmap s pt"
  by (simp add: walked_def grown_def)

lemma walk_slot: "va < MAXVA \<Longrightarrow> walk pt va False s = Ok (slot (mem s) 2 pt va, s)"
  by (simp add: walk_def not_le walk_levels_slot)

lemma walk_True:
  assumes "va < MAXVA" and "pt_inv s 2 pt ps"
  shows "\<exists>a s' new ps'. walk pt va True s = Ok (a, s') \<and> ps = new @ ps'
     \<and> grown s s' pt new ps' \<and> vmap s' pt = vmap s pt \<and> a = slot (mem s') 2 pt va \<and> (a = 0 \<longrightarrow> ps' = [])"
proof -
  obtain a s' new ps' where w: "walk_levels 2 pt va True s = Ok (a, s')" "ps = new @ ps'"
      "walked s s' 2 pt va a new ps'"
    using walk_alloc [OF order_refl assms(2)] by blast
  moreover have "walk pt va True s = Ok (a, s')" using w(1) assms(1) by (simp add: walk_def not_le)
  moreover have "a = slot (mem s') 2 pt va \<and> (a = 0 \<longrightarrow> ps' = [])" using w(3) by (simp add: walked_def)
  ultimately show ?thesis using walked_grown by blast
qed

text \<open>A store into the slot of \<open>va\<close>.\<close>

lemma store_pte:
  fixes v :: uint64
  assumes inv: "pt_inv s 2 pt ps" and nz: "slot (mem s) 2 pt va \<noteq> 0" and va: "va < MAXVA"
  defines "s' \<equiv> s\<lparr>mem := store64 (mem s) (slot (mem s) 2 pt va) v\<rparr>"
  shows "grown s s' pt [] ps"
    and "va' < MAXVA \<Longrightarrow> vmap s' pt va' = (if pageno va' = pageno va then v else vmap s pt va')"
proof -
  let ?m = "store64 (mem s) (slot (mem s) 2 pt va) v"
  have st: "tbls ?m 2 pt = tbls (mem s) 2 pt"
      "\<And>va'. view ?m 2 pt va' = (if same_pix 2 va' va then v else view (mem s) 2 pt va')"
    using store_slot [OF pt_invD(4,2) [OF inv] nz] by blast+
  then show "vmap s' pt va' = (if pageno va' = pageno va then v else vmap s pt va')" if "va' < MAXVA"
    using that va by (simp add: s'_def same_pix_pageno)
  obtain q0 where q0: "q0 \<in> tables s pt" "slot (mem s) 2 pt va = q0 + of_nat (8 * pix 0 va)"
    using slot_in_tbls [OF nz] by blast
  have ag: "agree (mem s) ?m q" if "page_aligned q" "q \<notin> tables s pt" for q
  proof -
    have "q \<noteq> q0" using that q0 by blast
    then show ?thesis
      unfolding q0(2) by (rule store_slot_agree [OF pt_invD(7) [OF inv q0(1)] that(1) _ pix_less])
  qed
  have "agree (mem s) ?m q" if "q \<in> set ps" for q
  proof (rule ag)
    show "page_aligned q" using that pt_invD(1) [OF inv] by (auto simp: kmem_inv_def ram_page_def)
    show "q \<notin> tables s pt" using that pt_invD(6) [OF inv] by blast
  qed
  then have "kmem_inv s' ps" unfolding s'_def by (rule kmem_inv_mem [OF pt_invD(1) [OF inv]])
  then have "pt_inv s' 2 pt ps" using inv st(1) by (simp add: pt_inv_def s'_def)
  then show "grown s s' pt [] ps" using st(1) ag by (simp add: grown_def s'_def)
qed

subsection \<open>mappages and uvmunmap\<close>

text \<open>The view after \<open>n\<close> pages from \<open>a\<close> on have been mapped to \<open>pa\<close>, \<open>pa + PGSIZE\<close>, \<dots>\<close>

definition map_range :: "(uint64 \<Rightarrow> uint64) \<Rightarrow> uint64 \<Rightarrow> nat \<Rightarrow> uint64 \<Rightarrow> uint64 \<Rightarrow> uint64 \<Rightarrow> uint64" where
  "map_range f a n pa perm va =
     (if pageno a \<le> pageno va \<and> pageno va < pageno a + n
      then PA2PTE (pa + of_nat (4096 * (pageno va - pageno a))) OR perm OR PTE_V else f va)"

lemma map_range_0 [simp]: "map_range f a 0 pa perm = f"
  by (auto simp: map_range_def fun_eq_iff)

lemma next_va:
  assumes "page_aligned a" and "unat a + 4096 * Suc n < 2 ^ 64"
  shows "unat (a + PGSIZE) = unat a + 4096" and "page_aligned (a + PGSIZE)"
    and "pageno (a + PGSIZE) = Suc (pageno a)"
proof -
  show u: "unat (a + PGSIZE) = unat a + 4096" using assms(2) by (simp add: unat_word_ariths)
  show "page_aligned (a + PGSIZE)" using assms(1) by (simp add: aligned_unat u)
  show "pageno (a + PGSIZE) = Suc (pageno a)" by (simp add: pageno_def u)
qed

lemma map_range_step:
  assumes "pageno (a + PGSIZE) = Suc (pageno a)"
    and "\<And>va. va < MAXVA \<Longrightarrow> g va = (if pageno va = pageno a then PA2PTE pa OR perm OR PTE_V else f va)"
    and "va < MAXVA"
  shows "map_range g (a + PGSIZE) n (pa + PGSIZE) perm va = map_range f a (Suc n) pa perm va"
proof (cases "pageno va = pageno a")
  case True
  with assms show ?thesis by (simp add: map_range_def)
next
  case False
  have "pa + PGSIZE + of_nat (4096 * (pageno va - Suc (pageno a))) = pa + of_nat (4096 * (pageno va - pageno a))"
    if "Suc (pageno a) \<le> pageno va"
  proof -
    have "4096 * (pageno va - pageno a) = 4096 + 4096 * (pageno va - Suc (pageno a))" using that by simp
    then show ?thesis by (simp add: add.assoc)
  qed
  with False assms show ?thesis by (auto simp: map_range_def)
qed

lemma map_one_page:
  assumes "pt_inv s 2 pt ps" and "a < MAXVA" and "\<not> bit (vmap s pt a) 0"
  obtains (full) s1 where "walk pt a True s = Ok (0, s1)" "grown s s1 pt ps []" "vmap s1 pt = vmap s pt"
  | (slot) x s1 new ps' where "walk pt a True s = Ok (x, s1)" "x \<noteq> 0" "load64 (mem s1) x AND PTE_V = 0"
      "ps = new @ ps'" "grown s (s1\<lparr>mem := store64 (mem s1) x v\<rparr>) pt new ps'"
      "\<And>va. va < MAXVA \<Longrightarrow> vmap (s1\<lparr>mem := store64 (mem s1) x v\<rparr>) pt va =
                (if pageno va = pageno a then v else vmap s pt va)"
proof -
  obtain x s1 new ps' where w: "walk pt a True s = Ok (x, s1)" "ps = new @ ps'" "grown s s1 pt new ps'"
     "vmap s1 pt = vmap s pt" "x = slot (mem s1) 2 pt a" "x = 0 \<longrightarrow> ps' = []"
    using walk_True [OF assms(2,1)] by blast
  show thesis
  proof (cases "x = 0")
    case True
    with w full show thesis by simp
  next
    case False
    have inv1: "pt_inv s1 2 pt ps'" using w(3) by (simp add: grown_def)
    have nz: "slot (mem s1) 2 pt a \<noteq> 0" using False w(5) by simp
    note st = store_pte [OF inv1 nz assms(2), where v = v, folded w(5)]
    have "\<not> bit (load64 (mem s1) x) 0"
      using assms(3) view_at_slot [OF nz] w(4,5) by simp
    then have v: "load64 (mem s1) x AND PTE_V = 0" using and1_bit by blast
    have g: "grown s (s1\<lparr>mem := store64 (mem s1) x v\<rparr>) pt new ps'"
      using grown_trans [OF w(3) st(1)] by simp
    show thesis
      by (rule slot [OF w(1) False v w(2) g]) (use st(2) w(4) in simp)
  qed
qed

lemma mappages_loop_spec:
  assumes "pt_inv s 2 pt ps" and "page_aligned a" and "unat a + 4096 * Suc n \<le> 0x4000000000"
    and "\<And>va. va < MAXVA \<Longrightarrow> pageno a \<le> pageno va \<Longrightarrow> pageno va \<le> pageno a + n \<Longrightarrow> \<not> bit (vmap s pt va) 0"
  shows "\<exists>r s' new ps' k. mappages_loop pt a (a + of_nat (4096 * n)) pa perm s = Ok (r, s')
     \<and> ps = new @ ps' \<and> grown s s' pt new ps'
     \<and> (\<forall>va < MAXVA. vmap s' pt va = map_range (vmap s pt) a k pa perm va)
     \<and> (r = 0 \<and> k = Suc n \<or> r = -1 \<and> k \<le> n \<and> ps' = [])"
  using assms
proof (induction n arbitrary: s a pa ps)
  case (0 s a pa ps)
  let ?v = "PA2PTE pa OR perm OR PTE_V"
  have aM: "a < MAXVA" using 0(3) by (simp add: MAXVA_eq word_less_nat_alt)
  have nb: "\<not> bit (vmap s pt a) 0" using 0(4) [OF aM] by simp
  show ?case
  proof (rule map_one_page [OF 0(1) aM nb, where v = ?v], goal_cases full slot)
    case (full s1)
    then have "mappages_loop pt a (a + of_nat (4096 * 0)) pa perm s = Ok (-1, s1)"
      by (subst mappages_loop.simps) simp
    with full show ?thesis
      by (intro exI [of _ "-1"] exI [of _ s1] exI [of _ ps] exI [of _ "[]"] exI [of _ 0]) simp
  next
    case (slot x s1 new ps')
    let ?s2 = "s1\<lparr>mem := store64 (mem s1) x ?v\<rparr>"
    have "mappages_loop pt a (a + of_nat (4096 * 0)) pa perm s = Ok (0, ?s2)"
      using slot by (subst mappages_loop.simps) (simp add: Let_def)
    moreover have "\<forall>va < MAXVA. vmap ?s2 pt va = map_range (vmap s pt) a (Suc 0) pa perm va"
      using slot(6) by (auto simp: map_range_def)
    ultimately show ?thesis using slot by blast
  qed
next
  case (Suc n s a pa ps)
  let ?v = "PA2PTE pa OR perm OR PTE_V"
  let ?last = "a + of_nat (4096 * Suc n)"
  have aM: "a < MAXVA" using Suc.prems(3) by (simp add: MAXVA_eq word_less_nat_alt)
  have b: "unat a + 4096 * Suc (Suc n) < 2 ^ 64" using Suc.prems(3) by simp
  note nx = next_va [OF Suc.prems(2) b]
  have ne: "a \<noteq> ?last"
  proof -
    have "unat (of_nat (4096 * Suc n) :: uint64) = 4096 * Suc n" using b by (intro unat_of_nat64) simp
    then show ?thesis by (metis add_cancel_right_right unat_0 mult_eq_0_iff nat.distinct(1) zero_neq_numeral)
  qed
  have last: "?last = (a + PGSIZE) + of_nat (4096 * n)" by (simp add: algebra_simps)
  have nb: "\<not> bit (vmap s pt a) 0" using Suc.prems(4) [OF aM] by simp
  show ?case
  proof (rule map_one_page [OF Suc.prems(1) aM nb, where v = ?v], goal_cases full slot)
    case (full s1)
    then have "mappages_loop pt a ?last pa perm s = Ok (-1, s1)"
      by (subst mappages_loop.simps) simp
    with full show ?thesis
      by (intro exI [of _ "-1"] exI [of _ s1] exI [of _ ps] exI [of _ "[]"] exI [of _ 0]) simp
  next
    case (slot x s1 new ps')
    let ?s2 = "s1\<lparr>mem := store64 (mem s1) x ?v\<rparr>"
    have run: "mappages_loop pt a ?last pa perm s = mappages_loop pt (a + PGSIZE) ?last (pa + PGSIZE) perm ?s2"
      using slot ne by (subst mappages_loop.simps) (simp add: Let_def)
    have inv2: "pt_inv ?s2 2 pt ps'" using slot(5) by (simp add: grown_def)
    have bd: "unat (a + PGSIZE) + 4096 * Suc n \<le> 0x4000000000" using Suc.prems(3) nx(1) by simp
    have free: "\<not> bit (vmap ?s2 pt va) 0"
      if "va < MAXVA" "pageno (a + PGSIZE) \<le> pageno va" "pageno va \<le> pageno (a + PGSIZE) + n" for va
      using that slot(6) [OF that(1)] Suc.prems(4) [OF that(1)] nx(3) by simp
    obtain r s' new' ps'' k where IH: "mappages_loop pt (a + PGSIZE) ?last (pa + PGSIZE) perm ?s2 = Ok (r, s')"
      "ps' = new' @ ps''" "grown ?s2 s' pt new' ps''"
      "\<forall>va < MAXVA. vmap s' pt va = map_range (vmap ?s2 pt) (a + PGSIZE) k (pa + PGSIZE) perm va"
      "r = 0 \<and> k = Suc n \<or> r = -1 \<and> k \<le> n \<and> ps'' = []"
      using Suc.IH [OF inv2 nx(2) bd free, of "pa + PGSIZE", folded last] by blast
    have "grown s s' pt (new @ new') ps''" by (rule grown_trans [OF slot(5) IH(3)])
    moreover have "\<forall>va < MAXVA. vmap s' pt va = map_range (vmap s pt) a (Suc k) pa perm va"
      using IH(4) map_range_step [OF nx(3) slot(6)] by simp
    moreover have "r = 0 \<and> Suc k = Suc (Suc n) \<or> r = -1 \<and> Suc k \<le> Suc n \<and> ps'' = []"
      using IH(5) by auto
    moreover have "ps = (new @ new') @ ps''" using slot(4) IH(2) by simp
    ultimately show ?thesis using run IH(1) by metis
  qed
qed

lemma mappages_spec:
  assumes "pt_inv s 2 pt ps" and "0 < sz" and "unat va + unat sz \<le> 0x4000000000"
    and "\<And>va'. va' < MAXVA \<Longrightarrow> pageno va \<le> pageno va' \<Longrightarrow> pageno va' \<le> pageno (va + sz - 1) \<Longrightarrow>
           \<not> bit (vmap s pt va') 0"
  shows "\<exists>r s' new ps' k. mappages pt va sz pa perm s = Ok (r, s')
     \<and> ps = new @ ps' \<and> grown s s' pt new ps'
     \<and> (\<forall>va' < MAXVA. vmap s' pt va' = map_range (vmap s pt) va k pa perm va')
     \<and> (r = 0 \<and> pageno va + k = Suc (pageno (va + sz - 1)) \<or> r = -1 \<and> pageno va + k \<le> pageno (va + sz - 1) \<and> ps' = [])"
proof -
  let ?a = "PGROUNDDOWN va" and ?e = "va + sz - 1"
  define n where "n = pageno ?e - pageno va"
  have sz: "0 < unat sz" using assms(2) by (simp add: word_less_nat_alt)
  have e: "unat ?e = unat va + unat sz - 1"
  proof -
    have "unat (va + sz) = unat va + unat sz" using assms(3) by (intro unat_add_le) simp
    then show ?thesis using sz by (simp add: unat_sub_if')
  qed
  have le: "pageno va \<le> pageno ?e" using sz unfolding pageno_def e by (intro div_le_mono) simp
  have a: "unat ?a = 4096 * pageno va" by (simp add: PGROUNDDOWN_unat pageno_def)
  have "unat ?e < 0x4000000000" using e sz assms(3) by simp
  then have "pageno ?e < 0x4000000" by (simp add: pageno_def)
  then have bound: "unat ?a + 4096 * Suc n \<le> 0x4000000000" using a le by (simp add: n_def)
  have u: "unat (?a + of_nat (4096 * n)) = unat ?a + 4096 * n"
  proof -
    have "unat (of_nat (4096 * n) :: uint64) = 4096 * n" using bound by (intro unat_of_nat64) simp
    then show ?thesis using bound unat_add_le [of ?a "of_nat (4096 * n)"] by simp
  qed
  note u
  also have "unat ?a + 4096 * n = 4096 * pageno ?e" using le by (simp add: a n_def diff_mult_distrib2)
  also have "\<dots> = unat (PGROUNDDOWN ?e)" by (simp add: PGROUNDDOWN_unat pageno_def)
  finally have last: "PGROUNDDOWN ?e = ?a + of_nat (4096 * n)"
    by (simp only: word_unat_eq_iff)
  have free: "\<not> bit (vmap s pt va') 0"
    if "va' < MAXVA" "pageno ?a \<le> pageno va'" "pageno va' \<le> pageno ?a + n" for va'
    using that assms(4) le by (simp add: n_def)
  obtain r s' new ps' k where L: "mappages_loop pt ?a (?a + of_nat (4096 * n)) pa perm s = Ok (r, s')"
      "ps = new @ ps'" "grown s s' pt new ps'"
      "\<forall>va' < MAXVA. vmap s' pt va' = map_range (vmap s pt) ?a k pa perm va'"
      "r = 0 \<and> k = Suc n \<or> r = -1 \<and> k \<le> n \<and> ps' = []"
    using mappages_loop_spec [OF assms(1) PGROUNDDOWN_aligned bound free] by blast
  have "mappages pt va sz pa perm s = Ok (r, s')"
    using assms(2) L(1) by (simp add: mappages_def last)
  moreover have "map_range (vmap s pt) ?a k pa perm = map_range (vmap s pt) va k pa perm"
    by (simp add: map_range_def fun_eq_iff)
  moreover have "r = 0 \<and> pageno va + k = Suc (pageno ?e) \<or> r = -1 \<and> pageno va + k \<le> pageno ?e \<and> ps' = []"
    using L(5) le by (auto simp: n_def)
  ultimately show ?thesis using L(2,3,4) by metis
qed

subsection \<open>User memory\<close>

text \<open>The physical address of the page \<open>va\<close> is in, when the user may access it, else 0; and
  the byte a user load from \<open>va\<close> reads.\<close>

definition upa :: "('z) kmem_state_scheme \<Rightarrow> addr \<Rightarrow> uint64 \<Rightarrow> addr" where
  "upa s pt va = (if va < MAXVA \<and> bit (vmap s pt va) 0 \<and> bit (vmap s pt va) 4 then PTE2PA (vmap s pt va) else 0)"

definition ubyte :: "('z) kmem_state_scheme \<Rightarrow> addr \<Rightarrow> uint64 \<Rightarrow> byte" where
  "ubyte s pt va = mem s (upa s pt va + (va - PGROUNDDOWN va))"

lemma and16_bit: "e AND 16 \<noteq> 0 \<longleftrightarrow> bit (e :: uint64) 4"
  using and_exp_eq_0_iff_not_bit [of e 4] by simp

lemma walkaddr_spec:
  assumes "pt_inv s 2 pt ps"
  shows "walkaddr pt va s = Ok (upa s pt va)"
proof (cases "va < MAXVA")
  case True
  have z: "view (mem s) 2 pt va = 0" if "slot (mem s) 2 pt va = 0"
    using that pt_invD(4,8) [OF assms] by (intro view_no_slot)
  have z4: "e AND 16 = 0 \<longleftrightarrow> \<not> bit e 4" "e AND 1 = 0 \<longleftrightarrow> \<not> bit e 0" for e :: uint64
    using and16_bit and1_bit by blast+
  show ?thesis
  proof (cases "slot (mem s) 2 pt va = 0")
    case t: True
    then show ?thesis using True z by (simp add: walkaddr_def walk_slot upa_def)
  next
    case False
    then show ?thesis
      using True view_at_slot [OF False] by (simp add: walkaddr_def walk_slot upa_def z4 not_le [symmetric])
  qed
next
  case False
  then have "MAXVA \<le> va" by simp
  with False show ?thesis by (simp add: walkaddr_def upa_def)
qed

lemma view_pageno: "pageno va = pageno va' \<Longrightarrow> view m l pt va = view m l pt va'"
  by (induction l arbitrary: pt) (simp_all add: pix_pageno)

lemma upa_page: "upa s pt (PGROUNDDOWN va) = upa s pt va"
proof -
  have "PGROUNDDOWN va < MAXVA \<longleftrightarrow> va < MAXVA"
    using PGROUNDDOWN_less_MAXVA PGROUNDDOWN_le [of va] by (auto intro: order.strict_trans1)
  then show ?thesis using view_pageno [of "PGROUNDDOWN va" va] by (simp add: upa_def)
qed

text \<open>Inside a page.\<close>

lemma in_page_offset:
  assumes "i < to_page_end va"
  shows "unat (va + of_nat i) = unat va + i" and "pageno (va + of_nat i) = pageno va"
    and "va + of_nat i - PGROUNDDOWN (va + of_nat i) = (va - PGROUNDDOWN va) + of_nat i"
proof -
  have i: "unat va mod 4096 + i < 4096" using assms by (simp add: to_page_end_eq less_diff_conv add.commute)
  have "unat va div 4096 < 2 ^ 52" using unat_less64 [of va] by simp
  moreover have "q * 4096 + r < 2 ^ 64" if "q < 2 ^ 52" "r < 4096" for q r :: nat
    using that by simp
  ultimately have "unat va div 4096 * 4096 + (unat va mod 4096 + i) < 2 ^ 64" using i by blast
  then have lt: "unat va + i < 2 ^ 64" by (simp only: add.assoc [symmetric] div_mult_mod_eq)
  have "unat (of_nat i :: uint64) = i" using i by (intro unat_of_nat64) simp
  with lt show u: "unat (va + of_nat i) = unat va + i" by (subst unat_add_le) simp_all
  have "(unat va + i) div 4096 = unat va div 4096"
  proof -
    have "unat va + i = unat va div 4096 * 4096 + (unat va mod 4096 + i)" by simp
    then show ?thesis using i by (metis div_mult_self3 div_less add.right_neutral add.commute zero_neq_numeral)
  qed
  then show p: "pageno (va + of_nat i) = pageno va" by (simp add: pageno_def u)
  then have "PGROUNDDOWN (va + of_nat i) = PGROUNDDOWN va"
    by (intro pageno_inj) simp_all
  then show "va + of_nat i - PGROUNDDOWN (va + of_nat i) = (va - PGROUNDDOWN va) + of_nat i"
    by simp
qed

lemma upa_offset:
  assumes "i < to_page_end va"
  shows "upa s pt (va + of_nat i) = upa s pt va"
    and "ubyte s pt (va + of_nat i) = mem s (upa s pt va + (va - PGROUNDDOWN va) + of_nat i)"
proof -
  have "PGROUNDDOWN (va + of_nat i) = PGROUNDDOWN va"
    using in_page_offset(2) [OF assms] by (intro pageno_inj) simp_all
  then show u: "upa s pt (va + of_nat i) = upa s pt va"
    using upa_page [of s pt "va + of_nat i"] upa_page [of s pt va] by simp
  show "ubyte s pt (va + of_nat i) = mem s (upa s pt va + (va - PGROUNDDOWN va) + of_nat i)"
    by (simp add: ubyte_def u in_page_offset(3) [OF assms] add.assoc)
qed

lemma to_next_page:
  "PGROUNDDOWN va + PGSIZE = va + of_nat (to_page_end va)"
proof -
  have "of_nat (to_page_end va) = PGSIZE - (va - PGROUNDDOWN va)"
    by (simp add: to_page_end_def)
  then show ?thesis by simp
qed

text \<open>A run of user addresses, and whether every one of them is accessible.\<close>

definition urange :: "('z) kmem_state_scheme \<Rightarrow> addr \<Rightarrow> uint64 \<Rightarrow> nat \<Rightarrow> byte list" where
  "urange s pt va n = map (\<lambda>i. ubyte s pt (va + of_nat i)) [0..<n]"

definition uok :: "('z) kmem_state_scheme \<Rightarrow> addr \<Rightarrow> uint64 \<Rightarrow> nat \<Rightarrow> bool" where
  "uok s pt va n \<longleftrightarrow> (\<forall>i < n. upa s pt (va + of_nat i) \<noteq> 0)"

lemma urange_page:
  "n \<le> to_page_end va \<Longrightarrow> mem_read (mem s) (upa s pt va + (va - PGROUNDDOWN va)) n = urange s pt va n"
  by (rule nth_equalityI) (simp_all add: urange_def upa_offset)

lemma urange_split: "n \<le> len \<Longrightarrow> urange s pt va len = urange s pt va n @ urange s pt (va + of_nat n) (len - n)"
proof -
  assume "n \<le> len"
  then have "[0..<len] = [0..<n] @ [n..<n + (len - n)]"
    using upt_add_eq_append [of 0 n "len - n"] by simp
  then have "urange s pt va len = map (\<lambda>i. ubyte s pt (va + of_nat i)) ([0..<n] @ [n..<n + (len - n)])"
    by (simp only: urange_def)
  also have "[n..<n + (len - n)] = map (\<lambda>i. n + i) [0..<len - n]"
    by (simp add: map_add_upt add.commute)
  finally show ?thesis by (simp add: urange_def add.assoc o_def)
qed

lemma all_less_split:
  "n \<le> len \<Longrightarrow> (\<forall>i < len. P i) \<longleftrightarrow> (\<forall>i < n. P i) \<and> (\<forall>i. n \<le> i \<and> i < (len :: nat) \<longrightarrow> P i)"
  by (auto simp: not_le [symmetric])

lemma uok_split: "n \<le> len \<Longrightarrow> uok s pt va len \<longleftrightarrow> uok s pt va n \<and> uok s pt (va + of_nat n) (len - n)"
proof -
  assume n: "n \<le> len"
  have "uok s pt (va + of_nat n) (len - n) \<longleftrightarrow> (\<forall>i. n \<le> i \<and> i < len \<longrightarrow> upa s pt (va + of_nat i) \<noteq> 0)"
  proof (intro iffI allI impI)
    fix i assume u: "uok s pt (va + of_nat n) (len - n)" and i: "n \<le> i \<and> i < len"
    have "upa s pt (va + of_nat n + of_nat (i - n)) \<noteq> 0"
      using u [unfolded uok_def, rule_format, of "i - n"] i diff_less_mono [of i len n] by blast
    then show "upa s pt (va + of_nat i) \<noteq> 0" using i by (simp add: of_nat_diff)
  next
    assume a: "\<forall>i. n \<le> i \<and> i < len \<longrightarrow> upa s pt (va + of_nat i) \<noteq> 0"
    show "uok s pt (va + of_nat n) (len - n)"
      unfolding uok_def
    proof (intro allI impI)
      fix i assume "i < len - n"
      then show "upa s pt (va + of_nat n + of_nat i) \<noteq> 0" using a [rule_format, of "n + i"] by (simp add: add.assoc)
    qed
  qed
  then show ?thesis
    using all_less_split [OF n, of "\<lambda>i. upa s pt (va + of_nat i) \<noteq> 0"]
    by (simp only: uok_def [of s pt va])
qed

lemma uok_page: "0 < n \<Longrightarrow> n \<le> to_page_end va \<Longrightarrow> uok s pt va n \<longleftrightarrow> upa s pt va \<noteq> 0"
  by (auto simp: uok_def upa_offset)

lemma copyin_loop_spec:
  assumes "pt_inv s 2 pt ps"
  shows "if uok s pt va len then copyin_loop pt va len dst s = Ok (0, dst @ urange s pt va len)
     else (\<exists>dst'. copyin_loop pt va len dst s = Ok (-1, dst'))"
  using assms
proof (induction pt va len dst s rule: copyin_loop.induct)
  case (1 pt va len dst s)
  show ?case
  proof (cases "len = 0")
    case True
    then show ?thesis by (simp add: copyin_loop.simps [of pt va] uok_def urange_def)
  next
    case False
    define n where "n = min (to_page_end va) len"
    have n: "0 < n" "n \<le> to_page_end va" "n \<le> len" using False to_page_end_pos by (simp_all add: n_def)
    have w: "walkaddr pt (PGROUNDDOWN va) s = Ok (upa s pt va)"
      using walkaddr_spec [OF 1(2)] by (simp add: upa_page)
    show ?thesis
    proof (cases "upa s pt va = 0")
      case True
      then have "\<not> uok s pt va len" using uok_split [OF n(3), of s pt va] uok_page [OF n(1,2), of s pt] by simp
      with True w False show ?thesis by (simp add: copyin_loop.simps [of pt va])
    next
      case nz: False
      let ?va = "PGROUNDDOWN va + PGSIZE" and ?dst = "dst @ urange s pt va n"
      have run: "copyin_loop pt va len dst s = copyin_loop pt ?va (len - n) ?dst s"
        using nz w False urange_page [OF n(2), of s pt]
        by (subst copyin_loop.simps) (simp add: Let_def flip: n_def)
      have IH: "if uok s pt ?va (len - n)
          then copyin_loop pt ?va (len - n) ?dst s = Ok (0, ?dst @ urange s pt ?va (len - n))
          else (\<exists>dst'. copyin_loop pt ?va (len - n) ?dst s = Ok (-1, dst'))"
        using "1.IH" [OF _ refl w nz n_def "1.prems"] False
        unfolding urange_page [OF n(2)] by blast
      show ?thesis
      proof (cases "n = to_page_end va")
        case True
        then have "?va = va + of_nat n" by (simp only: to_next_page)
        then show ?thesis
          using run IH urange_split [OF n(3), of s pt va] uok_split [OF n(3), of s pt va]
            uok_page [OF n(1,2), of s pt] nz by (simp split: if_split_asm)
      next
        case False
        then have "n = len" by (simp add: n_def min_def split: if_splits)
        then show ?thesis
          using run uok_page [OF n(1,2), of s pt] nz by (simp add: copyin_loop.simps [of pt ?va])
      qed
    qed
  qed
qed

lemma copyin_spec:
  assumes "pt_inv s 2 pt ps"
  shows "if uok s pt va len then copyin pt va len s = Ok (0, urange s pt va len)
     else (\<exists>dst'. copyin pt va len s = Ok (-1, dst'))"
  using copyin_loop_spec [OF assms, of va len "[]"] by (simp add: copyin_def)

text \<open>Writing into a page that is neither a table nor free.\<close>

lemma mem_write_page_agree:
  assumes "page_aligned p" and "k + length bs \<le> 4096" and "page_aligned q" and "q \<noteq> p"
  shows "agree m (mem_write m (p + of_nat k) bs) q"
  unfolding agree_def
proof (intro allI impI, rule mem_write_other, rule notI)
  fix x assume x: "pageno x = pageno q" and in_a: "in_area (p + of_nat k) (length bs) x"
  let ?j = "unat (x - (p + of_nat k))"
  have "x = p + of_nat (k + ?j)" by simp
  moreover have "k + ?j < 4096" using in_a assms(2) by simp
  ultimately have "pageno x = pageno p" using pageno_offset [OF assms(1)] by metis
  then show False using x assms pageno_inj by metis
qed

lemma user_write:
  assumes inv: "pt_inv s 2 pt ps" and p: "page_aligned p" "p \<notin> tables s pt" "p \<notin> set ps"
    and "k + length bs \<le> 4096"
  defines "s' \<equiv> s\<lparr>mem := mem_write (mem s) (p + of_nat k) bs\<rparr>"
  shows "pt_inv s' 2 pt ps" and "vmap s' pt = vmap s pt" and "tables s' pt = tables s pt"
    and "upa s' pt = upa s pt"
proof -
  let ?m = "mem_write (mem s) (p + of_nat k) bs"
  have ag: "agree (mem s) ?m q" if "page_aligned q" "q \<noteq> p" for q
    using mem_write_page_agree [OF p(1) assms(5) that] .
  have "agree (mem s) ?m q" if "q \<in> tables s pt" for q
    using that ag [OF pt_invD(7) [OF inv that]] p(2) by blast
  then have t: "tbls ?m 2 pt = tbls (mem s) 2 pt \<and> view ?m 2 pt = view (mem s) 2 pt"
    by (rule tbls_frame [OF pt_invD(4) [OF inv]])
  have "agree (mem s) ?m q" if "q \<in> set ps" for q
    using that ag p(3) pt_invD(1) [OF inv] by (auto simp: kmem_inv_def ram_page_def)
  then have "kmem_inv s' ps" unfolding s'_def by (rule kmem_inv_mem [OF pt_invD(1) [OF inv]])
  then show "pt_inv s' 2 pt ps" using inv t by (simp add: pt_inv_def s'_def)
  show "vmap s' pt = vmap s pt" "tables s' pt = tables s pt" using t by (simp_all add: s'_def)
  then show "upa s' pt = upa s pt" by (simp add: upa_def fun_eq_iff)
qed

text \<open>The physical address behind a user address.\<close>

definition phys :: "('z) kmem_state_scheme \<Rightarrow> addr \<Rightarrow> uint64 \<Rightarrow> addr" where
  "phys s pt va = upa s pt va + (va - PGROUNDDOWN va)"

lemma phys_offset: "i < to_page_end va \<Longrightarrow> phys s pt (va + of_nat i) = phys s pt va + of_nat i"
  by (simp add: phys_def upa_offset in_page_offset add.assoc)

lemma page_write_at:
  assumes "n \<le> to_page_end va" and "length bs = n"
  shows "i < n \<Longrightarrow> mem_write m (phys s pt va) bs (phys s pt (va + of_nat i)) = bs ! i"
    and "(\<And>i. i < n \<Longrightarrow> x \<noteq> phys s pt (va + of_nat i)) \<Longrightarrow> mem_write m (phys s pt va) bs x = m x"
proof -
  have le: "n \<le> 4096" using assms(1) by (simp add: to_page_end_eq)
  show "mem_write m (phys s pt va) bs (phys s pt (va + of_nat i)) = bs ! i" if "i < n"
    using that assms le by (simp add: phys_offset mem_write_nth)
  assume ne: "\<And>i. i < n \<Longrightarrow> x \<noteq> phys s pt (va + of_nat i)"
  show "mem_write m (phys s pt va) bs x = m x"
  proof (rule mem_write_other, rule notI)
    assume "in_area (phys s pt va) (length bs) x"
    then have "x \<noteq> phys s pt va + of_nat (unat (x - phys s pt va))"
      using ne [of "unat (x - phys s pt va)"] assms phys_offset [of "unat (x - phys s pt va)" va s pt] by simp
    then show False by simp
  qed
qed

lemma copy_chunk:
  assumes "pt_inv s 2 pt ps" and "upa s pt va \<noteq> 0" and "upa s pt va \<notin> tables s pt" "upa s pt va \<notin> set ps"
    and "n \<le> to_page_end va" and "length bs = n"
  defines "s1 \<equiv> s\<lparr>mem := mem_write (mem s) (phys s pt va) bs\<rparr>"
  shows "pt_inv s1 2 pt ps" and "vmap s1 pt = vmap s pt" and "tables s1 pt = tables s pt"
    and "upa s1 pt = upa s pt" and "phys s1 pt = phys s pt"
proof -
  have al: "page_aligned (upa s pt va)" using assms(2) by (auto simp: upa_def split: if_splits)
  have ph: "phys s pt va = upa s pt va + of_nat (unat (va - PGROUNDDOWN va))" by (simp add: phys_def)
  have kn: "unat (va - PGROUNDDOWN va) + length bs \<le> 4096"
    using assms(5,6) by (simp add: to_page_end_eq unat_page_offset)
  note U = user_write [OF assms(1) al assms(3,4) kn, folded ph, folded s1_def]
  show "pt_inv s1 2 pt ps" "vmap s1 pt = vmap s pt" "tables s1 pt = tables s pt" "upa s1 pt = upa s pt"
    by (rule U(1), rule U(2), rule U(3), rule U(4))
  then show "phys s1 pt = phys s pt" by (simp add: phys_def fun_eq_iff)
qed

definition addrs :: "uint64 \<Rightarrow> nat \<Rightarrow> uint64 set" where
  "addrs va n = (\<lambda>i. va + of_nat i) ` {..<n}"

lemma addrs_split: "n \<le> len \<Longrightarrow> addrs va len = addrs va n \<union> addrs (va + of_nat n) (len - n)"
proof -
  assume n: "n \<le> len"
  then have "{..<len} = {..<n} \<union> (\<lambda>i. n + i) ` {..<len - n}"
    by (auto simp: image_iff) (metis le_add_diff_inverse less_diff_conv2 not_le add.commute lessThan_iff less_diff_conv)
  then show ?thesis by (simp add: addrs_def image_Un image_image add.assoc)
qed

lemma copyout_spec:
  assumes "pt_inv s 2 pt ps"
    and "\<And>a. a \<in> addrs va (length bs) \<Longrightarrow> upa s pt a \<noteq> 0 \<Longrightarrow> upa s pt a \<notin> tables s pt \<and> upa s pt a \<notin> set ps"
  shows "\<exists>r s'. copyout pt va bs s = Ok (r, s') \<and> pt_inv s' 2 pt ps \<and> same_but_mem s s'
     \<and> vmap s' pt = vmap s pt \<and> tables s' pt = tables s pt
     \<and> r = (if uok s pt va (length bs) then 0 else -1)
     \<and> (\<forall>x. x \<notin> phys s pt ` addrs va (length bs) \<longrightarrow> mem s' x = mem s x)
     \<and> (r = 0 \<and> inj_on (phys s pt) (addrs va (length bs)) \<and> length bs < 2 ^ 64 \<longrightarrow>
          (\<forall>i < length bs. mem s' (phys s pt (va + of_nat i)) = bs ! i))"
  using assms
proof (induction pt va bs s rule: copyout.induct)
  case (1 pt va bs s)
  show ?case
  proof (cases "bs = []")
    case True
    then show ?thesis using 1(2) by (simp add: copyout.simps [of pt va] uok_def)
  next
    case False
    define n where "n = min (to_page_end va) (length bs)"
    have n: "0 < n" "n \<le> to_page_end va" "n \<le> length bs" using False to_page_end_pos by (simp_all add: n_def)
    have w: "walkaddr pt (PGROUNDDOWN va) s = Ok (upa s pt va)"
      using walkaddr_spec [OF 1(2)] by (simp add: upa_page)
    show ?thesis
    proof (cases "upa s pt va = 0")
      case True
      then have "\<not> uok s pt va (length bs)"
        using uok_split [OF n(3), of s pt va] uok_page [OF n(1,2), of s pt] by simp
      with True w False 1(2) show ?thesis by (simp add: copyout.simps [of pt va])
    next
      case nz: False
      let ?va = "PGROUNDDOWN va + PGSIZE" and ?rest = "drop n bs"
      define s1 where "s1 = s\<lparr>mem := mem_write (mem s) (phys s pt va) (take n bs)\<rparr>"
      have lt: "length (take n bs) = n" using n(3) by simp
      have run: "copyout pt va bs s = copyout pt ?va ?rest s1"
        using nz w False by (subst copyout.simps) (simp add: Let_def s1_def phys_def flip: n_def)
      have va0: "va \<in> addrs va (length bs)"
        using False by (auto simp: addrs_def image_iff intro!: bexI [of _ 0])
      have nt: "upa s pt va \<notin> tables s pt" "upa s pt va \<notin> set ps" using "1.prems"(2) [OF va0 nz] by simp_all
      note U = copy_chunk [OF "1.prems"(1) nz nt n(2) lt, folded s1_def]
      have up: "upa s1 pt = upa s pt" and phe: "phys s1 pt = phys s pt" by (rule U(4), rule U(5))
      have ad: "addrs ?va (length ?rest) = addrs (va + of_nat n) (length bs - n)"
        and uo: "uok s1 pt ?va (length ?rest) \<longleftrightarrow> uok s pt (va + of_nat n) (length bs - n)"
        using n_def to_next_page [of va] up by (auto simp: addrs_def uok_def min_def split: if_splits)
      have "\<exists>r s'. copyout pt ?va ?rest s1 = Ok (r, s') \<and> pt_inv s' 2 pt ps \<and> same_but_mem s1 s'
         \<and> vmap s' pt = vmap s1 pt \<and> tables s' pt = tables s1 pt
         \<and> r = (if uok s1 pt ?va (length ?rest) then 0 else -1)
         \<and> (\<forall>x. x \<notin> phys s1 pt ` addrs ?va (length ?rest) \<longrightarrow> mem s' x = mem s1 x)
         \<and> (r = 0 \<and> inj_on (phys s1 pt) (addrs ?va (length ?rest)) \<and> length ?rest < 2 ^ 64 \<longrightarrow>
              (\<forall>i < length ?rest. mem s' (phys s1 pt (?va + of_nat i)) = ?rest ! i))"
      proof (rule "1.IH" [OF _ refl w nz n_def])
        show "0 < length bs" using False by simp
        show "s1 = s\<lparr>mem := mem_write (mem s) (upa s pt va + (va - PGROUNDDOWN va)) (take n bs)\<rparr>"
          by (simp add: s1_def phys_def)
        show "pt_inv s1 2 pt ps" by (rule U(1))
        show "upa s1 pt a \<notin> tables s1 pt \<and> upa s1 pt a \<notin> set ps"
          if "a \<in> addrs ?va (length ?rest)" "upa s1 pt a \<noteq> 0" for a
          using that "1.prems"(2) [of a] addrs_split [OF n(3), of va] ad U(3,4) by simp
      qed
      then obtain r s' where IH: "copyout pt ?va ?rest s1 = Ok (r, s')" "pt_inv s' 2 pt ps" "same_but_mem s1 s'"
          "vmap s' pt = vmap s1 pt" "tables s' pt = tables s1 pt"
          "r = (if uok s pt (va + of_nat n) (length bs - n) then 0 else -1)"
          "\<And>x. x \<notin> phys s pt ` addrs (va + of_nat n) (length bs - n) \<Longrightarrow> mem s' x = mem s1 x"
          "r = 0 \<Longrightarrow> inj_on (phys s pt) (addrs (va + of_nat n) (length bs - n)) \<Longrightarrow> length ?rest < 2 ^ 64 \<Longrightarrow>
             (\<forall>i < length ?rest. mem s' (phys s pt (?va + of_nat i)) = ?rest ! i)"
        unfolding ad uo phe by blast
      have spl: "addrs va (length bs) = addrs va n \<union> addrs (va + of_nat n) (length bs - n)"
        by (rule addrs_split [OF n(3)])
      have r: "r = (if uok s pt va (length bs) then 0 else -1)"
        using IH(6) uok_split [OF n(3), of s pt va] uok_page [OF n(1,2), of s pt] nz by simp
      have fr: "mem s' x = mem s x" if "x \<notin> phys s pt ` addrs va (length bs)" for x
      proof -
        have "mem s1 x = mem s x"
          unfolding s1_def using that spl
          by (simp, intro page_write_at(2) [OF n(2) lt]) (auto simp: addrs_def)
        then show ?thesis using IH(7) [of x] that spl by auto
      qed
      have ct: "mem s' (phys s pt (va + of_nat i)) = bs ! i"
        if i: "i < length bs" and r0: "r = 0" and inj: "inj_on (phys s pt) (addrs va (length bs))"
          and len: "length bs < 2 ^ 64" for i
      proof (cases "i < n")
        case True
        have "va + of_nat i \<notin> addrs (va + of_nat n) (length bs - n)"
          using True len i by (auto simp: addrs_def add.assoc simp flip: of_nat_add simp: of_nat_inj64)
        moreover have "va + of_nat i \<in> addrs va (length bs)" using i by (auto simp: addrs_def)
        ultimately have "phys s pt (va + of_nat i) \<notin> phys s pt ` addrs (va + of_nat n) (length bs - n)"
          using inj_on_image_mem_iff [OF inj] spl by blast
        then have "mem s' (phys s pt (va + of_nat i)) = mem s1 (phys s pt (va + of_nat i))" by (rule IH(7))
        also have "\<dots> = bs ! i" using True by (simp add: s1_def page_write_at(1) [OF n(2) lt])
        finally show ?thesis .
      next
        case False
        then have "n < length bs" using i by simp
        then have "?va = va + of_nat n" using to_next_page [of va] by (simp add: n_def min_def split: if_splits)
        moreover have "inj_on (phys s pt) (addrs (va + of_nat n) (length bs - n))"
          using inj unfolding spl by (rule inj_on_subset) simp
        moreover have "length ?rest < 2 ^ 64" "i - n < length ?rest" using len False i by simp_all
        ultimately have "mem s' (phys s pt (va + of_nat n + of_nat (i - n))) = ?rest ! (i - n)"
          using IH(8) [OF r0] by metis
        then show ?thesis using False i by (simp add: of_nat_diff)
      qed
      have "same_but_mem s s'" using IH(3) same_but_mem_trans [of s s1] by (simp add: s1_def)
      moreover have "vmap s' pt = vmap s pt" "tables s' pt = tables s pt" using IH(4,5) U(2,3) by simp_all
      ultimately show ?thesis using run IH(1,2) r fr ct by (intro exI [of _ r] exI [of _ s']) simp
    qed
  qed
qed

subsection \<open>Properties\<close>

text \<open>A machine with one address space: three tables and one user page, mapped at address 0;
  no page is free.\<close>

definition one_user_page :: kmem_state where
  "one_user_page = machine.extend
     (boot_machine\<lparr>mem :=
        store64 (store64 (store64 (\<lambda>_. 0) 0x87ff1000 (PA2PTE 0x87ff2000 OR PTE_V))
                 0x87ff2000 (PA2PTE 0x87ff3000 OR PTE_V))
          0x87ff3000 (PA2PTE 0x87ff4000 OR (PTE_R OR PTE_W OR PTE_U) OR PTE_V)\<rparr>)
     \<lparr>freelist = 0\<rparr>"

lemma ent_zero: "ent (\<lambda>_. 0) p i = 0"
  by (simp add: ent_def load64_zeroed)

lemma ent_store_page:
  assumes "page_aligned p" and "page_aligned q" and "i < 512"
  shows "ent (store64 m p v) q i = (if q = p \<and> i = 0 then v else ent m q i)"
proof (cases "q = p")
  case True
  then show ?thesis using ent_store [of 0 i m p v] assms(3) by simp
next
  case False
  then show ?thesis
    using ent_agree [OF assms(2) store_slot_agree [OF assms(1,2) False, of 0 m v] assms(3)] by simp
qed

lemma one_user_page_ent:
  assumes "i < 512" and "page_aligned q"
  shows "ent (mem one_user_page) q i =
    (if i \<noteq> 0 then 0 else if q = 0x87ff3000 then PA2PTE 0x87ff4000 OR (PTE_R OR PTE_W OR PTE_U) OR PTE_V
     else if q = 0x87ff2000 then PA2PTE 0x87ff3000 OR PTE_V
     else if q = 0x87ff1000 then PA2PTE 0x87ff2000 OR PTE_V else 0)"
proof -
  have "page_aligned 0x87ff1000" "page_aligned 0x87ff2000" "page_aligned 0x87ff3000"
    by (simp_all add: page_aligned_def)
  then show ?thesis
    using assms by (simp add: one_user_page_def machine.defs boot_machine_def ent_store_page ent_zero)
qed

lemma one_entry_table:
  assumes "\<And>i. i < 512 \<Longrightarrow> ent m p i = (if i = 0 then e else 0)" and "bit e 0"
  shows "tbls m (Suc l) p = p # tbls m l (PTE2PA e)"
    and "view m (Suc l) p va = (if pix (Suc l) va = 0 then view m l (PTE2PA e) va else 0)"
proof -
  have e0: "ent m p 0 = e" using assms(1) [of 0] by simp
  have z: "ent m p i = 0" if "i < 512" "i \<noteq> 0" for i using assms(1) that by simp
  have "[0..<Suc n] = 0 # map Suc [0..<n]" for n by (simp add: map_Suc_upt upt_conv_Cons del: upt_Suc)
  from this [of 511] have "[0..<512] = 0 # map Suc [0..<511]" by (simp only: Suc_numeral add_num_simps)
  moreover have "sub m l p (Suc i) = []" if "i < 511" for i
    using z [of "Suc i"] that by (simp add: sub_def)
  then have "map (\<lambda>i. sub m l p (Suc i)) [0..<511] = map (\<lambda>_. []) [0..<511]"
    by (rule map_upt_cong)
  then have "concat (map (\<lambda>i. sub m l p (Suc i)) [0..<511]) = []" by (simp only:) simp
  ultimately have "concat (map (sub m l p) [0..<512]) = sub m l p 0"
    by (simp only: list.map map_map o_def concat.simps append_Nil2)
  then show "tbls m (Suc l) p = p # tbls m l (PTE2PA e)"
    using e0 assms(2) by (simp only: tbls_Suc) (simp add: sub_def)
  show "view m (Suc l) p va = (if pix (Suc l) va = 0 then view m l (PTE2PA e) va else 0)"
    using e0 z [of "pix (Suc l) va"] assms(2) by simp
qed

lemma one_user_page_inv:
  "pt_inv one_user_page 2 0x87ff1000 []"
  "tables one_user_page 0x87ff1000 = {0x87ff1000, 0x87ff2000, 0x87ff3000}"
  "va < MAXVA \<Longrightarrow> vmap one_user_page 0x87ff1000 va =
     (if pageno va = 0 then PA2PTE 0x87ff4000 OR (PTE_R OR PTE_W OR PTE_U) OR PTE_V else 0)"
proof -
  let ?m = "mem one_user_page"
  have al: "page_aligned 0x87ff1000" "page_aligned 0x87ff2000" "page_aligned 0x87ff3000" "page_aligned 0x87ff4000"
    by (simp_all add: page_aligned_def)
  have l: "PTE2PA (PA2PTE 0x87ff2000 OR PTE_V) = 0x87ff2000" "PTE2PA (PA2PTE 0x87ff3000 OR PTE_V) = 0x87ff3000"
    by (rule PTE2PA_link, rule al)+
  have b: "bit (e OR PTE_V) 0" for e by (simp add: bit_simps)
  have e1: "ent ?m 0x87ff1000 i = (if i = 0 then PA2PTE 0x87ff2000 OR PTE_V else 0)"
    and e2: "ent ?m 0x87ff2000 i = (if i = 0 then PA2PTE 0x87ff3000 OR PTE_V else 0)"
    and e3: "ent ?m 0x87ff3000 i = (if i = 0 then PA2PTE 0x87ff4000 OR (PTE_R OR PTE_W OR PTE_U) OR PTE_V else 0)"
    if "i < 512" for i
    using that by (simp_all add: one_user_page_ent al)
  have two: "2 = Suc (Suc 0)" by simp
  note t1 = one_entry_table [OF e2 b, where l = 0, unfolded l tbls.simps(1)]
  note t2 = one_entry_table [OF e1 b, where l = "Suc 0", unfolded l t1(1), folded two]
  show "tables one_user_page 0x87ff1000 = {0x87ff1000, 0x87ff2000, 0x87ff3000}" by (simp add: t2 t1)
  have "kmem_inv one_user_page []"
    by (simp add: kmem_inv_def one_user_page_def machine.defs boot_machine_def unheld_def quiet_def mycpu_def
        idle_cpu_def)
  moreover have "kend one_user_page = 0x80021000"
    by (simp add: one_user_page_def machine.defs boot_machine_def)
  ultimately show "pt_inv one_user_page 2 0x87ff1000 []"
    by (simp add: pt_inv_def t2 t1 ram_page_def al PHYSTOP_eq)
  assume va: "va < MAXVA"
  have "pageno va = 0 \<longleftrightarrow> pix 0 va = 0 \<and> pix 1 va = 0 \<and> pix 2 va = 0"
    using pageno_pix [OF va] by auto
  moreover have "view ?m 0 0x87ff3000 va =
      (if pix 0 va = 0 then PA2PTE 0x87ff4000 OR (PTE_R OR PTE_W OR PTE_U) OR PTE_V else 0)"
    using e3 [OF pix_less, of 0 va] by simp
  ultimately show "vmap one_user_page 0x87ff1000 va =
     (if pageno va = 0 then PA2PTE 0x87ff4000 OR (PTE_R OR PTE_W OR PTE_U) OR PTE_V else 0)"
    by (simp add: t1(2) t2(2) del: view.simps)
qed

text \<open>C5: what \<open>mappages\<close> does to an address space in which the range is free. It never
  panics. It returns 0 and the entries of exactly the pages of the range become
  \<open>pa | perm | PTE_V\<close>, \<open>pa + PGSIZE | perm | PTE_V\<close> and so on; or it returns -1 because no
  page is left for a table, and a prefix of the range is mapped. Every other entry keeps its
  value, the new tables are pages that were free, and no page outside the tables is written.\<close>

theorem mappages_refines:
  assumes "pt_inv s 2 pt ps" and "0 < sz" and "unat va + unat sz \<le> 0x4000000000"
    and "\<And>va'. va' < MAXVA \<Longrightarrow> pageno va \<le> pageno va' \<Longrightarrow> pageno va' \<le> pageno (va + sz - 1) \<Longrightarrow>
           \<not> bit (vmap s pt va') 0"
  shows "\<exists>r s' new ps' k. mappages pt va sz pa perm s = Ok (r, s')
     \<and> ps = new @ ps' \<and> tables s' pt = tables s pt \<union> set new \<and> pt_inv s' 2 pt ps'
     \<and> (\<forall>va' < MAXVA. vmap s' pt va' =
          (if pageno va \<le> pageno va' \<and> pageno va' < pageno va + k
           then PA2PTE (pa + of_nat (4096 * (pageno va' - pageno va))) OR perm OR PTE_V else vmap s pt va'))
     \<and> (r = 0 \<and> pageno va + k = Suc (pageno (va + sz - 1))
        \<or> r = -1 \<and> pageno va + k \<le> pageno (va + sz - 1) \<and> ps' = [])
     \<and> (\<forall>q. page_aligned q \<and> q \<notin> tables s' pt \<longrightarrow> (\<forall>x. pageno x = pageno q \<longrightarrow> mem s' x = mem s x))"
  using mappages_spec [OF assms] unfolding grown_def map_range_def agree_def by blast

theorem mappages_refines_witness:
  "\<exists>r s' new ps' k. mappages 0x87ff1000 0x1000 PGSIZE 0x87ff5000 (PTE_R OR PTE_U) one_user_page = Ok (r, s')
     \<and> (r = 0 \<and> pageno 0x1000 + k = Suc (pageno (0x1000 + PGSIZE - 1))
        \<or> r = -1 \<and> pageno 0x1000 + k \<le> pageno (0x1000 + PGSIZE - 1) \<and> ps' = [])"
proof -
  have free: "\<not> bit (vmap one_user_page 0x87ff1000 va) 0"
    if "va < MAXVA" "pageno 0x1000 \<le> pageno va" "pageno va \<le> pageno (0x1000 + PGSIZE - 1)" for va
    using one_user_page_inv(3) [OF that(1)] that(2) by (simp add: pageno_def)
  have "0 < PGSIZE" "unat (0x1000 :: uint64) + unat PGSIZE \<le> 0x4000000000" by simp_all
  from mappages_refines [OF one_user_page_inv(1) this free, where pa = "0x87ff5000" and perm = "PTE_R OR PTE_U"]
  show ?thesis by blast
qed



end
