(* ===== verification/Proc.thy ===== *)
theory Proc
  imports Vm_Map
begin

text \<open>
  The process table, src/kernel/proc.c and src/kernel/proc.h, except for the operations that
  also use the file system (theory Process). A process is an index into the table; a pointer to
  a process that may be null is a \<open>nat option\<close>, and following a null pointer traps into
  \<open>kerneltrap\<close>, which panics.

  A context switch is the outcome \<open>Slept s\<close>: \<open>s\<close> is the state at the moment \<open>swtch\<close>
  leaves the process for the scheduler of its CPU. The code a process runs when it comes back
  is a definition of its own (\<open>sched_resume\<close>, \<open>sleep_resume\<close>, \<open>yield_resume\<close>).
\<close>

subsection \<open>State\<close>

datatype procstate = UNUSED | USED | SLEEPING | RUNNABLE | RUNNING | ZOMBIE

text \<open>What a process can sleep on: the addresses of the objects the kernel uses as channels.\<close>

datatype chan = ProcChan nat | TicksChan | LogChan | SleepChan sleepid | PipeReadChan addr
  | PipeWriteChan addr | ConsReadChan | UartTxChan | DiskBufChan nat | DiskFreeChan

record ctx =
  ctx_ra :: uint64
  ctx_sp :: uint64
  ctx_s :: "uint64 list"

text \<open>\<open>p_ofile\<close> are indices into the file table, \<open>p_cwd\<close> into the inode table.\<close>

record proc =
  p_state :: procstate
  p_chan :: "chan option"
  p_killed :: int
  p_xstate :: int
  p_pid :: int
  p_parent :: "nat option"
  p_kstack :: uint64
  p_sz :: uint64
  p_pagetable :: addr
  p_trapframe :: addr
  p_context :: ctx
  p_ofile :: "nat option list"
  p_cwd :: "nat option"
  p_name :: "byte list"

record proc_state = vm_state +
  procs :: "nat \<Rightarrow> proc"
  nextpid :: int
  initproc :: "nat option"
  forkret_pc :: addr

definition upd_proc :: "nat \<Rightarrow> (proc \<Rightarrow> proc) \<Rightarrow> ('z) proc_state_scheme \<Rightarrow> ('z) proc_state_scheme" where
  "upd_proc p f s = s\<lparr>procs := (procs s)(p := f (procs s p))\<rparr>"

text \<open>Following a pointer.\<close>

definition deref :: "nat option \<Rightarrow> (nat \<Rightarrow> ('s, 'a) res) \<Rightarrow> ('s, 'a) res" where
  "deref p k = (case p of Some i \<Rightarrow> k i | None \<Rightarrow> Panic ''kerneltrap'')"

text \<open>Offsets of the fields of \<open>struct trapframe\<close>.\<close>

abbreviation (input) TF_kernel_satp :: addr where "TF_kernel_satp \<equiv> 0"
abbreviation (input) TF_kernel_sp :: addr where "TF_kernel_sp \<equiv> 8"
abbreviation (input) TF_kernel_trap :: addr where "TF_kernel_trap \<equiv> 16"
abbreviation (input) TF_epc :: addr where "TF_epc \<equiv> 24"
abbreviation (input) TF_kernel_hartid :: addr where "TF_kernel_hartid \<equiv> 32"
abbreviation (input) TF_sp :: addr where "TF_sp \<equiv> 48"
abbreviation (input) TF_a0 :: addr where "TF_a0 \<equiv> 112"
abbreviation (input) TF_a1 :: addr where "TF_a1 \<equiv> 120"
abbreviation (input) TF_a7 :: addr where "TF_a7 \<equiv> 168"

definition tf_get :: "nat \<Rightarrow> addr \<Rightarrow> ('z) proc_state_scheme \<Rightarrow> uint64" where
  "tf_get p off s = load64 (mem s) (p_trapframe (procs s p) + off)"

definition tf_set :: "nat \<Rightarrow> addr \<Rightarrow> uint64 \<Rightarrow> ('z) proc_state_scheme \<Rightarrow> ('z) proc_state_scheme" where
  "tf_set p off v s = s\<lparr>mem := store64 (mem s) (p_trapframe (procs s p) + off) v\<rparr>"

subsection \<open>The current process and process ids\<close>

fun procinit_loop :: "nat list \<Rightarrow> ('z) proc_state_scheme \<Rightarrow> ('z) proc_state_scheme" where
  "procinit_loop [] s = s"
| "procinit_loop (p # ps) s =
     (let s = initlock (ProcLock p) ''proc'' s;
          s = upd_proc p (\<lambda>q. q\<lparr>p_state := UNUSED\<rparr>) s;
          s = upd_proc p (\<lambda>q. q\<lparr>p_kstack := KSTACK (of_nat p)\<rparr>) s
      in procinit_loop ps s)"

definition procinit :: "('z) proc_state_scheme \<Rightarrow> ('z) proc_state_scheme" where
  "procinit s =
     (let s = initlock PidLock ''nextpid'' s;
          s = initlock WaitLock ''wait_lock'' s
      in procinit_loop [0..<NPROC] s)"

definition cpuid :: "('z) machine_scheme \<Rightarrow> nat" where
  "cpuid s = tp s"

definition myproc :: "('z) machine_scheme \<Rightarrow> ('z machine_scheme, nat option \<times> 'z machine_scheme) res" where
  "myproc s =
     (let s = push_off s;
          p = c_proc (mycpu s)
      in rbind (pop_off s) (\<lambda>s. Ok (p, s)))"

definition allocpid :: "('z) proc_state_scheme \<Rightarrow> ('z proc_state_scheme, int \<times> 'z proc_state_scheme) res" where
  "allocpid s =
     rbind (acquire PidLock s) (\<lambda>s.
     let pid = nextpid s;
         s = s\<lparr>nextpid := nextpid s + 1\<rparr>
     in rbind (release PidLock s) (\<lambda>s. Ok (pid, s)))"

subsection \<open>Allocating and freeing a process\<close>

definition proc_pagetable :: "nat \<Rightarrow> ('z) proc_state_scheme \<Rightarrow>
    ('z proc_state_scheme, addr \<times> 'z proc_state_scheme) res" where
  "proc_pagetable p s =
     rbind (uvmcreate s) (\<lambda>(pagetable, s).
     if pagetable = 0 then Ok (0, s)
     else rbind (mappages pagetable TRAMPOLINE PGSIZE (trampoline s) (PTE_R OR PTE_X) s) (\<lambda>(r, s).
       if r < 0 then rbind (uvmfree pagetable 0 s) (\<lambda>s. Ok (0, s))
       else rbind (mappages pagetable TRAPFRAME PGSIZE (p_trapframe (procs s p)) (PTE_R OR PTE_W) s) (\<lambda>(r, s).
         if r < 0 then
           rbind (uvmunmap pagetable TRAMPOLINE 1 False s) (\<lambda>s.
           rbind (uvmfree pagetable 0 s) (\<lambda>s. Ok (0, s)))
         else Ok (pagetable, s))))"

definition proc_freepagetable :: "addr \<Rightarrow> uint64 \<Rightarrow> ('z) kmem_state_scheme \<Rightarrow>
    ('z kmem_state_scheme, 'z kmem_state_scheme) res" where
  "proc_freepagetable pagetable sz s =
     rbind (uvmunmap pagetable TRAMPOLINE 1 False s) (\<lambda>s.
     rbind (uvmunmap pagetable TRAPFRAME 1 False s) (\<lambda>s.
     uvmfree pagetable sz s))"

definition freeproc :: "nat \<Rightarrow> ('z) proc_state_scheme \<Rightarrow> ('z proc_state_scheme, 'z proc_state_scheme) res" where
  "freeproc p s =
     rbind (if p_trapframe (procs s p) \<noteq> 0 then kfree (p_trapframe (procs s p)) s else Ok s) (\<lambda>s.
     let s = upd_proc p (\<lambda>q. q\<lparr>p_trapframe := 0\<rparr>) s in
     rbind (if p_pagetable (procs s p) \<noteq> 0
            then proc_freepagetable (p_pagetable (procs s p)) (p_sz (procs s p)) s else Ok s) (\<lambda>s.
     Ok (upd_proc p (\<lambda>q. q\<lparr>p_pagetable := 0, p_sz := 0, p_pid := 0, p_parent := None,
           p_name := (p_name q)[0 := 0], p_chan := None, p_killed := 0, p_xstate := 0, p_state := UNUSED\<rparr>) s)))"

fun allocproc_scan :: "nat list \<Rightarrow> ('z) proc_state_scheme \<Rightarrow>
    ('z proc_state_scheme, nat option \<times> 'z proc_state_scheme) res" where
  "allocproc_scan [] s = Ok (None, s)"
| "allocproc_scan (p # ps) s =
     rbind (acquire (ProcLock p) s) (\<lambda>s.
     if p_state (procs s p) = UNUSED then Ok (Some p, s)
     else rbind (release (ProcLock p) s) (\<lambda>s. allocproc_scan ps s))"

definition allocproc :: "('z) proc_state_scheme \<Rightarrow>
    ('z proc_state_scheme, nat option \<times> 'z proc_state_scheme) res" where
  "allocproc s =
     rbind (allocproc_scan [0..<NPROC] s) (\<lambda>(found, s).
     case found of None \<Rightarrow> Ok (None, s)
     | Some p \<Rightarrow>
       rbind (allocpid s) (\<lambda>(pid, s).
       let s = upd_proc p (\<lambda>q. q\<lparr>p_pid := pid\<rparr>) s;
           s = upd_proc p (\<lambda>q. q\<lparr>p_state := USED\<rparr>) s in
       rbind (kalloc s) (\<lambda>(tf, s).
       let s = upd_proc p (\<lambda>q. q\<lparr>p_trapframe := tf\<rparr>) s in
       if tf = 0 then
         rbind (freeproc p s) (\<lambda>s. rbind (release (ProcLock p) s) (\<lambda>s. Ok (None, s)))
       else rbind (proc_pagetable p s) (\<lambda>(pagetable, s).
       let s = upd_proc p (\<lambda>q. q\<lparr>p_pagetable := pagetable\<rparr>) s in
       if pagetable = 0 then
         rbind (freeproc p s) (\<lambda>s. rbind (release (ProcLock p) s) (\<lambda>s. Ok (None, s)))
       else (let s = upd_proc p (\<lambda>q. q\<lparr>p_context :=
                       \<lparr>ctx_ra = 0, ctx_sp = 0, ctx_s = replicate 12 0\<rparr>\<rparr>) s;
                 s = upd_proc p (\<lambda>q. q\<lparr>p_context := (p_context q)\<lparr>ctx_ra := forkret_pc s\<rparr>\<rparr>) s;
                 s = upd_proc p (\<lambda>q. q\<lparr>p_context := (p_context q)\<lparr>ctx_sp := p_kstack q + PGSIZE\<rparr>\<rparr>) s
             in Ok (Some p, s))))))"

definition growproc :: "int \<Rightarrow> ('z) proc_state_scheme \<Rightarrow> ('z proc_state_scheme, int \<times> 'z proc_state_scheme) res" where
  "growproc n s =
     rbind (myproc s) (\<lambda>(mp, s). deref mp (\<lambda>p.
     let sz = p_sz (procs s p) in
     if n > 0 then
       rbind (uvmalloc (p_pagetable (procs s p)) sz (sz + of_int n) PTE_W s) (\<lambda>(sz, s).
       if sz = 0 then Ok (-1, s)
       else Ok (0, upd_proc p (\<lambda>q. q\<lparr>p_sz := sz\<rparr>) s))
     else if n < 0 then
       rbind (uvmdealloc (p_pagetable (procs s p)) sz (sz + of_int n) s) (\<lambda>(sz, s).
       Ok (0, upd_proc p (\<lambda>q. q\<lparr>p_sz := sz\<rparr>) s))
     else Ok (0, upd_proc p (\<lambda>q. q\<lparr>p_sz := sz\<rparr>) s)))"

subsection \<open>Scheduling\<close>

text \<open>The scheduler's scan of the table, up to the \<open>swtch\<close> into a process it found (whose
  lock it still holds), and what it does when \<open>swtch\<close> comes back.\<close>

definition set_cpu_proc :: "nat option \<Rightarrow> ('z) machine_scheme \<Rightarrow> ('z) machine_scheme" where
  "set_cpu_proc p s = set_mycpu ((mycpu s)\<lparr>c_proc := p\<rparr>) s"

fun scheduler_scan :: "nat list \<Rightarrow> ('z) proc_state_scheme \<Rightarrow>
    ('z proc_state_scheme, nat option \<times> 'z proc_state_scheme) res" where
  "scheduler_scan [] s = Ok (None, s)"
| "scheduler_scan (p # ps) s =
     rbind (acquire (ProcLock p) s) (\<lambda>s.
     if p_state (procs s p) = RUNNABLE then
       (let s = upd_proc p (\<lambda>q. q\<lparr>p_state := RUNNING\<rparr>) s;
            s = set_cpu_proc (Some p) s
        in Ok (Some p, s))
     else rbind (release (ProcLock p) s) (\<lambda>s. scheduler_scan ps s))"

definition scheduler_start :: "('z) machine_scheme \<Rightarrow> ('z) machine_scheme" where
  "scheduler_start s = set_cpu_proc None s"

definition scheduler_pass :: "('z) proc_state_scheme \<Rightarrow>
    ('z proc_state_scheme, nat option \<times> 'z proc_state_scheme) res" where
  "scheduler_pass s = scheduler_scan [0..<NPROC] (intr_on s)"

definition scheduler_back :: "nat \<Rightarrow> ('z) proc_state_scheme \<Rightarrow>
    ('z proc_state_scheme, nat option \<times> 'z proc_state_scheme) res" where
  "scheduler_back p s =
     rbind (release (ProcLock p) (set_cpu_proc None s)) (\<lambda>s. scheduler_scan [Suc p..<NPROC] s)"

text \<open>\<open>intena\<close> is the local variable in which \<open>sched\<close> keeps \<open>mycpu()->intena\<close>.\<close>

definition sched :: "('z) proc_state_scheme \<Rightarrow> ('z proc_state_scheme, 'z proc_state_scheme) res" where
  "sched s =
     rbind (myproc s) (\<lambda>(mp, s). deref mp (\<lambda>p.
     if \<not> holding (ProcLock p) s then Panic ''sched p->lock''
     else if c_noff (mycpu s) \<noteq> 1 then Panic ''sched locks''
     else if p_state (procs s p) = RUNNING then Panic ''sched running''
     else if intr_get s then Panic ''sched interruptible''
     else Slept s))"

definition sched_resume :: "bool \<Rightarrow> ('z) machine_scheme \<Rightarrow> ('z) machine_scheme" where
  "sched_resume intena s = set_mycpu ((mycpu s)\<lparr>c_intena := intena\<rparr>) s"

definition yield :: "('z) proc_state_scheme \<Rightarrow> ('z proc_state_scheme, 'z proc_state_scheme) res" where
  "yield s =
     rbind (myproc s) (\<lambda>(mp, s). deref mp (\<lambda>p.
     rbind (acquire (ProcLock p) s) (\<lambda>s.
     sched (upd_proc p (\<lambda>q. q\<lparr>p_state := RUNNABLE\<rparr>) s))))"

definition yield_resume :: "nat \<Rightarrow> bool \<Rightarrow> ('z) proc_state_scheme \<Rightarrow> ('z proc_state_scheme, 'z proc_state_scheme) res" where
  "yield_resume p intena s = release (ProcLock p) (sched_resume intena s)"

subsection \<open>Sleep and wakeup\<close>

definition sleep :: "chan \<Rightarrow> lock \<Rightarrow> ('z) proc_state_scheme \<Rightarrow> ('z proc_state_scheme, 'a) res" where
  "sleep ch lk s =
     rbind (myproc s) (\<lambda>(mp, s). deref mp (\<lambda>p.
     rbind (acquire (ProcLock p) s) (\<lambda>s.
     rbind (release lk s) (\<lambda>s.
     let s = upd_proc p (\<lambda>q. q\<lparr>p_chan := Some ch\<rparr>) s;
         s = upd_proc p (\<lambda>q. q\<lparr>p_state := SLEEPING\<rparr>) s
     in rbind (sched s) (\<lambda>_. Spin)))))"

definition sleep_resume :: "nat \<Rightarrow> lock \<Rightarrow> bool \<Rightarrow> ('z) proc_state_scheme \<Rightarrow> ('z proc_state_scheme, 'z proc_state_scheme) res" where
  "sleep_resume p lk intena s =
     (let s = sched_resume intena s;
          s = upd_proc p (\<lambda>q. q\<lparr>p_chan := None\<rparr>) s
      in rbind (release (ProcLock p) s) (\<lambda>s. acquire lk s))"

fun wakeup_loop :: "chan \<Rightarrow> nat list \<Rightarrow> ('z) proc_state_scheme \<Rightarrow> ('z proc_state_scheme, 'z proc_state_scheme) res" where
  "wakeup_loop ch [] s = Ok s"
| "wakeup_loop ch (p # ps) s =
     rbind (myproc s) (\<lambda>(mp, s).
     if mp \<noteq> Some p then
       rbind (acquire (ProcLock p) s) (\<lambda>s.
       let s = (if p_state (procs s p) = SLEEPING \<and> p_chan (procs s p) = Some ch
                then upd_proc p (\<lambda>q. q\<lparr>p_state := RUNNABLE\<rparr>) s else s)
       in rbind (release (ProcLock p) s) (\<lambda>s. wakeup_loop ch ps s))
     else wakeup_loop ch ps s)"

definition wakeup :: "chan \<Rightarrow> ('z) proc_state_scheme \<Rightarrow> ('z proc_state_scheme, 'z proc_state_scheme) res" where
  "wakeup ch s = wakeup_loop ch [0..<NPROC] s"

fun kill_loop :: "int \<Rightarrow> nat list \<Rightarrow> ('z) proc_state_scheme \<Rightarrow> ('z proc_state_scheme, int \<times> 'z proc_state_scheme) res" where
  "kill_loop pid [] s = Ok (-1, s)"
| "kill_loop pid (p # ps) s =
     rbind (acquire (ProcLock p) s) (\<lambda>s.
     if p_pid (procs s p) = pid then
       (let s = upd_proc p (\<lambda>q. q\<lparr>p_killed := 1\<rparr>) s;
            s = (if p_state (procs s p) = SLEEPING then upd_proc p (\<lambda>q. q\<lparr>p_state := RUNNABLE\<rparr>) s else s)
        in rbind (release (ProcLock p) s) (\<lambda>s. Ok (0, s)))
     else rbind (release (ProcLock p) s) (\<lambda>s. kill_loop pid ps s))"

definition kill :: "int \<Rightarrow> ('z) proc_state_scheme \<Rightarrow> ('z proc_state_scheme, int \<times> 'z proc_state_scheme) res" where
  "kill pid s = kill_loop pid [0..<NPROC] s"

definition setkilled :: "nat \<Rightarrow> ('z) proc_state_scheme \<Rightarrow> ('z proc_state_scheme, 'z proc_state_scheme) res" where
  "setkilled p s =
     rbind (acquire (ProcLock p) s) (\<lambda>s.
     release (ProcLock p) (upd_proc p (\<lambda>q. q\<lparr>p_killed := 1\<rparr>) s))"

definition killed :: "nat \<Rightarrow> ('z) proc_state_scheme \<Rightarrow> ('z proc_state_scheme, int \<times> 'z proc_state_scheme) res" where
  "killed p s =
     rbind (acquire (ProcLock p) s) (\<lambda>s.
     let k = p_killed (procs s p)
     in rbind (release (ProcLock p) s) (\<lambda>s. Ok (k, s)))"

subsection \<open>Waiting for children\<close>

fun reparent_loop :: "nat \<Rightarrow> nat list \<Rightarrow> ('z) proc_state_scheme \<Rightarrow> ('z proc_state_scheme, 'z proc_state_scheme) res" where
  "reparent_loop p [] s = Ok s"
| "reparent_loop p (pp # pps) s =
     (if p_parent (procs s pp) = Some p then
        (let s = upd_proc pp (\<lambda>q. q\<lparr>p_parent := initproc s\<rparr>) s
         in deref (initproc s) (\<lambda>ip. rbind (wakeup (ProcChan ip) s) (\<lambda>s. reparent_loop p pps s)))
      else reparent_loop p pps s)"

definition reparent :: "nat \<Rightarrow> ('z) proc_state_scheme \<Rightarrow> ('z proc_state_scheme, 'z proc_state_scheme) res" where
  "reparent p s = reparent_loop p [0..<NPROC] s"

text \<open>One scan of \<open>wait\<close> over the table: the value to return, if a child has exited, and
  whether there are children.\<close>

fun wait_scan :: "nat \<Rightarrow> uint64 \<Rightarrow> nat list \<Rightarrow> bool \<Rightarrow> ('z) proc_state_scheme \<Rightarrow>
    ('z proc_state_scheme, (int option \<times> bool) \<times> 'z proc_state_scheme) res" where
  "wait_scan p uaddr [] havekids s = Ok ((None, havekids), s)"
| "wait_scan p uaddr (pp # pps) havekids s =
     (if p_parent (procs s pp) = Some p then
        rbind (acquire (ProcLock pp) s) (\<lambda>s.
        if p_state (procs s pp) = ZOMBIE then
          (let pid = p_pid (procs s pp)
           in rbind (if uaddr \<noteq> 0
                     then copyout (p_pagetable (procs s p)) uaddr
                            (le_bytes 4 (word_of_int (p_xstate (procs s pp)) :: uint32)) s
                     else Ok (0, s)) (\<lambda>(r, s).
              if uaddr \<noteq> 0 \<and> r < 0 then
                rbind (release (ProcLock pp) s) (\<lambda>s.
                rbind (release WaitLock s) (\<lambda>s. Ok ((Some (-1), True), s)))
              else
                rbind (freeproc pp s) (\<lambda>s.
                rbind (release (ProcLock pp) s) (\<lambda>s.
                rbind (release WaitLock s) (\<lambda>s. Ok ((Some pid, True), s))))))
        else rbind (release (ProcLock pp) s) (\<lambda>s. wait_scan p uaddr pps True s))
      else wait_scan p uaddr pps havekids s)"

text \<open>\<open>wait_loop\<close> is one round of the loop, with \<open>wait_lock\<close> held: a process that sleeps
  runs \<open>wait_loop\<close> again after \<open>sleep_resume\<close>.\<close>

definition wait_loop :: "nat \<Rightarrow> uint64 \<Rightarrow> ('z) proc_state_scheme \<Rightarrow> ('z proc_state_scheme, int \<times> 'z proc_state_scheme) res" where
  "wait_loop p uaddr s =
     rbind (wait_scan p uaddr [0..<NPROC] False s) (\<lambda>((ret, havekids), s).
     case ret of Some r \<Rightarrow> Ok (r, s)
     | None \<Rightarrow>
       rbind (if havekids then killed p s else Ok (0, s)) (\<lambda>(k, s).
       if \<not> havekids \<or> k \<noteq> 0 then rbind (release WaitLock s) (\<lambda>s. Ok (-1, s))
       else sleep (ProcChan p) WaitLock s))"

definition wait :: "uint64 \<Rightarrow> ('z) proc_state_scheme \<Rightarrow> ('z proc_state_scheme, int \<times> 'z proc_state_scheme) res" where
  "wait uaddr s =
     rbind (myproc s) (\<lambda>(mp, s). deref mp (\<lambda>p.
     rbind (acquire WaitLock s) (\<lambda>s. wait_loop p uaddr s)))"

subsection \<open>Copying to and from either address space\<close>

definition either_copyout :: "bool \<Rightarrow> uint64 \<Rightarrow> byte list \<Rightarrow> ('z) proc_state_scheme \<Rightarrow>
    ('z proc_state_scheme, int \<times> 'z proc_state_scheme) res" where
  "either_copyout user_dst dst src s =
     rbind (myproc s) (\<lambda>(mp, s).
     if user_dst then deref mp (\<lambda>p. copyout (p_pagetable (procs s p)) dst src s)
     else Ok (0, s\<lparr>mem := mem_write (mem s) dst src\<rparr>))"

definition either_copyin :: "bool \<Rightarrow> uint64 \<Rightarrow> nat \<Rightarrow> ('z) proc_state_scheme \<Rightarrow>
    ('z proc_state_scheme, (int \<times> byte list) \<times> 'z proc_state_scheme) res" where
  "either_copyin user_src src len s =
     rbind (myproc s) (\<lambda>(mp, s).
     if user_src then
       deref mp (\<lambda>p. rbind (copyin (p_pagetable (procs s p)) src len s) (\<lambda>r. Ok (r, s)))
     else Ok ((0, mem_read (mem s) src len), s))"

subsection \<open>Critical sections\<close>

lemma proc_lock_simps [lock_simps]:
  "procs (acquired lk s) = procs s"
  "(acquired lk s)\<lparr>procs := x\<rparr> = acquired lk (s\<lparr>procs := x\<rparr>)"
  "unheld lk (s\<lparr>procs := x\<rparr>) = unheld lk s"
  "quiet (s\<lparr>procs := x\<rparr>) = quiet s"
  "curproc (s\<lparr>procs := x\<rparr>) = curproc s"
  "nextpid (acquired lk s) = nextpid s"
  "(acquired lk s)\<lparr>nextpid := n\<rparr> = acquired lk (s\<lparr>nextpid := n\<rparr>)"
  "unheld lk (s\<lparr>nextpid := n\<rparr>) = unheld lk s"
  "quiet (s\<lparr>nextpid := n\<rparr>) = quiet s"
  "curproc (s\<lparr>nextpid := n\<rparr>) = curproc s"
  "initproc (acquired lk s) = initproc s"
  by (simp_all add: acquired_upd unheld_def quiet_def mycpu_def curproc_def)

lemma upd_proc_lock_simps [lock_simps]:
  "upd_proc p f (acquired lk s) = acquired lk (upd_proc p f s)"
  "unheld lk (upd_proc p f s) = unheld lk s"
  "quiet (upd_proc p f s) = quiet s"
  "curproc (upd_proc p f s) = curproc s"
  by (simp_all add: upd_proc_def lock_simps)

lemma myproc_eq [lock_simps]: "quiet s \<Longrightarrow> myproc s = Ok (curproc s, s)"
  using pop_off_push_off_cpu [of s "push_off s"]
  by (simp add: myproc_def Let_def curproc_def push_off_eq mycpu_def)

lemma allocpid_eq:
  "unheld PidLock s \<Longrightarrow> quiet s \<Longrightarrow> allocpid s = Ok (nextpid s, s\<lparr>nextpid := nextpid s + 1\<rparr>)"
  by (simp add: allocpid_def lock_simps Let_def)

text \<open>The effect of \<open>wakeup\<close> on the processes of a list.\<close>

definition woken_on :: "chan \<Rightarrow> nat set \<Rightarrow> ('z) proc_state_scheme \<Rightarrow> ('z) proc_state_scheme" where
  "woken_on ch ps s = s\<lparr>procs := (\<lambda>q. if q \<in> ps \<and> curproc s \<noteq> Some q \<and> p_state (procs s q) = SLEEPING
        \<and> p_chan (procs s q) = Some ch then (procs s q)\<lparr>p_state := RUNNABLE\<rparr> else procs s q)\<rparr>"

abbreviation woken :: "chan \<Rightarrow> ('z) proc_state_scheme \<Rightarrow> ('z) proc_state_scheme" where
  "woken ch s \<equiv> woken_on ch {..<NPROC} s"

lemma woken_on_lock_simps [lock_simps]:
  "woken_on ch ps (acquired lk s) = acquired lk (woken_on ch ps s)"
  "unheld lk (woken_on ch ps s) = unheld lk s"
  "quiet (woken_on ch ps s) = quiet s"
  "curproc (woken_on ch ps s) = curproc s"
  by (simp_all add: woken_on_def lock_simps cong: if_cong)

lemma woken_on_insert:
  "woken_on ch ps (woken_on ch {p} s) = woken_on ch (insert p ps) s"
  by (auto simp: woken_on_def lock_simps fun_eq_iff intro!: proc_state.fold_congs)

lemma wakeup_loop_eq:
  assumes "quiet s" and "\<And>p. p \<in> set ps \<Longrightarrow> unheld (ProcLock p) s"
  shows "wakeup_loop ch ps s = Ok (woken_on ch (set ps) s)"
  using assms
proof (induction ps arbitrary: s)
  case Nil
  then show ?case by (simp add: woken_on_def)
next
  case (Cons p ps)
  have one: "(if p_state (procs s p) = SLEEPING \<and> p_chan (procs s p) = Some ch
      then upd_proc p (\<lambda>q. q\<lparr>p_state := RUNNABLE\<rparr>) s else s) = woken_on ch {p} s" if "curproc s \<noteq> Some p"
    using that by (auto simp: woken_on_def upd_proc_def fun_eq_iff intro!: proc_state.fold_congs)
  have skip: "woken_on ch {p} s = s" if "curproc s = Some p"
    using that by (auto simp: woken_on_def fun_eq_iff intro!: proc_state.fold_congs)
  have IH: "wakeup_loop ch ps (woken_on ch {p} s) = Ok (woken_on ch (insert p (set ps)) s)"
    using Cons by (subst Cons.IH) (simp_all add: lock_simps woken_on_insert)
  show ?case
  proof (cases "curproc s = Some p")
    case True
    then show ?thesis using Cons.prems IH skip by (simp add: lock_simps)
  next
    case False
    then show ?thesis
      using Cons.prems IH [folded one [OF False]] by (auto simp: lock_simps Let_def split: if_splits)
  qed
qed

lemma wakeup_eq:
  "quiet s \<Longrightarrow> (\<And>p. unheld (ProcLock p) s) \<Longrightarrow> wakeup ch s = Ok (woken ch s)"
  by (simp add: wakeup_def wakeup_loop_eq atLeast0LessThan)

subsection \<open>Going to sleep\<close>

definition sleeping :: "nat \<Rightarrow> chan \<Rightarrow> ('z) proc_state_scheme \<Rightarrow> ('z) proc_state_scheme" where
  "sleeping p ch s = upd_proc p (\<lambda>q. q\<lparr>p_chan := Some ch, p_state := SLEEPING\<rparr>) s"

lemma sleeping_lock_simps [lock_simps]:
  "sleeping p ch (acquired lk s) = acquired lk (sleeping p ch s)"
  "unheld lk (sleeping p ch s) = unheld lk s"
  "quiet (sleeping p ch s) = quiet s"
  "curproc (sleeping p ch s) = curproc s"
  by (simp_all add: sleeping_def lock_simps)

lemma mycpu_acquired: "mycpu (acquired lk s) = (mycpu s)
   \<lparr>c_intr := False, c_intena := (if c_noff (mycpu s) = 0 then c_intr (mycpu s) else c_intena (mycpu s)),
    c_noff := c_noff (mycpu s) + 1\<rparr>"
  by (simp add: acquired_def push_off_eq mycpu_def)

lemma mycpu_upd_proc [simp]: "mycpu (upd_proc p f s) = mycpu s"
  by (simp add: upd_proc_def mycpu_def)

lemma sched_eq:
  assumes "quiet s" and "c_noff (mycpu s) = 0" and "curproc s = Some p" and "p_state (procs s p) \<noteq> RUNNING"
  shows "sched (acquired (ProcLock p) s) = Slept (acquired (ProcLock p) s)"
  using assms by (simp add: sched_def lock_simps deref_def mycpu_acquired intr_get_def)

text \<open>
  \<open>sleep\<close>, called with the lock \<open>lk\<close> held, gives it up and switches away with only the
  lock of the process held; the process is marked as sleeping before it does.
\<close>

lemma sleep_eq:
  assumes "quiet s" and "c_noff (mycpu s) = 0" and "curproc s = Some p"
    and "unheld lk s" and "unheld (ProcLock p) s" and "lk \<noteq> ProcLock p"
  shows "sleep ch lk (acquired lk s) = Slept (acquired (ProcLock p) (sleeping p ch s))"
proof -
  have "upd_proc p (\<lambda>q. q\<lparr>p_state := SLEEPING\<rparr>) (upd_proc p (\<lambda>q. q\<lparr>p_chan := Some ch\<rparr>) s) = sleeping p ch s"
    by (simp add: upd_proc_def sleeping_def)
  moreover have "sched (acquired (ProcLock p) (sleeping p ch s)) = Slept (acquired (ProcLock p) (sleeping p ch s))"
    using assms by (intro sched_eq) (auto simp: lock_simps sleeping_def upd_proc_def mycpu_def)
  ultimately show ?thesis
    using assms by (simp add: sleep_def lock_simps deref_def release_acquired_inner Let_def)
qed

end
