(* ===== verification/Sleeplock.thy ===== *)
theory Sleeplock
  imports Proc
begin

text \<open>
  Sleep locks, src/kernel/sleeplock.c. The kernel has one per buffer and one per entry of the
  inode table, named by \<open>sleepid\<close>. \<open>acquiresleep_loop\<close> is the loop with the lock's spin
  lock held: a process that sleeps in it runs it again after \<open>sleep_resume\<close>.
\<close>

record sleeplock =
  sl_locked :: uint32
  sl_name :: string
  sl_pid :: int

record slk_state = proc_state +
  sleeplocks :: "sleepid \<Rightarrow> sleeplock"

definition upd_slk :: "sleepid \<Rightarrow> (sleeplock \<Rightarrow> sleeplock) \<Rightarrow> ('z) slk_state_scheme \<Rightarrow> ('z) slk_state_scheme" where
  "upd_slk i f s = s\<lparr>sleeplocks := (sleeplocks s)(i := f (sleeplocks s i))\<rparr>"

definition initsleeplock :: "sleepid \<Rightarrow> string \<Rightarrow> ('z) slk_state_scheme \<Rightarrow> ('z) slk_state_scheme" where
  "initsleeplock i nm s =
     (let s = initlock (SleepSpin i) ''sleep lock'' s
      in upd_slk i (\<lambda>l. l\<lparr>sl_name := nm, sl_locked := 0, sl_pid := 0\<rparr>) s)"

definition acquiresleep_loop :: "sleepid \<Rightarrow> ('z) slk_state_scheme \<Rightarrow> ('z slk_state_scheme, 'z slk_state_scheme) res" where
  "acquiresleep_loop i s =
     (if sl_locked (sleeplocks s i) \<noteq> 0 then sleep (SleepChan i) (SleepSpin i) s
      else (let s = upd_slk i (\<lambda>l. l\<lparr>sl_locked := 1\<rparr>) s
            in rbind (myproc s) (\<lambda>(mp, s). deref mp (\<lambda>p.
               let s = upd_slk i (\<lambda>l. l\<lparr>sl_pid := p_pid (procs s p)\<rparr>) s
               in release (SleepSpin i) s))))"

definition acquiresleep :: "sleepid \<Rightarrow> ('z) slk_state_scheme \<Rightarrow> ('z slk_state_scheme, 'z slk_state_scheme) res" where
  "acquiresleep i s = rbind (acquire (SleepSpin i) s) (\<lambda>s. acquiresleep_loop i s)"

definition releasesleep :: "sleepid \<Rightarrow> ('z) slk_state_scheme \<Rightarrow> ('z slk_state_scheme, 'z slk_state_scheme) res" where
  "releasesleep i s =
     rbind (acquire (SleepSpin i) s) (\<lambda>s.
     let s = upd_slk i (\<lambda>l. l\<lparr>sl_locked := 0\<rparr>) s;
         s = upd_slk i (\<lambda>l. l\<lparr>sl_pid := 0\<rparr>) s
     in rbind (wakeup (SleepChan i) s) (\<lambda>s. release (SleepSpin i) s))"

definition holdingsleep :: "sleepid \<Rightarrow> ('z) slk_state_scheme \<Rightarrow> ('z slk_state_scheme, bool \<times> 'z slk_state_scheme) res" where
  "holdingsleep i s =
     rbind (acquire (SleepSpin i) s) (\<lambda>s.
     rbind (if sl_locked (sleeplocks s i) \<noteq> 0
            then rbind (myproc s) (\<lambda>(mp, s). deref mp (\<lambda>p. Ok (sl_pid (sleeplocks s i) = p_pid (procs s p), s)))
            else Ok (False, s)) (\<lambda>(r, s).
     rbind (release (SleepSpin i) s) (\<lambda>s. Ok (r, s))))"

subsection \<open>Lemmas\<close>

lemma slk_lock_simps [lock_simps]:
  "sleeplocks (acquired lk s) = sleeplocks s"
  "(acquired lk s)\<lparr>sleeplocks := x\<rparr> = acquired lk (s\<lparr>sleeplocks := x\<rparr>)"
  "unheld lk (s\<lparr>sleeplocks := x\<rparr>) = unheld lk s"
  "quiet (s\<lparr>sleeplocks := x\<rparr>) = quiet s"
  "curproc (s\<lparr>sleeplocks := x\<rparr>) = curproc s"
  by (simp_all add: acquired_upd unheld_def quiet_def mycpu_def curproc_def)

lemma upd_slk_lock_simps [lock_simps]:
  "upd_slk i f (acquired lk s) = acquired lk (upd_slk i f s)"
  "unheld lk (upd_slk i f s) = unheld lk s"
  "quiet (upd_slk i f s) = quiet s"
  "curproc (upd_slk i f s) = curproc s"
  by (simp_all add: upd_slk_def lock_simps)

text \<open>A CPU that runs a process and holds no spin lock: the state in which system calls run.\<close>

definition running :: "nat \<Rightarrow> ('z) proc_state_scheme \<Rightarrow> bool" where
  "running p s \<longleftrightarrow> quiet s \<and> (\<forall>lk. unheld lk s) \<and> curproc s = Some p"

lemma runningD:
  "running p s \<Longrightarrow> quiet s" "running p s \<Longrightarrow> unheld lk s" "running p s \<Longrightarrow> curproc s = Some p"
  by (simp_all add: running_def)

lemma running_updates [simp]:
  "running p (s\<lparr>mem := m\<rparr>) = running p s"
  "running p (s\<lparr>freelist := fl\<rparr>) = running p s"
  "running p (s\<lparr>procs := x\<rparr>) = running p s"
  "running p (upd_proc q f s) = running p s"
  "running p (woken_on ch ps s) = running p s"
  "running p (u\<lparr>sleeplocks := y\<rparr>) = running p u"
  "running p (upd_slk i g u) = running p u"
  by (simp_all add: running_def lock_simps)

definition slk_held :: "sleepid \<Rightarrow> int \<Rightarrow> ('z) slk_state_scheme \<Rightarrow> ('z) slk_state_scheme" where
  "slk_held i pid s = upd_slk i (\<lambda>l. l\<lparr>sl_locked := 1, sl_pid := pid\<rparr>) s"

definition slk_free :: "sleepid \<Rightarrow> ('z) slk_state_scheme \<Rightarrow> ('z) slk_state_scheme" where
  "slk_free i s = upd_slk i (\<lambda>l. l\<lparr>sl_locked := 0, sl_pid := 0\<rparr>) s"

lemma acquiresleep_free:
  assumes "running p s" and "sl_locked (sleeplocks s i) = 0"
  shows "acquiresleep i s = Ok (slk_held i (p_pid (procs s p)) s)"
  using assms(2) runningD [OF assms(1)]
  by (simp add: acquiresleep_def acquiresleep_loop_def slk_held_def lock_simps Let_def deref_def)
     (simp add: upd_slk_def)

lemma releasesleep_eq:
  assumes "running p s"
  shows "releasesleep i s = Ok (woken (SleepChan i) (slk_free i s))"
  using runningD [OF assms]
  by (simp add: releasesleep_def slk_free_def lock_simps Let_def wakeup_eq) (simp add: upd_slk_def)

lemma holdingsleep_eq:
  assumes "running p s"
  shows "holdingsleep i s = Ok (sl_locked (sleeplocks s i) \<noteq> 0 \<and> sl_pid (sleeplocks s i) = p_pid (procs s p), s)"
  using runningD [OF assms] by (simp add: holdingsleep_def lock_simps deref_def)

text \<open>A lock that is taken puts the process to sleep on it, with the lock's spin lock released.\<close>

lemma acquiresleep_taken:
  assumes "running p s" and "c_noff (mycpu s) = 0" and "sl_locked (sleeplocks s i) \<noteq> 0"
  shows "acquiresleep i s = Slept (acquired (ProcLock p) (sleeping p (SleepChan i) s))"
  using assms(2,3) runningD [OF assms(1)]
  by (simp add: acquiresleep_def acquiresleep_loop_def sleep_eq lock_simps)

end
