(* ===== verification/Uart.thy ===== *)
theory Uart
  imports Kprintf Sleeplock
begin

text \<open>
  The serial line and what prints on it: src/kernel/uart.c, and \<open>printf\<close> and \<open>panic\<close> of
  src/kernel/printf.c. The device is a 16550: \<open>u_in\<close> are the bytes that wait to be read from
  its receive register, \<open>u_out\<close> the bytes written to its transmit register so far, \<open>u_room\<close>
  how many more it takes before LSR_TX_IDLE goes off, \<open>u_lcr\<close> its line control register and
  \<open>u_config\<close> the other register writes. A loop that waits for the device to be idle ends with
  the device having taken what it held. The console's input buffer and the device switch are
  fields of the same record and belong to \<open>Console\<close>.
\<close>

datatype devfn = ConsoleFn

record con_state = slk_state +
  uart_tx_buf :: "byte list"
  uart_tx_w :: uint64
  uart_tx_r :: uint64
  u_out :: "byte list"
  u_room :: nat
  u_in :: "byte list"
  u_lcr :: byte
  u_config :: "(nat \<times> byte) list"
  panicked :: int
  pr_locking :: int
  cons_buf :: "byte list"
  cons_r :: uint32
  cons_w :: uint32
  cons_e :: uint32
  devsw_read :: "nat \<Rightarrow> devfn option"
  devsw_write :: "nat \<Rightarrow> devfn option"

abbreviation (input) UART_TX_BUF_SIZE :: nat where "UART_TX_BUF_SIZE \<equiv> 32"
abbreviation (input) IER :: nat where "IER \<equiv> 1"
abbreviation (input) FCR :: nat where "FCR \<equiv> 2"
abbreviation (input) LCR :: nat where "LCR \<equiv> 3"
abbreviation (input) THR :: nat where "THR \<equiv> 0"

text \<open>With the baud latch bit of the line control register set, the first two registers are the
  divisor; otherwise the first one transmits.\<close>

definition WriteReg :: "nat \<Rightarrow> byte \<Rightarrow> ('z) con_state_scheme \<Rightarrow> ('z) con_state_scheme" where
  "WriteReg r v s =
     (if r = LCR then s\<lparr>u_lcr := v, u_config := u_config s @ [(r, v)]\<rparr>
      else if r = THR \<and> \<not> bit (u_lcr s) 7 then s\<lparr>u_out := u_out s @ [v], u_room := u_room s - 1\<rparr>
      else s\<lparr>u_config := u_config s @ [(r, v)]\<rparr>)"

definition LSR_TX_IDLE :: "('z) con_state_scheme \<Rightarrow> bool" where
  "LSR_TX_IDLE s \<longleftrightarrow> 0 < u_room s"

definition LSR_RX_READY :: "('z) con_state_scheme \<Rightarrow> bool" where
  "LSR_RX_READY s \<longleftrightarrow> u_in s \<noteq> []"

definition uart_wait_idle :: "('z) con_state_scheme \<Rightarrow> ('z) con_state_scheme" where
  "uart_wait_idle s = (if LSR_TX_IDLE s then s else s\<lparr>u_room := 1\<rparr>)"

subsection \<open>The driver\<close>

definition uartinit :: "('z) con_state_scheme \<Rightarrow> ('z) con_state_scheme" where
  "uartinit s =
     (let s = WriteReg IER 0x00 s;
          s = WriteReg LCR 0x80 s;
          s = WriteReg 0 0x03 s;
          s = WriteReg 1 0x00 s;
          s = WriteReg LCR 0x03 s;
          s = WriteReg FCR (0x01 OR 0x06) s;
          s = WriteReg IER (0x02 OR 0x01) s
      in initlock UartLock ''uart'' s)"

text \<open>The loop of \<open>uartstart\<close>; the first argument bounds the rounds, of which there is one for
  each byte in the buffer.\<close>

fun uartstart_loop :: "nat \<Rightarrow> ('z) con_state_scheme \<Rightarrow> ('z con_state_scheme, 'z con_state_scheme) res" where
  "uartstart_loop 0 s = Spin"
| "uartstart_loop (Suc k) s =
     (if uart_tx_w s = uart_tx_r s then Ok s
      else if \<not> LSR_TX_IDLE s then Ok s
      else (let c = uart_tx_buf s ! (unat (uart_tx_r s) mod UART_TX_BUF_SIZE);
                s = s\<lparr>uart_tx_r := uart_tx_r s + 1\<rparr>
            in rbind (wakeup UartTxChan s) (\<lambda>s. uartstart_loop k (WriteReg THR c s))))"

definition uartstart :: "('z) con_state_scheme \<Rightarrow> ('z con_state_scheme, 'z con_state_scheme) res" where
  "uartstart s = uartstart_loop (Suc (unat (uart_tx_w s - uart_tx_r s))) s"

text \<open>\<open>uartputc_loop\<close> is \<open>uartputc\<close> from its loop on, with the lock held.\<close>

definition uartputc_loop :: "byte \<Rightarrow> ('z) con_state_scheme \<Rightarrow> ('z con_state_scheme, 'z con_state_scheme) res" where
  "uartputc_loop c s =
     (if uart_tx_w s = uart_tx_r s + of_nat UART_TX_BUF_SIZE then sleep UartTxChan UartLock s
      else (let s = s\<lparr>uart_tx_buf := (uart_tx_buf s)[unat (uart_tx_w s) mod UART_TX_BUF_SIZE := c]\<rparr>;
                s = s\<lparr>uart_tx_w := uart_tx_w s + 1\<rparr>
            in rbind (uartstart s) (\<lambda>s. release UartLock s)))"

definition uartputc :: "byte \<Rightarrow> ('z) con_state_scheme \<Rightarrow> ('z con_state_scheme, 'z con_state_scheme) res" where
  "uartputc c s =
     rbind (acquire UartLock s) (\<lambda>s.
     if panicked s \<noteq> 0 then Spin else uartputc_loop c s)"

definition uartputc_sync :: "byte \<Rightarrow> ('z) con_state_scheme \<Rightarrow> ('z con_state_scheme, 'z con_state_scheme) res" where
  "uartputc_sync c s =
     (let s = push_off s
      in if panicked s \<noteq> 0 then Spin
         else pop_off (WriteReg THR c (uart_wait_idle s)))"

definition uartgetc :: "('z) con_state_scheme \<Rightarrow> int \<times> ('z) con_state_scheme" where
  "uartgetc s = (if LSR_RX_READY s then (uint (hd (u_in s)), s\<lparr>u_in := tl (u_in s)\<rparr>) else (- 1, s))"

subsection \<open>printf\<close>

text \<open>\<open>consputc\<close> of src/kernel/console.c; 256 is BACKSPACE.\<close>

definition consputc :: "int \<Rightarrow> ('z) con_state_scheme \<Rightarrow> ('z con_state_scheme, 'z con_state_scheme) res" where
  "consputc c s =
     (if c = 0x100 then
        rbind (uartputc_sync 8 s) (\<lambda>s. rbind (uartputc_sync 32 s) (\<lambda>s. uartputc_sync 8 s))
      else uartputc_sync (of_int c) s)"

fun consputs :: "byte list \<Rightarrow> ('z) con_state_scheme \<Rightarrow> ('z con_state_scheme, 'z con_state_scheme) res" where
  "consputs [] s = Ok s"
| "consputs (b # bs) s = rbind (consputc (uint b) s) (\<lambda>s. consputs bs s)"

definition printf :: "byte list option \<Rightarrow> varg list \<Rightarrow> ('z) con_state_scheme \<Rightarrow> ('z con_state_scheme, 'z con_state_scheme) res" where
  "printf fmt args s =
     (let locking = pr_locking s
      in rbind (if locking \<noteq> 0 then acquire PrLock s else Ok s) (\<lambda>s.
         case fmt of
           None \<Rightarrow> Panic ''null fmt''
         | Some fmt \<Rightarrow> rbind (consputs (printf_bytes fmt args) s) (\<lambda>s.
             if locking \<noteq> 0 then release PrLock s else Ok s)))"

text \<open>What \<open>panic\<close> does before it spins; the outcome \<open>Panic\<close> of the model is a call of it.\<close>

definition panic_prints :: "byte list \<Rightarrow> ('z) con_state_scheme \<Rightarrow> ('z con_state_scheme, 'z con_state_scheme) res" where
  "panic_prints str s =
     rbind (printf (Some (ascii ''panic: '')) [] (s\<lparr>pr_locking := 0\<rparr>)) (\<lambda>s.
     rbind (printf (Some str) [] s) (\<lambda>s.
     rbind (printf (Some [10]) [] s) (\<lambda>s. Ok (s\<lparr>panicked := 1\<rparr>))))"

definition printfinit :: "('z) con_state_scheme \<Rightarrow> ('z) con_state_scheme" where
  "printfinit s = (initlock PrLock ''pr'' s)\<lparr>pr_locking := 1\<rparr>"

subsection \<open>Critical sections\<close>

lemma con_lock_simps [lock_simps]:
  "uart_tx_buf (acquired lk s) = uart_tx_buf s"
  "uart_tx_w (acquired lk s) = uart_tx_w s"
  "uart_tx_r (acquired lk s) = uart_tx_r s"
  "u_out (acquired lk s) = u_out s"
  "u_room (acquired lk s) = u_room s"
  "u_in (acquired lk s) = u_in s"
  "u_lcr (acquired lk s) = u_lcr s"
  "u_config (acquired lk s) = u_config s"
  "panicked (acquired lk s) = panicked s"
  "pr_locking (acquired lk s) = pr_locking s"
  "cons_buf (acquired lk s) = cons_buf s"
  "cons_r (acquired lk s) = cons_r s"
  "cons_w (acquired lk s) = cons_w s"
  "cons_e (acquired lk s) = cons_e s"
  "(acquired lk s)\<lparr>uart_tx_buf := x0\<rparr> = acquired lk (s\<lparr>uart_tx_buf := x0\<rparr>)"
  "(acquired lk s)\<lparr>uart_tx_w := x1\<rparr> = acquired lk (s\<lparr>uart_tx_w := x1\<rparr>)"
  "(acquired lk s)\<lparr>uart_tx_r := x2\<rparr> = acquired lk (s\<lparr>uart_tx_r := x2\<rparr>)"
  "(acquired lk s)\<lparr>u_out := x3\<rparr> = acquired lk (s\<lparr>u_out := x3\<rparr>)"
  "(acquired lk s)\<lparr>u_room := x4\<rparr> = acquired lk (s\<lparr>u_room := x4\<rparr>)"
  "(acquired lk s)\<lparr>u_in := x5\<rparr> = acquired lk (s\<lparr>u_in := x5\<rparr>)"
  "(acquired lk s)\<lparr>u_lcr := x6\<rparr> = acquired lk (s\<lparr>u_lcr := x6\<rparr>)"
  "(acquired lk s)\<lparr>u_config := x7\<rparr> = acquired lk (s\<lparr>u_config := x7\<rparr>)"
  "(acquired lk s)\<lparr>panicked := x8\<rparr> = acquired lk (s\<lparr>panicked := x8\<rparr>)"
  "(acquired lk s)\<lparr>pr_locking := x9\<rparr> = acquired lk (s\<lparr>pr_locking := x9\<rparr>)"
  "(acquired lk s)\<lparr>cons_buf := x10\<rparr> = acquired lk (s\<lparr>cons_buf := x10\<rparr>)"
  "(acquired lk s)\<lparr>cons_r := x11\<rparr> = acquired lk (s\<lparr>cons_r := x11\<rparr>)"
  "(acquired lk s)\<lparr>cons_w := x12\<rparr> = acquired lk (s\<lparr>cons_w := x12\<rparr>)"
  "(acquired lk s)\<lparr>cons_e := x13\<rparr> = acquired lk (s\<lparr>cons_e := x13\<rparr>)"
  "unheld lk (s\<lparr>uart_tx_buf := x0\<rparr>) = unheld lk s" "quiet (s\<lparr>uart_tx_buf := x0\<rparr>) = quiet s" "curproc (s\<lparr>uart_tx_buf := x0\<rparr>) = curproc s"
  "unheld lk (s\<lparr>uart_tx_w := x1\<rparr>) = unheld lk s" "quiet (s\<lparr>uart_tx_w := x1\<rparr>) = quiet s" "curproc (s\<lparr>uart_tx_w := x1\<rparr>) = curproc s"
  "unheld lk (s\<lparr>uart_tx_r := x2\<rparr>) = unheld lk s" "quiet (s\<lparr>uart_tx_r := x2\<rparr>) = quiet s" "curproc (s\<lparr>uart_tx_r := x2\<rparr>) = curproc s"
  "unheld lk (s\<lparr>u_out := x3\<rparr>) = unheld lk s" "quiet (s\<lparr>u_out := x3\<rparr>) = quiet s" "curproc (s\<lparr>u_out := x3\<rparr>) = curproc s"
  "unheld lk (s\<lparr>u_room := x4\<rparr>) = unheld lk s" "quiet (s\<lparr>u_room := x4\<rparr>) = quiet s" "curproc (s\<lparr>u_room := x4\<rparr>) = curproc s"
  "unheld lk (s\<lparr>u_in := x5\<rparr>) = unheld lk s" "quiet (s\<lparr>u_in := x5\<rparr>) = quiet s" "curproc (s\<lparr>u_in := x5\<rparr>) = curproc s"
  "unheld lk (s\<lparr>u_lcr := x6\<rparr>) = unheld lk s" "quiet (s\<lparr>u_lcr := x6\<rparr>) = quiet s" "curproc (s\<lparr>u_lcr := x6\<rparr>) = curproc s"
  "unheld lk (s\<lparr>u_config := x7\<rparr>) = unheld lk s" "quiet (s\<lparr>u_config := x7\<rparr>) = quiet s" "curproc (s\<lparr>u_config := x7\<rparr>) = curproc s"
  "unheld lk (s\<lparr>panicked := x8\<rparr>) = unheld lk s" "quiet (s\<lparr>panicked := x8\<rparr>) = quiet s" "curproc (s\<lparr>panicked := x8\<rparr>) = curproc s"
  "unheld lk (s\<lparr>pr_locking := x9\<rparr>) = unheld lk s" "quiet (s\<lparr>pr_locking := x9\<rparr>) = quiet s" "curproc (s\<lparr>pr_locking := x9\<rparr>) = curproc s"
  "unheld lk (s\<lparr>cons_buf := x10\<rparr>) = unheld lk s" "quiet (s\<lparr>cons_buf := x10\<rparr>) = quiet s" "curproc (s\<lparr>cons_buf := x10\<rparr>) = curproc s"
  "unheld lk (s\<lparr>cons_r := x11\<rparr>) = unheld lk s" "quiet (s\<lparr>cons_r := x11\<rparr>) = quiet s" "curproc (s\<lparr>cons_r := x11\<rparr>) = curproc s"
  "unheld lk (s\<lparr>cons_w := x12\<rparr>) = unheld lk s" "quiet (s\<lparr>cons_w := x12\<rparr>) = quiet s" "curproc (s\<lparr>cons_w := x12\<rparr>) = curproc s"
  "unheld lk (s\<lparr>cons_e := x13\<rparr>) = unheld lk s" "quiet (s\<lparr>cons_e := x13\<rparr>) = quiet s" "curproc (s\<lparr>cons_e := x13\<rparr>) = curproc s"
  by (simp_all add: acquired_upd unheld_def quiet_def mycpu_def curproc_def)

lemma con_woken [simp]:
  "uart_tx_buf (woken_on ch ps s) = uart_tx_buf s"
  "uart_tx_w (woken_on ch ps s) = uart_tx_w s"
  "uart_tx_r (woken_on ch ps s) = uart_tx_r s"
  "u_out (woken_on ch ps s) = u_out s"
  "u_room (woken_on ch ps s) = u_room s"
  "u_in (woken_on ch ps s) = u_in s"
  "u_lcr (woken_on ch ps s) = u_lcr s"
  "u_config (woken_on ch ps s) = u_config s"
  "panicked (woken_on ch ps s) = panicked s"
  "pr_locking (woken_on ch ps s) = pr_locking s"
  "cons_buf (woken_on ch ps s) = cons_buf s"
  "cons_r (woken_on ch ps s) = cons_r s"
  "cons_w (woken_on ch ps s) = cons_w s"
  "cons_e (woken_on ch ps s) = cons_e s"
  by (simp_all add: woken_on_def)

lemma WriteReg_THR:
  "\<not> bit (u_lcr s) 7 \<Longrightarrow> WriteReg THR c s = s\<lparr>u_out := u_out s @ [c], u_room := u_room s - 1\<rparr>"
  by (simp add: WriteReg_def)

subsection \<open>The output queue\<close>

text \<open>The \<open>n\<close> elements of a ring of size \<open>N\<close> from index \<open>r\<close> on.\<close>

definition ring :: "nat \<Rightarrow> 'a list \<Rightarrow> nat \<Rightarrow> nat \<Rightarrow> 'a list" where
  "ring N buf r n = map (\<lambda>k. buf ! ((r + k) mod N)) [0..<n]"

lemma ring_0 [simp]: "ring N buf r 0 = []"
  by (simp add: ring_def)

lemma ring_pop: "ring N buf r (Suc n) = buf ! (r mod N) # ring N buf (Suc r) n"
  by (simp add: ring_def upt_conv_Cons map_Suc_upt [symmetric] del: upt_Suc)

lemma ring_push:
  assumes "n < N" and "length buf = N"
  shows "ring N (buf[(r + n) mod N := x]) r (Suc n) = ring N buf r n @ [x]"
proof -
  have "(r + k) mod N \<noteq> (r + n) mod N" if "k < n" for k
  proof
    assume "(r + k) mod N = (r + n) mod N"
    then have "(r + n - (r + k)) mod N = 0" using that by (metis add_le_cancel_left less_imp_le mod_eq_dvd_iff_nat mod_0_imp_dvd dvd_imp_mod_0)
    then show False using that assms(1) by simp
  qed
  then have "map (\<lambda>k. buf[(r + n) mod N := x] ! ((r + k) mod N)) [0..<n] = map (\<lambda>k. buf ! ((r + k) mod N)) [0..<n]"
    by (metis (no_types, lifting) atLeastLessThan_iff map_cong nth_list_update_neq set_upt)
  then show ?thesis using assms by (simp add: ring_def)
qed

lemma ring_mod: "ring N buf (r mod N) n = ring N buf r n"
  by (simp add: ring_def mod_add_left_eq)

text \<open>The bytes that wait in the transmit buffer, and the invariant of the buffer.\<close>

definition uart_pending :: "('z) con_state_scheme \<Rightarrow> byte list" where
  "uart_pending s = ring UART_TX_BUF_SIZE (uart_tx_buf s) (unat (uart_tx_r s)) (unat (uart_tx_w s - uart_tx_r s))"

definition uart_inv :: "('z) con_state_scheme \<Rightarrow> bool" where
  "uart_inv s \<longleftrightarrow> length (uart_tx_buf s) = UART_TX_BUF_SIZE \<and> unat (uart_tx_w s - uart_tx_r s) \<le> UART_TX_BUF_SIZE
     \<and> \<not> bit (u_lcr s) 7"

lemma unat_dist_Suc:
  fixes w r :: "'a::len word"
  assumes "w \<noteq> r"
  shows "unat (w - r) = Suc (unat (w - (r + 1)))"
proof -
  have "w - r \<noteq> 0" using assms by simp
  then have "unat (w - r) \<noteq> 0" by (simp add: unat_eq_0)
  moreover have "unat (w - r - 1) = unat (w - r) - 1" using \<open>w - r \<noteq> 0\<close> by (simp add: unat_minus_one)
  ultimately show ?thesis by (simp add: diff_diff_eq)
qed

lemma uart_pending_pop:
  assumes "uart_tx_w s \<noteq> uart_tx_r s"
  shows "uart_pending s = uart_tx_buf s ! (unat (uart_tx_r s) mod UART_TX_BUF_SIZE) #
     uart_pending (s\<lparr>uart_tx_r := uart_tx_r s + 1\<rparr>)"
proof -
  have "unat (uart_tx_r s + 1) mod UART_TX_BUF_SIZE = Suc (unat (uart_tx_r s)) mod UART_TX_BUF_SIZE"
    by (simp add: unat_word_ariths mod_mod_cancel)
  then have "ring UART_TX_BUF_SIZE buf (unat (uart_tx_r s + 1)) n = ring UART_TX_BUF_SIZE buf (Suc (unat (uart_tx_r s))) n" for buf :: "byte list" and n
    by (metis ring_mod)
  then show ?thesis unfolding uart_pending_def unat_dist_Suc [OF assms] by (simp add: ring_pop)
qed

text \<open>\<open>uartstart\<close> sends from the front of the queue, as much as the device takes.\<close>

definition uart_sent :: "nat \<Rightarrow> ('z) con_state_scheme \<Rightarrow> ('z) con_state_scheme \<Rightarrow> bool" where
  "uart_sent k s s' \<longleftrightarrow> u_out s' = u_out s @ take k (uart_pending s) \<and> uart_pending s' = drop k (uart_pending s)
     \<and> u_room s' = u_room s - min k (length (uart_pending s)) \<and> uart_inv s' \<and> uart_tx_w s' = uart_tx_w s"

lemma uartstart_loop_spec:
  assumes "uart_inv s" and "length (uart_pending s) < k" and "quiet s" and "\<And>p. unheld (ProcLock p) s"
  shows "\<exists>s'. uartstart_loop k s = Ok s' \<and> uart_sent (u_room s) s s'"
  using assms
proof (induction k arbitrary: s)
  case (Suc k)
  show ?case
  proof (cases "uart_tx_w s = uart_tx_r s \<or> u_room s = 0")
    case True
    then show ?thesis using Suc.prems(1) by (auto simp: LSR_TX_IDLE_def uart_sent_def uart_pending_def)
  next
    case False
    let ?c = "uart_tx_buf s ! (unat (uart_tx_r s) mod UART_TX_BUF_SIZE)"
    let ?r = "s\<lparr>uart_tx_r := uart_tx_r s + 1\<rparr>"
    let ?t = "WriteReg THR ?c (woken UartTxChan ?r)"
    have lcr: "\<not> bit (u_lcr s) 7" using Suc.prems(1) by (simp add: uart_inv_def)
    then have t: "?t = (woken UartTxChan ?r)\<lparr>u_out := u_out s @ [?c], u_room := u_room s - 1\<rparr>"
      by (simp add: WriteReg_THR)
    have step: "uartstart_loop (Suc k) s = uartstart_loop k ?t"
      using False Suc.prems(3,4) by (simp add: LSR_TX_IDLE_def wakeup_eq lock_simps)
    have pend: "uart_pending s = ?c # uart_pending ?t"
      using uart_pending_pop [of s] False by (simp add: t uart_pending_def)
    have inv: "uart_inv ?t"
      using Suc.prems(1) unat_dist_Suc [of "uart_tx_w s" "uart_tx_r s"] False by (simp add: t uart_inv_def)
    obtain s' where "uartstart_loop k ?t = Ok s'" "uart_sent (u_room ?t) ?t s'"
      using Suc.IH [OF inv] Suc.prems(2-4) by (auto simp: pend) (auto simp: t lock_simps)
    then show ?thesis unfolding step using False by (auto simp: uart_sent_def pend) (auto simp: t neq0_conv gr0_conv_Suc)
  qed
qed simp

lemma length_uart_pending: "length (uart_pending s) = unat (uart_tx_w s - uart_tx_r s)"
  by (simp add: uart_pending_def ring_def)

lemma uartstart_spec:
  assumes "uart_inv s" and "quiet s" and "\<And>p. unheld (ProcLock p) s"
  shows "\<exists>s'. uartstart s = Ok s' \<and> uart_sent (u_room s) s s'"
  unfolding uartstart_def using assms by (intro uartstart_loop_spec) (simp_all add: length_uart_pending)

lemma unat_add_mod:
  fixes r x :: uint64
  shows "unat (r + x) mod 32 = (unat r + unat x) mod 32"
  by (simp add: unat_word_ariths mod_mod_cancel)

lemma uart_pending_push:
  fixes s :: "('z) con_state_scheme"
  assumes "uart_inv s" and "uart_tx_w s \<noteq> uart_tx_r s + 32"
    and t: "t = s\<lparr>uart_tx_buf := (uart_tx_buf s)[unat (uart_tx_w s) mod 32 := c], uart_tx_w := uart_tx_w s + 1\<rparr>"
  shows "uart_pending t = uart_pending s @ [c]" "uart_inv t"
proof -
  define x where "x = uart_tx_w s - uart_tx_r s"
  have w: "uart_tx_w s = uart_tx_r s + x" by (simp add: x_def)
  have "x \<noteq> 32" using assms(2) by (simp add: w)
  moreover have "of_nat (unat x) = x" by simp
  ultimately have "unat x \<noteq> 32" by (metis of_nat_numeral)
  then have n: "unat x < 32" using assms(1) by (simp add: uart_inv_def x_def)
  have "unat (x + 1) = Suc (unat x)" using n by (simp add: unat_word_ariths)
  moreover have "uart_tx_w s + 1 - uart_tx_r s = x + 1" by (simp add: w)
  ultimately show "uart_pending t = uart_pending s @ [c]" "uart_inv t"
    using ring_push [OF n, of "uart_tx_buf s" "unat (uart_tx_r s)" c] assms(1) n unat_add_mod [of "uart_tx_r s" x]
    by (simp_all add: t uart_pending_def uart_inv_def w)
qed

lemma WriteReg_lock_simps [lock_simps]:
  "WriteReg r v (acquired lk s) = acquired lk (WriteReg r v s)"
  "unheld lk (WriteReg r v s) = unheld lk s" "quiet (WriteReg r v s) = quiet s" "curproc (WriteReg r v s) = curproc s"
  by (simp_all add: WriteReg_def lock_simps)

lemma uartstart_loop_acquired:
  assumes "uartstart_loop k s = Ok s'" and "quiet s" and "\<And>p. unheld (ProcLock p) s" and "\<And>p. lk \<noteq> ProcLock p"
  shows "uartstart_loop k (acquired lk s) = Ok (acquired lk s') \<and> quiet s' \<and> curproc s' = curproc s \<and> (\<forall>l. unheld l s' = unheld l s)"
  using assms(1-3)
proof (induction k arbitrary: s)
  case (Suc k)
  show ?case
  proof (cases "uart_tx_w s = uart_tx_r s \<or> \<not> LSR_TX_IDLE s")
    case True
    then have "uartstart_loop (Suc k) s = Ok s" "uartstart_loop (Suc k) (acquired lk s) = Ok (acquired lk s)"
      by (auto simp: LSR_TX_IDLE_def lock_simps)
    then show ?thesis using Suc.prems by (simp del: uartstart_loop.simps)
  next
    case False
    let ?t = "WriteReg THR (uart_tx_buf s ! (unat (uart_tx_r s) mod 32)) (woken UartTxChan (s\<lparr>uart_tx_r := uart_tx_r s + 1\<rparr>))"
    have "uartstart_loop (Suc k) s = uartstart_loop k ?t" "uartstart_loop (Suc k) (acquired lk s) = uartstart_loop k (acquired lk ?t)"
      using False Suc.prems(2,3) assms(4) [THEN not_sym] by (simp_all add: wakeup_eq lock_simps LSR_TX_IDLE_def)
    then show ?thesis using Suc.IH [of ?t] Suc.prems by (simp add: lock_simps)
  qed
qed simp

lemma uartstart_acquired:
  assumes "uartstart s = Ok s'" and "quiet s" and "\<And>p. unheld (ProcLock p) s" and "\<And>p. lk \<noteq> ProcLock p"
  shows "uartstart (acquired lk s) = Ok (acquired lk s') \<and> quiet s' \<and> curproc s' = curproc s \<and> (\<forall>l. unheld l s' = unheld l s)"
  using assms uartstart_loop_acquired [of _ s s' lk] by (simp add: uartstart_def lock_simps del: uartstart_loop.simps)

lemma uartputc_stream:
  assumes run: "running p s" and "panicked s = 0" and "uart_inv s" and "uart_tx_w s \<noteq> uart_tx_r s + 32"
  shows "\<exists>s'. uartputc c s = Ok s' \<and> running p s' \<and> uart_inv s' \<and> u_out s' @ uart_pending s' = u_out s @ uart_pending s @ [c]"
proof -
  let ?t = "s\<lparr>uart_tx_buf := (uart_tx_buf s)[unat (uart_tx_w s) mod 32 := c], uart_tx_w := uart_tx_w s + 1\<rparr>"
  note R = runningD [OF run] and push = uart_pending_push [OF assms(3,4) refl, of c]
  have Rt: "quiet ?t" "\<And>l. unheld l ?t" "curproc ?t = curproc s" using R by (simp_all add: lock_simps)
  obtain s' where s': "uartstart ?t = Ok s'" "uart_sent (u_room ?t) ?t s'" using uartstart_spec [OF push(2) Rt(1,2)] by blast
  have acq: "uartstart (acquired UartLock ?t) = Ok (acquired UartLock s')" "quiet s'" "curproc s' = curproc s" "\<And>l. unheld l s'"
    using uartstart_acquired [OF s'(1) Rt(1,2), of UartLock] Rt by auto
  have "uartputc c s = Ok s'"
    using assms(2,4) R acq by (simp add: uartputc_def uartputc_loop_def lock_simps)
  moreover have "u_out s' @ uart_pending s' = u_out ?t @ uart_pending ?t" using s'(2) by (simp add: uart_sent_def)
  ultimately show ?thesis using s'(2) push(1) acq R by (auto simp: uart_sent_def running_def)
qed

subsection \<open>Printing\<close>

definition printed :: "byte list \<Rightarrow> ('z) con_state_scheme \<Rightarrow> ('z) con_state_scheme" where
  "printed bs s = s\<lparr>u_out := u_out s @ bs, u_room := u_room s - length bs\<rparr>"

lemma printed_simps [simp]:
  "printed [] s = s" "printed cs (printed bs s) = printed (bs @ cs) s"
  "panicked (printed bs s) = panicked s" "u_lcr (printed bs s) = u_lcr s" "pr_locking (printed bs s) = pr_locking s"
  "procs (printed bs s) = procs s" "u_out (printed bs s) = u_out s @ bs" "u_in (printed bs s) = u_in s"
  "cons_buf (printed bs s) = cons_buf s" "cons_r (printed bs s) = cons_r s" "cons_w (printed bs s) = cons_w s"
  "cons_e (printed bs s) = cons_e s"
  by (simp_all add: printed_def)

lemma printed_lock_simps [lock_simps]:
  "printed bs (acquired lk s) = acquired lk (printed bs s)"
  "unheld lk (printed bs s) = unheld lk s" "quiet (printed bs s) = quiet s" "curproc (printed bs s) = curproc s"
  by (simp_all add: printed_def lock_simps)

lemma uartputc_sync_eq:
  assumes "quiet s" and "panicked s = 0" and "\<not> bit (u_lcr s) 7"
  shows "uartputc_sync c s = Ok (printed [c] s)"
proof -
  let ?t = "WriteReg THR c (uart_wait_idle (push_off s))"
  have t: "?t = (push_off s)\<lparr>u_out := u_out s @ [c], u_room := u_room s - 1\<rparr>"
    using assms(3) by (auto simp: WriteReg_def uart_wait_idle_def LSR_TX_IDLE_def push_off_eq)
  have "pop_off ?t = Ok (?t\<lparr>cpus := cpus s\<rparr>)"
    by (rule pop_off_push_off_cpu [OF assms(1)]; unfold t; simp)
  moreover have "?t\<lparr>cpus := cpus s\<rparr> = printed [c] s" unfolding t by (simp add: printed_def push_off_eq)
  moreover have "panicked (push_off s) = 0" using assms(2) by (simp add: push_off_eq)
  ultimately show ?thesis by (simp add: uartputc_sync_def Let_def)
qed

lemma consputc_eq:
  assumes "quiet s" and "panicked s = 0" and "\<not> bit (u_lcr s) 7"
  shows "consputc c s = Ok (printed (if c = 0x100 then [8, 32, 8] else [of_int c]) s)"
  using assms by (simp add: consputc_def uartputc_sync_eq lock_simps)

lemma consputs_eq:
  assumes "quiet s" and "panicked s = 0" and "\<not> bit (u_lcr s) 7"
  shows "consputs bs s = Ok (printed bs s)"
  using assms
proof (induction bs arbitrary: s)
  case (Cons b bs)
  have "uint b \<noteq> 0x100" using uint_lt2p [of b] by auto
  with Cons show ?case by (simp add: consputc_eq lock_simps)
qed simp

lemma printf_eq:
  assumes "quiet s" and "unheld PrLock s" and "panicked s = 0" and "\<not> bit (u_lcr s) 7"
  shows "printf (Some fmt) args s = Ok (printed (printf_bytes fmt args) s)"
  using assms by (simp add: printf_def Let_def consputs_eq lock_simps)

subsection \<open>Properties\<close>

text \<open>A machine on which the process 0 runs, with nothing to send.\<close>

definition blank_proc :: proc where
  "blank_proc = \<lparr>p_state = UNUSED, p_chan = None, p_killed = 0, p_xstate = 0, p_pid = 0, p_parent = None, p_kstack = 0,
     p_sz = 0, p_pagetable = 0, p_trapframe = 0, p_context = \<lparr>ctx_ra = 0, ctx_sp = 0, ctx_s = []\<rparr>,
     p_ofile = replicate 16 None, p_cwd = None, p_name = replicate 16 0\<rparr>"

definition demo_con :: con_state where
  "demo_con = slk_state.extend
     (proc_state.extend
       (vm_state.extend
         (kmem_state.extend
           (machine.extend (boot_machine\<lparr>cpus := (\<lambda>_. idle_cpu\<lparr>c_proc := Some 0\<rparr>)\<rparr>) \<lparr>freelist = 0\<rparr>)
           \<lparr>kernel_pagetable = 0, satp = (\<lambda>_. 0)\<rparr>)
         \<lparr>procs = (\<lambda>_. blank_proc), nextpid = 1, initproc = None, forkret_pc = 0\<rparr>)
       \<lparr>sleeplocks = (\<lambda>_. \<lparr>sl_locked = 0, sl_name = [], sl_pid = 0\<rparr>)\<rparr>)
     \<lparr>uart_tx_buf = replicate 32 0, uart_tx_w = 0, uart_tx_r = 0, u_out = [], u_room = 0, u_in = [], u_lcr = 3, u_config = [],
      panicked = 0, pr_locking = 1, cons_buf = replicate 128 0, cons_r = 0, cons_w = 0, cons_e = 0,
      devsw_read = (\<lambda>_. None), devsw_write = (\<lambda>_. None)\<rparr>"

lemmas demo_defs = machine.defs kmem_state.defs vm_state.defs proc_state.defs slk_state.defs con_state.defs

lemma demo_con_running: "running 0 demo_con"
  by (simp add: demo_con_def running_def quiet_def unheld_def curproc_def mycpu_def idle_cpu_def boot_machine_def demo_defs)

lemma demo_con_sel:
  "panicked demo_con = 0" "uart_tx_w demo_con = 0" "uart_tx_r demo_con = 0" "u_out demo_con = []" "u_lcr demo_con = 3"
  "uart_tx_buf demo_con = replicate 32 0" "cons_buf demo_con = replicate 128 0" "cons_r demo_con = 0" "cons_w demo_con = 0" "cons_e demo_con = 0"
  by (simp_all add: demo_con_def demo_defs)



end
