(* ===== verification/Console.thy ===== *)
theory Console
  imports Uart
begin

text \<open>
  The console, src/kernel/console.c, with \<open>procdump\<close> of src/kernel/proc.c that it calls and
  \<open>uartintr\<close> of src/kernel/uart.c that calls it. The code after a \<open>sleep\<close> of \<open>consoleread\<close>
  is \<open>consoleread_loop\<close> again, with the lock held and the count that is left.
\<close>

abbreviation (input) INPUT_BUF_SIZE :: nat where "INPUT_BUF_SIZE \<equiv> 128"
abbreviation (input) CONSOLE :: nat where "CONSOLE \<equiv> 1"

fun consolewrite_loop :: "bool \<Rightarrow> uint64 \<Rightarrow> int \<Rightarrow> nat \<Rightarrow> ('z) con_state_scheme \<Rightarrow>
    ('z con_state_scheme, int \<times> 'z con_state_scheme) res" where
  "consolewrite_loop user_src src i 0 s = Ok (i, s)"
| "consolewrite_loop user_src src i (Suc k) s =
     rbind (either_copyin user_src (src + of_int i) 1 s) (\<lambda>((r, c), s).
     if r = -1 then Ok (i, s)
     else rbind (uartputc (hd c) s) (\<lambda>s. consolewrite_loop user_src src (i + 1) k s))"

definition consolewrite :: "bool \<Rightarrow> uint64 \<Rightarrow> int \<Rightarrow> ('z) con_state_scheme \<Rightarrow>
    ('z con_state_scheme, int \<times> 'z con_state_scheme) res" where
  "consolewrite user_src src n s = consolewrite_loop user_src src 0 (nat n) s"

definition cons_at :: "uint32 \<Rightarrow> ('z) con_state_scheme \<Rightarrow> byte" where
  "cons_at i s = cons_buf s ! (unat i mod INPUT_BUF_SIZE)"

fun consoleread_loop :: "bool \<Rightarrow> uint64 \<Rightarrow> int \<Rightarrow> nat \<Rightarrow> ('z) con_state_scheme \<Rightarrow>
    ('z con_state_scheme, int \<times> 'z con_state_scheme) res" where
  "consoleread_loop user_dst dst target 0 s =
     rbind (release ConsLock s) (\<lambda>s. Ok (target, s))"
| "consoleread_loop user_dst dst target (Suc n) s =
     (let finish = (\<lambda>n s. rbind (release ConsLock s) (\<lambda>s. Ok (target - int n, s)))
      in if cons_r s = cons_w s then
           rbind (myproc s) (\<lambda>(mp, s). deref mp (\<lambda>p.
           rbind (killed p s) (\<lambda>(k, s).
           if k \<noteq> 0 then rbind (release ConsLock s) (\<lambda>s. Ok (-1, s))
           else sleep ConsReadChan ConsLock s)))
         else
           (let c = cons_at (cons_r s) s;
                s = s\<lparr>cons_r := cons_r s + 1\<rparr>
            in if c = 4 then finish (Suc n) (if int (Suc n) < target then s\<lparr>cons_r := cons_r s - 1\<rparr> else s)
               else rbind (either_copyout user_dst dst [c] s) (\<lambda>(r, s).
                    if r = -1 then finish (Suc n) s
                    else if c = 10 then finish n s
                    else consoleread_loop user_dst (dst + 1) target n s)))"

definition consoleread :: "bool \<Rightarrow> uint64 \<Rightarrow> int \<Rightarrow> ('z) con_state_scheme \<Rightarrow>
    ('z con_state_scheme, int \<times> 'z con_state_scheme) res" where
  "consoleread user_dst dst n s =
     rbind (acquire ConsLock s) (\<lambda>s.
     if n \<le> 0 then rbind (release ConsLock s) (\<lambda>s. Ok (0, s))
     else consoleread_loop user_dst dst n (nat n) s)"

subsection \<open>The process listing\<close>

definition procdump_state :: "procstate \<Rightarrow> byte list" where
  "procdump_state st = ascii (case st of UNUSED \<Rightarrow> ''unused'' | USED \<Rightarrow> ''used'' | SLEEPING \<Rightarrow> ''sleep ''
     | RUNNABLE \<Rightarrow> ''runble'' | RUNNING \<Rightarrow> ''run   '' | ZOMBIE \<Rightarrow> ''zombie'')"

fun procdump_loop :: "nat list \<Rightarrow> ('z) con_state_scheme \<Rightarrow> ('z con_state_scheme, 'z con_state_scheme) res" where
  "procdump_loop [] s = Ok s"
| "procdump_loop (p # ps) s =
     (if p_state (procs s p) = UNUSED then procdump_loop ps s
      else rbind (printf (Some (ascii ''%d %s %s''))
                    [AInt (of_int (p_pid (procs s p))), AStr (Some (procdump_state (p_state (procs s p)))), AStr (Some (p_name (procs s p)))] s) (\<lambda>s.
           rbind (printf (Some [10]) [] s) (\<lambda>s. procdump_loop ps s)))"

definition procdump :: "('z) con_state_scheme \<Rightarrow> ('z con_state_scheme, 'z con_state_scheme) res" where
  "procdump s = rbind (printf (Some [10]) [] s) (\<lambda>s. procdump_loop [0..<NPROC] s)"

subsection \<open>Input\<close>

text \<open>The loop of control-U. The first argument bounds the rounds by the length of the line.\<close>

fun kill_line :: "nat \<Rightarrow> ('z) con_state_scheme \<Rightarrow> ('z con_state_scheme, 'z con_state_scheme) res" where
  "kill_line 0 s = Spin"
| "kill_line (Suc k) s =
     (if cons_e s \<noteq> cons_w s \<and> cons_at (cons_e s - 1) s \<noteq> 10
      then rbind (consputc 0x100 (s\<lparr>cons_e := cons_e s - 1\<rparr>)) (\<lambda>s. kill_line k s)
      else Ok s)"

definition consoleintr :: "int \<Rightarrow> ('z) con_state_scheme \<Rightarrow> ('z con_state_scheme, 'z con_state_scheme) res" where
  "consoleintr c s =
     rbind (acquire ConsLock s) (\<lambda>s.
     rbind (if c = 16 then procdump s
            else if c = 21 then kill_line (Suc (unat (cons_e s - cons_w s))) s
            else if c = 8 \<or> c = 0x7f then
              (if cons_e s \<noteq> cons_w s then consputc 0x100 (s\<lparr>cons_e := cons_e s - 1\<rparr>) else Ok s)
            else if c \<noteq> 0 \<and> cons_e s - cons_r s < of_nat INPUT_BUF_SIZE then
              (let c = (if c = 13 then 10 else c)
               in rbind (consputc c s) (\<lambda>s.
                  let s = s\<lparr>cons_buf := (cons_buf s)[unat (cons_e s) mod INPUT_BUF_SIZE := of_int c]\<rparr>;
                      s = s\<lparr>cons_e := cons_e s + 1\<rparr>
                  in if c = 10 \<or> c = 4 \<or> cons_e s - cons_r s = of_nat INPUT_BUF_SIZE
                     then wakeup ConsReadChan (s\<lparr>cons_w := cons_e s\<rparr>)
                     else Ok s))
            else Ok s) (\<lambda>s.
     release ConsLock s))"

definition consoleinit :: "('z) con_state_scheme \<Rightarrow> ('z) con_state_scheme" where
  "consoleinit s =
     (let s = initlock ConsLock ''cons'' s;
          s = uartinit s
      in s\<lparr>devsw_read := (devsw_read s)(CONSOLE := Some ConsoleFn), devsw_write := (devsw_write s)(CONSOLE := Some ConsoleFn)\<rparr>)"

text \<open>\<open>uartintr\<close>: every byte that has arrived, then the bytes that wait to be sent.\<close>

fun uartintr_loop :: "nat \<Rightarrow> ('z) con_state_scheme \<Rightarrow> ('z con_state_scheme, 'z con_state_scheme) res" where
  "uartintr_loop 0 s = Spin"
| "uartintr_loop (Suc k) s =
     (case uartgetc s of (c, s) \<Rightarrow>
        if c = -1 then Ok s else rbind (consoleintr c s) (\<lambda>s. uartintr_loop k s))"

definition uartintr :: "('z) con_state_scheme \<Rightarrow> ('z con_state_scheme, 'z con_state_scheme) res" where
  "uartintr s =
     rbind (uartintr_loop (Suc (length (u_in s))) s) (\<lambda>s.
     rbind (acquire UartLock s) (\<lambda>s.
     rbind (uartstart s) (\<lambda>s. release UartLock s)))"

end
