(* ===== verification/Bio.thy ===== *)
theory Bio
  imports Console
begin

text \<open>
  The buffer cache, src/kernel/bio.c and src/kernel/buf.h. Buffers are named by their index in
  \<open>bcache.buf\<close>; the index \<open>NBUF\<close> is the list head \<open>bcache.head\<close>. The list of buffers
  is threaded through \<open>b_next\<close> and \<open>b_prev\<close> as in the code; \<open>lru s ls\<close> says that it
  visits the buffers \<open>ls\<close>, most recently used first.

  \<open>disk_transfer\<close> is what a call of \<open>virtio_disk_rw\<close> has done when it returns: one
  block has moved between the buffer and the disk. \<open>writes\<close> records the block writes in
  the order in which they reached the disk; it has no counterpart in the code and exists to speak
  about crashes.
\<close>

definition NBUF :: nat where "NBUF = 30"

abbreviation (input) BSIZE :: nat where "BSIZE \<equiv> 1024"

record buf =
  b_valid :: int
  b_disk :: int
  b_dev :: uint32
  b_blockno :: uint32
  b_refcnt :: uint32
  b_prev :: nat
  b_next :: nat
  b_data :: "byte list"

record bio_state = con_state +
  bufs :: "nat \<Rightarrow> buf"
  disk :: "uint32 \<Rightarrow> byte list"
  writes :: "(uint32 \<times> byte list) list"

definition upd_buf :: "nat \<Rightarrow> (buf \<Rightarrow> buf) \<Rightarrow> ('z) bio_state_scheme \<Rightarrow> ('z) bio_state_scheme" where
  "upd_buf b f s = s\<lparr>bufs := (bufs s)(b := f (bufs s b))\<rparr>"

definition disk_transfer :: "nat \<Rightarrow> bool \<Rightarrow> ('z) bio_state_scheme \<Rightarrow> ('z) bio_state_scheme" where
  "disk_transfer b wr s =
     (if wr then s\<lparr>disk := (disk s)(b_blockno (bufs s b) := b_data (bufs s b)),
                   writes := writes s @ [(b_blockno (bufs s b), b_data (bufs s b))]\<rparr>
      else upd_buf b (\<lambda>x. x\<lparr>b_data := disk s (b_blockno x)\<rparr>) s)"

subsection \<open>Operations\<close>

text \<open>Insertion behind the head, which \<open>binit\<close> and \<open>brelse\<close> both do, and removal.\<close>

fun binit_loop :: "nat list \<Rightarrow> ('z) bio_state_scheme \<Rightarrow> ('z) bio_state_scheme" where
  "binit_loop [] s = s"
| "binit_loop (b # bs) s =
     (let s = upd_buf b (\<lambda>x. x\<lparr>b_next := b_next (bufs s NBUF)\<rparr>) s;
          s = upd_buf b (\<lambda>x. x\<lparr>b_prev := NBUF\<rparr>) s;
          s = initsleeplock (BufSleep b) ''buffer'' s;
          s = upd_buf (b_next (bufs s NBUF)) (\<lambda>x. x\<lparr>b_prev := b\<rparr>) s;
          s = upd_buf NBUF (\<lambda>x. x\<lparr>b_next := b\<rparr>) s
      in binit_loop bs s)"

definition binit :: "('z) bio_state_scheme \<Rightarrow> ('z) bio_state_scheme" where
  "binit s =
     (let s = initlock BcacheLock ''bcache'' s;
          s = upd_buf NBUF (\<lambda>x. x\<lparr>b_prev := NBUF\<rparr>) s;
          s = upd_buf NBUF (\<lambda>x. x\<lparr>b_next := NBUF\<rparr>) s
      in binit_loop [0..<NBUF] s)"

text \<open>The two loops of \<open>bget\<close>. The first argument bounds the number of rounds; a walk that
  never meets the head spins.\<close>

fun bget_find :: "nat \<Rightarrow> uint32 \<Rightarrow> uint32 \<Rightarrow> nat \<Rightarrow> (nat \<Rightarrow> buf) \<Rightarrow> ('s, nat option) res" where
  "bget_find 0 dev blockno b bf = Spin"
| "bget_find (Suc k) dev blockno b bf =
     (if b = NBUF then Ok None
      else if b_dev (bf b) = dev \<and> b_blockno (bf b) = blockno then Ok (Some b)
      else bget_find k dev blockno (b_next (bf b)) bf)"

fun bget_lru :: "nat \<Rightarrow> nat \<Rightarrow> (nat \<Rightarrow> buf) \<Rightarrow> ('s, nat option) res" where
  "bget_lru 0 b bf = Spin"
| "bget_lru (Suc k) b bf =
     (if b = NBUF then Ok None
      else if b_refcnt (bf b) = 0 then Ok (Some b)
      else bget_lru k (b_prev (bf b)) bf)"

definition bget :: "uint32 \<Rightarrow> uint32 \<Rightarrow> ('z) bio_state_scheme \<Rightarrow> ('z bio_state_scheme, nat \<times> 'z bio_state_scheme) res" where
  "bget dev blockno s =
     rbind (acquire BcacheLock s) (\<lambda>s.
     rbind (bget_find (Suc NBUF) dev blockno (b_next (bufs s NBUF)) (bufs s)) (\<lambda>found.
     case found of
       Some b \<Rightarrow>
         (let s = upd_buf b (\<lambda>x. x\<lparr>b_refcnt := b_refcnt x + 1\<rparr>) s
          in rbind (release BcacheLock s) (\<lambda>s.
             rbind (acquiresleep (BufSleep b) s) (\<lambda>s. Ok (b, s))))
     | None \<Rightarrow>
         rbind (bget_lru (Suc NBUF) (b_prev (bufs s NBUF)) (bufs s)) (\<lambda>found.
         case found of
           Some b \<Rightarrow>
             (let s = upd_buf b (\<lambda>x. x\<lparr>b_dev := dev, b_blockno := blockno, b_valid := 0, b_refcnt := 1\<rparr>) s
              in rbind (release BcacheLock s) (\<lambda>s.
                 rbind (acquiresleep (BufSleep b) s) (\<lambda>s. Ok (b, s))))
         | None \<Rightarrow> Panic ''bget: no buffers'')))"

definition bread :: "uint32 \<Rightarrow> uint32 \<Rightarrow> ('z) bio_state_scheme \<Rightarrow> ('z bio_state_scheme, nat \<times> 'z bio_state_scheme) res" where
  "bread dev blockno s =
     rbind (bget dev blockno s) (\<lambda>(b, s).
     if b_valid (bufs s b) = 0 then
       Ok (b, upd_buf b (\<lambda>x. x\<lparr>b_valid := 1\<rparr>) (disk_transfer b False s))
     else Ok (b, s))"

definition bwrite :: "nat \<Rightarrow> ('z) bio_state_scheme \<Rightarrow> ('z bio_state_scheme, 'z bio_state_scheme) res" where
  "bwrite b s =
     rbind (holdingsleep (BufSleep b) s) (\<lambda>(h, s).
     if \<not> h then Panic ''bwrite'' else Ok (disk_transfer b True s))"

definition brelse :: "nat \<Rightarrow> ('z) bio_state_scheme \<Rightarrow> ('z bio_state_scheme, 'z bio_state_scheme) res" where
  "brelse b s =
     rbind (holdingsleep (BufSleep b) s) (\<lambda>(h, s).
     if \<not> h then Panic ''brelse''
     else rbind (releasesleep (BufSleep b) s) (\<lambda>s.
     rbind (acquire BcacheLock s) (\<lambda>s.
     let s = upd_buf b (\<lambda>x. x\<lparr>b_refcnt := b_refcnt x - 1\<rparr>) s;
         s = (if b_refcnt (bufs s b) = 0 then
                (let s = upd_buf (b_next (bufs s b)) (\<lambda>x. x\<lparr>b_prev := b_prev (bufs s b)\<rparr>) s;
                     s = upd_buf (b_prev (bufs s b)) (\<lambda>x. x\<lparr>b_next := b_next (bufs s b)\<rparr>) s;
                     s = upd_buf b (\<lambda>x. x\<lparr>b_next := b_next (bufs s NBUF)\<rparr>) s;
                     s = upd_buf b (\<lambda>x. x\<lparr>b_prev := NBUF\<rparr>) s;
                     s = upd_buf (b_next (bufs s NBUF)) (\<lambda>x. x\<lparr>b_prev := b\<rparr>) s
                 in upd_buf NBUF (\<lambda>x. x\<lparr>b_next := b\<rparr>) s)
              else s)
     in release BcacheLock s)))"

definition bpin :: "nat \<Rightarrow> ('z) bio_state_scheme \<Rightarrow> ('z bio_state_scheme, 'z bio_state_scheme) res" where
  "bpin b s =
     rbind (acquire BcacheLock s) (\<lambda>s.
     release BcacheLock (upd_buf b (\<lambda>x. x\<lparr>b_refcnt := b_refcnt x + 1\<rparr>) s))"

definition bunpin :: "nat \<Rightarrow> ('z) bio_state_scheme \<Rightarrow> ('z bio_state_scheme, 'z bio_state_scheme) res" where
  "bunpin b s =
     rbind (acquire BcacheLock s) (\<lambda>s.
     release BcacheLock (upd_buf b (\<lambda>x. x\<lparr>b_refcnt := b_refcnt x - 1\<rparr>) s))"

subsection \<open>Critical sections\<close>

lemma bio_lock_simps [lock_simps]:
  "bufs (acquired lk s) = bufs s"
  "(acquired lk s)\<lparr>bufs := x\<rparr> = acquired lk (s\<lparr>bufs := x\<rparr>)"
  "unheld lk (s\<lparr>bufs := x\<rparr>) = unheld lk s"
  "quiet (s\<lparr>bufs := x\<rparr>) = quiet s"
  "curproc (s\<lparr>bufs := x\<rparr>) = curproc s"
  "disk (acquired lk s) = disk s"
  "unheld lk (s\<lparr>disk := d\<rparr>) = unheld lk s"
  "quiet (s\<lparr>disk := d\<rparr>) = quiet s"
  "curproc (s\<lparr>disk := d\<rparr>) = curproc s"
  "unheld lk (s\<lparr>writes := w\<rparr>) = unheld lk s"
  "quiet (s\<lparr>writes := w\<rparr>) = quiet s"
  "curproc (s\<lparr>writes := w\<rparr>) = curproc s"
  by (simp_all add: acquired_upd unheld_def quiet_def mycpu_def curproc_def)

lemma upd_buf_lock_simps [lock_simps]:
  "upd_buf b f (acquired lk s) = acquired lk (upd_buf b f s)"
  "unheld lk (upd_buf b f s) = unheld lk s"
  "quiet (upd_buf b f s) = quiet s"
  "curproc (upd_buf b f s) = curproc s"
  by (simp_all add: upd_buf_def lock_simps)

lemma running_bio [simp]:
  "running p (upd_buf b f s) = running p s"
  "running p (s\<lparr>bufs := x\<rparr>) = running p s"
  "running p (s\<lparr>disk := d\<rparr>) = running p s"
  "running p (s\<lparr>writes := w\<rparr>) = running p s"
  "running p (disk_transfer b wr s) = running p s"
  by (simp_all add: running_def lock_simps disk_transfer_def)

subsection \<open>The list of buffers\<close>

definition adj :: "(nat \<Rightarrow> buf) \<Rightarrow> nat \<Rightarrow> nat \<Rightarrow> bool" where
  "adj bf x y \<longleftrightarrow> b_next (bf x) = y \<and> b_prev (bf y) = x"

definition lru :: "(nat \<Rightarrow> buf) \<Rightarrow> nat list \<Rightarrow> bool" where
  "lru bf ls \<longleftrightarrow> distinct ls \<and> set ls = {..<NBUF} \<and> successively (adj bf) (NBUF # ls @ [NBUF])"

lemma lruD:
  assumes "lru bf ls"
  shows "distinct ls" "set ls = {..<NBUF}" "length ls = NBUF" "NBUF \<notin> set ls"
  using assms distinct_card [of ls] by (auto simp: lru_def)

text \<open>The walks of \<open>bget\<close> are searches in the list, forwards and backwards.\<close>

lemma bget_find_walk:
  assumes "successively (adj bf) (ls @ [NBUF])" and "NBUF \<notin> set ls" and "length ls < k"
  shows "bget_find k dev bn (hd (ls @ [NBUF])) bf =
     Ok (find (\<lambda>b. b_dev (bf b) = dev \<and> b_blockno (bf b) = bn) ls)"
  using assms
proof (induction ls arbitrary: k)
  case Nil
  then show ?case by (cases k) auto
next
  case (Cons b ls)
  then obtain k' where k: "k = Suc k'" by (cases k) auto
  have "b_next (bf b) = hd (ls @ [NBUF])" "successively (adj bf) (ls @ [NBUF])"
    using Cons.prems(1) by (cases ls; simp add: adj_def)+
  with Cons k show ?case by simp
qed

lemma bget_lru_walk:
  assumes "successively (adj bf) (NBUF # ls)" and "NBUF \<notin> set ls" and "length ls < k"
  shows "bget_lru k (last (NBUF # ls)) bf = Ok (find (\<lambda>b. b_refcnt (bf b) = 0) (rev ls))"
  using assms
proof (induction ls arbitrary: k rule: rev_induct)
  case Nil
  then show ?case by (cases k) auto
next
  case (snoc b ls)
  then obtain k' where k: "k = Suc k'" by (cases k) auto
  have s: "successively (adj bf) (NBUF # ls)" and "adj bf (last (NBUF # ls)) b"
    using snoc.prems(1) successively_append_iff [of "adj bf" "NBUF # ls" "[b]"] by simp_all
  then have "b_prev (bf b) = last (NBUF # ls)" by (simp add: adj_def)
  with snoc k s show ?case by simp
qed

declare bget_find.simps [simp del] bget_lru.simps [simp del]

lemma lru_walks:
  assumes "lru bf ls"
  shows "bget_find (Suc NBUF) dev bn (b_next (bf NBUF)) bf =
       Ok (find (\<lambda>b. b_dev (bf b) = dev \<and> b_blockno (bf b) = bn) ls)"
    and "bget_lru (Suc NBUF) (b_prev (bf NBUF)) bf = Ok (find (\<lambda>b. b_refcnt (bf b) = 0) (rev ls))"
proof -
  note D = lruD [OF assms]
  have s: "successively (adj bf) (NBUF # ls @ [NBUF])" using assms by (simp add: lru_def)
  then have "b_next (bf NBUF) = hd (ls @ [NBUF])" "successively (adj bf) (ls @ [NBUF])"
    by (cases ls; simp add: adj_def)+
  then show "bget_find (Suc NBUF) dev bn (b_next (bf NBUF)) bf =
       Ok (find (\<lambda>b. b_dev (bf b) = dev \<and> b_blockno (bf b) = bn) ls)"
    using bget_find_walk [of bf ls "Suc NBUF" dev bn] D by simp
  have "successively (adj bf) (NBUF # ls)" "adj bf (last (NBUF # ls)) NBUF"
    using s successively_append_iff [of "adj bf" "NBUF # ls" "[NBUF]"] by simp_all
  then show "bget_lru (Suc NBUF) (b_prev (bf NBUF)) bf = Ok (find (\<lambda>b. b_refcnt (bf b) = 0) (rev ls))"
    using bget_lru_walk [of bf ls "Suc NBUF"] D by (simp add: adj_def)
qed

lemma lru_cong:
  assumes "lru bf ls" and "\<And>x. b_next (bf' x) = b_next (bf x)" and "\<And>x. b_prev (bf' x) = b_prev (bf x)"
  shows "lru bf' ls"
  using assms by (simp add: lru_def adj_def [abs_def])

text \<open>Taking a buffer out of the list and putting it first, as \<open>brelse\<close> does.\<close>

definition to_front :: "nat \<Rightarrow> (nat \<Rightarrow> buf) \<Rightarrow> (nat \<Rightarrow> buf)" where
  "to_front b bf =
     (let bf = bf(b_next (bf b) := (bf (b_next (bf b)))\<lparr>b_prev := b_prev (bf b)\<rparr>);
          bf = bf(b_prev (bf b) := (bf (b_prev (bf b)))\<lparr>b_next := b_next (bf b)\<rparr>);
          bf = bf(b := (bf b)\<lparr>b_next := b_next (bf NBUF)\<rparr>);
          bf = bf(b := (bf b)\<lparr>b_prev := NBUF\<rparr>);
          bf = bf(b_next (bf NBUF) := (bf (b_next (bf NBUF)))\<lparr>b_prev := b\<rparr>)
      in bf(NBUF := (bf NBUF)\<lparr>b_next := b\<rparr>))"

lemma successively_mono_ends:
  assumes "successively P xs" and "distinct xs"
    and "\<And>x y. P x y \<Longrightarrow> x \<in> set xs \<Longrightarrow> y \<in> set xs \<Longrightarrow> x \<noteq> last xs \<Longrightarrow> y \<noteq> hd xs \<Longrightarrow> Q x y"
  shows "successively Q xs"
  using assms
proof (induction P xs rule: successively.induct)
  case (3 P x y xs)
  have "P x y" "successively P (y # xs)" using 3(2) by simp_all
  moreover have "x \<noteq> last (x # y # xs)" "y \<noteq> x" using 3(3) last_in_set [of "y # xs"] by auto
  moreover have "successively Q (y # xs)"
    using 3(2,3) by (intro 3(1)) (auto intro!: 3(4) split: if_splits)
  ultimately show ?case using 3(4) [of x y] by simp
qed simp_all

lemma link_fields:
  "b_next ((bf(k := (bf k)\<lparr>b_prev := v\<rparr>)) x) = b_next (bf x)"
  "b_prev ((bf(k := (bf k)\<lparr>b_prev := v\<rparr>)) x) = (if x = k then v else b_prev (bf x))"
  "b_next ((bf(k := (bf k)\<lparr>b_next := v\<rparr>)) x) = (if x = k then v else b_next (bf x))"
  "b_prev ((bf(k := (bf k)\<lparr>b_next := v\<rparr>)) x) = b_prev (bf x)"
  by simp_all

lemma to_front_fields:
  assumes "b \<noteq> NBUF" and "b_next (bf b) \<noteq> b" and "b_prev (bf b) \<noteq> b" and "b_prev (bf b) \<noteq> NBUF \<Longrightarrow> b_next (bf NBUF) \<noteq> b"
  defines "n \<equiv> b_next (bf b)" and "p \<equiv> b_prev (bf b)"
  defines "h \<equiv> (if p = NBUF then n else b_next (bf NBUF))"
  shows "b_next (to_front b bf x) = (if x = NBUF then b else if x = b then h else if x = p then n else b_next (bf x))"
    and "b_prev (to_front b bf x) = (if x = h then b else if x = b then NBUF else if x = n then p else b_prev (bf x))"
  unfolding to_front_def Let_def link_fields n_def p_def h_def
  using assms(1,2,3,4) by (cases "b_prev (bf b) = NBUF"; simp)+

lemma link_other:
  "b_valid ((bf(k := (bf k)\<lparr>b_prev := v\<rparr>)) x) = b_valid (bf x)"
  "b_valid ((bf(k := (bf k)\<lparr>b_next := v\<rparr>)) x) = b_valid (bf x)"
  "b_dev ((bf(k := (bf k)\<lparr>b_prev := v\<rparr>)) x) = b_dev (bf x)"
  "b_dev ((bf(k := (bf k)\<lparr>b_next := v\<rparr>)) x) = b_dev (bf x)"
  "b_blockno ((bf(k := (bf k)\<lparr>b_prev := v\<rparr>)) x) = b_blockno (bf x)"
  "b_blockno ((bf(k := (bf k)\<lparr>b_next := v\<rparr>)) x) = b_blockno (bf x)"
  "b_refcnt ((bf(k := (bf k)\<lparr>b_prev := v\<rparr>)) x) = b_refcnt (bf x)"
  "b_refcnt ((bf(k := (bf k)\<lparr>b_next := v\<rparr>)) x) = b_refcnt (bf x)"
  "b_data ((bf(k := (bf k)\<lparr>b_prev := v\<rparr>)) x) = b_data (bf x)"
  "b_data ((bf(k := (bf k)\<lparr>b_next := v\<rparr>)) x) = b_data (bf x)"
  by simp_all

lemma to_front_other [simp]:
  "b_valid (to_front b bf x) = b_valid (bf x)" "b_dev (to_front b bf x) = b_dev (bf x)"
  "b_blockno (to_front b bf x) = b_blockno (bf x)" "b_refcnt (to_front b bf x) = b_refcnt (bf x)"
  "b_data (to_front b bf x) = b_data (bf x)"
  unfolding to_front_def Let_def link_other by (rule refl)+

lemma lru_to_front:
  assumes "lru bf (xs @ b # ys)"
  shows "lru (to_front b bf) (b # xs @ ys)"
proof -
  note D = lruD [OF assms]
  let ?B = "ys @ [NBUF]" and ?A = "NBUF # xs"
  have d: "distinct (?A @ b # ys)" using D(1,4) by auto
  have sq: "successively (adj bf) (?A @ b # ?B)" using assms by (simp add: lru_def)
  then have sA: "successively (adj bf) ?A" and pb: "adj bf (last ?A) b" and bn: "adj bf b (hd ?B)"
      and sB: "successively (adj bf) ?B"
    using successively_append_iff [of "adj bf" ?A "b # ?B"] by (cases "?B"; simp)+
  have p: "b_prev (bf b) = last ?A" and n: "b_next (bf b) = hd ?B" using pb bn by (simp_all add: adj_def)
  define h where "h = (if last ?A = NBUF then hd ?B else b_next (bf NBUF))"
  have nB: "hd ?B \<in> insert NBUF (set ys)" by (cases ys) auto
  have pA: "last ?A \<in> insert NBUF (set xs)" by (cases xs rule: rev_cases) auto
  have dx: "NBUF \<notin> set xs" "b \<notin> set xs" "NBUF \<notin> set ys" "b \<notin> set ys" "set xs \<inter> set ys = {}" "b \<noteq> NBUF"
    using d by auto
  have lx: "last xs \<noteq> NBUF \<and> last xs \<noteq> b \<and> last xs \<notin> set ys" "hd xs \<noteq> NBUF \<and> hd xs \<noteq> b \<and> hd xs \<notin> set ys"
      "last ?A = last xs" if "xs \<noteq> []"
    using that dx last_in_set [OF that] hd_in_set [OF that] by (metis disjoint_iff, metis disjoint_iff, simp)
  have xs: "last ?A = NBUF \<longleftrightarrow> xs = []" using lx by (cases "xs = []") simp_all
  have h: "h = (if xs = [] then hd ?B else hd xs)" using sA xs by (cases xs) (auto simp: h_def adj_def)
  have bNB: "b \<noteq> NBUF" using dx by simp
  have nb: "hd ?B \<noteq> b" using nB dx by auto
  have pb': "last ?A \<noteq> b" using pA dx by auto
  have hb: "h \<noteq> b" using h nb lx by (cases "xs = []") simp_all
  have cond: "b_prev (bf b) \<noteq> NBUF \<Longrightarrow> b_next (bf NBUF) \<noteq> b"
    using hb p by (simp add: h_def split: if_splits)
  note F = to_front_fields [OF bNB, of bf, unfolded p n, OF nb pb' cond [unfolded p], folded h_def]
  have "adj (to_front b bf) NBUF b" using F hb by (simp add: adj_def)
  moreover have "adj (to_front b bf) b h" using F bNB by (simp add: adj_def)
  moreover have "successively (adj (to_front b bf)) (xs @ ?B)"
  proof -
    have "successively (adj (to_front b bf)) xs"
    proof (rule successively_mono_ends [of "adj bf"])
      show "successively (adj bf) xs" using sA by (cases xs) simp_all
      show "distinct xs" using d by simp
      fix x y assume a: "adj bf x y" "x \<in> set xs" "y \<in> set xs" "x \<noteq> last xs" "y \<noteq> hd xs"
      have ne: "xs \<noteq> []" using a(2) by auto
      have "x \<noteq> NBUF" "x \<noteq> b" "y \<noteq> b" using a(2,3) dx by auto
      moreover have "x \<noteq> last ?A" "y \<noteq> h" using a(4,5) h lx(3) [OF ne] ne by simp_all
      moreover have "y \<noteq> hd ?B" using a(3) nB dx by auto
      ultimately show "adj (to_front b bf) x y" using a(1) F by (simp add: adj_def)
    qed
    moreover have "successively (adj (to_front b bf)) ?B"
    proof (rule successively_mono_ends [OF sB])
      show "distinct ?B" using d by auto
      fix x y assume a: "adj bf x y" "x \<in> set ?B" "y \<in> set ?B" "x \<noteq> last ?B" "y \<noteq> hd ?B"
      have "x \<noteq> NBUF" using a(4) by simp
      moreover have "x \<noteq> b" "y \<noteq> b" using a(2,3) dx by auto
      moreover have "x \<noteq> last ?A" using a(2) pA dx \<open>x \<noteq> NBUF\<close> by auto
      moreover have "y \<noteq> h" using a(3,5) h lx(2) by (cases "xs = []") auto
      ultimately show "adj (to_front b bf) x y" using a(1,5) F by (simp add: adj_def)
    qed
    moreover have "adj (to_front b bf) (last xs) (hd ?B)" if "xs \<noteq> []"
    proof -
      have "hd ?B \<noteq> h" using nB h lx(2) [OF that] that by auto
      then show ?thesis using F lx(1,3) [OF that] nb by (simp add: adj_def)
    qed
    ultimately show ?thesis by (cases "xs = []") (simp_all add: successively_append_iff)
  qed
  ultimately have "successively (adj (to_front b bf)) (NBUF # b # (xs @ ?B))"
    using h by (cases xs; cases ys) simp_all
  then show ?thesis using D(1,2) by (auto simp: lru_def)
qed

subsection \<open>What the cache holds\<close>

text \<open>
  The cache as its clients see it, for the device \<open>d\<close>: the buffer of a block, the contents
  of a block (\<open>bview\<close>: the buffer's if it is cached, the disk's otherwise), the number of
  references to it, and the blocks that are locked.
\<close>

definition buf_of :: "('z) bio_state_scheme \<Rightarrow> uint32 \<Rightarrow> uint32 \<Rightarrow> nat option" where
  "buf_of s d blk = find (\<lambda>b. b_dev (bufs s b) = d \<and> b_blockno (bufs s b) = blk) [0..<NBUF]"

definition bview :: "('z) bio_state_scheme \<Rightarrow> uint32 \<Rightarrow> uint32 \<Rightarrow> byte list" where
  "bview s d blk = (case buf_of s d blk of
     Some b \<Rightarrow> if b_valid (bufs s b) \<noteq> 0 then b_data (bufs s b) else disk s blk | None \<Rightarrow> disk s blk)"

definition bpins :: "('z) bio_state_scheme \<Rightarrow> uint32 \<Rightarrow> uint32 \<Rightarrow> uint32" where
  "bpins s d blk = (case buf_of s d blk of Some b \<Rightarrow> b_refcnt (bufs s b) | None \<Rightarrow> 0)"

definition bheld :: "('z) bio_state_scheme \<Rightarrow> uint32 \<Rightarrow> uint32 set" where
  "bheld s d = {blk. \<exists>b. buf_of s d blk = Some b \<and> sl_locked (sleeplocks s (BufSleep b)) \<noteq> 0}"

text \<open>
  The invariant of the cache between two of its operations, in a system in which the process
  \<open>p\<close> runs alone and only the device \<open>d\<close> is used: the list is well formed; no block has two
  buffers; a buffer without references is unlocked and holds what the disk holds, so that
  recycling it loses nothing.
\<close>

definition binv :: "nat \<Rightarrow> uint32 \<Rightarrow> ('z) bio_state_scheme \<Rightarrow> bool" where
  "binv p d s \<longleftrightarrow> running p s \<and> (\<exists>ls. lru (bufs s) ls)
     \<and> (\<forall>b < NBUF. \<forall>c < NBUF. b_dev (bufs s b) = d \<and> b_dev (bufs s c) = d
          \<and> b_blockno (bufs s b) = b_blockno (bufs s c) \<longrightarrow> b = c)
     \<and> (\<forall>b < NBUF. b_refcnt (bufs s b) \<noteq> 0 \<longrightarrow> b_dev (bufs s b) = d)
     \<and> (\<forall>b < NBUF. b_refcnt (bufs s b) = 0 \<longrightarrow> sl_locked (sleeplocks s (BufSleep b)) = 0)
     \<and> (\<forall>b < NBUF. sl_locked (sleeplocks s (BufSleep b)) \<noteq> 0 \<longrightarrow>
          sl_pid (sleeplocks s (BufSleep b)) = p_pid (procs s p) \<and> b_valid (bufs s b) \<noteq> 0)
     \<and> (\<forall>b < NBUF. b_dev (bufs s b) = d \<and> b_refcnt (bufs s b) = 0 \<and> b_valid (bufs s b) \<noteq> 0 \<longrightarrow>
          b_data (bufs s b) = disk s (b_blockno (bufs s b)))"

lemma find_unique:
  "(\<And>x y. x \<in> set xs \<Longrightarrow> y \<in> set xs \<Longrightarrow> P x \<Longrightarrow> P y \<Longrightarrow> x = y) \<Longrightarrow> find P xs = Some b \<longleftrightarrow> b \<in> set xs \<and> P b"
  by (induction xs) auto

lemma find_SomeD: "find P xs = Some b \<Longrightarrow> b \<in> set xs \<and> P b"
  by (induction xs) (auto split: if_splits)

lemma find_ex: "x \<in> set xs \<Longrightarrow> P x \<Longrightarrow> \<exists>b. find P xs = Some b"
  using find_None_iff [of P xs] by (cases "find P xs") auto

lemma find_same_set:
  assumes "\<And>x y. x \<in> set xs \<Longrightarrow> y \<in> set xs \<Longrightarrow> P x \<Longrightarrow> P y \<Longrightarrow> x = y" and "set xs = set ys"
  shows "find P xs = find P ys"
proof (cases "find P ys")
  case None
  then have "find P xs = None" using assms(2) unfolding find_None_iff by simp
  with None show ?thesis by simp
next
  case (Some b)
  then show ?thesis
    using find_unique [of xs P b] find_unique [of ys P b] assms by auto
qed

lemma buf_of_iff:
  assumes "binv p d s"
  shows "buf_of s d blk = Some b \<longleftrightarrow> b < NBUF \<and> b_dev (bufs s b) = d \<and> b_blockno (bufs s b) = blk"
  unfolding buf_of_def by (subst find_unique) (use assms in \<open>auto simp: binv_def\<close>)

lemma buf_of_None_iff:
  "buf_of s d blk = None \<longleftrightarrow> (\<forall>b < NBUF. b_dev (bufs s b) = d \<longrightarrow> b_blockno (bufs s b) \<noteq> blk)"
  by (auto simp: buf_of_def find_None_iff)

definition bfree :: "('z) bio_state_scheme \<Rightarrow> bool" where
  "bfree s \<longleftrightarrow> (\<exists>b < NBUF. b_refcnt (bufs s b) = 0)"

text \<open>The state after \<open>bread\<close>: the buffer \<open>b\<close> holds the block and is locked.\<close>

definition got :: "nat \<Rightarrow> int \<Rightarrow> uint32 \<Rightarrow> uint32 \<Rightarrow> int \<Rightarrow> ('z) bio_state_scheme \<Rightarrow> ('z) bio_state_scheme" where
  "got b v d blk pid s = slk_held (BufSleep b) pid
     (upd_buf b (\<lambda>x. x\<lparr>b_dev := d, b_blockno := blk, b_valid := v, b_refcnt := bpins s d blk + 1,
        b_data := bview s d blk\<rparr>) s)"

lemma upd_buf_simps [simp]:
  "bufs (upd_buf b f s) = (bufs s)(b := f (bufs s b))"
  "upd_buf b f (upd_buf b g s) = upd_buf b (\<lambda>x. f (g x)) s"
  "disk (upd_buf b f s) = disk s" "writes (upd_buf b f s) = writes s"
  "sleeplocks (upd_buf b f s) = sleeplocks s" "procs (upd_buf b f s) = procs s"
  by (simp_all add: upd_buf_def)

lemma slk_bio_simps [simp]:
  "bufs (slk_held i pid s) = bufs s" "bufs (slk_free i s) = bufs s" "bufs (woken_on ch ps s) = bufs s"
  "disk (slk_held i pid s) = disk s" "disk (slk_free i s) = disk s" "disk (woken_on ch ps s) = disk s"
  "writes (slk_held i pid s) = writes s" "writes (slk_free i s) = writes s" "writes (woken_on ch ps s) = writes s"
  "upd_buf b f (slk_held i pid s) = slk_held i pid (upd_buf b f s)"
  by (simp_all add: slk_held_def slk_free_def upd_slk_def woken_on_def upd_buf_def)

lemma upd_buf_eq: "f (bufs s b) = g (bufs s b) \<Longrightarrow> upd_buf b f s = upd_buf b g s"
  by (simp add: upd_buf_def)

lemma bread_eq:
  assumes inv: "binv p d s" and "blk \<notin> bheld s d" and "bpins s d blk \<noteq> 0 \<or> bfree s"
  shows "\<exists>b v. bread d blk s = Ok (b, got b v d blk (p_pid (procs s p)) s) \<and> b < NBUF \<and> v \<noteq> 0
     \<and> (buf_of s d blk = Some b \<or> buf_of s d blk = None \<and> b_refcnt (bufs s b) = 0)"
proof -
  obtain ls where lru: "lru (bufs s) ls" using inv by (auto simp: binv_def)
  have run: "running p s" using inv by (simp add: binv_def)
  note R = runningD [OF run]
  have fnd: "find (\<lambda>b. b_dev (bufs s b) = d \<and> b_blockno (bufs s b) = blk) ls = buf_of s d blk"
    unfolding buf_of_def using inv lruD(2) [OF lru] by (intro find_same_set) (auto simp: binv_def)
  have acq: "acquiresleep (BufSleep b) (upd_buf b f s) = Ok (slk_held (BufSleep b) (p_pid (procs s p)) (upd_buf b f s))"
    if "sl_locked (sleeplocks s (BufSleep b)) = 0" for b f
    using that acquiresleep_free [of p "upd_buf b f s" "BufSleep b"] run by (simp add: upd_buf_def)
  show ?thesis
  proof (cases "buf_of s d blk")
    case (Some b)
    then have b: "b < NBUF" "b_dev (bufs s b) = d" "b_blockno (bufs s b) = blk" using buf_of_iff [OF inv] by auto
    have unl: "sl_locked (sleeplocks s (BufSleep b)) = 0" using assms(2) Some by (auto simp: bheld_def)
    let ?v = "if b_valid (bufs s b) = 0 then 1 else b_valid (bufs s b)"
    have bg: "bget d blk s = Ok (b, slk_held (BufSleep b) (p_pid (procs s p))
        (upd_buf b (\<lambda>x. x\<lparr>b_refcnt := b_refcnt x + 1\<rparr>) s))"
      by (simp add: bget_def lru_walks [OF lru] fnd Some R lock_simps acq [OF unl])
    have "bread d blk s = Ok (b, got b ?v d blk (p_pid (procs s p)) s)"
      unfolding got_def bread_def bg
      by (simp add: disk_transfer_def b) (auto intro!: upd_buf_eq arg_cong [where f = "slk_held i pid" for i pid]
          simp: bpins_def bview_def Some b)
    then show ?thesis using Some b by (intro exI [of _ b] exI [of _ ?v]) simp
  next
    case None
    then have "bfree s" using assms(3) by (simp add: bpins_def)
    then obtain b where f: "find (\<lambda>b. b_refcnt (bufs s b) = 0) (rev ls) = Some b"
      using lruD(2) [OF lru] find_ex [of _ "rev ls" "\<lambda>b. b_refcnt (bufs s b) = 0"] by (auto simp: bfree_def)
    then have b: "b < NBUF" "b_refcnt (bufs s b) = 0"
      using lruD(2) [OF lru] find_SomeD [OF f] by simp_all
    have unl: "sl_locked (sleeplocks s (BufSleep b)) = 0" using inv b by (simp add: binv_def)
    have bg: "bget d blk s = Ok (b, slk_held (BufSleep b) (p_pid (procs s p))
        (upd_buf b (\<lambda>x. x\<lparr>b_dev := d, b_blockno := blk, b_valid := 0, b_refcnt := 1\<rparr>) s))"
      by (simp add: bget_def lru_walks [OF lru] fnd None f R lock_simps acq [OF unl])
    have "bread d blk s = Ok (b, got b 1 d blk (p_pid (procs s p)) s)"
      unfolding got_def bread_def bg
      by (simp add: disk_transfer_def) (auto intro!: upd_buf_eq arg_cong [where f = "slk_held i pid" for i pid]
          simp: bpins_def bview_def None)
    then show ?thesis using None b by (intro exI [of _ b] exI [of _ 1]) simp
  qed
qed

end
