(* ===== verification/Bio_Cache.thy ===== *)
theory Bio_Cache
  imports Bio
begin

text \<open>
  The contract of the buffer cache. An abstract cache \<open>acache\<close> is a view of the blocks, a
  reference count and a lock for each, and the disk with the sequence of writes it has seen.
  The operations of src/kernel/bio.c refine the abstract operations \<open>a_read\<close>, \<open>a_put\<close>,
  \<open>a_write\<close>, \<open>a_release\<close>, \<open>a_pin\<close> and \<open>a_unpin\<close>; which buffer holds which block and
  how the list is ordered does not show. The locale \<open>block_cache\<close> is the interface the log
  and the file system rely on.
\<close>

record acache =
  a_view :: "uint32 \<Rightarrow> byte list"
  a_pins :: "uint32 \<Rightarrow> uint32"
  a_held :: "uint32 set"
  a_disk :: "uint32 \<Rightarrow> byte list"
  a_writes :: "(uint32 \<times> byte list) list"

definition a_read :: "uint32 \<Rightarrow> acache \<Rightarrow> acache" where
  "a_read blk a = a\<lparr>a_pins := (a_pins a)(blk := a_pins a blk + 1), a_held := insert blk (a_held a)\<rparr>"

definition a_put :: "uint32 \<Rightarrow> byte list \<Rightarrow> acache \<Rightarrow> acache" where
  "a_put blk x a = a\<lparr>a_view := (a_view a)(blk := x)\<rparr>"

definition a_write :: "uint32 \<Rightarrow> acache \<Rightarrow> acache" where
  "a_write blk a = a\<lparr>a_disk := (a_disk a)(blk := a_view a blk), a_writes := a_writes a @ [(blk, a_view a blk)]\<rparr>"

definition a_release :: "uint32 \<Rightarrow> acache \<Rightarrow> acache" where
  "a_release blk a = a\<lparr>a_pins := (a_pins a)(blk := a_pins a blk - 1), a_held := a_held a - {blk}\<rparr>"

definition a_pin :: "uint32 \<Rightarrow> acache \<Rightarrow> acache" where
  "a_pin blk a = a\<lparr>a_pins := (a_pins a)(blk := a_pins a blk + 1)\<rparr>"

definition a_unpin :: "uint32 \<Rightarrow> acache \<Rightarrow> acache" where
  "a_unpin blk a = a\<lparr>a_pins := (a_pins a)(blk := a_pins a blk - 1)\<rparr>"

definition babs :: "uint32 \<Rightarrow> ('z) bio_state_scheme \<Rightarrow> acache" where
  "babs d s = \<lparr>a_view = bview s d, a_pins = bpins s d, a_held = bheld s d, a_disk = disk s, a_writes = writes s\<rparr>"

text \<open>What the operations leave alone.\<close>

definition brest :: "('z) bio_state_scheme \<Rightarrow> 'z \<times> memory \<times> addr" where
  "brest s = (bio_state.more s, mem s, freelist s)"

lemma option_eqI: "(\<And>c. x = Some c \<longleftrightarrow> y = Some c) \<Longrightarrow> x = y"
  by (cases x; cases y) auto

subsection \<open>bread\<close>

lemma binvD:
  assumes "binv p d s"
  shows "running p s"
    "b < NBUF \<Longrightarrow> c < NBUF \<Longrightarrow> b_dev (bufs s b) = d \<Longrightarrow> b_dev (bufs s c) = d \<Longrightarrow>
       b_blockno (bufs s b) = b_blockno (bufs s c) \<Longrightarrow> b = c"
    "b < NBUF \<Longrightarrow> b_refcnt (bufs s b) \<noteq> 0 \<Longrightarrow> b_dev (bufs s b) = d"
    "b < NBUF \<Longrightarrow> b_refcnt (bufs s b) = 0 \<Longrightarrow> sl_locked (sleeplocks s (BufSleep b)) = 0"
    "b < NBUF \<Longrightarrow> sl_locked (sleeplocks s (BufSleep b)) \<noteq> 0 \<Longrightarrow>
       sl_pid (sleeplocks s (BufSleep b)) = p_pid (procs s p)"
    "b < NBUF \<Longrightarrow> sl_locked (sleeplocks s (BufSleep b)) \<noteq> 0 \<Longrightarrow> b_valid (bufs s b) \<noteq> 0"
    "b < NBUF \<Longrightarrow> b_dev (bufs s b) = d \<Longrightarrow> b_refcnt (bufs s b) = 0 \<Longrightarrow> b_valid (bufs s b) \<noteq> 0 \<Longrightarrow>
       b_data (bufs s b) = disk s (b_blockno (bufs s b))"
  using assms by (auto simp: binv_def)

lemma got_sel [simp]:
  "sl_locked (sleeplocks (got b v d blk pid s) (BufSleep c)) =
     (if c = b then 1 else sl_locked (sleeplocks s (BufSleep c)))"
  "sl_pid (sleeplocks (got b v d blk pid s) (BufSleep c)) =
     (if c = b then pid else sl_pid (sleeplocks s (BufSleep c)))"
  "b_dev (bufs (got b v d blk pid s) c) = (if c = b then d else b_dev (bufs s c))"
  "b_blockno (bufs (got b v d blk pid s) c) = (if c = b then blk else b_blockno (bufs s c))"
  "b_valid (bufs (got b v d blk pid s) c) = (if c = b then v else b_valid (bufs s c))"
  "b_refcnt (bufs (got b v d blk pid s) c) = (if c = b then bpins s d blk + 1 else b_refcnt (bufs s c))"
  "b_data (bufs (got b v d blk pid s) c) = (if c = b then bview s d blk else b_data (bufs s c))"
  "b_next (bufs (got b v d blk pid s) c) = b_next (bufs s c)"
  "b_prev (bufs (got b v d blk pid s) c) = b_prev (bufs s c)"
  "disk (got b v d blk pid s) = disk s" "writes (got b v d blk pid s) = writes s"
  "procs (got b v d blk pid s) = procs s" "running p (got b v d blk pid s) = running p s"
  "brest (got b v d blk pid s) = brest s"
  by (simp_all add: got_def slk_held_def upd_slk_def upd_buf_def brest_def)

lemma binvI:
  assumes "running p s" "lru (bufs s) ls"
    "\<And>b c. b < NBUF \<Longrightarrow> c < NBUF \<Longrightarrow> b_dev (bufs s b) = d \<Longrightarrow> b_dev (bufs s c) = d \<Longrightarrow>
       b_blockno (bufs s b) = b_blockno (bufs s c) \<Longrightarrow> b = c"
    "\<And>b. b < NBUF \<Longrightarrow> b_refcnt (bufs s b) \<noteq> 0 \<Longrightarrow> b_dev (bufs s b) = d"
    "\<And>b. b < NBUF \<Longrightarrow> b_refcnt (bufs s b) = 0 \<Longrightarrow> sl_locked (sleeplocks s (BufSleep b)) = 0"
    "\<And>b. b < NBUF \<Longrightarrow> sl_locked (sleeplocks s (BufSleep b)) \<noteq> 0 \<Longrightarrow>
       sl_pid (sleeplocks s (BufSleep b)) = p_pid (procs s p) \<and> b_valid (bufs s b) \<noteq> 0"
    "\<And>b. b < NBUF \<Longrightarrow> b_dev (bufs s b) = d \<Longrightarrow> b_refcnt (bufs s b) = 0 \<Longrightarrow> b_valid (bufs s b) \<noteq> 0 \<Longrightarrow>
       b_data (bufs s b) = disk s (b_blockno (bufs s b))"
  shows "binv p d s"
  unfolding binv_def using assms(1,2) by (intro conjI allI impI exI [of _ ls]) (simp_all add: assms(3-7))

lemma buf_of_inj: "binv p d s \<Longrightarrow> buf_of s d x = Some b \<Longrightarrow> buf_of s d y = Some b \<Longrightarrow> x = y"
  using buf_of_iff [of p d s x b] buf_of_iff [of p d s y b] by simp

lemma got_inv:
  assumes inv: "binv p d s" and b: "b < NBUF" and v: "v \<noteq> 0" and r: "bpins s d blk + 1 \<noteq> 0"
    and which: "buf_of s d blk = Some b \<or> buf_of s d blk = None \<and> b_refcnt (bufs s b) = 0"
  shows "binv p d (got b v d blk (p_pid (procs s p)) s)"
proof -
  obtain ls where ls: "lru (bufs s) ls" using inv by (auto simp: binv_def)
  have other: "b_blockno (bufs s c) \<noteq> blk" if "c < NBUF" "b_dev (bufs s c) = d" "c \<noteq> b" for c
    using which that binvD(2) [OF inv] buf_of_iff [OF inv, of blk b] buf_of_None_iff [of s d blk] by auto
  have lru: "lru (bufs (got b v d blk (p_pid (procs s p)) s)) ls"
    by (rule lru_cong [OF ls]) simp_all
  show ?thesis
  proof (rule binvI [where ls = ls], goal_cases run lru unique dev unlocked owner clean)
    case (unique x y)
    then show ?case
      by (cases "x = b"; cases "y = b") (use other binvD(2) [OF inv, of x y] in \<open>metis got_sel(3,4)\<close>)+
  next
    case (dev x) then show ?case using binvD(3) [OF inv, of x] by (cases "x = b") simp_all
  next
    case (unlocked x) then show ?case using binvD(4) [OF inv, of x] r by (cases "x = b") simp_all
  next
    case (owner x) then show ?case using binvD(5,6) [OF inv, of x] v by (cases "x = b") simp_all
  next
    case (clean x) then show ?case using binvD(7) [OF inv, of x] r by (cases "x = b") simp_all
  qed (use lru binvD(1) [OF inv] in simp_all)
qed

lemma got_buf_of:
  assumes inv: "binv p d s" and b: "b < NBUF" and v: "v \<noteq> 0" and r: "bpins s d blk + 1 \<noteq> 0"
    and which: "buf_of s d blk = Some b \<or> buf_of s d blk = None \<and> b_refcnt (bufs s b) = 0"
  shows "buf_of (got b v d blk (p_pid (procs s p)) s) d blk' =
     (if blk' = blk then Some b else if buf_of s d blk' = Some b then None else buf_of s d blk')"
proof (rule option_eqI)
  fix c
  have "buf_of (got b v d blk (p_pid (procs s p)) s) d blk' = Some c \<longleftrightarrow>
      (if c = b then blk' = blk else buf_of s d blk' = Some c)"
    unfolding buf_of_iff [OF got_inv [OF assms]] buf_of_iff [OF inv] using b by auto
  also have "\<dots> \<longleftrightarrow> (if blk' = blk then Some b else if buf_of s d blk' = Some b then None else buf_of s d blk') = Some c"
    using which by auto
  finally show "buf_of (got b v d blk (p_pid (procs s p)) s) d blk' = Some c \<longleftrightarrow>
     (if blk' = blk then Some b else if buf_of s d blk' = Some b then None else buf_of s d blk') = Some c" .
qed

lemma got_babs:
  assumes inv: "binv p d s" and b: "b < NBUF" and v: "v \<noteq> 0" and r: "bpins s d blk + 1 \<noteq> 0"
    and which: "buf_of s d blk = Some b \<or> buf_of s d blk = None \<and> b_refcnt (bufs s b) = 0"
  shows "babs d (got b v d blk (p_pid (procs s p)) s) = a_read blk (babs d s)"
proof -
  note of = got_buf_of [OF assms]
  have lost: "b_refcnt (bufs s b) = 0" "b_dev (bufs s b) = d" "b_blockno (bufs s b) = blk'"
    if "blk' \<noteq> blk" "buf_of s d blk' = Some b" for blk'
    using that which buf_of_iff [OF inv] by auto
  have "bview (got b v d blk (p_pid (procs s p)) s) d blk' = bview s d blk'" for blk'
  proof (cases "blk' \<noteq> blk \<and> buf_of s d blk' = Some b")
    case True
    then show ?thesis using lost [of blk'] binvD(7) [OF inv b] by (simp add: of bview_def)
  next
    case False
    then show ?thesis using v by (auto simp: of bview_def split: option.splits)
  qed
  moreover have "bpins (got b v d blk (p_pid (procs s p)) s) d blk' = (if blk' = blk then bpins s d blk + 1 else bpins s d blk')" for blk'
  proof (cases "blk' \<noteq> blk \<and> buf_of s d blk' = Some b")
    case True
    then show ?thesis using lost [of blk'] by (simp add: of bpins_def)
  next
    case False
    then show ?thesis by (auto simp: of bpins_def split: option.splits)
  qed
  moreover have "blk' \<in> bheld (got b v d blk (p_pid (procs s p)) s) d \<longleftrightarrow> blk' \<in> insert blk (bheld s d)" for blk'
  proof (cases "blk' \<noteq> blk \<and> buf_of s d blk' = Some b")
    case True
    then show ?thesis using lost [of blk'] binvD(4) [OF inv b] by (simp add: of bheld_def)
  next
    case False
    then show ?thesis by (auto simp: of bheld_def)
  qed
  ultimately show ?thesis by (auto simp: babs_def a_read_def fun_eq_iff)
qed

text \<open>A cache that can serve a new block: fewer blocks in use than there are buffers.\<close>

definition a_room :: "acache \<Rightarrow> bool" where
  "a_room a \<longleftrightarrow> card {blk. a_pins a blk \<noteq> 0} < NBUF"

lemma a_room_bfree:
  assumes inv: "binv p d s" and room: "a_room (babs d s)"
  shows "bfree s"
proof (rule ccontr)
  assume "\<not> bfree s"
  then have used: "b_refcnt (bufs s b) \<noteq> 0" if "b < NBUF" for b using that by (simp add: bfree_def)
  let ?n = "\<lambda>b. b_blockno (bufs s b)"
  have of: "buf_of s d (?n b) = Some b" if "b < NBUF" for b
    using that used binvD(3) [OF inv] by (simp add: buf_of_iff [OF inv])
  have "inj_on ?n {..<NBUF}" by (rule inj_onI) (metis of lessThan_iff option.inject)
  then have "NBUF = card (?n ` {..<NBUF})" by (simp add: card_image)
  also have "?n ` {..<NBUF} = {blk. bpins s d blk \<noteq> 0}"
    using of used buf_of_iff [OF inv] by (auto simp: bpins_def split: option.splits)
  finally show False using room by (simp add: a_room_def babs_def)
qed

lemma bread_sim:
  assumes "binv p d s" and "blk \<notin> bheld s d" and "bpins s d blk + 1 \<noteq> 0"
    and "bpins s d blk \<noteq> 0 \<or> a_room (babs d s)"
  shows "\<exists>b s'. bread d blk s = Ok (b, s') \<and> binv p d s' \<and> babs d s' = a_read blk (babs d s)
     \<and> brest s' = brest s \<and> buf_of s' d blk = Some b \<and> b_data (bufs s' b) = bview s d blk
     \<and> (\<forall>blk'. blk' \<noteq> blk \<longrightarrow> bpins s d blk' \<noteq> 0 \<longrightarrow> buf_of s' d blk' = buf_of s d blk')"
proof -
  obtain b v where b: "bread d blk s = Ok (b, got b v d blk (p_pid (procs s p)) s)" "b < NBUF" "v \<noteq> 0"
      "buf_of s d blk = Some b \<or> buf_of s d blk = None \<and> b_refcnt (bufs s b) = 0"
    using bread_eq [OF assms(1,2)] a_room_bfree [OF assms(1)] assms(4) by blast
  note hyps = assms(1) b(2,3) assms(3) b(4)
  have "buf_of (got b v d blk (p_pid (procs s p)) s) d blk' = buf_of s d blk'"
    if "blk' \<noteq> blk" "bpins s d blk' \<noteq> 0" for blk'
  proof -
    have "buf_of s d blk' \<noteq> Some b"
    proof
      assume of: "buf_of s d blk' = Some b"
      then have "buf_of s d blk = Some b" using that(2) b(4) by (simp add: bpins_def)
      with of that(1) show False using buf_of_inj [OF assms(1)] by metis
    qed
    with that show ?thesis by (simp add: got_buf_of [OF hyps])
  qed
  then show ?thesis
    using b(1) got_inv [OF hyps] got_babs [OF hyps] by (auto simp: got_buf_of [OF hyps])
qed

subsection \<open>Changes to one buffer\<close>

text \<open>The other operations change the buffer \<open>b\<close> of one block and possibly its place in the list.\<close>

definition only_buf :: "nat \<Rightarrow> nat \<Rightarrow> uint32 \<Rightarrow> ('z) bio_state_scheme \<Rightarrow> ('z) bio_state_scheme \<Rightarrow> bool" where
  "only_buf p b blk s s' \<longleftrightarrow> running p s' \<and> (\<exists>ls. lru (bufs s') ls)
     \<and> (\<forall>c. b_dev (bufs s' c) = b_dev (bufs s c) \<and> b_blockno (bufs s' c) = b_blockno (bufs s c))
     \<and> (\<forall>c. c \<noteq> b \<longrightarrow> b_valid (bufs s' c) = b_valid (bufs s c) \<and> b_refcnt (bufs s' c) = b_refcnt (bufs s c)
          \<and> b_data (bufs s' c) = b_data (bufs s c) \<and> sleeplocks s' (BufSleep c) = sleeplocks s (BufSleep c))
     \<and> p_pid (procs s' p) = p_pid (procs s p)
     \<and> (\<forall>blk'. blk' \<noteq> blk \<longrightarrow> disk s' blk' = disk s blk')
     \<and> b_valid (bufs s' b) \<noteq> 0
     \<and> (b_refcnt (bufs s' b) = 0 \<longrightarrow> sl_locked (sleeplocks s' (BufSleep b)) = 0 \<and> b_data (bufs s' b) = disk s' blk)
     \<and> (sl_locked (sleeplocks s' (BufSleep b)) \<noteq> 0 \<longrightarrow> sl_pid (sleeplocks s' (BufSleep b)) = p_pid (procs s p))"

lemma only_bufD:
  assumes "only_buf p b blk s s'"
  shows "running p s'" "\<exists>ls. lru (bufs s') ls" "b_dev (bufs s' c) = b_dev (bufs s c)"
    "b_blockno (bufs s' c) = b_blockno (bufs s c)"
    "c \<noteq> b \<Longrightarrow> b_valid (bufs s' c) = b_valid (bufs s c)"
    "c \<noteq> b \<Longrightarrow> b_refcnt (bufs s' c) = b_refcnt (bufs s c)"
    "c \<noteq> b \<Longrightarrow> b_data (bufs s' c) = b_data (bufs s c)"
    "c \<noteq> b \<Longrightarrow> sleeplocks s' (BufSleep c) = sleeplocks s (BufSleep c)"
    "p_pid (procs s' p) = p_pid (procs s p)" "blk' \<noteq> blk \<Longrightarrow> disk s' blk' = disk s blk'"
    "b_valid (bufs s' b) \<noteq> 0"
    "b_refcnt (bufs s' b) = 0 \<Longrightarrow> sl_locked (sleeplocks s' (BufSleep b)) = 0"
    "b_refcnt (bufs s' b) = 0 \<Longrightarrow> b_data (bufs s' b) = disk s' blk"
    "sl_locked (sleeplocks s' (BufSleep b)) \<noteq> 0 \<Longrightarrow> sl_pid (sleeplocks s' (BufSleep b)) = p_pid (procs s p)"
  using assms unfolding only_buf_def by blast+

lemma only_buf_same:
  assumes "only_buf p b blk s s'"
  shows "buf_of s' d = buf_of s d"
  by (rule ext) (simp add: buf_of_def only_bufD(3,4) [OF assms])

lemma only_buf_inv:
  assumes inv: "binv p d s" and of: "buf_of s d blk = Some b" and only: "only_buf p b blk s s'"
  shows "binv p d s'"
proof -
  note D = only_bufD [OF only] and I = binvD [OF inv]
  have b: "b < NBUF" "b_dev (bufs s b) = d" "b_blockno (bufs s b) = blk" using of buf_of_iff [OF inv, of blk b] by simp_all
  have other: "b_blockno (bufs s c) \<noteq> blk" if "c < NBUF" "b_dev (bufs s c) = d" "c \<noteq> b" for c
    using I(2) [OF that(1) b(1)] that b by auto
  obtain ls where "lru (bufs s') ls" using D(2) by blast
  then show ?thesis
  proof (rule binvI [OF D(1)], goal_cases unique dev unlocked owner clean)
    case (unique x y) then show ?case using I(2) [of x y] by (simp add: D)
  next
    case (dev x) then show ?case using I(3) [of x] b by (cases "x = b") (simp_all add: D)
  next
    case (unlocked x) then show ?case using I(4) [of x] by (cases "x = b") (simp_all add: D)
  next
    case (owner x) then show ?case using I(5,6) [of x] by (cases "x = b") (simp_all add: D)
  next
    case (clean x) then show ?case using I(7) [of x] other [of x] b by (cases "x = b") (simp_all add: D)
  qed
qed

lemma only_buf_babs:
  assumes inv: "binv p d s" and of: "buf_of s d blk = Some b" and only: "only_buf p b blk s s'"
  shows "bview s' d = (bview s d)(blk := b_data (bufs s' b))"
    "bpins s' d = (bpins s d)(blk := b_refcnt (bufs s' b))"
    "bheld s' d = (if sl_locked (sleeplocks s' (BufSleep b)) \<noteq> 0 then insert blk (bheld s d) else bheld s d - {blk})"
proof -
  note D = only_bufD [OF only]
  have ne: "c \<noteq> b" if "buf_of s d blk' = Some c" "blk' \<noteq> blk" for c blk'
    using that of buf_of_inj [OF inv] by metis
  have "bview s' d blk' = bview s d blk'" "bpins s' d blk' = bpins s d blk'"
     "blk' \<in> bheld s' d \<longleftrightarrow> blk' \<in> bheld s d" if "blk' \<noteq> blk" for blk'
    using ne [OF _ that] D(10) [OF that]
    by (auto simp: bview_def bpins_def bheld_def only_buf_same [OF only] D(5-8) split: option.split)
  moreover have "bview s' d blk = b_data (bufs s' b)" "bpins s' d blk = b_refcnt (bufs s' b)"
     "blk \<in> bheld s' d \<longleftrightarrow> sl_locked (sleeplocks s' (BufSleep b)) \<noteq> 0"
    using D(11) by (simp_all add: bview_def bpins_def bheld_def only_buf_same [OF only] of)
  ultimately show "bview s' d = (bview s d)(blk := b_data (bufs s' b))"
    "bpins s' d = (bpins s d)(blk := b_refcnt (bufs s' b))"
    "bheld s' d = (if sl_locked (sleeplocks s' (BufSleep b)) \<noteq> 0 then insert blk (bheld s d) else bheld s d - {blk})"
    by (auto simp: fun_eq_iff) metis+
qed

lemma heldD:
  assumes inv: "binv p d s" and of: "buf_of s d blk = Some b" and held: "blk \<in> bheld s d"
  shows "sl_locked (sleeplocks s (BufSleep b)) \<noteq> 0" "sl_pid (sleeplocks s (BufSleep b)) = p_pid (procs s p)"
    "b_valid (bufs s b) \<noteq> 0" "b_refcnt (bufs s b) \<noteq> 0" "b < NBUF" "b_blockno (bufs s b) = blk"
    "b_data (bufs s b) = bview s d blk" "bpins s d blk = b_refcnt (bufs s b)"
proof -
  have b: "b < NBUF" "b_blockno (bufs s b) = blk" using of buf_of_iff [OF inv, of blk b] by simp_all
  show l: "sl_locked (sleeplocks s (BufSleep b)) \<noteq> 0" using held of by (auto simp: bheld_def)
  show "sl_pid (sleeplocks s (BufSleep b)) = p_pid (procs s p)" "b_valid (bufs s b) \<noteq> 0"
    using binvD(5,6) [OF inv b(1) l] by simp_all
  then show "b_data (bufs s b) = bview s d blk" by (simp add: bview_def of)
  show "b_refcnt (bufs s b) \<noteq> 0" using binvD(4) [OF inv b(1)] l by blast
  show "bpins s d blk = b_refcnt (bufs s b)" by (simp add: bpins_def of)
qed (use buf_of_iff [OF inv, of blk b] of in simp_all)

lemma binv_lru: "binv p d s \<Longrightarrow> (\<And>x. b_next (bf x) = b_next (bufs s x)) \<Longrightarrow> (\<And>x. b_prev (bf x) = b_prev (bufs s x)) \<Longrightarrow> \<exists>ls. lru bf ls"
  using lru_cong [of "bufs s" _ bf] unfolding binv_def by blast

definition bput :: "nat \<Rightarrow> byte list \<Rightarrow> ('z) bio_state_scheme \<Rightarrow> ('z) bio_state_scheme" where
  "bput b x s = upd_buf b (\<lambda>y. y\<lparr>b_data := x\<rparr>) s"

lemma bput_sim:
  assumes inv: "binv p d s" and of: "buf_of s d blk = Some b" and held: "blk \<in> bheld s d"
  shows "binv p d (bput b x s)" "babs d (bput b x s) = a_put blk x (babs d s)" "brest (bput b x s) = brest s"
    "buf_of (bput b x s) d = buf_of s d"
proof -
  note H = heldD [OF assms]
  have only: "only_buf p b blk s (bput b x s)"
    using H binvD(1) [OF inv] binv_lru [OF inv, of "(bufs s)(b := (bufs s b)\<lparr>b_data := x\<rparr>)"]
    by (simp add: only_buf_def bput_def)
  show "binv p d (bput b x s)" by (rule only_buf_inv [OF inv of only])
  show "babs d (bput b x s) = a_put blk x (babs d s)"
    using held H by (simp add: babs_def a_put_def only_buf_babs [OF inv of only])
      (auto simp: bput_def)
  show "brest (bput b x s) = brest s" by (simp add: brest_def bput_def upd_buf_def)
  show "buf_of (bput b x s) d = buf_of s d" by (rule only_buf_same [OF only])
qed

lemma bwrite_sim:
  assumes inv: "binv p d s" and of: "buf_of s d blk = Some b" and held: "blk \<in> bheld s d"
  shows "\<exists>s'. bwrite b s = Ok s' \<and> binv p d s' \<and> babs d s' = a_write blk (babs d s) \<and> brest s' = brest s
     \<and> buf_of s' d = buf_of s d"
proof -
  note H = heldD [OF assms]
  have eq: "bwrite b s = Ok (disk_transfer b True s)"
    using H by (simp add: bwrite_def holdingsleep_eq [OF binvD(1) [OF inv]])
  have only: "only_buf p b blk s (disk_transfer b True s)"
    using H binvD(1) [OF inv] binv_lru [OF inv, of "bufs s"] by (simp add: only_buf_def disk_transfer_def)
  have "babs d (disk_transfer b True s) = a_write blk (babs d s)"
    using held H by (simp add: babs_def a_write_def only_buf_babs [OF inv of only])
      (auto simp: disk_transfer_def)
  moreover have "brest (disk_transfer b True s) = brest s" by (simp add: brest_def disk_transfer_def)
  ultimately show ?thesis
    using eq only_buf_inv [OF inv of only] only_buf_same [OF only] by blast
qed

lemma bpin_sim:
  assumes inv: "binv p d s" and of: "buf_of s d blk = Some b" and held: "blk \<in> bheld s d"
    and r: "bpins s d blk + 1 \<noteq> 0"
  shows "\<exists>s'. bpin b s = Ok s' \<and> binv p d s' \<and> babs d s' = a_pin blk (babs d s) \<and> brest s' = brest s
     \<and> buf_of s' d = buf_of s d"
proof -
  note H = heldD [OF assms(1-3)]
  let ?s = "upd_buf b (\<lambda>x. x\<lparr>b_refcnt := b_refcnt x + 1\<rparr>) s"
  have eq: "bpin b s = Ok ?s"
    using runningD [OF binvD(1) [OF inv]] by (simp add: bpin_def lock_simps)
  have only: "only_buf p b blk s ?s"
    using H r binvD(1) [OF inv] binv_lru [OF inv, of "bufs ?s"] by (simp add: only_buf_def)
  have "babs d ?s = a_pin blk (babs d s)"
    using held H by (simp add: babs_def a_pin_def only_buf_babs [OF inv of only]) (auto simp: upd_buf_def)
  moreover have "brest ?s = brest s" by (simp add: brest_def upd_buf_def)
  ultimately show ?thesis
    using eq only_buf_inv [OF inv of only] only_buf_same [OF only] by blast
qed

lemma bunpin_sim:
  assumes inv: "binv p d s" and of: "buf_of s d blk = Some b" and held: "blk \<in> bheld s d"
    and r: "bpins s d blk \<noteq> 1"
  shows "\<exists>s'. bunpin b s = Ok s' \<and> binv p d s' \<and> babs d s' = a_unpin blk (babs d s) \<and> brest s' = brest s
     \<and> buf_of s' d = buf_of s d"
proof -
  note H = heldD [OF assms(1-3)]
  let ?s = "upd_buf b (\<lambda>x. x\<lparr>b_refcnt := b_refcnt x - 1\<rparr>) s"
  have eq: "bunpin b s = Ok ?s"
    using runningD [OF binvD(1) [OF inv]] by (simp add: bunpin_def lock_simps)
  have only: "only_buf p b blk s ?s"
    using H r binvD(1) [OF inv] binv_lru [OF inv, of "bufs ?s"] by (simp add: only_buf_def)
  have "babs d ?s = a_unpin blk (babs d s)"
    using held H by (simp add: babs_def a_unpin_def only_buf_babs [OF inv of only]) (auto simp: upd_buf_def)
  moreover have "brest ?s = brest s" by (simp add: brest_def upd_buf_def)
  ultimately show ?thesis
    using eq only_buf_inv [OF inv of only] only_buf_same [OF only] by blast
qed

text \<open>\<open>brelse\<close>: the lock is given back, its waiters are woken, and a buffer nobody refers to any
  more goes to the front of the list.\<close>

definition released :: "nat \<Rightarrow> ('z) bio_state_scheme \<Rightarrow> ('z) bio_state_scheme" where
  "released b s =
     (let bf = (bufs s)(b := (bufs s b)\<lparr>b_refcnt := b_refcnt (bufs s b) - 1\<rparr>)
      in (woken (SleepChan (BufSleep b)) (slk_free (BufSleep b) s))\<lparr>bufs :=
            if b_refcnt (bufs s b) = 1 then to_front b bf else bf\<rparr>)"

lemma link_first:
  "(let s = upd_buf (b_next (bufs s b)) (\<lambda>x. x\<lparr>b_prev := b_prev (bufs s b)\<rparr>) s;
        s = upd_buf (b_prev (bufs s b)) (\<lambda>x. x\<lparr>b_next := b_next (bufs s b)\<rparr>) s;
        s = upd_buf b (\<lambda>x. x\<lparr>b_next := b_next (bufs s NBUF)\<rparr>) s;
        s = upd_buf b (\<lambda>x. x\<lparr>b_prev := NBUF\<rparr>) s;
        s = upd_buf (b_next (bufs s NBUF)) (\<lambda>x. x\<lparr>b_prev := b\<rparr>) s
    in upd_buf NBUF (\<lambda>x. x\<lparr>b_next := b\<rparr>) s) = s\<lparr>bufs := to_front b (bufs s)\<rparr>"
  unfolding to_front_def Let_def upd_buf_def by simp

lemma brelse_eq:
  assumes inv: "binv p d s" and of: "buf_of s d blk = Some b" and held: "blk \<in> bheld s d"
  shows "brelse b s = Ok (released b s)"
proof -
  note H = heldD [OF assms]
  define t where "t = woken (SleepChan (BufSleep b)) (slk_free (BufSleep b) s)"
  have t: "running p t" "bufs t = bufs s"
    using binvD(1) [OF inv] by (simp_all add: t_def slk_free_def) (simp add: woken_on_def upd_slk_def)
  have *: "brelse b s = release BcacheLock (acquired BcacheLock (t\<lparr>bufs := bufs (released b s)\<rparr>))"
    using H runningD(2) [OF t(1)] unfolding brelse_def link_first
    by (simp add: holdingsleep_eq [OF binvD(1) [OF inv]] releasesleep_eq [OF binvD(1) [OF inv]]
        flip: t_def) (simp add: lock_simps t upd_buf_def released_def Let_def)
  also have "\<dots> = Ok (t\<lparr>bufs := bufs (released b s)\<rparr>)"
    using runningD [OF t(1)] by (simp add: lock_simps)
  finally show ?thesis by (simp add: t_def released_def Let_def)
qed

lemma released_sel:
  "running p (released b s) = running p s"
  "disk (released b s) = disk s" "writes (released b s) = writes s" "brest (released b s) = brest s"
  "p_pid (procs (released b s) q) = p_pid (procs s q)"
  "b_dev (bufs (released b s) c) = b_dev (bufs s c)" "b_blockno (bufs (released b s) c) = b_blockno (bufs s c)"
  "b_valid (bufs (released b s) c) = b_valid (bufs s c)" "b_data (bufs (released b s) c) = b_data (bufs s c)"
  "b_refcnt (bufs (released b s) c) = (if c = b then b_refcnt (bufs s c) - 1 else b_refcnt (bufs s c))"
  "sleeplocks (released b s) = (sleeplocks s)(BufSleep b := (sleeplocks s (BufSleep b))\<lparr>sl_locked := 0, sl_pid := 0\<rparr>)"
  by (simp_all add: released_def Let_def woken_on_def slk_free_def upd_slk_def brest_def cong: if_cong)

lemma released_lru:
  assumes "binv p d s" and "b < NBUF"
  shows "\<exists>ls. lru (bufs (released b s)) ls"
proof -
  let ?bf = "(bufs s)(b := (bufs s b)\<lparr>b_refcnt := b_refcnt (bufs s b) - 1\<rparr>)"
  have "\<exists>ls. lru ?bf ls" by (rule binv_lru [OF assms(1)]) simp_all
  then obtain ls where ls: "lru ?bf ls" by blast
  then obtain xs ys where "ls = xs @ b # ys" using split_list [of b ls] lruD(2) [OF ls] assms(2) by auto
  then have "lru (to_front b ?bf) (b # xs @ ys)" using lru_to_front ls by blast
  then show ?thesis using ls by (auto simp: released_def Let_def)
qed

lemma brelse_sim:
  assumes inv: "binv p d s" and of: "buf_of s d blk = Some b" and held: "blk \<in> bheld s d"
    and clean: "bpins s d blk = 1 \<Longrightarrow> bview s d blk = disk s blk"
  shows "\<exists>s'. brelse b s = Ok s' \<and> binv p d s' \<and> babs d s' = a_release blk (babs d s) \<and> brest s' = brest s
     \<and> buf_of s' d = buf_of s d"
proof -
  note H = heldD [OF assms(1-3)]
  have only: "only_buf p b blk s (released b s)"
    unfolding only_buf_def using H clean binvD(1) [OF inv] released_lru [OF inv H(5)]
    by (simp add: released_sel)
  have "babs d (released b s) = a_release blk (babs d s)"
    using held H by (simp add: babs_def a_release_def only_buf_babs [OF inv of only]) (auto simp: released_sel)
  then show ?thesis
    using brelse_eq [OF assms(1-3)] only_buf_inv [OF inv of only] only_buf_same [OF only] released_sel(4)
    by blast
qed

subsection \<open>The interface\<close>

locale block_cache =
  fixes inv :: "'s \<Rightarrow> bool" and abs :: "'s \<Rightarrow> acache" and rest :: "'s \<Rightarrow> 'r"
    and loc :: "'s \<Rightarrow> uint32 \<Rightarrow> 'b option" and get :: "'b \<Rightarrow> 's \<Rightarrow> byte list"
    and put :: "'b \<Rightarrow> byte list \<Rightarrow> 's \<Rightarrow> 's" and rd :: "uint32 \<Rightarrow> 's \<Rightarrow> ('s, 'b \<times> 's) res"
    and wr rl pin unpin :: "'b \<Rightarrow> 's \<Rightarrow> ('s, 's) res"
  assumes clean: "inv s \<Longrightarrow> a_pins (abs s) blk = 0 \<Longrightarrow> a_view (abs s) blk = a_disk (abs s) blk"
    and held_pinned: "inv s \<Longrightarrow> blk \<in> a_held (abs s) \<Longrightarrow> a_pins (abs s) blk \<noteq> 0"
    and get_view: "inv s \<Longrightarrow> loc s blk = Some b \<Longrightarrow> blk \<in> a_held (abs s) \<Longrightarrow> get b s = a_view (abs s) blk"
    and rd_ok: "inv s \<Longrightarrow> blk \<notin> a_held (abs s) \<Longrightarrow> a_pins (abs s) blk + 1 \<noteq> 0 \<Longrightarrow>
      a_pins (abs s) blk \<noteq> 0 \<or> a_room (abs s) \<Longrightarrow>
      \<exists>b s'. rd blk s = Ok (b, s') \<and> inv s' \<and> abs s' = a_read blk (abs s) \<and> rest s' = rest s
        \<and> loc s' blk = Some b \<and> (\<forall>blk'. blk' \<noteq> blk \<longrightarrow> a_pins (abs s) blk' \<noteq> 0 \<longrightarrow> loc s' blk' = loc s blk')"
    and put_ok: "inv s \<Longrightarrow> loc s blk = Some b \<Longrightarrow> blk \<in> a_held (abs s) \<Longrightarrow>
      inv (put b x s) \<and> abs (put b x s) = a_put blk x (abs s) \<and> rest (put b x s) = rest s \<and> loc (put b x s) = loc s"
    and wr_ok: "inv s \<Longrightarrow> loc s blk = Some b \<Longrightarrow> blk \<in> a_held (abs s) \<Longrightarrow>
      \<exists>s'. wr b s = Ok s' \<and> inv s' \<and> abs s' = a_write blk (abs s) \<and> rest s' = rest s \<and> loc s' = loc s"
    and rl_ok: "inv s \<Longrightarrow> loc s blk = Some b \<Longrightarrow> blk \<in> a_held (abs s) \<Longrightarrow>
      (a_pins (abs s) blk = 1 \<Longrightarrow> a_view (abs s) blk = a_disk (abs s) blk) \<Longrightarrow>
      \<exists>s'. rl b s = Ok s' \<and> inv s' \<and> abs s' = a_release blk (abs s) \<and> rest s' = rest s \<and> loc s' = loc s"
    and pin_ok: "inv s \<Longrightarrow> loc s blk = Some b \<Longrightarrow> blk \<in> a_held (abs s) \<Longrightarrow> a_pins (abs s) blk + 1 \<noteq> 0 \<Longrightarrow>
      \<exists>s'. pin b s = Ok s' \<and> inv s' \<and> abs s' = a_pin blk (abs s) \<and> rest s' = rest s \<and> loc s' = loc s"
    and unpin_ok: "inv s \<Longrightarrow> loc s blk = Some b \<Longrightarrow> blk \<in> a_held (abs s) \<Longrightarrow> a_pins (abs s) blk \<noteq> 1 \<Longrightarrow>
      \<exists>s'. unpin b s = Ok s' \<and> inv s' \<and> abs s' = a_unpin blk (abs s) \<and> rest s' = rest s \<and> loc s' = loc s"
begin

text \<open>Reading a block changes nothing that can be observed once the block is released.\<close>

lemma read_release:
  assumes "inv s" "blk \<notin> a_held (abs s)" "a_pins (abs s) blk + 1 \<noteq> 0" "a_pins (abs s) blk \<noteq> 0 \<or> a_room (abs s)"
  shows "\<exists>b s1 s2. rd blk s = Ok (b, s1) \<and> get b s1 = a_view (abs s) blk \<and> rl b s1 = Ok s2
     \<and> inv s2 \<and> abs s2 = abs s \<and> rest s1 = rest s \<and> rest s2 = rest s"
proof -
  obtain b s1 where 1: "rd blk s = Ok (b, s1)" "inv s1" "abs s1 = a_read blk (abs s)" "rest s1 = rest s"
      "loc s1 blk = Some b" using rd_ok [OF assms] by blast
  have held: "blk \<in> a_held (abs s1)" by (simp add: 1(3) a_read_def)
  obtain s2 where 2: "rl b s1 = Ok s2" "inv s2" "abs s2 = a_release blk (abs s1)" "rest s2 = rest s1"
    using rl_ok [OF 1(2,5) held] clean [OF assms(1)] by (auto simp: 1(3) a_read_def)
  have "abs s2 = abs s" using assms(2) by (simp add: 2(3) 1(3) a_release_def a_read_def)
  then show ?thesis using 1 2 get_view [OF 1(2,5) held] by (auto simp: a_read_def)
qed

text \<open>Overwriting a block and writing it through, as \<open>write_head\<close> does.\<close>

lemma write_through:
  assumes "inv s" "blk \<notin> a_held (abs s)" "a_pins (abs s) blk + 1 \<noteq> 0" "a_pins (abs s) blk \<noteq> 0 \<or> a_room (abs s)"
  shows "\<exists>b s1 s2 s3. rd blk s = Ok (b, s1) \<and> get b s1 = a_view (abs s) blk \<and> wr b (put b x s1) = Ok s2
     \<and> rl b s2 = Ok s3 \<and> inv s3 \<and> abs s3 = a_write blk (a_put blk x (abs s)) \<and> rest s1 = rest s \<and> rest s3 = rest s"
proof -
  obtain b s1 where 1: "rd blk s = Ok (b, s1)" "inv s1" "abs s1 = a_read blk (abs s)" "rest s1 = rest s"
      "loc s1 blk = Some b" using rd_ok [OF assms] by blast
  have held: "blk \<in> a_held (abs s1)" by (simp add: 1(3) a_read_def)
  let ?p = "put b x s1"
  have p: "inv ?p" "abs ?p = a_put blk x (abs s1)" "rest ?p = rest s1" "loc ?p = loc s1"
    using put_ok [OF 1(2,5) held] by blast+
  obtain s2 where 2: "wr b ?p = Ok s2" "inv s2" "abs s2 = a_write blk (abs ?p)" "rest s2 = rest ?p" "loc s2 = loc ?p"
    using wr_ok [OF p(1), of blk b] held p 1 by (auto simp: a_put_def)
  obtain s3 where 3: "rl b s2 = Ok s3" "inv s3" "abs s3 = a_release blk (abs s2)" "rest s3 = rest s2"
    using rl_ok [OF 2(2), of blk b] held p 1 2 by (auto simp: a_put_def a_write_def)
  have "abs s3 = a_write blk (a_put blk x (abs s))"
    using assms(2) by (simp add: 3(3) 2(3) p(2) 1(3) a_release_def a_read_def a_put_def a_write_def)
  then show ?thesis using 1 2 3 p get_view [OF 1(2,5) held] by (auto simp: a_read_def)
qed

text \<open>Two blocks at once: both are read, the first into \<open>b\<close> and the second into \<open>c\<close>.\<close>

lemma read_two:
  assumes "inv s" "x \<noteq> y" "x \<notin> a_held (abs s)" "y \<notin> a_held (abs s)"
    "a_pins (abs s) x + 1 \<noteq> 0" "a_pins (abs s) y + 1 \<noteq> 0"
    "a_pins (abs s) x \<noteq> 0 \<or> a_room (abs s)" "a_pins (abs s) y \<noteq> 0 \<or> a_room (a_read x (abs s))"
  obtains b c s1 s2 where "rd x s = Ok (b, s1)" "rd y s1 = Ok (c, s2)" "rest s1 = rest s" "rest s2 = rest s"
    "inv s2" "abs s2 = a_read y (a_read x (abs s))" "loc s2 x = Some b" "loc s2 y = Some c"
    "get b s2 = a_view (abs s) x" "get c s2 = a_view (abs s) y"
proof -
  obtain b s1 where 1: "rd x s = Ok (b, s1)" "inv s1" "abs s1 = a_read x (abs s)" "rest s1 = rest s"
      "loc s1 x = Some b" using rd_ok [OF assms(1,3,5,7)] by blast
  have "a_pins (abs s1) x \<noteq> 0" using assms(5) by (simp add: 1(3) a_read_def)
  then obtain c s2 where 2: "rd y s1 = Ok (c, s2)" "inv s2" "abs s2 = a_read y (abs s1)" "rest s2 = rest s1"
      "loc s2 y = Some c" "loc s2 x = loc s1 x"
    using rd_ok [OF 1(2), of y] assms(2,4,6,8) by (auto simp: 1(3) a_read_def)
  have held: "x \<in> a_held (abs s2)" "y \<in> a_held (abs s2)" by (simp_all add: 2(3) 1(3) a_read_def)
  show ?thesis
    using that [OF 1(1) 2(1)] 1 2 get_view [OF 2(2) _ held(1)] get_view [OF 2(2,5) held(2)]
    by (simp add: a_read_def)
qed

text \<open>Copying the block \<open>y\<close> over the block \<open>x\<close> on the disk, as \<open>write_log\<close> does.\<close>

lemma copy_to_first:
  assumes "inv s" "x \<noteq> y" "x \<notin> a_held (abs s)" "y \<notin> a_held (abs s)"
    "a_pins (abs s) x + 1 \<noteq> 0" "a_pins (abs s) y + 1 \<noteq> 0"
    "a_pins (abs s) x \<noteq> 0 \<or> a_room (abs s)" "a_pins (abs s) y \<noteq> 0 \<or> a_room (a_read x (abs s))"
  shows "\<exists>b c s1 s2 s3 s4 s5. rd x s = Ok (b, s1) \<and> rd y s1 = Ok (c, s2) \<and> wr b (put b (get c s2) s2) = Ok s3
     \<and> rl c s3 = Ok s4 \<and> rl b s4 = Ok s5 \<and> inv s5 \<and> rest s1 = rest s \<and> rest s5 = rest s
     \<and> abs s5 = a_write x (a_put x (a_view (abs s) y) (abs s))"
proof -
  obtain b c s1 s2 where 2: "rd x s = Ok (b, s1)" "rd y s1 = Ok (c, s2)" "rest s1 = rest s" "rest s2 = rest s"
    "inv s2" "abs s2 = a_read y (a_read x (abs s))" "loc s2 x = Some b" "loc s2 y = Some c"
    "get c s2 = a_view (abs s) y" using read_two [OF assms] by metis
  have held: "x \<in> a_held (abs s2)" by (simp add: 2(6) a_read_def)
  let ?p = "put b (get c s2) s2"
  have p: "inv ?p" "abs ?p = a_put x (get c s2) (abs s2)" "rest ?p = rest s2" "loc ?p = loc s2"
    using put_ok [OF 2(5,7) held] by blast+
  obtain s3 where 3: "wr b ?p = Ok s3" "inv s3" "abs s3 = a_write x (abs ?p)" "rest s3 = rest ?p" "loc s3 = loc ?p"
    using wr_ok [OF p(1), of x b] held p 2 by (auto simp: a_put_def)
  have abs3: "abs s3 = a_write x (a_put x (a_view (abs s) y) (a_read y (a_read x (abs s))))"
    unfolding 3(3) p(2) unfolding 2(6,9) ..
  obtain s4 where 4: "rl c s3 = Ok s4" "inv s4" "abs s4 = a_release y (abs s3)" "rest s4 = rest s3" "loc s4 = loc s3"
    using rl_ok [OF 3(2), of y c] p 2 3 clean [OF assms(1), of y] assms(2)
    by (auto simp: abs3 a_put_def a_write_def a_read_def)
  obtain s5 where 5: "rl b s4 = Ok s5" "inv s5" "abs s5 = a_release x (abs s4)" "rest s5 = rest s4"
    using rl_ok [OF 4(2), of x b] p 2 3 4 assms(2)
    by (auto simp: abs3 a_put_def a_write_def a_read_def a_release_def)
  have "abs s5 = a_write x (a_put x (a_view (abs s) y) (abs s))"
    by (rule acache.equality)
      (use assms(2-4) in \<open>auto simp: 5(3) 4(3) abs3 a_release_def a_read_def a_put_def a_write_def fun_upd_twist\<close>)
  then show ?thesis using 2 3 4 5 p by metis
qed

text \<open>Copying the block \<open>x\<close> over the block \<open>y\<close> on the disk and possibly dropping the pin of
  \<open>y\<close>, as \<open>install_trans\<close> does.\<close>

lemma copy_to_second:
  assumes "inv s" "x \<noteq> y" "x \<notin> a_held (abs s)" "y \<notin> a_held (abs s)"
    "a_pins (abs s) x + 1 \<noteq> 0" "a_pins (abs s) y + 1 \<noteq> 0"
    "a_pins (abs s) x \<noteq> 0 \<or> a_room (abs s)" "a_pins (abs s) y \<noteq> 0 \<or> a_room (a_read x (abs s))"
    and drop: "u \<Longrightarrow> a_pins (abs s) y \<noteq> 0"
  shows "\<exists>b c s1 s2 s3 s4 s5 s6. rd x s = Ok (b, s1) \<and> rd y s1 = Ok (c, s2) \<and> wr c (put c (get b s2) s2) = Ok s3
     \<and> (if u then unpin c s3 else Ok s3) = Ok s4 \<and> rl b s4 = Ok s5 \<and> rl c s5 = Ok s6
     \<and> inv s6 \<and> rest s1 = rest s \<and> rest s6 = rest s
     \<and> abs s6 = (if u then a_unpin y else id) (a_write y (a_put y (a_view (abs s) x) (abs s)))"
proof -
  obtain b c s1 s2 where 2: "rd x s = Ok (b, s1)" "rd y s1 = Ok (c, s2)" "rest s1 = rest s" "rest s2 = rest s"
    "inv s2" "abs s2 = a_read y (a_read x (abs s))" "loc s2 x = Some b" "loc s2 y = Some c"
    "get b s2 = a_view (abs s) x" using read_two [OF assms(1-8)] by metis
  have held: "y \<in> a_held (abs s2)" by (simp add: 2(6) a_read_def)
  let ?p = "put c (get b s2) s2"
  have p: "inv ?p" "abs ?p = a_put y (get b s2) (abs s2)" "rest ?p = rest s2" "loc ?p = loc s2"
    using put_ok [OF 2(5,8) held] by blast+
  obtain s3 where 3: "wr c ?p = Ok s3" "inv s3" "abs s3 = a_write y (abs ?p)" "rest s3 = rest ?p" "loc s3 = loc ?p"
    using wr_ok [OF p(1), of y c] held p 2 by (auto simp: a_put_def)
  have abs3: "abs s3 = a_write y (a_put y (a_view (abs s) x) (a_read y (a_read x (abs s))))"
    unfolding 3(3) p(2) unfolding 2(6,9) ..
  obtain s4 where 4: "(if u then unpin c s3 else Ok s3) = Ok s4" "inv s4"
      "abs s4 = (if u then a_unpin y else id) (abs s3)" "rest s4 = rest s3" "loc s4 = loc s3"
  proof (cases u)
    case True
    then show ?thesis using that unpin_ok [OF 3(2), of y c] p 2 3 assms(2) drop
      by (auto simp: abs3 a_put_def a_write_def a_read_def)
  qed (use that 3 in auto)
  have abs4: "abs s4 = (if u then a_unpin y else id) (a_write y (a_put y (a_view (abs s) x) (a_read y (a_read x (abs s)))))"
    by (simp only: 4(3) abs3)
  note defs = a_put_def a_write_def a_read_def a_unpin_def a_release_def
  have loc4: "loc s4 x = Some b" "loc s4 y = Some c" using 2(7,8) 3(5) 4(5) p(4) by simp_all
  have F: "x \<in> a_held (abs s4)" "y \<in> a_held (abs s4)" "a_pins (abs s4) x = a_pins (abs s) x + 1"
      "a_view (abs s4) = (a_view (abs s))(y := a_view (abs s) x)" "a_disk (abs s4) = (a_disk (abs s))(y := a_view (abs s) x)"
    using assms(2) by (cases u; simp add: abs4 defs)+
  obtain s5 where 5: "rl b s4 = Ok s5" "inv s5" "abs s5 = a_release x (abs s4)" "rest s5 = rest s4" "loc s5 = loc s4"
    using rl_ok [OF 4(2) loc4(1) F(1)] F(3-5) clean [OF assms(1), of x] assms(2) by auto
  obtain s6 where 6: "rl c s5 = Ok s6" "inv s6" "abs s6 = a_release y (abs s5)" "rest s6 = rest s5"
    using rl_ok [OF 5(2), of y c] loc4(2) F assms(2) unfolding 5(3,5) a_release_def by auto
  have "abs s6 = (if u then a_unpin y else id) (a_write y (a_put y (a_view (abs s) x) (abs s)))"
    by (rule acache.equality; cases u) (use assms(2-4) in \<open>auto simp: 6(3) 5(3) abs4 defs fun_upd_twist\<close>)
  then show ?thesis using 2 3 4 5 6 p by metis
qed

end

interpretation bc: block_cache "binv p d" "babs d" brest "\<lambda>s. buf_of s d" "\<lambda>b s. b_data (bufs s b)" bput
    "bread d" bwrite brelse bpin bunpin for p :: nat and d :: uint32
proof (unfold_locales, goal_cases)
  case (1 s blk)
  show ?case
  proof (cases "buf_of s d blk")
    case (Some b)
    then have "b < NBUF" "b_dev (bufs s b) = d" "b_blockno (bufs s b) = blk" using buf_of_iff [OF 1(1), of blk b] by simp_all
    then show ?thesis using 1(2) binvD(7) [OF 1(1)] Some by (simp add: babs_def bview_def bpins_def)
  qed (simp add: babs_def bview_def)
next
  case (2 s blk)
  then obtain b where "buf_of s d blk = Some b" by (auto simp: babs_def bheld_def)
  then show ?case using heldD(4,8) [OF 2(1)] 2(2) by (simp add: babs_def)
next
  case (3 s blk b) then show ?case using heldD(7) [OF 3(1,2)] by (simp add: babs_def)
next
  case (4 s blk) then show ?case using bread_sim [OF 4(1), of blk] by (auto simp: babs_def)
next
  case (5 s blk b x) then show ?case using bput_sim [OF 5(1,2), of x] by (simp add: babs_def)
next
  case (6 s blk b) then show ?case using bwrite_sim [OF 6(1,2)] by (simp add: babs_def)
next
  case (7 s blk b) then show ?case using brelse_sim [OF 7(1,2)] by (simp add: babs_def)
next
  case (8 s blk b) then show ?case using bpin_sim [OF 8(1,2)] by (simp add: babs_def)
next
  case (9 s blk b) then show ?case using bunpin_sim [OF 9(1,2)] by (simp add: babs_def)
qed

subsection \<open>An empty cache\<close>

definition chain :: "(nat \<Rightarrow> buf) \<Rightarrow> nat list \<Rightarrow> bool" where
  "chain bf ls \<longleftrightarrow> successively (adj bf) (NBUF # ls @ [NBUF])"

definition insert_head :: "nat \<Rightarrow> (nat \<Rightarrow> buf) \<Rightarrow> nat \<Rightarrow> buf" where
  "insert_head b bf =
     (let bf = bf(b := (bf b)\<lparr>b_next := b_next (bf NBUF)\<rparr>);
          bf = bf(b := (bf b)\<lparr>b_prev := NBUF\<rparr>);
          bf = bf(b_next (bf NBUF) := (bf (b_next (bf NBUF)))\<lparr>b_prev := b\<rparr>)
      in bf(NBUF := (bf NBUF)\<lparr>b_next := b\<rparr>))"

lemma insert_head_other:
  "b_valid (insert_head b bf x) = b_valid (bf x)" "b_dev (insert_head b bf x) = b_dev (bf x)"
  "b_blockno (insert_head b bf x) = b_blockno (bf x)" "b_refcnt (insert_head b bf x) = b_refcnt (bf x)"
  "b_data (insert_head b bf x) = b_data (bf x)"
  unfolding insert_head_def Let_def link_other by (rule refl)+

lemma insert_head_links:
  assumes "b \<noteq> NBUF" and "b_next (bf NBUF) \<noteq> b"
  shows "b_next (insert_head b bf x) = (if x = NBUF then b else if x = b then b_next (bf NBUF) else b_next (bf x))"
    and "b_prev (insert_head b bf x) = (if x = b_next (bf NBUF) then b else if x = b then NBUF else b_prev (bf x))"
  using assms by (simp_all add: insert_head_def Let_def)

lemma chain_insert_head:
  assumes "chain bf ls" and "b \<notin> set ls" and "b \<noteq> NBUF" and "distinct ls" and "NBUF \<notin> set ls"
  shows "chain (insert_head b bf) (b # ls)"
proof -
  have first: "b_next (bf NBUF) = hd (ls @ [NBUF])" "b_next (bf NBUF) \<noteq> b"
    using assms(1-3) by (cases ls; simp add: chain_def adj_def)+
  note L = insert_head_links [where bf = bf, OF assms(3) first(2)]
  have "successively (adj (insert_head b bf)) (ls @ [NBUF])"
  proof (rule successively_mono_ends)
    show "successively (adj bf) (ls @ [NBUF])" using assms(1) by (cases ls) (simp_all add: chain_def)
    show "distinct (ls @ [NBUF])" using assms(4,5) by simp
    show "adj (insert_head b bf) x y" if "adj bf x y" "x \<in> set (ls @ [NBUF])" "y \<in> set (ls @ [NBUF])"
        "x \<noteq> last (ls @ [NBUF])" "y \<noteq> hd (ls @ [NBUF])" for x y
      using that assms(2,3) first(1) by (auto simp: adj_def L)
  qed
  moreover have "adj (insert_head b bf) NBUF b" "adj (insert_head b bf) b (hd (ls @ [NBUF]))"
    using assms(3) first by (auto simp: adj_def L)
  ultimately show ?thesis by (cases ls) (simp_all add: chain_def)
qed

definition bstep :: "nat \<Rightarrow> ('z) bio_state_scheme \<Rightarrow> ('z) bio_state_scheme" where
  "bstep b s = (initsleeplock (BufSleep b) ''buffer'' s)\<lparr>bufs := insert_head b (bufs s)\<rparr>"

lemma binit_loop_step: "binit_loop (b # bs) s = binit_loop bs (bstep b s)"
  by (simp add: bstep_def insert_head_def Let_def upd_buf_def initsleeplock_def initlock_def upd_slk_def)

declare binit_loop.simps(2) [simp del]

definition cold :: "('z) bio_state_scheme \<Rightarrow> ('z) bio_state_scheme \<Rightarrow> bool" where
  "cold s s' \<longleftrightarrow> (\<forall>x. b_valid (bufs s' x) = b_valid (bufs s x) \<and> b_dev (bufs s' x) = b_dev (bufs s x)
       \<and> b_blockno (bufs s' x) = b_blockno (bufs s x) \<and> b_refcnt (bufs s' x) = b_refcnt (bufs s x))
     \<and> disk s' = disk s \<and> writes s' = writes s \<and> brest s' = brest s \<and> (\<forall>p. running p s \<longrightarrow> running p s')"

lemma binit_loop_spec:
  assumes "chain (bufs s) ls" and "distinct (rev bs @ ls)" and "NBUF \<notin> set (bs @ ls)"
    and "\<forall>x \<in> set ls. sl_locked (sleeplocks s (BufSleep x)) = 0"
  shows "chain (bufs (binit_loop bs s)) (rev bs @ ls) \<and> cold s (binit_loop bs s)
     \<and> (\<forall>x \<in> set (bs @ ls). sl_locked (sleeplocks (binit_loop bs s) (BufSleep x)) = 0)"
  using assms
proof (induction bs arbitrary: s ls)
  case Nil
  then show ?case by (simp add: cold_def)
next
  case (Cons b bs)
  have "chain (bufs (bstep b s)) (b # ls)"
    using chain_insert_head [OF Cons.prems(1), of b] Cons.prems(2,3)
    by (simp add: bstep_def initsleeplock_def initlock_def upd_slk_def Let_def)
  moreover have "cold s (bstep b s)"
    by (auto simp: cold_def bstep_def initsleeplock_def initlock_def upd_slk_def Let_def insert_head_other brest_def
        running_def quiet_def unheld_def curproc_def mycpu_def)
  moreover have "\<forall>x \<in> set (b # ls). sl_locked (sleeplocks (bstep b s) (BufSleep x)) = 0"
    using Cons.prems(4) by (auto simp: bstep_def initsleeplock_def initlock_def upd_slk_def Let_def)
  ultimately show ?case
    using Cons.IH [of "bstep b s" "b # ls"] Cons.prems(2,3) by (auto simp: binit_loop_step cold_def)
qed

lemma binit_inv:
  assumes "running p s" and "d \<noteq> 0" and "\<And>b. b < NBUF \<Longrightarrow> b_dev (bufs s b) = 0 \<and> b_refcnt (bufs s b) = 0"
  shows "binv p d (binit s)"
    and "babs d (binit s) = \<lparr>a_view = disk s, a_pins = (\<lambda>_. 0), a_held = {}, a_disk = disk s, a_writes = writes s\<rparr>"
    and "brest (binit s) = brest s"
proof -
  define t where "t = (initlock BcacheLock ''bcache'' s)\<lparr>bufs := (bufs s)(NBUF := (bufs s NBUF)\<lparr>b_prev := NBUF, b_next := NBUF\<rparr>)\<rparr>"
  have t: "binit s = binit_loop [0..<NBUF] t"
    by (simp add: binit_def t_def upd_buf_def Let_def initlock_def)
  have "chain (bufs t) []" by (simp add: chain_def t_def adj_def)
  from binit_loop_spec [OF this, of "[0..<NBUF]"]
  have spec: "chain (bufs (binit s)) (rev [0..<NBUF])" "cold t (binit s)"
      "\<And>x. x < NBUF \<Longrightarrow> sl_locked (sleeplocks (binit s) (BufSleep x)) = 0"
    by (simp_all add: t)
  have run: "running p t" using assms(1)
    by (simp add: t_def initlock_def running_def quiet_def unheld_def curproc_def mycpu_def)
  have cold: "b_dev (bufs (binit s) b) = 0" "b_refcnt (bufs (binit s) b) = 0" if "b < NBUF" for b
    using spec(2) assms(3) [OF that] that by (simp_all add: cold_def t_def)
  show inv: "binv p d (binit s)"
  proof (rule binvI)
    show "lru (bufs (binit s)) (rev [0..<NBUF])" using spec(1) by (auto simp: lru_def chain_def)
    show "running p (binit s)" using spec(2) run by (simp add: cold_def)
  qed (use cold spec(3) assms(2) in auto)
  have "buf_of (binit s) d blk = None" for blk
    using cold assms(2) by (simp add: buf_of_None_iff)
  then show "babs d (binit s) = \<lparr>a_view = disk s, a_pins = (\<lambda>_. 0), a_held = {}, a_disk = disk s, a_writes = writes s\<rparr>"
    "brest (binit s) = brest s"
    using spec(2) by (auto simp: babs_def bview_def bpins_def bheld_def cold_def t_def initlock_def brest_def)
qed

subsection \<open>Properties\<close>

text \<open>A machine on which the process 0 runs, with a disk of zeroes and an empty cache.\<close>

definition demo_bio :: bio_state where
  "demo_bio = con_state.extend demo_con
     \<lparr>bufs = (\<lambda>_. \<lparr>b_valid = 0, b_disk = 0, b_dev = 0, b_blockno = 0, b_refcnt = 0, b_prev = 0, b_next = 0, b_data = []\<rparr>),
      disk = (\<lambda>_. replicate BSIZE 0), writes = []\<rparr>"

lemma demo_bio_running: "running 0 demo_bio"
  using demo_con_running
  by (simp add: demo_bio_def con_state.defs running_def quiet_def unheld_def curproc_def mycpu_def)

lemma demo_bio_cold: "b_dev (bufs demo_bio b) = 0 \<and> b_refcnt (bufs demo_bio b) = 0"
  by (simp add: demo_bio_def con_state.defs)

lemma demo_bio_disk: "disk demo_bio = (\<lambda>_. replicate BSIZE 0)"
  by (simp add: demo_bio_def con_state.defs)

lemmas demo_cache = binit_inv [OF demo_bio_running _ demo_bio_cold]

text \<open>C11: \<open>bread\<close> refines the abstract read. When the caller does not hold the block already and the
  block is in use or a buffer is free, it returns a buffer that holds the current contents of the
  block, with the block locked and its count one higher; the view of every other block, the disk
  and the buffers other holders refer to are unchanged, whichever buffer was recycled.\<close>

theorem bread_refines:
  assumes "binv p d s" and "blk \<notin> bheld s d" and "bpins s d blk + 1 \<noteq> 0"
    and "bpins s d blk \<noteq> 0 \<or> a_room (babs d s)"
  shows "\<exists>b s'. bread d blk s = Ok (b, s') \<and> binv p d s' \<and> babs d s' = a_read blk (babs d s)
     \<and> brest s' = brest s \<and> buf_of s' d blk = Some b \<and> b_data (bufs s' b) = bview s d blk
     \<and> (\<forall>blk'. blk' \<noteq> blk \<longrightarrow> bpins s d blk' \<noteq> 0 \<longrightarrow> buf_of s' d blk' = buf_of s d blk')"
  by (rule bread_sim [OF assms])

theorem bread_refines_witness:
  "\<exists>b s'. bread 1 7 (binit demo_bio) = Ok (b, s') \<and> babs 1 s' = a_read 7 (babs 1 (binit demo_bio))
     \<and> b_data (bufs s' b) = disk demo_bio 7"
proof -
  have a: "babs 1 (binit demo_bio) = \<lparr>a_view = disk demo_bio, a_pins = (\<lambda>_. 0), a_held = {},
      a_disk = disk demo_bio, a_writes = writes demo_bio\<rparr>" by (rule demo_cache) simp
  then have "bheld (binit demo_bio) 1 = {}" "bpins (binit demo_bio) 1 7 = 0" "bview (binit demo_bio) 1 7 = disk demo_bio 7"
    by (simp_all add: babs_def)
  moreover have "a_room (babs 1 (binit demo_bio))" by (simp add: a a_room_def NBUF_def)
  ultimately show ?thesis using bread_refines [OF demo_cache(1), of 1 7] by auto
qed

lemma bread_full:
  assumes inv: "binv p d s" and "bpins s d blk = 0" and "\<not> bfree s"
  shows "bread d blk s = Panic ''bget: no buffers''"
proof -
  obtain ls where lru: "lru (bufs s) ls" using inv by (auto simp: binv_def)
  have none: "buf_of s d blk = None"
    using assms(2,3) buf_of_iff [OF inv, of blk] by (cases "buf_of s d blk") (auto simp: bpins_def bfree_def)
  have "find (\<lambda>b. b_dev (bufs s b) = d \<and> b_blockno (bufs s b) = blk) ls = None"
    using none lruD(2) [OF lru] by (auto simp: buf_of_None_iff find_None_iff)
  moreover have "find (\<lambda>b. b_refcnt (bufs s b) = 0) (rev ls) = None"
    using assms(3) lruD(2) [OF lru] by (auto simp: bfree_def find_None_iff)
  ultimately show ?thesis
    using runningD [OF binvD(1) [OF inv]] by (simp add: bread_def bget_def lru_walks [OF lru] lock_simps)
qed

text \<open>C36: \<open>bread\<close> panics exactly when the block is not in use and every buffer is referenced.\<close>

theorem bread_no_buffers:
  assumes "binv p d s" and "blk \<notin> bheld s d"
  shows "bread d blk s = Panic ''bget: no buffers'' \<longleftrightarrow> bpins s d blk = 0 \<and> \<not> bfree s"
proof
  assume "bread d blk s = Panic ''bget: no buffers''"
  then show "bpins s d blk = 0 \<and> \<not> bfree s" using bread_eq [OF assms] by auto
qed (use bread_full [OF assms(1)] in blast)

theorem bread_no_buffers_witness:
  "bread 1 7 (binit demo_bio) \<noteq> Panic ''bget: no buffers''"
proof -
  have a: "babs 1 (binit demo_bio) = \<lparr>a_view = disk demo_bio, a_pins = (\<lambda>_. 0), a_held = {},
      a_disk = disk demo_bio, a_writes = writes demo_bio\<rparr>" by (rule demo_cache) simp
  then have "bheld (binit demo_bio) 1 = {}" by (simp add: babs_def)
  moreover have "bfree (binit demo_bio)"
    by (rule a_room_bfree [where d = 1, OF demo_cache(1)]) (simp_all add: a a_room_def NBUF_def)
  ultimately show ?thesis using bread_no_buffers [OF demo_cache(1), of 1 7] by simp
qed

end
