(* ===== verification/Log.thy ===== *)
theory Log
  imports Bio_Cache
begin

text \<open>
  The write-ahead log, src/kernel/log.c. \<open>log\<close> is the structure of that name. The array
  \<open>lh_block\<close> has no bound here, as in the C code nothing checks an index against LOGSIZE;
  that the code stays inside it is part of the invariant proved in \<open>Log_Crash\<close>. The data of a
  buffer is a list of bytes, so that the header block is read and written with \<open>get32\<close> and
  \<open>put32\<close> at the offsets of struct logheader: \<open>n\<close> at 0 and \<open>block[i]\<close> at \<open>4 + 4 * i\<close>.
\<close>

abbreviation (input) LOGSIZE :: int where "LOGSIZE \<equiv> 30"
abbreviation (input) MAXOPBLOCKS :: int where "MAXOPBLOCKS \<equiv> 10"

record logheader =
  lh_n :: int
  lh_block :: "nat \<Rightarrow> uint32"

record log =
  log_start :: uint32
  log_size :: int
  outstanding :: int
  committing :: int
  log_dev :: uint32
  log_lh :: logheader

record log_state = bio_state +
  log_st :: log

record superblock =
  sb_magic :: uint32
  sb_size :: uint32
  sb_nblocks :: uint32
  sb_ninodes :: uint32
  sb_nlog :: uint32
  sb_logstart :: uint32
  sb_inodestart :: uint32
  sb_bmapstart :: uint32

definition upd_log :: "(log \<Rightarrow> log) \<Rightarrow> ('z) log_state_scheme \<Rightarrow> ('z) log_state_scheme" where
  "upd_log f s = s\<lparr>log_st := f (log_st s)\<rparr>"

abbreviation lhn :: "('z) log_state_scheme \<Rightarrow> int" where
  "lhn s \<equiv> lh_n (log_lh (log_st s))"

abbreviation lhb :: "('z) log_state_scheme \<Rightarrow> nat \<Rightarrow> uint32" where
  "lhb s \<equiv> lh_block (log_lh (log_st s))"

subsection \<open>Operations\<close>

fun install_trans_loop :: "bool \<Rightarrow> nat list \<Rightarrow> ('z) log_state_scheme \<Rightarrow> ('z log_state_scheme, 'z log_state_scheme) res" where
  "install_trans_loop recovering [] s = Ok s"
| "install_trans_loop recovering (tail # tails) s =
     rbind (bread (log_dev (log_st s)) (log_start (log_st s) + of_nat tail + 1) s) (\<lambda>(lbuf, s).
     rbind (bread (log_dev (log_st s)) (lhb s tail) s) (\<lambda>(dbuf, s).
     let s = bput dbuf (b_data (bufs s lbuf)) s
     in rbind (bwrite dbuf s) (\<lambda>s.
     rbind (if \<not> recovering then bunpin dbuf s else Ok s) (\<lambda>s.
     rbind (brelse lbuf s) (\<lambda>s.
     rbind (brelse dbuf s) (\<lambda>s. install_trans_loop recovering tails s))))))"

definition install_trans :: "bool \<Rightarrow> ('z) log_state_scheme \<Rightarrow> ('z log_state_scheme, 'z log_state_scheme) res" where
  "install_trans recovering s = install_trans_loop recovering [0..<nat (lhn s)] s"

fun copy_head_in :: "byte list \<Rightarrow> nat list \<Rightarrow> (nat \<Rightarrow> uint32) \<Rightarrow> nat \<Rightarrow> uint32" where
  "copy_head_in lh [] bs = bs"
| "copy_head_in lh (i # is) bs = copy_head_in lh is (bs(i := get32 lh (4 + 4 * i)))"

definition read_head :: "('z) log_state_scheme \<Rightarrow> ('z log_state_scheme, 'z log_state_scheme) res" where
  "read_head s =
     rbind (bread (log_dev (log_st s)) (log_start (log_st s)) s) (\<lambda>(buf, s).
     let lh = b_data (bufs s buf);
         s = upd_log (\<lambda>l. l\<lparr>log_lh := (log_lh l)\<lparr>lh_n := sint (get32 lh 0)\<rparr>\<rparr>) s;
         s = upd_log (\<lambda>l. l\<lparr>log_lh := (log_lh l)\<lparr>lh_block := copy_head_in lh [0..<nat (lhn s)] (lh_block (log_lh l))\<rparr>\<rparr>) s
     in brelse buf s)"

fun copy_head_out :: "(nat \<Rightarrow> uint32) \<Rightarrow> nat list \<Rightarrow> byte list \<Rightarrow> byte list" where
  "copy_head_out bs [] hb = hb"
| "copy_head_out bs (i # is) hb = copy_head_out bs is (put32 hb (4 + 4 * i) (bs i))"

definition write_head :: "('z) log_state_scheme \<Rightarrow> ('z log_state_scheme, 'z log_state_scheme) res" where
  "write_head s =
     rbind (bread (log_dev (log_st s)) (log_start (log_st s)) s) (\<lambda>(buf, s).
     let hb = put32 (b_data (bufs s buf)) 0 (of_int (lhn s));
         s = bput buf (copy_head_out (lhb s) [0..<nat (lhn s)] hb) s
     in rbind (bwrite buf s) (\<lambda>s. brelse buf s))"

definition recover_from_log :: "('z) log_state_scheme \<Rightarrow> ('z log_state_scheme, 'z log_state_scheme) res" where
  "recover_from_log s =
     rbind (read_head s) (\<lambda>s.
     rbind (install_trans True s) (\<lambda>s.
     write_head (upd_log (\<lambda>l. l\<lparr>log_lh := (log_lh l)\<lparr>lh_n := 0\<rparr>\<rparr>) s)))"

definition initlog :: "uint32 \<Rightarrow> superblock \<Rightarrow> ('z) log_state_scheme \<Rightarrow> ('z log_state_scheme, 'z log_state_scheme) res" where
  "initlog dev sb s =
     (if 4 + 4 * nat LOGSIZE \<ge> BSIZE then Panic ''initlog: too big logheader''
      else let s = initlock LogLock ''log'' s;
               s = upd_log (\<lambda>l. l\<lparr>log_start := sb_logstart sb, log_size := sint (sb_nlog sb), log_dev := dev\<rparr>) s
           in recover_from_log s)"

text \<open>\<open>begin_op_loop\<close> is the loop of \<open>begin_op\<close>, with the lock held.\<close>

definition begin_op_loop :: "('z) log_state_scheme \<Rightarrow> ('z log_state_scheme, 'z log_state_scheme) res" where
  "begin_op_loop s =
     (if committing (log_st s) \<noteq> 0 then sleep LogChan LogLock s
      else if lhn s + (outstanding (log_st s) + 1) * MAXOPBLOCKS > LOGSIZE then sleep LogChan LogLock s
      else release LogLock (upd_log (\<lambda>l. l\<lparr>outstanding := outstanding l + 1\<rparr>) s))"

definition begin_op :: "('z) log_state_scheme \<Rightarrow> ('z log_state_scheme, 'z log_state_scheme) res" where
  "begin_op s = rbind (acquire LogLock s) (\<lambda>s. begin_op_loop s)"

fun write_log_loop :: "nat list \<Rightarrow> ('z) log_state_scheme \<Rightarrow> ('z log_state_scheme, 'z log_state_scheme) res" where
  "write_log_loop [] s = Ok s"
| "write_log_loop (tail # tails) s =
     rbind (bread (log_dev (log_st s)) (log_start (log_st s) + of_nat tail + 1) s) (\<lambda>(to, s).
     rbind (bread (log_dev (log_st s)) (lhb s tail) s) (\<lambda>(from, s).
     let s = bput to (b_data (bufs s from)) s
     in rbind (bwrite to s) (\<lambda>s.
     rbind (brelse from s) (\<lambda>s.
     rbind (brelse to s) (\<lambda>s. write_log_loop tails s)))))"

definition write_log :: "('z) log_state_scheme \<Rightarrow> ('z log_state_scheme, 'z log_state_scheme) res" where
  "write_log s = write_log_loop [0..<nat (lhn s)] s"

definition commit :: "('z) log_state_scheme \<Rightarrow> ('z log_state_scheme, 'z log_state_scheme) res" where
  "commit s =
     (if lhn s > 0 then
        rbind (write_log s) (\<lambda>s.
        rbind (write_head s) (\<lambda>s.
        rbind (install_trans False s) (\<lambda>s.
        write_head (upd_log (\<lambda>l. l\<lparr>log_lh := (log_lh l)\<lparr>lh_n := 0\<rparr>\<rparr>) s))))
      else Ok s)"

definition end_op :: "('z) log_state_scheme \<Rightarrow> ('z log_state_scheme, 'z log_state_scheme) res" where
  "end_op s =
     rbind (acquire LogLock s) (\<lambda>s.
     let s = upd_log (\<lambda>l. l\<lparr>outstanding := outstanding l - 1\<rparr>) s
     in if committing (log_st s) \<noteq> 0 then Panic ''log.committing''
        else rbind (if outstanding (log_st s) = 0
                    then Ok (True, upd_log (\<lambda>l. l\<lparr>committing := 1\<rparr>) s)
                    else rbind (wakeup LogChan s) (\<lambda>s. Ok (False, s))) (\<lambda>(do_commit, s).
        rbind (release LogLock s) (\<lambda>s.
        if do_commit then
          rbind (commit s) (\<lambda>s.
          rbind (acquire LogLock s) (\<lambda>s.
          rbind (wakeup LogChan (upd_log (\<lambda>l. l\<lparr>committing := 0\<rparr>) s)) (\<lambda>s.
          release LogLock s)))
        else Ok s)))"

text \<open>The search of \<open>log_write\<close> for the block among those already logged.\<close>

definition absorb_index :: "int \<Rightarrow> (nat \<Rightarrow> uint32) \<Rightarrow> uint32 \<Rightarrow> nat" where
  "absorb_index n bs blk = (case find (\<lambda>i. bs i = blk) [0..<nat n] of Some i \<Rightarrow> i | None \<Rightarrow> nat n)"

definition log_write :: "nat \<Rightarrow> ('z) log_state_scheme \<Rightarrow> ('z log_state_scheme, 'z log_state_scheme) res" where
  "log_write b s =
     rbind (acquire LogLock s) (\<lambda>s.
     if lhn s \<ge> LOGSIZE \<or> lhn s \<ge> log_size (log_st s) - 1 then Panic ''too big a transaction''
     else if outstanding (log_st s) < 1 then Panic ''log_write outside of trans''
     else (let i = absorb_index (lhn s) (lhb s) (b_blockno (bufs s b));
               s = upd_log (\<lambda>l. l\<lparr>log_lh := (log_lh l)\<lparr>lh_block := (lh_block (log_lh l))(i := b_blockno (bufs s b))\<rparr>\<rparr>) s
           in rbind (if int i = lhn s
                     then rbind (bpin b s) (\<lambda>s. Ok (upd_log (\<lambda>l. l\<lparr>log_lh := (log_lh l)\<lparr>lh_n := lh_n (log_lh l) + 1\<rparr>\<rparr>) s))
                     else Ok s) (\<lambda>s.
              release LogLock s)))"

end
