(* ===== verification/Log_Crash.thy ===== *)
theory Log_Crash
  imports Log
begin

text \<open>
  Crash safety of the log. The first part is about disks alone: the sequence of block writes a
  commit makes, the sequence a recovery makes, and that after a crash at any point of either the
  disk still holds, outside the log, the old contents or the new contents and never a mixture that
  recovery does not repair. The second part shows that \<open>commit\<close> and \<open>recover_from_log\<close> make
  exactly these writes.
\<close>

section \<open>Disks\<close>

type_synonym blocks = "uint32 \<Rightarrow> byte list"

definition apply_writes :: "(uint32 \<times> byte list) list \<Rightarrow> blocks \<Rightarrow> blocks" where
  "apply_writes ws D = fold (\<lambda>(blk, x) D. D(blk := x)) ws D"

lemma apply_writes_simps [simp]:
  "apply_writes [] D = D" "apply_writes (w # ws) D = apply_writes ws (D(fst w := snd w))"
  "apply_writes (ws @ vs) D = apply_writes vs (apply_writes ws D)"
  by (simp_all add: apply_writes_def split_beta)

lemma apply_writes_other: "blk \<notin> fst ` set ws \<Longrightarrow> apply_writes ws D blk = D blk"
  by (induction ws arbitrary: D) auto

lemma apply_writes_same:
  "(blk, x) \<in> set ws \<Longrightarrow> distinct (map fst ws) \<Longrightarrow> apply_writes ws D blk = x"
  by (induction ws arbitrary: D) (auto simp: apply_writes_other rev_image_eqI)

lemma apply_writes_map_in:
  "distinct (map f xs) \<Longrightarrow> i \<in> set xs \<Longrightarrow> apply_writes (map (\<lambda>i. (f i, g i)) xs) D (f i) = g i"
  by (rule apply_writes_same) (auto simp: o_def)

lemma apply_writes_map_out:
  "blk \<notin> f ` set xs \<Longrightarrow> apply_writes (map (\<lambda>i. (f i, g i)) xs) D blk = D blk"
  by (rule apply_writes_other) auto

text \<open>The blocks of the log: the header and, after it, 29 data blocks.\<close>

definition log_blk :: "uint32 \<Rightarrow> nat \<Rightarrow> uint32" where
  "log_blk start i = start + of_nat i + 1"

definition in_log :: "uint32 \<Rightarrow> uint32 \<Rightarrow> bool" where
  "in_log start blk \<longleftrightarrow> unat (blk - start) < 30"

lemma in_log_start [simp]: "in_log start start"
  by (simp add: in_log_def)

lemma in_log_blk: "i < 29 \<Longrightarrow> in_log start (log_blk start i)"
  by (simp add: in_log_def log_blk_def unat_word_ariths unat_of_nat)

lemma log_blk_neq_start: "i < 29 \<Longrightarrow> log_blk start i \<noteq> start"
proof
  assume "i < 29" "log_blk start i = start"
  then have "(of_nat i + 1 :: uint32) = 0" by (simp add: log_blk_def)
  then have "unat (of_nat (Suc i) :: uint32) = 0" by (simp add: add.commute)
  then show False using \<open>i < 29\<close> by (simp add: unat_of_nat del: of_nat_Suc)
qed

lemma log_blk_inj: "i < 29 \<Longrightarrow> j < 29 \<Longrightarrow> log_blk start i = log_blk start j \<longleftrightarrow> i = j"
proof -
  assume "i < 29" "j < 29"
  then have "unat (of_nat i :: uint32) = i" "unat (of_nat j :: uint32) = j" by (simp_all add: unat_of_nat)
  then have "(of_nat i :: uint32) = of_nat j \<longleftrightarrow> i = j" by metis
  then show ?thesis by (simp add: log_blk_def)
qed

lemma log_blk_distinct: "n \<le> 29 \<Longrightarrow> distinct (map (log_blk start) [0..<n])"
  by (auto simp: distinct_map intro!: inj_onI log_blk_inj [THEN iffD1])

lemma sint_small: "0 \<le> n \<Longrightarrow> n \<le> 30 \<Longrightarrow> sint (of_int n :: uint32) = n"
  by (simp add: sint_sbintrunc' signed_take_bit_int_eq_self)

text \<open>The header block.\<close>

definition head_n :: "byte list \<Rightarrow> int" where
  "head_n h = sint (get32 h 0)"

definition head_block :: "byte list \<Rightarrow> nat \<Rightarrow> uint32" where
  "head_block h i = get32 h (4 + 4 * i)"

text \<open>The header \<open>write_head\<close> makes of the block \<open>h\<close>.\<close>

definition head :: "int \<Rightarrow> (nat \<Rightarrow> uint32) \<Rightarrow> byte list \<Rightarrow> byte list" where
  "head n bs h = copy_head_out bs [0..<nat n] (put32 h 0 (of_int n))"

lemma get32_put32_slot:
  assumes "i \<noteq> a" "i < 30" "a < 30" "length hb = BSIZE"
  shows "get32 (put32 hb (4 + 4 * a) w) (4 + 4 * i) = get32 hb (4 + 4 * i)"
  by (rule get32_put32_other) (use assms in linarith)+

lemma copy_head_out_spec:
  assumes "distinct js" and "\<forall>i \<in> set js. i < 30" and "length hb = BSIZE"
  shows "length (copy_head_out bs js hb) = BSIZE"
    and "get32 (copy_head_out bs js hb) 0 = get32 hb 0"
    and "i < 30 \<Longrightarrow> get32 (copy_head_out bs js hb) (4 + 4 * i) = (if i \<in> set js then bs i else get32 hb (4 + 4 * i))"
  using assms by (induction js arbitrary: hb) (auto simp: get32_put32_other get32_put32_slot)

lemma head_spec:
  assumes "0 \<le> n" and "n \<le> 30" and "length h = BSIZE"
  shows "length (head n bs h) = BSIZE" "head_n (head n bs h) = n" "i < nat n \<Longrightarrow> head_block (head n bs h) i = bs i"
proof -
  have js: "\<forall>i \<in> set [0..<nat n]. i < 30" using assms(2) by auto
  have len: "length (put32 h 0 (of_int n)) = BSIZE" using assms(3) by simp
  note C = copy_head_out_spec [where bs = bs, OF distinct_upt js len]
  show "length (head n bs h) = BSIZE" using C(1) by (simp add: head_def)
  show "head_n (head n bs h) = n" using C(2) assms by (simp add: head_def head_n_def sint_small)
  show "i < nat n \<Longrightarrow> head_block (head n bs h) i = bs i"
    using C(3) [of i] js by (simp add: head_def head_block_def)
qed

text \<open>The writes of a commit, of a recovery, and the disks that crashes during them leave.\<close>

definition commit_writes :: "uint32 \<Rightarrow> int \<Rightarrow> (nat \<Rightarrow> uint32) \<Rightarrow> byte list \<Rightarrow> blocks \<Rightarrow> (uint32 \<times> byte list) list" where
  "commit_writes start n bs h v =
     map (\<lambda>i. (log_blk start i, v (bs i))) [0..<nat n] @ [(start, head n bs h)] @
     map (\<lambda>i. (bs i, v (bs i))) [0..<nat n] @ [(start, head 0 bs (head n bs h))]"

definition recovery_writes :: "uint32 \<Rightarrow> blocks \<Rightarrow> (uint32 \<times> byte list) list" where
  "recovery_writes start D =
     map (\<lambda>i. (head_block (D start) i, D (log_blk start i))) [0..<nat (head_n (D start))] @
     [(start, put32 (D start) 0 0)]"

inductive crashed :: "uint32 \<Rightarrow> blocks \<Rightarrow> (uint32 \<times> byte list) list \<Rightarrow> blocks \<Rightarrow> bool" for start D ws where
  commit: "crashed start D ws (apply_writes (take k ws) D)"
| again: "crashed start D ws E \<Longrightarrow> crashed start D ws (apply_writes (take k (recovery_writes start E)) E)"

definition agree_out :: "uint32 \<Rightarrow> blocks \<Rightarrow> blocks \<Rightarrow> bool" where
  "agree_out start D E \<longleftrightarrow> (\<forall>blk. \<not> in_log start blk \<longrightarrow> D blk = E blk)"

definition intact :: "uint32 \<Rightarrow> int \<Rightarrow> (nat \<Rightarrow> uint32) \<Rightarrow> blocks \<Rightarrow> blocks \<Rightarrow> bool" where
  "intact start n bs new D \<longleftrightarrow> head_n (D start) = n \<and> length (D start) = BSIZE
     \<and> (\<forall>i < nat n. head_block (D start) i = bs i \<and> D (log_blk start i) = new (bs i))
     \<and> (\<forall>blk. \<not> in_log start blk \<longrightarrow> blk \<notin> bs ` {..<nat n} \<longrightarrow> D blk = new blk)"

definition clear :: "uint32 \<Rightarrow> blocks \<Rightarrow> bool" where
  "clear start D \<longleftrightarrow> head_n (D start) = 0 \<and> length (D start) = BSIZE"

definition committed :: "uint32 \<Rightarrow> int \<Rightarrow> (nat \<Rightarrow> uint32) \<Rightarrow> blocks \<Rightarrow> blocks \<Rightarrow> bool" where
  "committed start n bs new D \<longleftrightarrow> intact start n bs new D \<or> clear start D \<and> agree_out start D new"

definition layout :: "uint32 \<Rightarrow> int \<Rightarrow> (nat \<Rightarrow> uint32) \<Rightarrow> bool" where
  "layout start n bs \<longleftrightarrow> 0 \<le> n \<and> n \<le> 29 \<and> distinct (map bs [0..<nat n]) \<and> (\<forall>i < nat n. \<not> in_log start (bs i))"

lemma layoutD:
  assumes "layout start n bs"
  shows "0 \<le> n" "n \<le> 29" "distinct (map bs [0..<nat n])" "i < nat n \<Longrightarrow> \<not> in_log start (bs i)"
    "i < nat n \<Longrightarrow> bs i \<noteq> start" "i < nat n \<Longrightarrow> j < nat n \<Longrightarrow> bs i \<noteq> log_blk start j"
    "j < nat n \<Longrightarrow> j < 29"
proof -
  show j: "j < nat n \<Longrightarrow> j < 29" for j using assms by (auto simp: layout_def)
  show "i < nat n \<Longrightarrow> bs i \<noteq> start" using assms by (auto simp: layout_def)
  show "i < nat n \<Longrightarrow> j < nat n \<Longrightarrow> bs i \<noteq> log_blk start j"
    using assms in_log_blk [OF j, of j start] by (auto simp: layout_def)
qed (use assms in \<open>simp_all add: layout_def\<close>)

text \<open>Recovery of an intact log.\<close>

lemma distinct_take_upt: "distinct (map f [0..<n]) \<Longrightarrow> k \<le> n \<Longrightarrow> distinct (map f [0..<k])"
  by (auto simp: distinct_map intro: inj_on_subset)

lemma install_prefix:
  assumes lay: "layout start n bs" and int: "intact start n bs new D" and "k \<le> nat n"
  defines "E \<equiv> apply_writes (map (\<lambda>i. (bs i, new (bs i))) [0..<k]) D"
  shows "intact start n bs new E" "E start = D start" "k = nat n \<Longrightarrow> agree_out start E new"
proof -
  note L = layoutD [OF lay]
  have out: "E blk = D blk" if "blk \<notin> bs ` {..<k}" for blk
    unfolding E_def using that by (intro apply_writes_map_out) (auto simp: atLeast0LessThan)
  show st: "E start = D start" using L(5) assms(3) by (intro out) (metis imageE lessThan_iff order_less_le_trans)
  have lb: "E (log_blk start i) = D (log_blk start i)" if "i < nat n" for i
    using L(6) that assms(3) by (intro out) (metis imageE lessThan_iff order_less_le_trans)
  have "E blk = D blk" if "blk \<notin> bs ` {..<nat n}" for blk
    by (rule out) (use that assms(3) in auto)
  then show "intact start n bs new E" unfolding intact_def st
    using int lb by (auto simp: intact_def)
  show "agree_out start E new" if "k = nat n"
    unfolding agree_out_def
  proof (intro allI impI)
    fix blk assume b: "\<not> in_log start blk"
    show "E blk = new blk"
    proof (cases "blk \<in> bs ` {..<nat n}")
      case True
      then obtain i where "i < nat n" "blk = bs i" by auto
      then show ?thesis unfolding E_def using apply_writes_map_in [OF L(3), of i] that by simp
    next
      case False
      then show ?thesis using out b int that by (simp add: intact_def)
    qed
  qed
qed

lemma recovery_writes_intact:
  assumes "layout start n bs" and "intact start n bs new D"
  shows "recovery_writes start D = map (\<lambda>i. (bs i, new (bs i))) [0..<nat n] @ [(start, put32 (D start) 0 0)]"
  using assms(2) by (auto simp: recovery_writes_def intact_def)

lemma recover_intact:
  assumes lay: "layout start n bs" and int: "intact start n bs new D"
  shows "committed start n bs new (apply_writes (take k (recovery_writes start D)) D)"
    "clear start (apply_writes (recovery_writes start D) D)"
    "agree_out start (apply_writes (recovery_writes start D) D) new"
proof -
  let ?E = "apply_writes (map (\<lambda>i. (bs i, new (bs i))) [0..<nat n]) D"
  note E = install_prefix [OF assms order_refl]
  have full: "apply_writes (recovery_writes start D) D = ?E(start := put32 (D start) 0 0)"
    by (simp add: recovery_writes_intact [OF assms])
  show clr: "clear start (apply_writes (recovery_writes start D) D)"
    unfolding full using int by (simp add: clear_def head_n_def intact_def)
  show agr: "agree_out start (apply_writes (recovery_writes start D) D) new"
    unfolding full using E(3) by (auto simp: agree_out_def)
  show "committed start n bs new (apply_writes (take k (recovery_writes start D)) D)"
  proof (cases "k \<le> nat n")
    case True
    then have "take k (recovery_writes start D) = map (\<lambda>i. (bs i, new (bs i))) [0..<k]"
      by (simp add: recovery_writes_intact [OF assms] take_map min_def)
    then show ?thesis using install_prefix(1) [OF assms True] by (simp add: committed_def)
  next
    case False
    then have "take k (recovery_writes start D) = recovery_writes start D"
      by (simp add: recovery_writes_intact [OF assms])
    then show ?thesis using clr agr by (simp add: committed_def)
  qed
qed

lemma recover_clear:
  assumes "clear start D"
  shows "recovery_writes start D = [(start, put32 (D start) 0 0)]"
    "clear start (apply_writes (take k (recovery_writes start D)) D)"
    "agree_out start (apply_writes (take k (recovery_writes start D)) D) D"
  using assms by (cases k; auto simp: recovery_writes_def clear_def head_n_def agree_out_def)+

lemma recover_committed:
  assumes "layout start n bs" and "committed start n bs new D"
  shows "committed start n bs new (apply_writes (take k (recovery_writes start D)) D)"
    "agree_out start (apply_writes (recovery_writes start D) D) new"
proof -
  have *: "clear start D \<Longrightarrow> agree_out start D new \<Longrightarrow> agree_out start (apply_writes (take k (recovery_writes start D)) D) new" for k
    using recover_clear(3) [of start D k] by (auto simp: agree_out_def)
  show "committed start n bs new (apply_writes (take k (recovery_writes start D)) D)"
    using assms recover_intact(1) [OF assms(1)] * recover_clear(2) by (auto simp: committed_def)
  show "agree_out start (apply_writes (recovery_writes start D) D) new"
    using assms recover_intact(3) [OF assms(1)] * [of "length (recovery_writes start D)"] by (auto simp: committed_def)
qed

text \<open>A crash before the header is written leaves the old contents, one after it the new.\<close>

lemma commit_before:
  assumes lay: "layout start n bs" and "clear start D" and "k \<le> nat n"
  shows "clear start (apply_writes (take k (commit_writes start n bs h v)) D)"
    "agree_out start (apply_writes (take k (commit_writes start n bs h v)) D) D"
proof -
  have t: "take k (commit_writes start n bs h v) = map (\<lambda>i. (log_blk start i, v (bs i))) [0..<k]"
    using assms(3) by (simp add: commit_writes_def take_map min_def)
  have 29: "i < 29" if "i < k" for i using that assms(3) layoutD(7) [OF lay, of i] by simp
  have out: "apply_writes (take k (commit_writes start n bs h v)) D blk = D blk" if "blk \<notin> log_blk start ` {..<k}" for blk
    unfolding t using that by (intro apply_writes_map_out) (auto simp: atLeast0LessThan)
  have "start \<notin> log_blk start ` {..<k}" using log_blk_neq_start 29 by (metis imageE lessThan_iff)
  then show "clear start (apply_writes (take k (commit_writes start n bs h v)) D)"
    using assms(2) by (simp add: clear_def out)
  have "blk \<notin> log_blk start ` {..<k}" if "\<not> in_log start blk" for blk
    using that in_log_blk 29 by (metis imageE lessThan_iff)
  then show "agree_out start (apply_writes (take k (commit_writes start n bs h v)) D) D"
    by (simp add: agree_out_def out)
qed

lemma header_written:
  assumes lay: "layout start n bs" and h: "length h = BSIZE"
    and old: "\<And>blk. \<not> in_log start blk \<Longrightarrow> blk \<notin> bs ` {..<nat n} \<Longrightarrow> D blk = v blk"
  shows "intact start n bs v ((apply_writes (map (\<lambda>i. (log_blk start i, v (bs i))) [0..<nat n]) D)(start := head n bs h))"
    (is "intact _ _ _ _ ?E")
proof -
  note L = layoutD [OF lay]
  note H = head_spec [where bs = bs, OF L(1) _ h]
  have lb: "?E (log_blk start i) = v (bs i)" if "i < nat n" for i
    using that log_blk_neq_start [OF L(7)] apply_writes_map_in [OF log_blk_distinct [of "nat n" start], of i] L(2) by simp
  have "?E blk = D blk" if "\<not> in_log start blk" for blk
  proof -
    have "blk \<notin> log_blk start ` {..<nat n}" using that in_log_blk L(7) by (metis imageE lessThan_iff)
    then show ?thesis using that by (auto intro!: apply_writes_map_out simp: atLeast0LessThan)
  qed
  then show ?thesis using lb H L(2) old by (simp add: intact_def)
qed

lemma commit_after:
  assumes lay: "layout start n bs" and h: "length h = BSIZE"
    and old: "\<And>blk. \<not> in_log start blk \<Longrightarrow> blk \<notin> bs ` {..<nat n} \<Longrightarrow> D blk = v blk" and k: "nat n < k"
  shows "committed start n bs v (apply_writes (take k (commit_writes start n bs h v)) D)"
proof -
  let ?E = "(apply_writes (map (\<lambda>i. (log_blk start i, v (bs i))) [0..<nat n]) D)(start := head n bs h)"
  have E: "intact start n bs v ?E" by (rule header_written [OF lay h]) (rule old)
  obtain j where j: "k = nat n + 1 + j" using k by (metis add.assoc less_iff_Suc_add Suc_eq_plus1 add.commute)
  have t: "apply_writes (take k (commit_writes start n bs h v)) D =
     apply_writes (take j (map (\<lambda>i. (bs i, v (bs i))) [0..<nat n] @ [(start, head 0 bs (head n bs h))])) ?E"
    by (simp add: commit_writes_def j)
  show ?thesis
  proof (cases "j \<le> nat n")
    case True
    then have "take j (map (\<lambda>i. (bs i, v (bs i))) [0..<nat n] @ [(start, head 0 bs (head n bs h))]) = map (\<lambda>i. (bs i, v (bs i))) [0..<j]"
      by (simp add: take_map min_def)
    then show ?thesis unfolding t using install_prefix(1) [OF lay E True] by (simp add: committed_def)
  next
    case False
    note F = install_prefix [OF lay E order_refl]
    have "length (head n bs h) = BSIZE" using head_spec(1) [of n h bs] layoutD(1,2) [OF lay] h by simp
    then have "length (head 0 bs (head n bs h)) = BSIZE" "head_n (head 0 bs (head n bs h)) = 0"
      using head_spec(1,2) [of 0 "head n bs h" bs] by simp_all
    then show ?thesis unfolding t using F(3) False by (auto simp: committed_def clear_def agree_out_def)
  qed
qed

lemma crashed_safe:
  assumes lay: "layout start n bs" and clr: "clear start D"
    and old: "\<And>blk. \<not> in_log start blk \<Longrightarrow> blk \<notin> bs ` {..<nat n} \<Longrightarrow> D blk = v blk" and h: "length h = BSIZE"
    and "crashed start D (commit_writes start n bs h v) E"
  shows "clear start E \<and> agree_out start E D \<or> committed start n bs v E"
  using assms(5)
proof induction
  case (commit k)
  then show ?case
    using commit_before [OF lay clr, of k h v] commit_after [OF lay h, of D v k] old by (cases "k \<le> nat n") auto
next
  case (again E k)
  then show ?case
    using recover_clear(2,3) [of start E k] recover_committed(1) [OF lay, of v E k] by (auto simp: agree_out_def)
qed

text \<open>What recovery makes of a disk, and the all-or-nothing property.\<close>

definition recovered :: "uint32 \<Rightarrow> blocks \<Rightarrow> blocks" where
  "recovered start D = apply_writes (recovery_writes start D) D"

lemma crashed_atomic:
  assumes lay: "layout start n bs" and clr: "clear start D"
    and old: "\<And>blk. \<not> in_log start blk \<Longrightarrow> blk \<notin> bs ` {..<nat n} \<Longrightarrow> D blk = v blk" and h: "length h = BSIZE"
    and "crashed start D (commit_writes start n bs h v) E"
  shows "agree_out start (recovered start E) D \<or> agree_out start (recovered start E) v"
  using crashed_safe [OF assms]
proof
  assume "clear start E \<and> agree_out start E D"
  then show ?thesis using recover_clear(3) [of start E "length (recovery_writes start E)"]
    by (auto simp: recovered_def agree_out_def)
next
  assume "committed start n bs v E"
  then show ?thesis using recover_committed(2) [OF lay] by (simp add: recovered_def)
qed

end
