(* ===== verification/Log_Commit.thy ===== *)
theory Log_Commit
  imports Log_Crash
begin

text \<open>
  The functions of src/kernel/log.c against the disks of \<open>Log_Crash\<close>: \<open>commit\<close> makes the writes
  \<open>commit_writes\<close>, \<open>recover_from_log\<close> the writes \<open>recovery_writes\<close>, and \<open>log_write\<close> keeps
  the invariant of a transaction that \<open>commit\<close> relies on. The cache is used through the facts of
  the interface \<open>block_cache\<close>.
\<close>

subsection \<open>The log structure and the rest of the state\<close>

lemma log_lock_simps [lock_simps]:
  "log_st (acquired lk s) = log_st s"
  "upd_log f (acquired lk s) = acquired lk (upd_log f s)"
  "unheld lk (upd_log f s) = unheld lk s"
  "quiet (upd_log f s) = quiet s"
  "curproc (upd_log f s) = curproc s"
  by (simp_all add: upd_log_def acquired_upd unheld_def quiet_def mycpu_def curproc_def)

lemma log_st_upd_log [simp]: "log_st (upd_log f s) = f (log_st s)"
  by (simp add: upd_log_def)

lemma upd_log_cache [simp]:
  "running p (upd_log f s) = running p s"
  "binv p d (upd_log f s) = binv p d s"
  "babs d (upd_log f s) = babs d s"
  "bufs (upd_log f s) = bufs s" "disk (upd_log f s) = disk s" "writes (upd_log f s) = writes s"
  "buf_of (upd_log f s) = buf_of s"
proof -
  show 1: "running p (upd_log f s) = running p s" for p by (simp add: running_def lock_simps)
  show 2: "bufs (upd_log f s) = bufs s" "disk (upd_log f s) = disk s" "writes (upd_log f s) = writes s"
    by (simp_all add: upd_log_def)
  have 3: "sleeplocks (upd_log f s) = sleeplocks s" "procs (upd_log f s) = procs s" by (simp_all add: upd_log_def)
  show 4: "buf_of (upd_log f s) = buf_of s" by (simp add: buf_of_def fun_eq_iff 2)
  show "binv p d (upd_log f s) = binv p d s" unfolding binv_def 1 2 3 ..
  show "babs d (upd_log f s) = babs d s"
    unfolding babs_def bview_def [abs_def] bpins_def [abs_def] bheld_def 2 3 4 ..
qed

lemma brest_log_st: "brest s' = brest s \<Longrightarrow> log_st s' = log_st s"
proof (cases s, cases s')
qed (simp add: brest_def)

lemma brest_more: "brest s' = brest s \<Longrightarrow> log_state.more s' = log_state.more s"
proof (cases s, cases s')
qed (simp add: brest_def)

text \<open>A cache in which no block is locked and a buffer can be had.\<close>

definition a_idle :: "acache \<Rightarrow> bool" where
  "a_idle a \<longleftrightarrow> a_held a = {} \<and> (\<forall>blk. a_pins a blk + 1 \<noteq> 0) \<and> a_room a"

definition a_copy :: "uint32 \<Rightarrow> uint32 \<Rightarrow> acache \<Rightarrow> acache" where
  "a_copy to from a = a_write to (a_put to (a_view a from) a)"

lemma a_copy_sel [simp]:
  "a_held (a_copy to from a) = a_held a" "a_pins (a_copy to from a) = a_pins a"
  "a_view (a_copy to from a) = (a_view a)(to := a_view a from)"
  "a_disk (a_copy to from a) = (a_disk a)(to := a_view a from)"
  "a_writes (a_copy to from a) = a_writes a @ [(to, a_view a from)]"
  "a_idle (a_copy to from a) = a_idle a"
  by (simp_all add: a_copy_def a_write_def a_put_def a_idle_def a_room_def)

lemma write_log_loop_sim:
  assumes "binv p d s" and "log_dev (log_st s) = d" and "log_start (log_st s) = start" and "lhb s = bs"
    and "a_idle (babs d s)" and "\<forall>i \<in> set tails. bs i \<noteq> log_blk start i \<and> a_pins (babs d s) (bs i) \<noteq> 0"
  shows "\<exists>s'. write_log_loop tails s = Ok s' \<and> binv p d s' \<and> brest s' = brest s
     \<and> babs d s' = fold (\<lambda>i. a_copy (log_blk start i) (bs i)) tails (babs d s)"
  using assms
proof (induction tails arbitrary: s)
  case (Cons i tails)
  let ?a = "babs d s"
  have idle: "a_held ?a = {}" "\<And>blk. a_pins ?a blk + 1 \<noteq> 0" "a_room ?a" using Cons.prems(5) by (simp_all add: a_idle_def)
  obtain b c s1 s2 s3 s4 s5 where *:
    "bread d (log_blk start i) s = Ok (b, s1)" "bread d (bs i) s1 = Ok (c, s2)"
    "bwrite b (bput b (b_data (bufs s2 c)) s2) = Ok s3" "brelse c s3 = Ok s4" "brelse b s4 = Ok s5"
    "binv p d s5" "brest s1 = brest s" "brest s5 = brest s" "babs d s5 = a_copy (log_blk start i) (bs i) ?a"
    using bc.copy_to_first [OF Cons.prems(1), of "log_blk start i" "bs i"] idle Cons.prems(6)
    by (auto simp: a_copy_def)
  have l: "log_st s1 = log_st s" "log_st s5 = log_st s" using *(7,8) brest_log_st by blast+
  have step: "write_log_loop (i # tails) s = write_log_loop tails s5"
    using * l Cons.prems(2-4) by (simp add: log_blk_def)
  obtain s' where "write_log_loop tails s5 = Ok s'" "binv p d s'" "brest s' = brest s5"
      "babs d s' = fold (\<lambda>i. a_copy (log_blk start i) (bs i)) tails (babs d s5)"
    using Cons.IH [OF *(6)] Cons.prems(2-6) l *(9) by auto
  then show ?case unfolding step using *(8,9) by auto
qed simp

definition a_install :: "bool \<Rightarrow> uint32 \<Rightarrow> uint32 \<Rightarrow> acache \<Rightarrow> acache" where
  "a_install u to from a = (if u then a_unpin to else id) (a_copy to from a)"

lemma a_install_sel [simp]:
  "a_held (a_install u to from a) = a_held a"
  "a_pins (a_install u to from a) = (if u then (a_pins a)(to := a_pins a to - 1) else a_pins a)"
  "a_view (a_install u to from a) = (a_view a)(to := a_view a from)"
  "a_disk (a_install u to from a) = (a_disk a)(to := a_view a from)"
  "a_writes (a_install u to from a) = a_writes a @ [(to, a_view a from)]"
  by (simp_all add: a_install_def a_unpin_def)

lemma a_install_idle:
  assumes "a_idle a" and "finite {blk. a_pins a blk \<noteq> 0}" and "u \<Longrightarrow> a_pins a to \<noteq> 0"
  shows "a_idle (a_install u to from a)" "finite {blk. a_pins (a_install u to from a) blk \<noteq> 0}"
proof -
  have sub: "{blk. a_pins (a_install u to from a) blk \<noteq> 0} \<subseteq> {blk. a_pins a blk \<noteq> 0}"
    using assms(3) by (auto split: if_splits)
  then show "finite {blk. a_pins (a_install u to from a) blk \<noteq> 0}" by (rule finite_subset) (rule assms(2))
  have "card {blk. a_pins (a_install u to from a) blk \<noteq> 0} < NBUF"
    using card_mono [OF assms(2) sub] assms(1) unfolding a_idle_def a_room_def by linarith
  then show "a_idle (a_install u to from a)"
    using assms(1,3) by (simp add: a_idle_def a_room_def)
qed

lemma install_trans_loop_sim:
  assumes "binv p d s" and "log_dev (log_st s) = d" and "log_start (log_st s) = start" and "lhb s = bs"
    and "a_idle (babs d s)" and "finite {blk. a_pins (babs d s) blk \<noteq> 0}" and "\<forall>i \<in> set tails. bs i \<noteq> log_blk start i"
    and "\<not> r \<Longrightarrow> distinct (map bs tails) \<and> (\<forall>i \<in> set tails. a_pins (babs d s) (bs i) \<noteq> 0)"
    and "r \<Longrightarrow> a_pins (babs d s) = (\<lambda>_. 0)"
  shows "\<exists>s'. install_trans_loop r tails s = Ok s' \<and> binv p d s' \<and> brest s' = brest s
     \<and> babs d s' = fold (\<lambda>i. a_install (\<not> r) (bs i) (log_blk start i)) tails (babs d s)"
  using assms
proof (induction tails arbitrary: s)
  case (Cons i tails)
  let ?a = "babs d s" and ?i = "a_install (\<not> r) (bs i) (log_blk start i)"
  have idle: "a_held ?a = {}" "\<And>blk. a_pins ?a blk + 1 \<noteq> 0" "a_room ?a" using Cons.prems(5) by (simp_all add: a_idle_def)
  have room: "a_pins ?a (bs i) \<noteq> 0 \<or> a_room (a_read (log_blk start i) ?a)"
    using Cons.prems(8,9) by (cases r) (auto simp: a_room_def a_read_def NBUF_def)
  have "\<not> r \<Longrightarrow> a_pins ?a (bs i) \<noteq> 0" using Cons.prems(8) by simp
  then obtain b c s1 s2 s3 s4 s5 s6 where *:
    "bread d (log_blk start i) s = Ok (b, s1)" "bread d (bs i) s1 = Ok (c, s2)"
    "bwrite c (bput c (b_data (bufs s2 b)) s2) = Ok s3" "(if \<not> r then bunpin c s3 else Ok s3) = Ok s4"
    "brelse b s4 = Ok s5" "brelse c s5 = Ok s6"
    "binv p d s6" "brest s1 = brest s" "brest s6 = brest s" "babs d s6 = ?i ?a"
    using bc.copy_to_second [OF Cons.prems(1), of "log_blk start i" "bs i" "\<not> r"] idle room Cons.prems(7)
    unfolding a_install_def a_copy_def by auto
  have l: "log_st s1 = log_st s" "log_st s6 = log_st s" using *(8,9) brest_log_st by blast+
  have step: "install_trans_loop r (i # tails) s = install_trans_loop r tails s6"
    using *(1-6) l Cons.prems(2-4) by (simp add: log_blk_def)
  have keep: "a_idle (?i ?a)" "finite {blk. a_pins (?i ?a) blk \<noteq> 0}"
    by (rule a_install_idle [OF Cons.prems(5,6)]; use Cons.prems(8) in simp)+
  have "\<forall>j \<in> set tails. a_pins (?i ?a) (bs j) \<noteq> 0" if "\<not> r"
    using Cons.prems(8) [OF that] by (auto simp: image_iff)
  then obtain s' where "install_trans_loop r tails s6 = Ok s'" "binv p d s'" "brest s' = brest s6"
      "babs d s' = fold (\<lambda>i. a_install (\<not> r) (bs i) (log_blk start i)) tails (babs d s6)"
    using Cons.IH [OF *(7)] keep Cons.prems(2-4,7-9) l *(10) by auto
  then show ?case unfolding step using *(9,10) by auto
qed simp

lemma write_head_sim:
  assumes "binv p d s" and "log_dev (log_st s) = d" and "log_start (log_st s) = start" and "a_idle (babs d s)"
  shows "\<exists>s'. write_head s = Ok s' \<and> binv p d s' \<and> brest s' = brest s
     \<and> babs d s' = a_write start (a_put start (head (lhn s) (lhb s) (a_view (babs d s) start)) (babs d s))"
proof -
  obtain b s1 s2 s3 where *: "bread d start s = Ok (b, s1)" "b_data (bufs s1 b) = a_view (babs d s) start"
     "bwrite b (bput b (head (lhn s) (lhb s) (a_view (babs d s) start)) s1) = Ok s2" "brelse b s2 = Ok s3" "binv p d s3"
     "babs d s3 = a_write start (a_put start (head (lhn s) (lhb s) (a_view (babs d s) start)) (babs d s))"
     "brest s1 = brest s" "brest s3 = brest s"
    using bc.write_through [OF assms(1), of start "head (lhn s) (lhb s) (a_view (babs d s) start)"] assms(4)
    by (auto simp: a_idle_def)
  have "log_st s1 = log_st s" using *(7) by (rule brest_log_st)
  then have "write_head s = Ok s3"
    using * assms(2,3) by (simp add: write_head_def head_def)
  then show ?thesis using * by blast
qed

subsection \<open>The loops as sequences of writes\<close>

lemma a_copy_install: "a_copy to from = a_install False to from"
  by (simp add: a_install_def fun_eq_iff)

lemma fold_install:
  assumes "\<forall>i \<in> set is. \<forall>j \<in> set is. g i \<noteq> f j"
  defines "ws a \<equiv> map (\<lambda>i. (f i, a_view a (g i))) is"
  shows "a_held (fold (\<lambda>i. a_install u (f i) (g i)) is a) = a_held a"
    "a_view (fold (\<lambda>i. a_install u (f i) (g i)) is a) = apply_writes (ws a) (a_view a)"
    "a_disk (fold (\<lambda>i. a_install u (f i) (g i)) is a) = apply_writes (ws a) (a_disk a)"
    "a_writes (fold (\<lambda>i. a_install u (f i) (g i)) is a) = a_writes a @ ws a"
    "\<not> u \<Longrightarrow> a_pins (fold (\<lambda>i. a_install u (f i) (g i)) is a) = a_pins a"
    "u \<Longrightarrow> distinct (map f is) \<Longrightarrow>
       a_pins (fold (\<lambda>i. a_install u (f i) (g i)) is a) blk = a_pins a blk - (if blk \<in> f ` set is then 1 else 0)"
  using assms(1) unfolding ws_def by (induction "is" arbitrary: a) (auto cong: map_cong)

text \<open>The state between the operations of a transaction, in a system where one process runs: no
  block is locked, exactly the logged blocks are pinned, each once, and the log on the disk is
  empty.\<close>

definition tx :: "nat \<Rightarrow> ('z) log_state_scheme \<Rightarrow> bool" where
  "tx p s \<longleftrightarrow> binv p (log_dev (log_st s)) s \<and> log_size (log_st s) = 30
     \<and> layout (log_start (log_st s)) (lhn s) (lhb s)
     \<and> a_held (babs (log_dev (log_st s)) s) = {}
     \<and> a_pins (babs (log_dev (log_st s)) s) = (\<lambda>blk. if blk \<in> lhb s ` {..<nat (lhn s)} then 1 else 0)
     \<and> clear (log_start (log_st s)) (disk s)"

lemma a_idle_logged:
  assumes "layout start n bs" and "a_held a = {}" and "a_pins a = (\<lambda>blk. if blk \<in> bs ` {..<nat n} then 1 else 0)"
  shows "a_idle a" "finite {blk. a_pins a blk \<noteq> 0}"
proof -
  have eq: "{blk. a_pins a blk \<noteq> 0} = bs ` {..<nat n}" by (auto simp: assms(3))
  have "card (bs ` {..<nat n}) \<le> nat n" using card_image_le [of "{..<nat n}" bs] by simp
  then show "a_idle a" using assms(2) layoutD(2) [OF assms(1)]
    unfolding a_idle_def a_room_def eq by (auto simp: assms(3) NBUF_def)
  show "finite {blk. a_pins a blk \<noteq> 0}" by (simp add: eq)
qed

lemma log_phase_sim:
  assumes inv: "binv p d s" and d: "log_dev (log_st s) = d" and st: "log_start (log_st s) = start"
    and lay: "layout start (lhn s) (lhb s)" and idle: "a_idle (babs d s)"
    and pins: "\<forall>i < nat (lhn s). a_pins (babs d s) (lhb s i) \<noteq> 0"
  defines "a \<equiv> babs d s"
  defines "W \<equiv> map (\<lambda>i. (log_blk start i, a_view a (lhb s i))) [0..<nat (lhn s)] @
      [(start, head (lhn s) (lhb s) (a_view a start))]"
  shows "\<exists>s'. rbind (write_log s) write_head = Ok s' \<and> binv p d s' \<and> brest s' = brest s
     \<and> babs d s' = a\<lparr>a_view := apply_writes W (a_view a), a_disk := apply_writes W (a_disk a), a_writes := a_writes a @ W\<rparr>"
proof -
  let ?is = "[0..<nat (lhn s)]"
  note L = layoutD [OF lay]
  have sep: "\<forall>i \<in> set ?is. \<forall>j \<in> set ?is. lhb s i \<noteq> log_blk start j" using L(6) by simp
  obtain s1 where 1: "write_log s = Ok s1" "binv p d s1" "brest s1 = brest s"
      "babs d s1 = fold (\<lambda>i. a_install False (log_blk start i) (lhb s i)) ?is a"
    using write_log_loop_sim [OF inv d st refl idle, of ?is] sep pins
    by (auto simp: a_def write_log_def a_copy_install)
  note F = fold_install [OF sep, of False a, folded 1(4)]
  have l1: "log_st s1 = log_st s" using 1(3) by (rule brest_log_st)
  have idle1: "a_idle (babs d s1)" using idle F(1,5) by (simp add: a_idle_def a_room_def a_def)
  have "start \<notin> log_blk start ` set ?is" using log_blk_neq_start L(7) by (metis atLeastLessThan_iff imageE set_upt)
  then have start1: "a_view (babs d s1) start = a_view a start" unfolding F(2) by (rule apply_writes_map_out)
  obtain s2 where 2: "write_head s1 = Ok s2" "binv p d s2" "brest s2 = brest s1"
      "babs d s2 = a_write start (a_put start (head (lhn s) (lhb s) (a_view a start)) (babs d s1))"
    using write_head_sim [OF 1(2), of start] idle1 l1 start1 d st by auto
  have "babs d s2 = a\<lparr>a_view := apply_writes W (a_view a), a_disk := apply_writes W (a_disk a), a_writes := a_writes a @ W\<rparr>"
    by (rule acache.equality) (simp_all add: 2(4) a_write_def a_put_def F W_def)
  then show ?thesis using 1 2 by auto
qed

lemma install_phase_sim:
  assumes inv: "binv p d s" and d: "log_dev (log_st s) = d" and st: "log_start (log_st s) = start"
    and lay: "layout start (lhn s) (lhb s)" and idle: "a_idle (babs d s)"
    and held: "a_held (babs d s) = {}"
    and pins: "a_pins (babs d s) = (\<lambda>blk. if \<not> r \<and> blk \<in> lhb s ` {..<nat (lhn s)} then 1 else 0)"
  defines "a \<equiv> babs d s"
  defines "W \<equiv> map (\<lambda>i. (lhb s i, a_view a (log_blk start i))) [0..<nat (lhn s)] @
      [(start, head 0 (lhb s) (a_view a start))]"
  shows "\<exists>s'. rbind (install_trans r s) (\<lambda>s. write_head (upd_log (\<lambda>l. l\<lparr>log_lh := (log_lh l)\<lparr>lh_n := 0\<rparr>\<rparr>) s)) = Ok s'
     \<and> binv p d s' \<and> log_st s' = (log_st s)\<lparr>log_lh := (log_lh (log_st s))\<lparr>lh_n := 0\<rparr>\<rparr>
     \<and> babs d s' = \<lparr>a_view = apply_writes W (a_view a), a_pins = (\<lambda>_. 0), a_held = {},
          a_disk = apply_writes W (a_disk a), a_writes = a_writes a @ W\<rparr>"
proof -
  let ?is = "[0..<nat (lhn s)]"
  note L = layoutD [OF lay]
  have sep: "\<forall>i \<in> set ?is. \<forall>j \<in> set ?is. log_blk start i \<noteq> lhb s j" using L(6) by (metis atLeastLessThan_iff set_upt)
  have fin: "finite {blk. a_pins (babs d s) blk \<noteq> 0}" by (simp add: pins)
  obtain s1 where 1: "install_trans r s = Ok s1" "binv p d s1" "brest s1 = brest s"
      "babs d s1 = fold (\<lambda>i. a_install (\<not> r) (lhb s i) (log_blk start i)) ?is a"
    using install_trans_loop_sim [OF inv d st refl idle fin, of ?is r] sep pins L(3)
    by (fastforce simp: install_trans_def a_def)
  note F = fold_install [OF sep, of "\<not> r" a, folded 1(4)]
  have pins1: "a_pins (babs d s1) = (\<lambda>_. 0)"
    using F(5) F(6) L(3) pins by (cases r) (auto simp: fun_eq_iff image_iff a_def)
  have "start \<notin> lhb s ` set ?is" using L(5) by (metis atLeastLessThan_iff imageE set_upt)
  then have start1: "a_view (babs d s1) start = a_view a start" unfolding F(2) by (rule apply_writes_map_out)
  let ?z = "upd_log (\<lambda>l. l\<lparr>log_lh := (log_lh l)\<lparr>lh_n := 0\<rparr>\<rparr>) s1"
  have l1: "log_st ?z = (log_st s)\<lparr>log_lh := (log_lh (log_st s))\<lparr>lh_n := 0\<rparr>\<rparr>"
    using brest_log_st [OF 1(3)] by simp
  have held1: "a_held (babs d s1) = {}" using F(1) held by (simp add: a_def)
  have idle1: "a_idle (babs d ?z)" using held1 pins1 by (simp add: a_idle_def a_room_def NBUF_def)
  obtain s2 where 2: "write_head ?z = Ok s2" "binv p d s2" "brest s2 = brest ?z"
      "babs d s2 = a_write start (a_put start (head 0 (lhb s) (a_view a start)) (babs d s1))"
    using write_head_sim [of p d ?z start] 1(2) idle1 brest_log_st [OF 1(3)] start1 d st by auto
  have "babs d s2 = \<lparr>a_view = apply_writes W (a_view a), a_pins = (\<lambda>_. 0), a_held = {},
          a_disk = apply_writes W (a_disk a), a_writes = a_writes a @ W\<rparr>"
    by (rule acache.equality) (simp_all add: 2(4) a_write_def a_put_def F(2-4) held1 pins1 W_def)
  then show ?thesis using 1 2 l1 brest_log_st [OF 2(3)] by auto
qed

lemma commit_sim:
  assumes tx: "tx p s" and pos: "0 < lhn s"
  defines "d \<equiv> log_dev (log_st s)" and "a \<equiv> babs (log_dev (log_st s)) s"
  defines "W \<equiv> commit_writes (log_start (log_st s)) (lhn s) (lhb s) (a_view a (log_start (log_st s))) (a_view a)"
  shows "\<exists>s'. commit s = Ok s' \<and> binv p d s'
     \<and> log_st s' = (log_st s)\<lparr>log_lh := (log_lh (log_st s))\<lparr>lh_n := 0\<rparr>\<rparr>
     \<and> babs d s' = \<lparr>a_view = apply_writes W (a_view a), a_pins = (\<lambda>_. 0), a_held = {},
          a_disk = apply_writes W (a_disk a), a_writes = a_writes a @ W\<rparr>"
proof -
  define start where "start = log_start (log_st s)"
  have T: "binv p d s" "layout start (lhn s) (lhb s)" "a_held a = {}"
      "a_pins a = (\<lambda>blk. if blk \<in> lhb s ` {..<nat (lhn s)} then 1 else 0)"
    using tx by (simp_all add: tx_def d_def a_def start_def)
  note L = layoutD [OF T(2)] and idle = a_idle_logged(1) [OF T(2-4)]
  define W1 where "W1 = map (\<lambda>i. (log_blk start i, a_view a (lhb s i))) [0..<nat (lhn s)] @ [(start, head (lhn s) (lhb s) (a_view a start))]"
  obtain s2 where 2: "rbind (write_log s) write_head = Ok s2" "binv p d s2" "brest s2 = brest s"
      "babs d s2 = a\<lparr>a_view := apply_writes W1 (a_view a), a_disk := apply_writes W1 (a_disk a), a_writes := a_writes a @ W1\<rparr>"
    using log_phase_sim [OF T(1) d_def [THEN meta_eq_to_obj_eq, symmetric] start_def [symmetric] T(2)] idle T(4)
    by (auto simp: a_def d_def W1_def)
  have l2: "log_st s2 = log_st s" using 2(3) by (rule brest_log_st)
  have view2: "a_view (babs d s2) start = head (lhn s) (lhb s) (a_view a start)"
      "\<And>i. i < nat (lhn s) \<Longrightarrow> a_view (babs d s2) (log_blk start i) = a_view a (lhb s i)"
    using log_blk_neq_start [OF L(7)] apply_writes_map_in [OF log_blk_distinct [of "nat (lhn s)" start]] L(2)
    by (simp_all add: 2(4) W1_def)
  define W2 where "W2 = map (\<lambda>i. (lhb s i, a_view a (lhb s i))) [0..<nat (lhn s)] @ [(start, head 0 (lhb s) (head (lhn s) (lhb s) (a_view a start)))]"
  have W: "W = W1 @ W2" by (simp add: W_def W1_def W2_def commit_writes_def start_def)
  have ws: "map (\<lambda>i. (lhb s i, a_view (babs d s2) (log_blk start i))) [0..<nat (lhn s)] @
      [(start, head 0 (lhb s) (a_view (babs d s2) start))] = W2" by (simp add: W2_def view2)
  have "a_idle (babs d s2)" "a_held (babs d s2) = {}" "a_pins (babs d s2) = (\<lambda>blk. if \<not> False \<and> blk \<in> lhb s ` {..<nat (lhn s)} then 1 else 0)"
    using idle T(3,4) by (simp_all add: 2(4) a_idle_def a_room_def)
  from install_phase_sim [OF 2(2), where start = start and r = False, unfolded l2 ws, OF _ _ T(2) this]
  obtain s3 where 3: "rbind (install_trans False s2) (\<lambda>s. write_head (upd_log (\<lambda>l. l\<lparr>log_lh := (log_lh l)\<lparr>lh_n := 0\<rparr>\<rparr>) s)) = Ok s3"
     "binv p d s3" "log_st s3 = (log_st s)\<lparr>log_lh := (log_lh (log_st s))\<lparr>lh_n := 0\<rparr>\<rparr>"
     "babs d s3 = \<lparr>a_view = apply_writes W (a_view a), a_pins = (\<lambda>_. 0), a_held = {},
          a_disk = apply_writes W (a_disk a), a_writes = a_writes a @ W\<rparr>"
    by (auto simp: d_def start_def 2(4) [unfolded d_def] W)
  have "commit s = Ok s3" using 2(1) 3(1) pos unfolding commit_def by (auto simp: rbind_Ok_iff)
  then show ?thesis using 3 by blast
qed

subsection \<open>Recovery\<close>

lemma copy_head_in_spec: "copy_head_in lh is bs i = (if i \<in> set is then head_block lh i else bs i)"
  by (induction "is" arbitrary: bs) (auto simp: head_block_def)

text \<open>A cache nobody has used: what \<open>binit\<close> leaves.\<close>

definition fresh :: "nat \<Rightarrow> ('z) log_state_scheme \<Rightarrow> bool" where
  "fresh p s \<longleftrightarrow> binv p (log_dev (log_st s)) s \<and> a_held (babs (log_dev (log_st s)) s) = {}
     \<and> a_pins (babs (log_dev (log_st s)) s) = (\<lambda>_. 0)"

lemma fresh_view: "fresh p s \<Longrightarrow> a_view (babs (log_dev (log_st s)) s) = disk s"
  using bc.clean [of p "log_dev (log_st s)" s] by (auto simp: fresh_def babs_def)

lemma logheader_all [simp]: "(l :: logheader)\<lparr>lh_n := n, lh_block := bs\<rparr> = \<lparr>lh_n = n, lh_block = bs\<rparr>"
  by (cases l) simp

lemma read_head_sim:
  assumes fr: "fresh p s"
  defines "d \<equiv> log_dev (log_st s)" and "h \<equiv> disk s (log_start (log_st s))"
  shows "\<exists>s' bs. read_head s = Ok s' \<and> binv p d s' \<and> babs d s' = babs d s
     \<and> log_st s' = (log_st s)\<lparr>log_lh := \<lparr>lh_n = head_n h, lh_block = bs\<rparr>\<rparr> \<and> (\<forall>i < nat (head_n h). bs i = head_block h i)"
proof -
  let ?st = "log_start (log_st s)"
  define bs where "bs = copy_head_in h [0..<nat (head_n h)] (lhb s)"
  define f :: "log \<Rightarrow> log" where "f = (\<lambda>l. l\<lparr>log_lh := \<lparr>lh_n = head_n h, lh_block = bs\<rparr>\<rparr>)"
  have T: "binv p d s" "a_held (babs d s) = {}" "a_pins (babs d s) = (\<lambda>_. 0)" using fr by (simp_all add: fresh_def d_def)
  have room: "a_room (babs d s)" using T(3) by (simp add: a_room_def NBUF_def)
  obtain b s1 where 1: "bread d ?st s = Ok (b, s1)" "binv p d s1" "babs d s1 = a_read ?st (babs d s)"
      "brest s1 = brest s" "buf_of s1 d ?st = Some b"
    using bc.rd_ok [OF T(1), of ?st] T room by auto
  have l1: "log_st s1 = log_st s" using 1(4) by (rule brest_log_st)
  have held: "?st \<in> a_held (babs d s1)" by (simp add: 1(3) a_read_def)
  have dat: "b_data (bufs s1 b) = h"
    using bc.get_view [OF 1(2,5) held] fresh_view [OF fr, folded d_def] by (simp add: 1(3) a_read_def h_def)
  have eq: "read_head s = brelse b (upd_log f s1)"
    using 1(1) l1 by (simp add: read_head_def d_def [symmetric] dat head_n_def f_def bs_def)
       (simp add: upd_log_def)
  obtain s2 where 2: "brelse b (upd_log f s1) = Ok s2" "binv p d s2" "babs d s2 = a_release ?st (babs d s1)"
      "brest s2 = brest (upd_log f s1)"
    using bc.rl_ok [of p d "upd_log f s1" ?st b] 1 held bc.clean [OF T(1), of ?st] T(3)
    by (auto simp: a_read_def)
  have "babs d s2 = babs d s" using T(2) by (simp add: 2(3) 1(3) a_release_def a_read_def)
  then show ?thesis
    using eq 2 brest_log_st [OF 2(4)] l1 copy_head_in_spec [of h "[0..<nat (head_n h)]" "lhb s"]
    by (auto simp: f_def bs_def)
qed

lemma layout_cong:
  assumes "\<forall>i < nat n. bs i = bs' i"
  shows "layout start n bs = layout start n bs'"
proof -
  have m: "map bs [0..<nat n] = map bs' [0..<nat n]" using assms by simp
  show ?thesis unfolding layout_def m using assms by auto
qed

lemma recover_sim:
  assumes fr: "fresh p s" and st: "log_start (log_st s) = start" and len: "length (disk s start) = BSIZE"
    and lay: "layout start (head_n (disk s start)) (head_block (disk s start))"
  shows "\<exists>s'. recover_from_log s = Ok s' \<and> fresh p s' \<and> lhn s' = 0
     \<and> log_start (log_st s') = start \<and> log_size (log_st s') = log_size (log_st s) \<and> log_dev (log_st s') = log_dev (log_st s)
     \<and> writes s' = writes s @ recovery_writes start (disk s) \<and> disk s' = recovered start (disk s)"
proof -
  define d where "d = log_dev (log_st s)"
  let ?h = "disk s start"
  obtain s1 bs where 1: "read_head s = Ok s1" "binv p d s1" "babs d s1 = babs d s"
      "log_st s1 = (log_st s)\<lparr>log_lh := \<lparr>lh_n = head_n ?h, lh_block = bs\<rparr>\<rparr>" "\<forall>i < nat (head_n ?h). bs i = head_block ?h i"
    using read_head_sim [OF fr] unfolding d_def st by auto
  have T: "a_held (babs d s) = {}" "a_pins (babs d s) = (\<lambda>_. 0)" "a_view (babs d s) = disk s" "a_disk (babs d s) = disk s"
      "a_writes (babs d s) = writes s"
    using fr fresh_view [OF fr] by (simp_all add: fresh_def d_def babs_def)
  have lay1: "layout start (lhn s1) (lhb s1)" using lay layout_cong [OF 1(5)] by (simp add: 1(4))
  have ws: "map (\<lambda>i. (lhb s1 i, a_view (babs d s1) (log_blk start i))) [0..<nat (lhn s1)] @
      [(start, head 0 (lhb s1) (a_view (babs d s1) start))] = recovery_writes start (disk s)"
    using 1(5) by (simp add: recovery_writes_def 1(3,4) T(3) head_def)
  have "a_idle (babs d s1)" "a_held (babs d s1) = {}"
      "a_pins (babs d s1) = (\<lambda>blk. if \<not> True \<and> blk \<in> lhb s1 ` {..<nat (lhn s1)} then 1 else 0)"
    using T by (simp_all add: 1(3) a_idle_def a_room_def NBUF_def)
  from install_phase_sim [OF 1(2), where start = start and r = True, unfolded ws, OF _ _ lay1 this]
  obtain s2 where 2: "rbind (install_trans True s1) (\<lambda>s. write_head (upd_log (\<lambda>l. l\<lparr>log_lh := (log_lh l)\<lparr>lh_n := 0\<rparr>\<rparr>) s)) = Ok s2"
      "binv p d s2" "log_st s2 = (log_st s1)\<lparr>log_lh := (log_lh (log_st s1))\<lparr>lh_n := 0\<rparr>\<rparr>"
      "babs d s2 = \<lparr>a_view = recovered start (disk s), a_pins = (\<lambda>_. 0), a_held = {},
          a_disk = recovered start (disk s), a_writes = writes s @ recovery_writes start (disk s)\<rparr>"
    using st by (auto simp: 1(3,4) T recovered_def d_def [symmetric])
  have "recover_from_log s = Ok s2" using 1(1) 2(1) by (simp add: recover_from_log_def)
  moreover have "disk s2 = recovered start (disk s)" "writes s2 = writes s @ recovery_writes start (disk s)"
    using arg_cong [OF 2(4), of a_disk] arg_cong [OF 2(4), of a_writes] by (simp_all add: babs_def)
  moreover have "log_dev (log_st s2) = d" by (simp add: 2(3) 1(4) d_def)
  ultimately show ?thesis using 2 st by (auto simp: fresh_def 1(4) d_def)
qed

subsection \<open>Transactions\<close>

text \<open>The sequence \<open>bp = bread(dev, blk); modify bp->data; log_write(bp); brelse(bp)\<close> that every
  part of the file system uses to change a block.\<close>

definition tx_update :: "uint32 \<Rightarrow> (byte list \<Rightarrow> byte list) \<Rightarrow> ('z) log_state_scheme \<Rightarrow> ('z log_state_scheme, 'z log_state_scheme) res" where
  "tx_update blk f s =
     rbind (bread (log_dev (log_st s)) blk s) (\<lambda>(b, s).
     rbind (log_write b (bput b (f (b_data (bufs s b))) s)) (\<lambda>s. brelse b s))"

lemma bpin_eq:
  assumes "quiet s" and "unheld BcacheLock s"
  shows "bpin b s = Ok (upd_buf b (\<lambda>x. x\<lparr>b_refcnt := b_refcnt x + 1\<rparr>) s)"
  using assms by (simp add: bpin_def lock_simps)

lemma upd_log_upd_buf: "upd_log f (upd_buf b g s) = upd_buf b g (upd_log f s)"
  by (cases s) (simp add: upd_log_def upd_buf_def)

lemma absorb_index_cases:
  obtains (old) i where "i < nat n" "bs i = blk" "absorb_index n bs blk = i"
  | (new) "blk \<notin> bs ` {..<nat n}" "absorb_index n bs blk = nat n"
proof (cases "find (\<lambda>i. bs i = blk) [0..<nat n]")
  case None
  then have "absorb_index n bs blk = nat n" "blk \<notin> bs ` {..<nat n}"
    by (simp add: absorb_index_def) (use None in \<open>auto simp: find_None_iff\<close>)
  then show ?thesis using new by blast
next
  case (Some i)
  then show ?thesis using old [of i] find_SomeD [OF Some] by (simp add: absorb_index_def)
qed

lemma upd_log_id: "f (log_st s) = log_st s \<Longrightarrow> upd_log f s = s"
  by (cases s) (simp add: upd_log_def)

lemma log_write_old:
  assumes "running p s" and "lhn s < 29" and "log_size (log_st s) = 30" and "1 \<le> outstanding (log_st s)"
    and "i < nat (lhn s)" "lhb s i = b_blockno (bufs s b)" "absorb_index (lhn s) (lhb s) (b_blockno (bufs s b)) = i"
  shows "log_write b s = Ok s"
proof -
  have "(lhb s)(i := b_blockno (bufs s b)) = lhb s" using assms(6) by auto
  then have "upd_log (\<lambda>l. l\<lparr>log_lh := (log_lh l)\<lparr>lh_block := (lh_block (log_lh l))(i := b_blockno (bufs s b))\<rparr>\<rparr>) s = s"
    by (intro upd_log_id) (cases "log_st s"; cases "log_lh (log_st s)"; simp)
  moreover have "int i \<noteq> lhn s" using assms(5) by linarith
  ultimately show ?thesis
    using assms runningD [OF assms(1)] by (simp add: log_write_def lock_simps Let_def)
qed

lemma log_write_new:
  assumes "running p s" and "0 \<le> lhn s" and "lhn s < 29" and "log_size (log_st s) = 30" and "1 \<le> outstanding (log_st s)"
    and "absorb_index (lhn s) (lhb s) (b_blockno (bufs s b)) = nat (lhn s)"
  shows "log_write b s = Ok (upd_log (\<lambda>l. l\<lparr>log_lh :=
      \<lparr>lh_n = lhn s + 1, lh_block = (lhb s)(nat (lhn s) := b_blockno (bufs s b))\<rparr>\<rparr>) (upd_buf b (\<lambda>x. x\<lparr>b_refcnt := b_refcnt x + 1\<rparr>) s))"
  using assms runningD [OF assms(1)]
  by (simp add: log_write_def lock_simps Let_def bpin_eq) (simp add: upd_log_def upd_buf_def)

text \<open>Between \<open>bread\<close> and \<open>brelse\<close> of a transaction the caller holds one block.\<close>

lemma log_write_sim:
  assumes tx: "tx p s" and out: "\<not> in_log (log_start (log_st s)) blk" and n: "lhn s < 29" and op: "1 \<le> outstanding (log_st s)"
    and inv: "binv p d t" and d: "d = log_dev (log_st s)" and rest: "brest t = brest s"
    and abs: "babs d t = a_put blk x (a_read blk (babs d s))" and of: "buf_of t d blk = Some b"
  shows "\<exists>t'. log_write b t = Ok t' \<and> binv p d t' \<and> buf_of t' d = buf_of t d
     \<and> babs d t' = (if blk \<in> lhb s ` {..<nat (lhn s)} then id else a_pin blk) (babs d t)
     \<and> layout (log_start (log_st s)) (lhn t') (lhb t')
     \<and> lhb t' ` {..<nat (lhn t')} = insert blk (lhb s ` {..<nat (lhn s)})
     \<and> lhn t' = (if blk \<in> lhb s ` {..<nat (lhn s)} then lhn s else lhn s + 1)
     \<and> (log_st t')\<lparr>log_lh := log_lh (log_st s)\<rparr> = log_st s \<and> log_state.more t' = log_state.more t"
proof -
  have lt: "log_st t = log_st s" using rest by (rule brest_log_st)
  have T: "layout (log_start (log_st s)) (lhn s) (lhb s)" "log_size (log_st s) = 30"
      "a_pins (babs d s) blk = (if blk \<in> lhb s ` {..<nat (lhn s)} then 1 else 0)"
    using tx by (simp_all add: tx_def d)
  note L = layoutD [OF T(1)]
  have held: "blk \<in> a_held (babs d t)" by (simp add: abs a_put_def a_read_def)
  have bn: "b_blockno (bufs t b) = blk" using buf_of_iff [OF inv, of blk b] of by simp
  note run = binvD(1) [OF inv]
  show ?thesis
  proof (cases rule: absorb_index_cases [of "lhn s" "lhb s" blk])
    case (old i)
    have "log_write b t = Ok t"
      using log_write_old [OF run, of i b] n T(2) op old bn by (simp add: lt)
    moreover have "blk \<in> lhb s ` {..<nat (lhn s)}" using old by auto
    ultimately show ?thesis using inv T(1) by (auto simp: lt insert_absorb)
  next
    case new
    let ?t = "upd_buf b (\<lambda>x. x\<lparr>b_refcnt := b_refcnt x + 1\<rparr>) t"
    let ?bs = "(lhb s)(nat (lhn s) := blk)"
    have pins: "a_pins (babs d t) blk + 1 \<noteq> 0" using T(3) new by (simp add: abs a_put_def a_read_def)
    have "bpin b t = Ok ?t" using runningD [OF run] by (simp add: bpin_eq)
    then have pin: "binv p d ?t" "babs d ?t = a_pin blk (babs d t)" "buf_of ?t d = buf_of t d"
      using bc.pin_ok [OF inv of held pins] by auto
    have lw: "log_write b t = Ok (upd_log (\<lambda>l. l\<lparr>log_lh := \<lparr>lh_n = lhn s + 1, lh_block = ?bs\<rparr>\<rparr>) ?t)"
      using log_write_new [OF run _ _ _ _ , of b] n T(2) op new bn L(1) by (simp add: lt)
    have "map ?bs [0..<Suc (nat (lhn s))] = map (lhb s) [0..<nat (lhn s)] @ [blk]" by simp
    then have "distinct (map ?bs [0..<nat (lhn s + 1)])" using L(1,3) new(1)
      by (simp add: Suc_nat_eq_nat_zadd1 [symmetric] add.commute atLeast0LessThan)
    moreover have "?bs ` {..<nat (lhn s + 1)} = insert blk (lhb s ` {..<nat (lhn s)})"
      using L(1) by (auto simp: nat_add_distrib lessThan_Suc)
    ultimately show ?thesis
      unfolding lw using pin new out L(1,4) n
      by (auto simp: lt upd_buf_def layout_def less_Suc_eq nat_add_distrib) (simp add: upd_log_def)
  qed
qed

lemma tx_update_sim:
  assumes tx: "tx p s" and out: "\<not> in_log (log_start (log_st s)) blk" and n: "lhn s < 29" and op: "1 \<le> outstanding (log_st s)"
  defines "d \<equiv> log_dev (log_st s)"
  shows "\<exists>s'. tx_update blk f s = Ok s' \<and> tx p s' \<and> (log_st s')\<lparr>log_lh := log_lh (log_st s)\<rparr> = log_st s
     \<and> lhb s' ` {..<nat (lhn s')} = insert blk (lhb s ` {..<nat (lhn s)})
     \<and> lhn s' = (if blk \<in> lhb s ` {..<nat (lhn s)} then lhn s else lhn s + 1)
     \<and> bview s' d = (bview s d)(blk := f (bview s d blk)) \<and> disk s' = disk s \<and> writes s' = writes s
     \<and> log_state.more s' = log_state.more s"
proof -
  define L where "L = lhb s ` {..<nat (lhn s)}"
  have T: "binv p d s" "layout (log_start (log_st s)) (lhn s) (lhb s)" "a_held (babs d s) = {}"
      "a_pins (babs d s) = (\<lambda>blk. if blk \<in> L then 1 else 0)" "clear (log_start (log_st s)) (disk s)" "log_size (log_st s) = 30"
    using tx by (simp_all add: tx_def d_def L_def)
  have idle: "a_idle (babs d s)" using a_idle_logged(1) [OF T(2,3)] T(4) by (simp add: L_def)
  obtain b s1 where 1: "bread d blk s = Ok (b, s1)" "binv p d s1" "babs d s1 = a_read blk (babs d s)"
      "brest s1 = brest s" "buf_of s1 d blk = Some b"
    using bc.rd_ok [OF T(1), of blk] idle T(3) by (auto simp: a_idle_def)
  have held: "blk \<in> a_held (babs d s1)" by (simp add: 1(3) a_read_def)
  have v: "a_view (babs d s) = bview s d" "a_disk (babs d s) = disk s" "a_writes (babs d s) = writes s"
    by (simp_all add: babs_def)
  have dat: "b_data (bufs s1 b) = bview s d blk"
    using bc.get_view [OF 1(2,5) held] by (simp add: 1(3) a_read_def v)
  let ?x = "f (bview s d blk)"
  let ?p = "bput b ?x s1"
  have p: "binv p d ?p" "babs d ?p = a_put blk ?x (a_read blk (babs d s))" "brest ?p = brest s" "buf_of ?p d blk = Some b"
    using bc.put_ok [OF 1(2,5) held, of ?x] 1(3-5) by auto
  obtain s2 where 2: "log_write b ?p = Ok s2" "binv p d s2" "buf_of s2 d = buf_of ?p d"
     "babs d s2 = (if blk \<in> L then id else a_pin blk) (babs d ?p)"
     "layout (log_start (log_st s)) (lhn s2) (lhb s2)" "lhb s2 ` {..<nat (lhn s2)} = insert blk L"
     "lhn s2 = (if blk \<in> L then lhn s else lhn s + 1)" "(log_st s2)\<lparr>log_lh := log_lh (log_st s)\<rparr> = log_st s"
     "log_state.more s2 = log_state.more ?p"
    using log_write_sim [OF tx out n op p(1) d_def [THEN meta_eq_to_obj_eq] p(3,2,4)] unfolding L_def by blast
  note defs = a_put_def a_read_def a_pin_def a_release_def
  have pins2: "a_pins (babs d s2) blk = 2" and held2: "blk \<in> a_held (babs d s2)"
    using T(4) by (auto simp: 2(4) p(2) defs)
  then obtain s3 where 3: "brelse b s2 = Ok s3" "binv p d s3" "babs d s3 = a_release blk (babs d s2)" "brest s3 = brest s2"
    using bc.rl_ok [OF 2(2), of blk b] p(4) 2(3) by auto
  have l3: "log_st s3 = log_st s2" using 3(4) by (rule brest_log_st)
  have eq: "tx_update blk f s = Ok s3" using 1(1) 2(1) 3(1) by (simp add: tx_update_def d_def [symmetric] dat)
  have abs3: "babs d s3 = \<lparr>a_view = (bview s d)(blk := ?x), a_pins = (\<lambda>y. if y \<in> insert blk L then 1 else 0),
      a_held = {}, a_disk = disk s, a_writes = writes s\<rparr>"
    by (rule acache.equality) (use T(3,4) in \<open>auto simp: 3(3) 2(4) p(2) defs fun_eq_iff v\<close>)
  have same: "log_dev (log_st s2) = d" "log_start (log_st s2) = log_start (log_st s)" "log_size (log_st s2) = 30"
    using arg_cong [OF 2(8), of log_dev] arg_cong [OF 2(8), of log_start] arg_cong [OF 2(8), of log_size] T(6)
    by (simp_all add: d_def)
  have D: "disk s3 = disk s" "writes s3 = writes s" "bview s3 d = (bview s d)(blk := ?x)"
    using arg_cong [OF abs3, of a_disk] arg_cong [OF abs3, of a_writes] arg_cong [OF abs3, of a_view] by (simp_all add: babs_def)
  have "tx p s3" unfolding tx_def l3 same using 3(2) 2(5,6) abs3 T(5) D(1) by (simp add: same)
  moreover have "log_state.more s3 = log_state.more s"
    using brest_more [OF 3(4)] 2(9) brest_more [OF p(3)] by simp
  ultimately show ?thesis using eq 2(6-8) l3 D by (auto simp: L_def)
qed

lemma tx_upd_log:
  assumes "\<And>l. log_dev (f l) = log_dev l" "\<And>l. log_start (f l) = log_start l" "\<And>l. log_size (f l) = log_size l"
    "\<And>l. log_lh (f l) = log_lh l"
  shows "tx p (upd_log f s) = tx p s"
  by (simp add: tx_def assms)

lemma woken_cache [simp]:
  "binv p d (woken_on ch ps s) = binv p d s" "babs d (woken_on ch ps s) = babs d s"
  "disk (woken_on ch ps s) = disk s" "writes (woken_on ch ps s) = writes s"
proof -
  have 1: "running p (woken_on ch ps s) = running p s" by simp
  show 2: "disk (woken_on ch ps s) = disk s" "writes (woken_on ch ps s) = writes s" by (simp_all add: woken_on_def)
  have 3: "sleeplocks (woken_on ch ps s) = sleeplocks s" "p_pid (procs (woken_on ch ps s) p) = p_pid (procs s p)"
      "bufs (woken_on ch ps s) = bufs s"
    by (simp_all add: woken_on_def)
  have 4: "buf_of (woken_on ch ps s) = buf_of s" by (simp add: buf_of_def fun_eq_iff 3)
  show "binv p d (woken_on ch ps s) = binv p d s" unfolding binv_def 1 2 3 ..
  show "babs d (woken_on ch ps s) = babs d s"
    unfolding babs_def bview_def [abs_def] bpins_def [abs_def] bheld_def 2 3 4 ..
qed

lemma log_st_woken [simp]: "log_st (woken_on ch ps s) = log_st s"
  by (simp add: woken_on_def)

definition log_idle :: "log \<Rightarrow> log" where
  "log_idle l = l\<lparr>outstanding := 0, committing := 0, log_lh := (log_lh l)\<lparr>lh_n := 0\<rparr>\<rparr>"

lemma commit_nothing: "lhn s = 0 \<Longrightarrow> commit s = Ok s"
  by (simp add: commit_def)

lemma end_op_last:
  assumes run: "running p s" and "outstanding (log_st s) = 1" and "committing (log_st s) = 0"
  shows "end_op s = rbind (commit (upd_log (\<lambda>l. l\<lparr>outstanding := 0, committing := 1\<rparr>) s)) (\<lambda>s.
     rbind (acquire LogLock s) (\<lambda>s. rbind (wakeup LogChan (upd_log (\<lambda>l. l\<lparr>committing := 0\<rparr>) s)) (\<lambda>s. release LogLock s)))"
  using assms(2,3) runningD [OF run]
  by (simp add: end_op_def lock_simps) (simp add: upd_log_def)

lemma end_op_tail:
  assumes "running p s"
  shows "rbind (acquire LogLock s) (\<lambda>s. rbind (wakeup LogChan (upd_log (\<lambda>l. l\<lparr>committing := 0\<rparr>) s)) (\<lambda>s. release LogLock s)) =
     Ok (woken LogChan (upd_log (\<lambda>l. l\<lparr>committing := 0\<rparr>) s))"
  using runningD [OF assms] by (simp add: lock_simps wakeup_eq)

lemma crashed_header:
  assumes lay: "layout start n bs" and clr: "clear start D"
    and old: "\<And>blk. \<not> in_log start blk \<Longrightarrow> blk \<notin> bs ` {..<nat n} \<Longrightarrow> D blk = v blk" and h: "length h = BSIZE"
    and cr: "crashed start D (commit_writes start n bs h v) E"
  shows "length (E start) = BSIZE" "layout start (head_n (E start)) (head_block (E start))"
proof -
  have *: "clear start E \<or> intact start n bs v E"
    using crashed_safe [OF lay clr _ h cr] old by (auto simp: committed_def)
  then show "length (E start) = BSIZE" by (auto simp: clear_def intact_def)
  from * show "layout start (head_n (E start)) (head_block (E start))"
  proof
    assume "clear start E"
    then show ?thesis by (simp add: clear_def layout_def)
  next
    assume "intact start n bs v E"
    then have "head_n (E start) = n" "\<forall>i < nat n. bs i = head_block (E start) i" by (simp_all add: intact_def)
    then show ?thesis using layout_cong lay by metis
  qed
qed

lemma tx_clean:
  assumes "tx p s" and "blk \<notin> lhb s ` {..<nat (lhn s)}"
  shows "bview s (log_dev (log_st s)) blk = disk s blk"
  using assms bc.clean [of p "log_dev (log_st s)" s blk] by (simp add: tx_def) (simp add: babs_def)

lemma tx_crash:
  assumes tx: "tx p s" and cr: "crashed start (disk s) (commit_writes start (lhn s) (lhb s) (disk s start) v) E"
    and st: "start = log_start (log_st s)" and v: "v = bview s (log_dev (log_st s))"
    and fr: "fresh q t" "log_start (log_st t) = start" "disk t = E"
  shows "\<exists>t'. recover_from_log t = Ok t' \<and> fresh q t' \<and> lhn t' = 0 \<and> writes t' = writes t @ recovery_writes start E
     \<and> (agree_out start (disk t') (disk s) \<or> agree_out start (disk t') v)"
proof -
  have lay: "layout start (lhn s) (lhb s)" and clr: "clear start (disk s)" using tx by (simp_all add: tx_def st)
  have old: "disk s blk = v blk" if "blk \<notin> lhb s ` {..<nat (lhn s)}" for blk using tx_clean [OF tx that] v by simp
  have h: "length (disk s start) = BSIZE" using clr by (simp add: clear_def)
  note H = crashed_header [OF lay clr _ h cr]
  have len: "length (disk t start) = BSIZE" and lay': "layout start (head_n (disk t start)) (head_block (disk t start))"
    using H old by (simp_all add: fr(3))
  obtain t' where t': "recover_from_log t = Ok t'" "fresh q t'" "lhn t' = 0"
      "writes t' = writes t @ recovery_writes start (disk t)" "disk t' = recovered start (disk t)"
    using recover_sim [OF fr(1,2) len lay'] by blast
  have "agree_out start (recovered start E) (disk s) \<or> agree_out start (recovered start E) v"
    using crashed_atomic [OF lay clr _ h cr] old by simp
  then show ?thesis using t' fr(3) by auto
qed

lemma end_op_commit:
  assumes tx: "tx p s" and op: "outstanding (log_st s) = 1" "committing (log_st s) = 0" and pos: "0 < lhn s"
  defines "start \<equiv> log_start (log_st s)" and "v \<equiv> bview s (log_dev (log_st s))"
  defines "W \<equiv> commit_writes start (lhn s) (lhb s) (disk s start) v"
  shows "\<exists>s'. end_op s = Ok s' \<and> tx p s' \<and> log_st s' = log_idle (log_st s)
     \<and> writes s' = writes s @ W \<and> disk s' = apply_writes W (disk s)"
proof -
  define d where "d = log_dev (log_st s)"
  have T: "running p s" "log_size (log_st s) = 30" "layout start (lhn s) (lhb s)" "clear start (disk s)"
    using tx binvD(1) by (auto simp: tx_def start_def)
  let ?s = "upd_log (\<lambda>l. l\<lparr>outstanding := 0, committing := 1\<rparr>) s"
  have tx1: "tx p ?s" using tx by (subst tx_upd_log) simp_all
  have "start \<notin> lhb s ` {..<nat (lhn s)}" using layoutD(5) [OF T(3)] by (metis imageE lessThan_iff)
  then have h: "v start = disk s start" using tx_clean [OF tx] by (simp add: v_def)
  have va: "a_view (babs d s) = v" "a_disk (babs d s) = disk s" "a_writes (babs d s) = writes s"
    by (simp_all add: babs_def v_def d_def)
  obtain s1 where 1: "commit ?s = Ok s1" "binv p d s1"
      "log_st s1 = (log_st ?s)\<lparr>log_lh := (log_lh (log_st s))\<lparr>lh_n := 0\<rparr>\<rparr>"
      "babs d s1 = \<lparr>a_view = apply_writes W v, a_pins = (\<lambda>_. 0), a_held = {},
          a_disk = apply_writes W (disk s), a_writes = writes s @ W\<rparr>"
    using commit_sim [OF tx1] pos va h by (auto simp: d_def [symmetric] start_def [symmetric] W_def)
  let ?t = "woken LogChan (upd_log (\<lambda>l. l\<lparr>committing := 0\<rparr>) s1)"
  have eq: "end_op s = Ok ?t"
    using end_op_last [OF T(1) op] 1(1) end_op_tail [OF binvD(1) [OF 1(2)]] by simp
  have D: "disk s1 = apply_writes W (disk s)" "writes s1 = writes s @ W"
    using arg_cong [OF 1(4), of a_disk] arg_cong [OF 1(4), of a_writes] by (simp_all add: babs_def)
  have "length (head 0 (lhb s) (head (lhn s) (lhb s) (disk s start))) = BSIZE \<and> head_n (head 0 (lhb s) (head (lhn s) (lhb s) (disk s start))) = 0"
    using head_spec(1,2) [of 0 "head (lhn s) (lhb s) (disk s start)" "lhb s"] head_spec(1) [of "lhn s" "disk s start" "lhb s"]
      layoutD(1,2) [OF T(3)] T(4) by (simp add: clear_def)
  then have "clear start (disk s1)" by (simp add: D clear_def W_def commit_writes_def)
  moreover have l: "log_st ?t = log_idle (log_st s)" by (simp add: 1(3) log_idle_def)
  ultimately have "tx p ?t"
    unfolding tx_def l using 1(2,4) T(2) D by (simp add: log_idle_def d_def [symmetric] start_def [symmetric] layout_def)
  then show ?thesis using eq D l by auto
qed

section \<open>Properties\<close>

text \<open>A file system whose log starts at block 2, with the log empty and one operation under way.\<close>

definition demo_log :: log_state where
  "demo_log = bio_state.extend demo_bio \<lparr>log_st = \<lparr>log_start = 2, log_size = 30, outstanding = 1, committing = 0,
     log_dev = 1, log_lh = \<lparr>lh_n = 0, lh_block = (\<lambda>_. 0)\<rparr>\<rparr>\<rparr>"

lemma demo_log_sel:
  "running 0 demo_log" "bufs demo_log = bufs demo_bio" "disk demo_log = disk demo_bio"
  "log_st demo_log = \<lparr>log_start = 2, log_size = 30, outstanding = 1, committing = 0,
     log_dev = 1, log_lh = \<lparr>lh_n = 0, lh_block = (\<lambda>_. 0)\<rparr>\<rparr>"
  using demo_bio_running
  by (simp_all add: demo_log_def bio_state.defs running_def quiet_def unheld_def curproc_def mycpu_def)

lemmas demo_log_cache = binit_inv [OF demo_log_sel(1), of 1, unfolded demo_log_sel(2)]

lemma demo_log_st: "log_st (binit demo_log) = log_st demo_log"
  by (rule brest_log_st, rule demo_log_cache) (simp_all add: demo_bio_cold)

lemma demo_log_disk: "disk (binit demo_log) = (\<lambda>_. replicate BSIZE 0)"
proof -
  have "babs 1 (binit demo_log) = \<lparr>a_view = disk demo_log, a_pins = (\<lambda>_. 0), a_held = {},
      a_disk = disk demo_log, a_writes = writes demo_log\<rparr>"
    by (rule demo_log_cache) (simp_all add: demo_bio_cold)
  from arg_cong [OF this, of a_disk] show ?thesis
    by (simp add: babs_def demo_log_sel(3) demo_bio_disk)
qed

lemma demo_log_tx: "tx 0 (binit demo_log)" and demo_log_fresh: "fresh 0 (binit demo_log)"
proof -
  have "binv 0 1 (binit demo_log)"
    and a: "babs 1 (binit demo_log) = \<lparr>a_view = disk demo_log, a_pins = (\<lambda>_. 0), a_held = {},
      a_disk = disk demo_log, a_writes = writes demo_log\<rparr>"
    by (rule demo_log_cache; simp add: demo_bio_cold)+
  moreover have "clear 2 (disk (binit demo_log))"
    by (simp add: demo_log_disk clear_def head_n_def get32_def eval_nat_numeral(3) numeral_2_eq_2)
  ultimately show "tx 0 (binit demo_log)" "fresh 0 (binit demo_log)"
    by (simp_all add: tx_def fresh_def demo_log_st demo_log_sel layout_def)
qed

text \<open>C1: crash safety. The end of the last operation of a transaction that changed something commits
  it: \<open>end_op\<close> returns with the log empty, and the disk outside the log is the contents the
  transaction saw. Suppose the machine stops after any number of the writes of this commit, and
  again any number of times during the recoveries that follow. Then \<open>recover_from_log\<close>, run
  from an empty cache on the disk that was left, returns, and outside the log the disk is either
  as before the transaction or as after it, for all blocks together.\<close>

theorem end_op_crash_safe:
  assumes "tx p s" and "outstanding (log_st s) = 1" and "committing (log_st s) = 0" and "0 < lhn s"
    and "start = log_start (log_st s)" and "v = bview s (log_dev (log_st s))"
  shows "\<exists>s' W. end_op s = Ok s' \<and> tx p s' \<and> log_st s' = log_idle (log_st s)
     \<and> writes s' = writes s @ W \<and> disk s' = apply_writes W (disk s) \<and> agree_out start (disk s') v
     \<and> (\<forall>E (t :: ('z) log_state_scheme) q. crashed start (disk s) W E \<longrightarrow> fresh q t \<longrightarrow> log_start (log_st t) = start \<longrightarrow> disk t = E \<longrightarrow>
          (\<exists>t'. recover_from_log t = Ok t' \<and> lhn t' = 0 \<and> writes t' = writes t @ recovery_writes start E
             \<and> (agree_out start (disk t') (disk s) \<or> agree_out start (disk t') v)))"
proof -
  let ?W = "commit_writes start (lhn s) (lhb s) (disk s start) v"
  obtain s' where s': "end_op s = Ok s'" "tx p s'" "log_st s' = log_idle (log_st s)"
      "writes s' = writes s @ ?W" "disk s' = apply_writes ?W (disk s)"
    using end_op_commit [OF assms(1-4)] assms(5,6) by blast
  have lay: "layout start (lhn s) (lhb s)" and h: "length (disk s start) = BSIZE"
    using assms(1,5) by (simp_all add: tx_def clear_def)
  have "committed start (lhn s) (lhb s) v (apply_writes (take (length ?W) ?W) (disk s))"
    by (rule commit_after [OF lay h]) (use tx_clean [OF assms(1)] assms(6) in \<open>auto simp: commit_writes_def\<close>)
  moreover have "clear start (disk s')" using s'(2,3) assms(5) by (simp add: tx_def log_idle_def)
  ultimately have "agree_out start (disk s') v"
    using assms(4) by (auto simp: s'(5) committed_def clear_def intact_def)
  moreover have "\<exists>t'. recover_from_log t = Ok t' \<and> lhn t' = 0 \<and> writes t' = writes t @ recovery_writes start E
      \<and> (agree_out start (disk t') (disk s) \<or> agree_out start (disk t') v)"
    if "crashed start (disk s) ?W E" "fresh q t" "log_start (log_st t) = start" "disk t = E"
    for E q and t :: "('z) log_state_scheme"
    using tx_crash [OF assms(1) that(1) assms(5,6) that(2-4)] by blast
  ultimately show ?thesis using s' by (intro exI [of _ s'] exI [of _ ?W]) blast
qed

lemma demo_tx:
  obtains s :: log_state where "tx 0 s" "lhn s = 1" "outstanding (log_st s) = 1" "committing (log_st s) = 0" "log_start (log_st s) = 2"
    "log_dev (log_st s) = 1" "bview s 1 100 = replicate BSIZE 7" "disk s = disk (binit demo_log)"
proof -
  let ?s = "binit demo_log"
  have "\<not> in_log 2 100" by (simp add: in_log_def unat_word_ariths)
  with tx_update_sim [OF demo_log_tx, of 100 "\<lambda>_. replicate BSIZE 7"]
  obtain s' :: log_state where s': "tx 0 s'" "(log_st s')\<lparr>log_lh := log_lh (log_st demo_log)\<rparr> = log_st demo_log" "lhn s' = 1"
      "bview s' 1 = (bview ?s 1)(100 := replicate BSIZE 7)" "disk s' = disk ?s"
    by (auto simp: demo_log_st demo_log_sel)
  from arg_cong [OF s'(2), of outstanding] arg_cong [OF s'(2), of committing] arg_cong [OF s'(2), of log_start]
    arg_cong [OF s'(2), of log_dev]
  show ?thesis using that [OF s'(1,3)] s'(4,5) by (simp add: demo_log_sel)
qed

theorem end_op_crash_safe_witness:
  "\<exists>(s :: log_state) s'. lhn s = 1 \<and> end_op s = Ok s' \<and> disk s' 100 = replicate BSIZE 7 \<and> disk s 100 = replicate BSIZE 0
     \<and> (\<exists>t' :: log_state. recover_from_log (binit demo_log) = Ok t' \<and> disk (binit demo_log) = disk s)"
proof -
  obtain s :: log_state where s: "tx 0 s" "lhn s = 1" "outstanding (log_st s) = 1" "committing (log_st s) = 0" "log_start (log_st s) = 2"
    "log_dev (log_st s) = 1" "bview s 1 100 = replicate BSIZE 7" "disk s = disk (binit demo_log)" by (rule demo_tx)
  have out: "\<not> in_log 2 100" by (simp add: in_log_def unat_word_ariths)
  obtain s' W where e: "end_op s = Ok s'" "agree_out 2 (disk s') (bview s 1)"
    "\<forall>E (t :: log_state) q. crashed 2 (disk s) W E \<longrightarrow> fresh q t \<longrightarrow> log_start (log_st t) = 2 \<longrightarrow> disk t = E \<longrightarrow>
          (\<exists>t'. recover_from_log t = Ok t' \<and> lhn t' = 0 \<and> writes t' = writes t @ recovery_writes 2 E
             \<and> (agree_out 2 (disk t') (disk s) \<or> agree_out 2 (disk t') (bview s 1)))"
    using end_op_crash_safe [where ?'z = unit, OF s(1,3,4) _ refl refl] s(2,5,6) by auto
  have "crashed 2 (disk s) W (disk s)" using crashed.commit [of 2 "disk s" W 0] by simp
  then have "\<exists>t'. recover_from_log (binit demo_log) = Ok t'"
    using e(3) [rule_format, OF _ demo_log_fresh _ s(8) [symmetric]] by (auto simp: demo_log_st demo_log_sel)
  then show ?thesis using s(2,7,8) e(1,2) out by (auto simp: agree_out_def demo_log_disk)
qed

text \<open>C12: one step of a transaction. Inside an operation, with room in the log, the sequence
  \<open>bread\<close>, change of the data, \<open>log_write\<close>, \<open>brelse\<close> succeeds and keeps the invariant of the
  transaction. The contents change in that block only, the disk not at all, and a block that is
  logged already takes no new slot.\<close>

theorem tx_update_ok:
  assumes "tx p s" and "\<not> in_log (log_start (log_st s)) blk" and "lhn s < 29" and "1 \<le> outstanding (log_st s)"
    and "d = log_dev (log_st s)"
  shows "\<exists>s'. tx_update blk f s = Ok s' \<and> tx p s' \<and> (log_st s')\<lparr>log_lh := log_lh (log_st s)\<rparr> = log_st s
     \<and> lhb s' ` {..<nat (lhn s')} = insert blk (lhb s ` {..<nat (lhn s)})
     \<and> lhn s' = (if blk \<in> lhb s ` {..<nat (lhn s)} then lhn s else lhn s + 1)
     \<and> bview s' d = (bview s d)(blk := f (bview s d blk)) \<and> disk s' = disk s \<and> writes s' = writes s"
  using tx_update_sim [OF assms(1-4)] assms(5) by blast

theorem tx_update_ok_witness:
  "\<exists>s'. tx_update 100 (\<lambda>_. replicate BSIZE 7) (binit demo_log) = Ok s' \<and> tx 0 s' \<and> lhn s' = 1"
proof -
  have "\<not> in_log 2 100" by (simp add: in_log_def unat_word_ariths)
  then show ?thesis
    using tx_update_ok [OF demo_log_tx, of 100 1 "\<lambda>_. replicate BSIZE 7"] by (auto simp: demo_log_st demo_log_sel)
qed





end
