(* ===== verification/Fs.thy ===== *)
theory Fs
  imports Log_Commit
begin

text \<open>
  The file system, src/kernel/fs.c: blocks, inodes, directories and path names. \<open>itable\<close> are
  the entries of the inode table, named by their index; a null pointer to an inode is \<open>None\<close>.
  An on-disk inode is 64 bytes of its block: type, major, minor and nlink at 0, 2, 4 and 6, size at
  8, the thirteen addresses from 12 on. A directory entry is 16 bytes: the inode number and 14
  bytes of name. Local arrays of the code are byte lists: \<open>readi\<close> into one returns the bytes, and
  \<open>writei\<close> from one takes them.
\<close>

abbreviation (input) NDIRECT :: nat where "NDIRECT \<equiv> 12"
abbreviation (input) NINDIRECT :: nat where "NINDIRECT \<equiv> 256"
abbreviation (input) MAXFILE :: nat where "MAXFILE \<equiv> 268"
abbreviation (input) BPB :: nat where "BPB \<equiv> 8192"
abbreviation (input) IPB :: nat where "IPB \<equiv> 16"
abbreviation (input) DIRSIZ :: nat where "DIRSIZ \<equiv> 14"
abbreviation (input) ROOTDEV :: uint32 where "ROOTDEV \<equiv> 1"
abbreviation (input) ROOTINO :: uint32 where "ROOTINO \<equiv> 1"
abbreviation (input) FSMAGIC :: uint32 where "FSMAGIC \<equiv> 0x10203040"
abbreviation (input) NINODE :: nat where "NINODE \<equiv> 50"
abbreviation (input) T_DIR :: uint16 where "T_DIR \<equiv> 1"
abbreviation (input) T_FILE :: uint16 where "T_FILE \<equiv> 2"
abbreviation (input) T_DEVICE :: uint16 where "T_DEVICE \<equiv> 3"

record inode =
  i_dev :: uint32
  i_inum :: uint32
  i_ref :: int
  i_valid :: int
  i_type :: uint16
  i_major :: uint16
  i_minor :: uint16
  i_nlink :: uint16
  i_size :: uint32
  i_addrs :: "uint32 list"

record fs_state = log_state +
  sb :: superblock
  itable :: "nat \<Rightarrow> inode"

definition upd_ino :: "nat \<Rightarrow> (inode \<Rightarrow> inode) \<Rightarrow> ('z) fs_state_scheme \<Rightarrow> ('z) fs_state_scheme" where
  "upd_ino ip f s = s\<lparr>itable := (itable s)(ip := f (itable s ip))\<rparr>"

definition IBLOCK :: "uint32 \<Rightarrow> superblock \<Rightarrow> uint32" where
  "IBLOCK i b = i div of_nat IPB + sb_inodestart b"

definition BBLOCK :: "uint32 \<Rightarrow> superblock \<Rightarrow> uint32" where
  "BBLOCK b x = b div of_nat BPB + sb_bmapstart x"

subsection \<open>Blocks\<close>

definition superblock_of :: "byte list \<Rightarrow> superblock" where
  "superblock_of xs = \<lparr>sb_magic = get32 xs 0, sb_size = get32 xs 4, sb_nblocks = get32 xs 8, sb_ninodes = get32 xs 12,
     sb_nlog = get32 xs 16, sb_logstart = get32 xs 20, sb_inodestart = get32 xs 24, sb_bmapstart = get32 xs 28\<rparr>"

definition readsb :: "uint32 \<Rightarrow> ('z) fs_state_scheme \<Rightarrow> ('z fs_state_scheme, 'z fs_state_scheme) res" where
  "readsb dev s =
     rbind (bread dev 1 s) (\<lambda>(bp, s).
     brelse bp (s\<lparr>sb := superblock_of (b_data (bufs s bp))\<rparr>))"

definition fsinit :: "uint32 \<Rightarrow> ('z) fs_state_scheme \<Rightarrow> ('z fs_state_scheme, 'z fs_state_scheme) res" where
  "fsinit dev s =
     rbind (readsb dev s) (\<lambda>s.
     if sb_magic (sb s) \<noteq> FSMAGIC then Panic ''invalid file system'' else initlog dev (sb s) s)"

definition bzero :: "uint32 \<Rightarrow> uint32 \<Rightarrow> ('z) fs_state_scheme \<Rightarrow> ('z fs_state_scheme, 'z fs_state_scheme) res" where
  "bzero dev bno s =
     rbind (bread dev bno s) (\<lambda>(bp, s).
     rbind (log_write bp (bput bp (replicate BSIZE 0) s)) (\<lambda>s. brelse bp s))"

text \<open>Bit \<open>bi\<close> of a bitmap block.\<close>

definition bm_mask :: "nat \<Rightarrow> byte" where
  "bm_mask bi = push_bit (bi mod 8) 1"

definition bm_free :: "byte list \<Rightarrow> nat \<Rightarrow> bool" where
  "bm_free xs bi \<longleftrightarrow> (xs ! (bi div 8)) AND bm_mask bi = 0"

definition bm_mark :: "byte list \<Rightarrow> nat \<Rightarrow> byte list" where
  "bm_mark xs bi = xs[bi div 8 := (xs ! (bi div 8)) OR bm_mask bi]"

definition bm_clear :: "byte list \<Rightarrow> nat \<Rightarrow> byte list" where
  "bm_clear xs bi = xs[bi div 8 := (xs ! (bi div 8)) AND NOT (bm_mask bi)]"

fun balloc_loop :: "uint32 \<Rightarrow> nat list \<Rightarrow> ('z) fs_state_scheme \<Rightarrow> ('z fs_state_scheme, uint32 \<times> 'z fs_state_scheme) res" where
  "balloc_loop dev [] s =
     rbind (printf (Some (ascii ''balloc: out of blocks'' @ [10])) [] s) (\<lambda>s. Ok (0, s))"
| "balloc_loop dev (b # bs) s =
     rbind (bread dev (BBLOCK (of_nat b) (sb s)) s) (\<lambda>(bp, s).
     case find (bm_free (b_data (bufs s bp))) [0..<min BPB (unat (sb_size (sb s)) - b)] of
       Some bi \<Rightarrow>
         rbind (log_write bp (bput bp (bm_mark (b_data (bufs s bp)) bi) s)) (\<lambda>s.
         rbind (brelse bp s) (\<lambda>s.
         rbind (bzero dev (of_nat (b + bi)) s) (\<lambda>s. Ok (of_nat (b + bi), s))))
     | None \<Rightarrow> rbind (brelse bp s) (\<lambda>s. balloc_loop dev bs s))"

definition balloc :: "uint32 \<Rightarrow> ('z) fs_state_scheme \<Rightarrow> ('z fs_state_scheme, uint32 \<times> 'z fs_state_scheme) res" where
  "balloc dev s = balloc_loop dev (map (\<lambda>k. k * BPB) [0..<(unat (sb_size (sb s)) + BPB - 1) div BPB]) s"

definition bfree_block :: "uint32 \<Rightarrow> uint32 \<Rightarrow> ('z) fs_state_scheme \<Rightarrow> ('z fs_state_scheme, 'z fs_state_scheme) res" where
  "bfree_block dev b s =
     rbind (bread dev (BBLOCK b (sb s)) s) (\<lambda>(bp, s).
     let bi = unat b mod BPB
     in if bm_free (b_data (bufs s bp)) bi then Panic ''freeing free block''
        else rbind (log_write bp (bput bp (bm_clear (b_data (bufs s bp)) bi) s)) (\<lambda>s. brelse bp s))"

subsection \<open>Inodes\<close>

fun iinit_loop :: "nat list \<Rightarrow> ('z) slk_state_scheme \<Rightarrow> ('z) slk_state_scheme" where
  "iinit_loop [] s = s"
| "iinit_loop (i # is) s = iinit_loop is (initsleeplock (InodeSleep i) ''inode'' s)"

definition iinit :: "('z) slk_state_scheme \<Rightarrow> ('z) slk_state_scheme" where
  "iinit s = iinit_loop [0..<NINODE] (initlock ItableLock ''itable'' s)"

text \<open>The offset of the inode in its block, and the inode as bytes.\<close>

definition dinode_off :: "uint32 \<Rightarrow> nat" where
  "dinode_off inum = 64 * (unat inum mod IPB)"

definition dinode_type :: "byte list \<Rightarrow> nat \<Rightarrow> uint16" where
  "dinode_type xs off = get16 xs off"

definition put_dinode :: "byte list \<Rightarrow> nat \<Rightarrow> inode \<Rightarrow> byte list" where
  "put_dinode xs off ip =
     (let xs = put16 xs off (i_type ip);
          xs = put16 xs (off + 2) (i_major ip);
          xs = put16 xs (off + 4) (i_minor ip);
          xs = put16 xs (off + 6) (i_nlink ip);
          xs = put32 xs (off + 8) (i_size ip)
      in blit xs (off + 12) (concat (map (le_bytes 4) (i_addrs ip))))"

definition get_dinode :: "byte list \<Rightarrow> nat \<Rightarrow> inode \<Rightarrow> inode" where
  "get_dinode xs off ip =
     ip\<lparr>i_type := get16 xs off, i_major := get16 xs (off + 2), i_minor := get16 xs (off + 4), i_nlink := get16 xs (off + 6),
        i_size := get32 xs (off + 8), i_addrs := map (\<lambda>k. get32 xs (off + 12 + 4 * k)) [0..<NDIRECT + 1]\<rparr>"

definition iget :: "uint32 \<Rightarrow> uint32 \<Rightarrow> ('z) fs_state_scheme \<Rightarrow> ('z fs_state_scheme, nat \<times> 'z fs_state_scheme) res" where
  "iget dev inum s =
     rbind (acquire ItableLock s) (\<lambda>s.
     case find (\<lambda>ip. i_ref (itable s ip) > 0 \<and> i_dev (itable s ip) = dev \<and> i_inum (itable s ip) = inum) [0..<NINODE] of
       Some ip \<Rightarrow> rbind (release ItableLock (upd_ino ip (\<lambda>i. i\<lparr>i_ref := i_ref i + 1\<rparr>) s)) (\<lambda>s. Ok (ip, s))
     | None \<Rightarrow>
         (case find (\<lambda>ip. i_ref (itable s ip) = 0) [0..<NINODE] of
            None \<Rightarrow> Panic ''iget: no inodes''
          | Some ip \<Rightarrow>
              rbind (release ItableLock (upd_ino ip (\<lambda>i. i\<lparr>i_dev := dev, i_inum := inum, i_ref := 1, i_valid := 0\<rparr>) s)) (\<lambda>s.
              Ok (ip, s))))"

fun ialloc_loop :: "uint32 \<Rightarrow> uint16 \<Rightarrow> nat list \<Rightarrow> ('z) fs_state_scheme \<Rightarrow>
    ('z fs_state_scheme, nat option \<times> 'z fs_state_scheme) res" where
  "ialloc_loop dev ty [] s =
     rbind (printf (Some (ascii ''ialloc: no inodes'' @ [10])) [] s) (\<lambda>s. Ok (None, s))"
| "ialloc_loop dev ty (inum # inums) s =
     rbind (bread dev (IBLOCK (of_nat inum) (sb s)) s) (\<lambda>(bp, s).
     let off = dinode_off (of_nat inum); dat = b_data (bufs s bp)
     in if dinode_type dat off = 0 then
          rbind (log_write bp (bput bp (put16 (blit dat off (replicate 64 0)) off ty) s)) (\<lambda>s.
          rbind (brelse bp s) (\<lambda>s.
          rbind (iget dev (of_nat inum) s) (\<lambda>(ip, s). Ok (Some ip, s))))
        else rbind (brelse bp s) (\<lambda>s. ialloc_loop dev ty inums s))"

definition ialloc :: "uint32 \<Rightarrow> uint16 \<Rightarrow> ('z) fs_state_scheme \<Rightarrow>
    ('z fs_state_scheme, nat option \<times> 'z fs_state_scheme) res" where
  "ialloc dev ty s = ialloc_loop dev ty [1..<unat (sb_ninodes (sb s))] s"

definition iupdate :: "nat \<Rightarrow> ('z) fs_state_scheme \<Rightarrow> ('z fs_state_scheme, 'z fs_state_scheme) res" where
  "iupdate ip s =
     rbind (bread (i_dev (itable s ip)) (IBLOCK (i_inum (itable s ip)) (sb s)) s) (\<lambda>(bp, s).
     let off = dinode_off (i_inum (itable s ip))
     in rbind (log_write bp (bput bp (put_dinode (b_data (bufs s bp)) off (itable s ip)) s)) (\<lambda>s. brelse bp s))"

definition idup :: "nat \<Rightarrow> ('z) fs_state_scheme \<Rightarrow> ('z fs_state_scheme, nat \<times> 'z fs_state_scheme) res" where
  "idup ip s =
     rbind (acquire ItableLock s) (\<lambda>s.
     rbind (release ItableLock (upd_ino ip (\<lambda>i. i\<lparr>i_ref := i_ref i + 1\<rparr>) s)) (\<lambda>s. Ok (ip, s)))"

definition ilock :: "nat option \<Rightarrow> ('z) fs_state_scheme \<Rightarrow> ('z fs_state_scheme, 'z fs_state_scheme) res" where
  "ilock mip s =
     (case mip of
        None \<Rightarrow> Panic ''ilock''
      | Some ip \<Rightarrow>
          if i_ref (itable s ip) < 1 then Panic ''ilock''
          else rbind (acquiresleep (InodeSleep ip) s) (\<lambda>s.
               if i_valid (itable s ip) = 0 then
                 rbind (bread (i_dev (itable s ip)) (IBLOCK (i_inum (itable s ip)) (sb s)) s) (\<lambda>(bp, s).
                 let s = upd_ino ip (get_dinode (b_data (bufs s bp)) (dinode_off (i_inum (itable s ip)))) s
                 in rbind (brelse bp s) (\<lambda>s.
                    let s = upd_ino ip (\<lambda>i. i\<lparr>i_valid := 1\<rparr>) s
                    in if i_type (itable s ip) = 0 then Panic ''ilock: no type'' else Ok s))
               else Ok s))"

definition iunlock :: "nat option \<Rightarrow> ('z) fs_state_scheme \<Rightarrow> ('z fs_state_scheme, 'z fs_state_scheme) res" where
  "iunlock mip s =
     (case mip of
        None \<Rightarrow> Panic ''iunlock''
      | Some ip \<Rightarrow>
          rbind (holdingsleep (InodeSleep ip) s) (\<lambda>(h, s).
          if \<not> h \<or> i_ref (itable s ip) < 1 then Panic ''iunlock''
          else releasesleep (InodeSleep ip) s))"

subsection \<open>Inode contents\<close>

definition bmap :: "nat \<Rightarrow> uint32 \<Rightarrow> ('z) fs_state_scheme \<Rightarrow> ('z fs_state_scheme, uint32 \<times> 'z fs_state_scheme) res" where
  "bmap ip bn s =
     (if bn < of_nat NDIRECT then
        (let addr = i_addrs (itable s ip) ! unat bn
         in if addr = 0 then
              rbind (balloc (i_dev (itable s ip)) s) (\<lambda>(addr, s).
              if addr = 0 then Ok (0, s)
              else Ok (addr, upd_ino ip (\<lambda>i. i\<lparr>i_addrs := (i_addrs i)[unat bn := addr]\<rparr>) s))
            else Ok (addr, s))
      else
        (let bn = bn - of_nat NDIRECT
         in if bn < of_nat NINDIRECT then
              (let indirect = (\<lambda>addr s.
                 rbind (bread (i_dev (itable s ip)) addr s) (\<lambda>(bp, s).
                 let addr = get32 (b_data (bufs s bp)) (4 * unat bn)
                 in if addr = 0 then
                      rbind (balloc (i_dev (itable s ip)) s) (\<lambda>(addr, s).
                      rbind (if addr \<noteq> 0
                             then log_write bp (bput bp (put32 (b_data (bufs s bp)) (4 * unat bn) addr) s)
                             else Ok s) (\<lambda>s.
                      rbind (brelse bp s) (\<lambda>s. Ok (addr, s))))
                    else rbind (brelse bp s) (\<lambda>s. Ok (addr, s))))
               in if i_addrs (itable s ip) ! NDIRECT = 0 then
                    rbind (balloc (i_dev (itable s ip)) s) (\<lambda>(addr, s).
                    if addr = 0 then Ok (0, s)
                    else indirect addr (upd_ino ip (\<lambda>i. i\<lparr>i_addrs := (i_addrs i)[NDIRECT := addr]\<rparr>) s))
                  else indirect (i_addrs (itable s ip) ! NDIRECT) s)
            else Panic ''bmap: out of range''))"

fun itrunc_direct :: "nat \<Rightarrow> nat list \<Rightarrow> ('z) fs_state_scheme \<Rightarrow> ('z fs_state_scheme, 'z fs_state_scheme) res" where
  "itrunc_direct ip [] s = Ok s"
| "itrunc_direct ip (i # is) s =
     (if i_addrs (itable s ip) ! i \<noteq> 0 then
        rbind (bfree_block (i_dev (itable s ip)) (i_addrs (itable s ip) ! i) s) (\<lambda>s.
        itrunc_direct ip is (upd_ino ip (\<lambda>x. x\<lparr>i_addrs := (i_addrs x)[i := 0]\<rparr>) s))
      else itrunc_direct ip is s)"

fun itrunc_indirect :: "nat \<Rightarrow> nat \<Rightarrow> nat list \<Rightarrow> ('z) fs_state_scheme \<Rightarrow> ('z fs_state_scheme, 'z fs_state_scheme) res" where
  "itrunc_indirect ip bp [] s = Ok s"
| "itrunc_indirect ip bp (j # js) s =
     (let a = get32 (b_data (bufs s bp)) (4 * j)
      in rbind (if a \<noteq> 0 then bfree_block (i_dev (itable s ip)) a s else Ok s) (\<lambda>s. itrunc_indirect ip bp js s))"

definition itrunc :: "nat \<Rightarrow> ('z) fs_state_scheme \<Rightarrow> ('z fs_state_scheme, 'z fs_state_scheme) res" where
  "itrunc ip s =
     rbind (itrunc_direct ip [0..<NDIRECT] s) (\<lambda>s.
     rbind (if i_addrs (itable s ip) ! NDIRECT \<noteq> 0 then
              rbind (bread (i_dev (itable s ip)) (i_addrs (itable s ip) ! NDIRECT) s) (\<lambda>(bp, s).
              rbind (itrunc_indirect ip bp [0..<NINDIRECT] s) (\<lambda>s.
              rbind (brelse bp s) (\<lambda>s.
              rbind (bfree_block (i_dev (itable s ip)) (i_addrs (itable s ip) ! NDIRECT) s) (\<lambda>s.
              Ok (upd_ino ip (\<lambda>x. x\<lparr>i_addrs := (i_addrs x)[NDIRECT := 0]\<rparr>) s)))))
            else Ok s) (\<lambda>s.
     iupdate ip (upd_ino ip (\<lambda>x. x\<lparr>i_size := 0\<rparr>) s)))"

definition iput :: "nat \<Rightarrow> ('z) fs_state_scheme \<Rightarrow> ('z fs_state_scheme, 'z fs_state_scheme) res" where
  "iput ip s =
     rbind (acquire ItableLock s) (\<lambda>s.
     rbind (if i_ref (itable s ip) = 1 \<and> i_valid (itable s ip) \<noteq> 0 \<and> i_nlink (itable s ip) = 0 then
              rbind (acquiresleep (InodeSleep ip) s) (\<lambda>s.
              rbind (release ItableLock s) (\<lambda>s.
              rbind (itrunc ip s) (\<lambda>s.
              rbind (iupdate ip (upd_ino ip (\<lambda>i. i\<lparr>i_type := 0\<rparr>) s)) (\<lambda>s.
              rbind (releasesleep (InodeSleep ip) (upd_ino ip (\<lambda>i. i\<lparr>i_valid := 0\<rparr>) s)) (\<lambda>s.
              acquire ItableLock s)))))
            else Ok s) (\<lambda>s.
     release ItableLock (upd_ino ip (\<lambda>i. i\<lparr>i_ref := i_ref i - 1\<rparr>) s)))"

definition iunlockput :: "nat \<Rightarrow> ('z) fs_state_scheme \<Rightarrow> ('z fs_state_scheme, 'z fs_state_scheme) res" where
  "iunlockput ip s = rbind (iunlock (Some ip) s) (\<lambda>s. iput ip s)"

record stat =
  st_dev :: int
  st_ino :: uint32
  st_type :: uint16
  st_nlink :: uint16
  st_size :: uint64

definition stati :: "nat \<Rightarrow> ('z) fs_state_scheme \<Rightarrow> stat" where
  "stati ip s = \<lparr>st_dev = sint (i_dev (itable s ip)), st_ino = i_inum (itable s ip), st_type = i_type (itable s ip),
     st_nlink = i_nlink (itable s ip), st_size = ucast (i_size (itable s ip))\<rparr>"

text \<open>Where \<open>readi\<close> delivers and where \<open>writei\<close> takes from: user memory, kernel memory, or an
  array on the kernel's stack.\<close>

datatype iodst = DUser uint64 | DKernel uint64 | DLocal
datatype iosrc = SUser uint64 | SKernel uint64 | SLocal "byte list"

fun dst_add :: "iodst \<Rightarrow> uint32 \<Rightarrow> iodst" where
  "dst_add (DUser a) m = DUser (a + ucast m)"
| "dst_add (DKernel a) m = DKernel (a + ucast m)"
| "dst_add DLocal m = DLocal"

fun src_add :: "iosrc \<Rightarrow> uint32 \<Rightarrow> iosrc" where
  "src_add (SUser a) m = SUser (a + ucast m)"
| "src_add (SKernel a) m = SKernel (a + ucast m)"
| "src_add (SLocal bs) m = SLocal (drop (unat m) bs)"

fun io_copyout :: "iodst \<Rightarrow> byte list \<Rightarrow> ('z) proc_state_scheme \<Rightarrow> ('z proc_state_scheme, int \<times> 'z proc_state_scheme) res" where
  "io_copyout (DUser a) bs s = either_copyout True a bs s"
| "io_copyout (DKernel a) bs s = either_copyout False a bs s"
| "io_copyout DLocal bs s = Ok (0, s)"

fun io_copyin :: "iosrc \<Rightarrow> nat \<Rightarrow> ('z) proc_state_scheme \<Rightarrow> ('z proc_state_scheme, (int \<times> byte list) \<times> 'z proc_state_scheme) res" where
  "io_copyin (SUser a) m s = either_copyin True a m s"
| "io_copyin (SKernel a) m s = either_copyin False a m s"
| "io_copyin (SLocal bs) m s = Ok ((0, take m bs), s)"

definition io_chunk :: "uint32 \<Rightarrow> uint32 \<Rightarrow> uint32 \<Rightarrow> uint32" where
  "io_chunk n tot off = min (n - tot) (1024 - off mod 1024)"

lemma io_chunk_bounds:
  assumes "tot < n"
  shows "0 < unat (io_chunk n tot off)" "unat (io_chunk n tot off) \<le> unat n - unat tot"
    "unat (io_chunk n tot off) + unat (off mod 1024) \<le> 1024" "unat (tot + io_chunk n tot off) = unat tot + unat (io_chunk n tot off)"
proof -
  have d: "unat (n - tot) = unat n - unat tot" using assms by (simp add: unat_sub word_less_nat_alt less_imp_le word_le_nat_alt)
  have m: "unat (off mod 1024) < 1024" by (simp add: unat_mod)
  then have e: "unat (1024 - off mod 1024) = 1024 - unat (off mod 1024)"
    by (subst unat_sub) (simp_all add: word_le_nat_alt)
  have c: "unat (io_chunk n tot off) = min (unat n - unat tot) (1024 - unat (off mod 1024))"
    by (simp add: io_chunk_def d e min_def word_le_nat_alt)
  have lt: "unat tot < unat n" using assms by (simp add: word_less_nat_alt)
  show "0 < unat (io_chunk n tot off)" "unat (io_chunk n tot off) \<le> unat n - unat tot"
    "unat (io_chunk n tot off) + unat (off mod 1024) \<le> 1024"
    using c lt m by auto
  have "unat tot + unat (io_chunk n tot off) < 2 ^ LENGTH(32)" using c lt unat_less32 [of n] by simp
  then show "unat (tot + io_chunk n tot off) = unat tot + unat (io_chunk n tot off)"
    by (simp add: unat_word_ariths)
qed

lemma io_progress: "tot < n \<Longrightarrow> unat n - unat (tot + io_chunk n tot off) < unat n - unat tot"
  using io_chunk_bounds [of tot n off] by (simp add: word_less_nat_alt)

function readi_loop :: "nat \<Rightarrow> iodst \<Rightarrow> uint32 \<Rightarrow> uint32 \<Rightarrow> uint32 \<Rightarrow> byte list \<Rightarrow> ('z) fs_state_scheme \<Rightarrow>
    ('z fs_state_scheme, (int \<times> byte list) \<times> 'z fs_state_scheme) res" where
  "readi_loop ip dst off tot n acc s =
     (if tot < n then
        rbind (bmap ip (off div 1024) s) (\<lambda>(addr, s).
        if addr = 0 then Ok ((sint tot, acc), s)
        else
          rbind (bread (i_dev (itable s ip)) addr s) (\<lambda>(bp, s).
          let m = io_chunk n tot off;
              bs = slice (b_data (bufs s bp)) (unat (off mod 1024)) (unat m)
          in rbind (io_copyout dst bs s) (\<lambda>(r, s).
             if r = -1 then rbind (brelse bp s) (\<lambda>s. Ok ((-1, acc), s))
             else rbind (brelse bp s) (\<lambda>s. readi_loop ip (dst_add dst m) (off + m) (tot + m) n (acc @ bs) s))))
      else Ok ((sint tot, acc), s))"
  by pat_completeness auto
termination
  by (relation "measure (\<lambda>(ip, dst, off, tot, n, acc, s). unat n - unat tot)") (simp_all add: io_progress)

definition readi :: "nat \<Rightarrow> iodst \<Rightarrow> uint32 \<Rightarrow> uint32 \<Rightarrow> ('z) fs_state_scheme \<Rightarrow>
    ('z fs_state_scheme, (int \<times> byte list) \<times> 'z fs_state_scheme) res" where
  "readi ip dst off n s =
     (if off > i_size (itable s ip) \<or> off + n < off then Ok ((0, []), s)
      else (let n = (if off + n > i_size (itable s ip) then i_size (itable s ip) - off else n)
            in readi_loop ip dst off 0 n [] s))"

function writei_loop :: "nat \<Rightarrow> iosrc \<Rightarrow> uint32 \<Rightarrow> uint32 \<Rightarrow> uint32 \<Rightarrow> ('z) fs_state_scheme \<Rightarrow>
    ('z fs_state_scheme, (uint32 \<times> uint32) \<times> 'z fs_state_scheme) res" where
  "writei_loop ip src off tot n s =
     (if tot < n then
        rbind (bmap ip (off div 1024) s) (\<lambda>(addr, s).
        if addr = 0 then Ok ((tot, off), s)
        else
          rbind (bread (i_dev (itable s ip)) addr s) (\<lambda>(bp, s).
          let m = io_chunk n tot off
          in rbind (io_copyin src (unat m) s) (\<lambda>((r, bs), s).
             let s = bput bp (blit (b_data (bufs s bp)) (unat (off mod 1024)) bs) s
             in if r = -1 then rbind (brelse bp s) (\<lambda>s. Ok ((tot, off), s))
                else rbind (log_write bp s) (\<lambda>s.
                     rbind (brelse bp s) (\<lambda>s. writei_loop ip (src_add src m) (off + m) (tot + m) n s)))))
      else Ok ((tot, off), s))"
  by pat_completeness auto
termination
  by (relation "measure (\<lambda>(ip, src, off, tot, n, s). unat n - unat tot)") (simp_all add: io_progress)

declare readi_loop.simps [simp del] writei_loop.simps [simp del]

definition writei :: "nat \<Rightarrow> iosrc \<Rightarrow> uint32 \<Rightarrow> uint32 \<Rightarrow> ('z) fs_state_scheme \<Rightarrow>
    ('z fs_state_scheme, int \<times> 'z fs_state_scheme) res" where
  "writei ip src off n s =
     (if off > i_size (itable s ip) \<or> off + n < off then Ok (-1, s)
      else if off + n > of_nat (MAXFILE * BSIZE) then Ok (-1, s)
      else
        rbind (writei_loop ip src off 0 n s) (\<lambda>((tot, off), s).
        let s = (if off > i_size (itable s ip) then upd_ino ip (\<lambda>i. i\<lparr>i_size := off\<rparr>) s else s)
        in rbind (iupdate ip s) (\<lambda>s. Ok (sint tot, s))))"

subsection \<open>Directories\<close>

text \<open>\<open>strncmp\<close> on arrays, with a zero behind the end of each.\<close>

fun namecmp_loop :: "nat \<Rightarrow> byte list \<Rightarrow> byte list \<Rightarrow> int" where
  "namecmp_loop 0 p q = 0"
| "namecmp_loop (Suc n) p q =
     (let a = (case p of [] \<Rightarrow> 0 | x # _ \<Rightarrow> x); b = (case q of [] \<Rightarrow> 0 | x # _ \<Rightarrow> x)
      in if a \<noteq> 0 \<and> a = b then namecmp_loop n (tl p) (tl q) else uint a - uint b)"

definition namecmp :: "byte list \<Rightarrow> byte list \<Rightarrow> int" where
  "namecmp p q = namecmp_loop DIRSIZ p q"

definition dirent_inum :: "byte list \<Rightarrow> uint16" where
  "dirent_inum de = get16 de 0"

definition dirent_name :: "byte list \<Rightarrow> byte list" where
  "dirent_name de = slice de 2 DIRSIZ"

text \<open>The offsets the loops over a directory of the given size visit.\<close>

definition dir_offs :: "uint32 \<Rightarrow> uint32 list" where
  "dir_offs sz = map (\<lambda>k. of_nat (16 * k)) [0..<(unat sz + 15) div 16]"

fun dirlookup_loop :: "nat \<Rightarrow> byte list \<Rightarrow> uint32 list \<Rightarrow> ('z) fs_state_scheme \<Rightarrow>
    ('z fs_state_scheme, (nat \<times> uint32) option \<times> 'z fs_state_scheme) res" where
  "dirlookup_loop dp name [] s = Ok (None, s)"
| "dirlookup_loop dp name (off # offs) s =
     rbind (readi dp DLocal off 16 s) (\<lambda>((r, de), s).
     if r \<noteq> 16 then Panic ''dirlookup read''
     else if dirent_inum de = 0 then dirlookup_loop dp name offs s
     else if namecmp name (dirent_name de) = 0 then
       rbind (iget (i_dev (itable s dp)) (ucast (dirent_inum de)) s) (\<lambda>(ip, s). Ok (Some (ip, off), s))
     else dirlookup_loop dp name offs s)"

definition dirlookup :: "nat \<Rightarrow> byte list \<Rightarrow> ('z) fs_state_scheme \<Rightarrow>
    ('z fs_state_scheme, (nat \<times> uint32) option \<times> 'z fs_state_scheme) res" where
  "dirlookup dp name s =
     (if i_type (itable s dp) \<noteq> T_DIR then Panic ''dirlookup not DIR''
      else dirlookup_loop dp name (dir_offs (i_size (itable s dp))) s)"

text \<open>The search of \<open>dirlink\<close> for a free entry; the offset it stops at is the size of the
  directory rounded up when there is none.\<close>

fun dirlink_scan :: "nat \<Rightarrow> uint32 list \<Rightarrow> uint32 \<Rightarrow> ('z) fs_state_scheme \<Rightarrow>
    ('z fs_state_scheme, uint32 \<times> 'z fs_state_scheme) res" where
  "dirlink_scan dp [] endoff s = Ok (endoff, s)"
| "dirlink_scan dp (off # offs) endoff s =
     rbind (readi dp DLocal off 16 s) (\<lambda>((r, de), s).
     if r \<noteq> 16 then Panic ''dirlink read''
     else if dirent_inum de = 0 then Ok (off, s)
     else dirlink_scan dp offs endoff s)"

text \<open>\<open>strncpy\<close> into the 14 bytes of a name: cut or padded with zeroes.\<close>

definition dirname14 :: "byte list \<Rightarrow> byte list" where
  "dirname14 name = (let nm = take DIRSIZ (takeWhile (\<lambda>b. b \<noteq> 0) name) in nm @ replicate (DIRSIZ - length nm) 0)"

definition dirlink :: "nat \<Rightarrow> byte list \<Rightarrow> uint32 \<Rightarrow> ('z) fs_state_scheme \<Rightarrow>
    ('z fs_state_scheme, int \<times> 'z fs_state_scheme) res" where
  "dirlink dp name inum s =
     rbind (dirlookup dp name s) (\<lambda>(found, s).
     case found of
       Some (ip, _) \<Rightarrow> rbind (iput ip s) (\<lambda>s. Ok (-1, s))
     | None \<Rightarrow>
         rbind (dirlink_scan dp (dir_offs (i_size (itable s dp)))
                  (of_nat (16 * ((unat (i_size (itable s dp)) + 15) div 16))) s) (\<lambda>(off, s).
         let de = le_bytes 2 (ucast inum :: uint16) @ dirname14 name
         in rbind (writei dp (SLocal de) off 16 s) (\<lambda>(r, s).
            if r \<noteq> 16 then Ok (-1, s) else Ok (0, s))))"

subsection \<open>Paths\<close>

text \<open>A path is the bytes before its terminator. \<open>skipelem\<close> returns the rest of the path and the
  new contents of the name buffer, of which it overwrites only the beginning.\<close>

abbreviation (input) slash :: byte where "slash \<equiv> 47"

definition skipelem :: "byte list \<Rightarrow> byte list \<Rightarrow> (byte list \<times> byte list) option" where
  "skipelem path name =
     (let path = dropWhile (\<lambda>c. c = slash) path
      in if path = [] then None
         else (let elem = takeWhile (\<lambda>c. c \<noteq> slash) path;
                   rest = dropWhile (\<lambda>c. c \<noteq> slash) path;
                   name = (if length elem \<ge> DIRSIZ then blit name 0 (take DIRSIZ elem)
                           else blit name 0 (elem @ [0]))
               in Some (dropWhile (\<lambda>c. c = slash) rest, name)))"

lemma skipelem_shorter: "skipelem path name = Some (path', name') \<Longrightarrow> length path' < length path"
proof -
  assume "skipelem path name = Some (path', name')"
  then have ne: "dropWhile (\<lambda>c. c = slash) path \<noteq> []"
    and p': "path' = dropWhile (\<lambda>c. c = slash) (dropWhile (\<lambda>c. c \<noteq> slash) (dropWhile (\<lambda>c. c = slash) path))"
    by (auto simp: skipelem_def Let_def split: if_splits)
  have "hd (dropWhile (\<lambda>c. c = slash) path) \<noteq> slash" using hd_dropWhile [OF ne] by simp
  then have "length (dropWhile (\<lambda>c. c \<noteq> slash) (dropWhile (\<lambda>c. c = slash) path)) < length (dropWhile (\<lambda>c. c = slash) path)"
    using ne by (cases "dropWhile (\<lambda>c. c = slash) path") (simp_all add: le_imp_less_Suc length_dropWhile_le)
  also have "\<dots> \<le> length path" by (rule length_dropWhile_le)
  finally show ?thesis using p' length_dropWhile_le le_less_trans by metis
qed

function namex_loop :: "byte list \<Rightarrow> bool \<Rightarrow> byte list \<Rightarrow> nat \<Rightarrow> ('z) fs_state_scheme \<Rightarrow>
    ('z fs_state_scheme, (nat option \<times> byte list) \<times> 'z fs_state_scheme) res" where
  "namex_loop path nameiparent name ip s =
     (case skipelem path name of
        None \<Rightarrow>
          if nameiparent then rbind (iput ip s) (\<lambda>s. Ok ((None, name), s)) else Ok ((Some ip, name), s)
      | Some (path, name) \<Rightarrow>
          rbind (ilock (Some ip) s) (\<lambda>s.
          if i_type (itable s ip) \<noteq> T_DIR then rbind (iunlockput ip s) (\<lambda>s. Ok ((None, name), s))
          else if nameiparent \<and> path = [] then rbind (iunlock (Some ip) s) (\<lambda>s. Ok ((Some ip, name), s))
          else rbind (dirlookup ip name s) (\<lambda>(found, s).
               case found of
                 None \<Rightarrow> rbind (iunlockput ip s) (\<lambda>s. Ok ((None, name), s))
               | Some (nxt, _) \<Rightarrow> rbind (iunlockput ip s) (\<lambda>s. namex_loop path nameiparent name nxt s))))"
  by pat_completeness auto
termination
  by (relation "measure (\<lambda>(path, nameiparent, name, ip, s). length path)") (auto dest: skipelem_shorter)

declare namex_loop.simps [simp del]

definition namex :: "byte list \<Rightarrow> bool \<Rightarrow> byte list \<Rightarrow> ('z) fs_state_scheme \<Rightarrow>
    ('z fs_state_scheme, (nat option \<times> byte list) \<times> 'z fs_state_scheme) res" where
  "namex path nameiparent name s =
     rbind (if path \<noteq> [] \<and> hd path = slash then iget ROOTDEV ROOTINO s
            else rbind (myproc s) (\<lambda>(mp, s). deref mp (\<lambda>p. deref (p_cwd (procs s p)) (\<lambda>c. idup c s)))) (\<lambda>(ip, s).
     namex_loop path nameiparent name ip s)"

definition namei :: "byte list \<Rightarrow> ('z) fs_state_scheme \<Rightarrow> ('z fs_state_scheme, nat option \<times> 'z fs_state_scheme) res" where
  "namei path s = rbind (namex path False (replicate DIRSIZ 0) s) (\<lambda>((ip, name), s). Ok (ip, s))"

definition nameiparent :: "byte list \<Rightarrow> byte list \<Rightarrow> ('z) fs_state_scheme \<Rightarrow>
    ('z fs_state_scheme, (nat option \<times> byte list) \<times> 'z fs_state_scheme) res" where
  "nameiparent path name s = namex path True name s"

end
