(* ===== verification/File.thy ===== *)
theory File
  imports Fs
begin

text \<open>
  Open files and pipes, src/kernel/file.c and src/kernel/pipe.c. \<open>ftable\<close> are the entries of
  the file table; \<open>pipes\<close> are the pipe structures at their addresses. A pipe occupies the page
  \<open>kalloc\<close> gave for it; its fields are kept apart from the bytes of that page. Calls through the
  device switch go to the console, the only device there is. A pipe's lock is named by its address.
\<close>

abbreviation (input) NFILE :: nat where "NFILE \<equiv> 100"
abbreviation (input) NDEV :: nat where "NDEV \<equiv> 10"
abbreviation (input) PIPESIZE :: nat where "PIPESIZE \<equiv> 512"

datatype ftype = FD_NONE | FD_PIPE | FD_INODE | FD_DEVICE

record file_t =
  f_type :: ftype
  f_ref :: int
  f_readable :: bool
  f_writable :: bool
  f_pipe :: addr
  f_ip :: nat
  f_off :: uint32
  f_major :: uint16

record pipe =
  pi_data :: "byte list"
  pi_nread :: uint32
  pi_nwrite :: uint32
  pi_readopen :: bool
  pi_writeopen :: bool

record file_state = fs_state +
  ftable :: "nat \<Rightarrow> file_t"
  pipes :: "addr \<Rightarrow> pipe"

definition upd_file :: "nat \<Rightarrow> (file_t \<Rightarrow> file_t) \<Rightarrow> ('z) file_state_scheme \<Rightarrow> ('z) file_state_scheme" where
  "upd_file f g s = s\<lparr>ftable := (ftable s)(f := g (ftable s f))\<rparr>"

definition upd_pipe :: "addr \<Rightarrow> (pipe \<Rightarrow> pipe) \<Rightarrow> ('z) file_state_scheme \<Rightarrow> ('z) file_state_scheme" where
  "upd_pipe a g s = s\<lparr>pipes := (pipes s)(a := g (pipes s a))\<rparr>"

subsection \<open>The file table\<close>

definition fileinit :: "('z) machine_scheme \<Rightarrow> ('z) machine_scheme" where
  "fileinit s = initlock FtableLock ''ftable'' s"

definition filealloc :: "('z) file_state_scheme \<Rightarrow> ('z file_state_scheme, nat option \<times> 'z file_state_scheme) res" where
  "filealloc s =
     rbind (acquire FtableLock s) (\<lambda>s.
     case find (\<lambda>f. f_ref (ftable s f) = 0) [0..<NFILE] of
       Some f \<Rightarrow> rbind (release FtableLock (upd_file f (\<lambda>x. x\<lparr>f_ref := 1\<rparr>) s)) (\<lambda>s. Ok (Some f, s))
     | None \<Rightarrow> rbind (release FtableLock s) (\<lambda>s. Ok (None, s)))"

definition filedup :: "nat \<Rightarrow> ('z) file_state_scheme \<Rightarrow> ('z file_state_scheme, nat \<times> 'z file_state_scheme) res" where
  "filedup f s =
     rbind (acquire FtableLock s) (\<lambda>s.
     if f_ref (ftable s f) < 1 then Panic ''filedup''
     else rbind (release FtableLock (upd_file f (\<lambda>x. x\<lparr>f_ref := f_ref x + 1\<rparr>) s)) (\<lambda>s. Ok (f, s)))"

subsection \<open>Pipes\<close>

definition pipeclose :: "addr \<Rightarrow> bool \<Rightarrow> ('z) file_state_scheme \<Rightarrow> ('z file_state_scheme, 'z file_state_scheme) res" where
  "pipeclose a wrt s =
     rbind (acquire (PipeLock a) s) (\<lambda>s.
     rbind (if wrt then wakeup (PipeReadChan a) (upd_pipe a (\<lambda>x. x\<lparr>pi_writeopen := False\<rparr>) s)
            else wakeup (PipeWriteChan a) (upd_pipe a (\<lambda>x. x\<lparr>pi_readopen := False\<rparr>) s)) (\<lambda>s.
     if \<not> pi_readopen (pipes s a) \<and> \<not> pi_writeopen (pipes s a) then
       rbind (release (PipeLock a) s) (\<lambda>s. kfree a s)
     else release (PipeLock a) s))"

definition fileclose :: "nat \<Rightarrow> ('z) file_state_scheme \<Rightarrow> ('z file_state_scheme, 'z file_state_scheme) res" where
  "fileclose f s =
     rbind (acquire FtableLock s) (\<lambda>s.
     if f_ref (ftable s f) < 1 then Panic ''fileclose''
     else (let s = upd_file f (\<lambda>x. x\<lparr>f_ref := f_ref x - 1\<rparr>) s
           in if f_ref (ftable s f) > 0 then release FtableLock s
              else (let ff = ftable s f;
                        s = upd_file f (\<lambda>x. x\<lparr>f_ref := 0, f_type := FD_NONE\<rparr>) s
                    in rbind (release FtableLock s) (\<lambda>s.
                       case f_type ff of
                         FD_PIPE \<Rightarrow> pipeclose (f_pipe ff) (f_writable ff) s
                       | FD_NONE \<Rightarrow> Ok s
                       | _ \<Rightarrow>
                           rbind (begin_op s) (\<lambda>s.
                           rbind (iput (f_ip ff) s) (\<lambda>s. end_op s))))))"

definition pipealloc :: "('z) file_state_scheme \<Rightarrow>
    ('z file_state_scheme, (nat \<times> nat) option \<times> 'z file_state_scheme) res" where
  "pipealloc s =
     rbind (filealloc s) (\<lambda>(f0, s).
     case f0 of
       None \<Rightarrow> Ok (None, s)
     | Some f0 \<Rightarrow>
         rbind (filealloc s) (\<lambda>(f1, s).
         case f1 of
           None \<Rightarrow> rbind (fileclose f0 s) (\<lambda>s. Ok (None, s))
         | Some f1 \<Rightarrow>
             rbind (kalloc s) (\<lambda>(pi, s).
             if pi = 0 then rbind (fileclose f0 s) (\<lambda>s. rbind (fileclose f1 s) (\<lambda>s. Ok (None, s)))
             else
               (let s = upd_pipe pi (\<lambda>x. x\<lparr>pi_readopen := True, pi_writeopen := True, pi_nwrite := 0, pi_nread := 0\<rparr>) s;
                    s = initlock (PipeLock pi) ''pipe'' s;
                    s = upd_file f0 (\<lambda>x. x\<lparr>f_type := FD_PIPE, f_readable := True, f_writable := False, f_pipe := pi\<rparr>) s;
                    s = upd_file f1 (\<lambda>x. x\<lparr>f_type := FD_PIPE, f_readable := False, f_writable := True, f_pipe := pi\<rparr>) s
                in Ok (Some (f0, f1), s)))))"

text \<open>The loops of \<open>pipewrite\<close> and \<open>piperead\<close> run with the lock held; after a \<open>sleep\<close> they run
  again from the same count. The last argument counts the bytes that are left.\<close>

fun pipewrite_loop :: "addr \<Rightarrow> nat \<Rightarrow> uint64 \<Rightarrow> int \<Rightarrow> nat \<Rightarrow> ('z) file_state_scheme \<Rightarrow>
    ('z file_state_scheme, int \<times> 'z file_state_scheme) res" where
  "pipewrite_loop a pr ad i 0 s =
     rbind (wakeup (PipeReadChan a) s) (\<lambda>s. rbind (release (PipeLock a) s) (\<lambda>s. Ok (i, s)))"
| "pipewrite_loop a pr ad i (Suc k) s =
     rbind (if \<not> pi_readopen (pipes s a) then Ok (1, s) else killed pr s) (\<lambda>(stop, s).
     if stop \<noteq> 0 then rbind (release (PipeLock a) s) (\<lambda>s. Ok (-1, s))
     else if pi_nwrite (pipes s a) = pi_nread (pipes s a) + of_nat PIPESIZE then
       rbind (wakeup (PipeReadChan a) s) (\<lambda>s. sleep (PipeWriteChan a) (PipeLock a) s)
     else
       rbind (copyin (p_pagetable (procs s pr)) (ad + of_int i) 1 s) (\<lambda>(r, ch).
       if r = -1 then
         rbind (wakeup (PipeReadChan a) s) (\<lambda>s. rbind (release (PipeLock a) s) (\<lambda>s. Ok (i, s)))
       else
         pipewrite_loop a pr ad (i + 1) k
           (upd_pipe a (\<lambda>x. x\<lparr>pi_data := (pi_data x)[unat (pi_nwrite x) mod PIPESIZE := hd ch],
                              pi_nwrite := pi_nwrite x + 1\<rparr>) s)))"

definition pipewrite :: "addr \<Rightarrow> uint64 \<Rightarrow> int \<Rightarrow> ('z) file_state_scheme \<Rightarrow>
    ('z file_state_scheme, int \<times> 'z file_state_scheme) res" where
  "pipewrite a ad n s =
     rbind (myproc s) (\<lambda>(mp, s). deref mp (\<lambda>pr.
     rbind (acquire (PipeLock a) s) (\<lambda>s. pipewrite_loop a pr ad 0 (nat n) s)))"

fun piperead_copy :: "addr \<Rightarrow> nat \<Rightarrow> uint64 \<Rightarrow> int \<Rightarrow> nat \<Rightarrow> ('z) file_state_scheme \<Rightarrow>
    ('z file_state_scheme, int \<times> 'z file_state_scheme) res" where
  "piperead_copy a pr ad i 0 s = Ok (i, s)"
| "piperead_copy a pr ad i (Suc k) s =
     (if pi_nread (pipes s a) = pi_nwrite (pipes s a) then Ok (i, s)
      else (let ch = pi_data (pipes s a) ! (unat (pi_nread (pipes s a)) mod PIPESIZE);
                s = upd_pipe a (\<lambda>x. x\<lparr>pi_nread := pi_nread x + 1\<rparr>) s
            in rbind (copyout (p_pagetable (procs s pr)) (ad + of_int i) [ch] s) (\<lambda>(r, s).
               if r = -1 then Ok (i, s) else piperead_copy a pr ad (i + 1) k s)))"

definition piperead_loop :: "addr \<Rightarrow> nat \<Rightarrow> uint64 \<Rightarrow> int \<Rightarrow> ('z) file_state_scheme \<Rightarrow>
    ('z file_state_scheme, int \<times> 'z file_state_scheme) res" where
  "piperead_loop a pr ad n s =
     (if pi_nread (pipes s a) = pi_nwrite (pipes s a) \<and> pi_writeopen (pipes s a) then
        rbind (killed pr s) (\<lambda>(k, s).
        if k \<noteq> 0 then rbind (release (PipeLock a) s) (\<lambda>s. Ok (-1, s))
        else sleep (PipeReadChan a) (PipeLock a) s)
      else
        rbind (piperead_copy a pr ad 0 (nat n) s) (\<lambda>(i, s).
        rbind (wakeup (PipeWriteChan a) s) (\<lambda>s.
        rbind (release (PipeLock a) s) (\<lambda>s. Ok (i, s)))))"

definition piperead :: "addr \<Rightarrow> uint64 \<Rightarrow> int \<Rightarrow> ('z) file_state_scheme \<Rightarrow>
    ('z file_state_scheme, int \<times> 'z file_state_scheme) res" where
  "piperead a ad n s =
     rbind (myproc s) (\<lambda>(mp, s). deref mp (\<lambda>pr.
     rbind (acquire (PipeLock a) s) (\<lambda>s. piperead_loop a pr ad n s)))"

subsection \<open>Reading and writing files\<close>

text \<open>struct stat in memory: dev at 0, ino at 4, type at 8, nlink at 10, size at 16.\<close>

definition stat_bytes :: "stat \<Rightarrow> byte list" where
  "stat_bytes st = le_bytes 4 (of_int (st_dev st) :: uint32) @ le_bytes 4 (st_ino st) @ le_bytes 2 (st_type st) @
     le_bytes 2 (st_nlink st) @ replicate 4 0 @ le_bytes 8 (st_size st)"

definition filestat :: "nat \<Rightarrow> uint64 \<Rightarrow> ('z) file_state_scheme \<Rightarrow> ('z file_state_scheme, int \<times> 'z file_state_scheme) res" where
  "filestat f ad s =
     rbind (myproc s) (\<lambda>(mp, s). deref mp (\<lambda>p.
     if f_type (ftable s f) = FD_INODE \<or> f_type (ftable s f) = FD_DEVICE then
       rbind (ilock (Some (f_ip (ftable s f))) s) (\<lambda>s.
       let st = stati (f_ip (ftable s f)) s
       in rbind (iunlock (Some (f_ip (ftable s f))) s) (\<lambda>s.
          rbind (copyout (p_pagetable (procs s p)) ad (stat_bytes st) s) (\<lambda>(r, s).
          if r < 0 then Ok (-1, s) else Ok (0, s))))
     else Ok (-1, s)))"

definition fileread :: "nat \<Rightarrow> uint64 \<Rightarrow> int \<Rightarrow> ('z) file_state_scheme \<Rightarrow> ('z file_state_scheme, int \<times> 'z file_state_scheme) res" where
  "fileread f ad n s =
     (if \<not> f_readable (ftable s f) then Ok (-1, s)
      else case f_type (ftable s f) of
        FD_PIPE \<Rightarrow> piperead (f_pipe (ftable s f)) ad n s
      | FD_DEVICE \<Rightarrow>
          (let mj = f_major (ftable s f)
           in if sint mj < 0 \<or> sint mj \<ge> int NDEV \<or> devsw_read s (unat mj) = None then Ok (-1, s)
              else consoleread True ad n s)
      | FD_INODE \<Rightarrow>
          rbind (ilock (Some (f_ip (ftable s f))) s) (\<lambda>s.
          rbind (readi (f_ip (ftable s f)) (DUser ad) (f_off (ftable s f)) (of_int n) s) (\<lambda>((r, _), s).
          let s = (if r > 0 then upd_file f (\<lambda>x. x\<lparr>f_off := f_off x + of_int r\<rparr>) s else s)
          in rbind (iunlock (Some (f_ip (ftable s f))) s) (\<lambda>s. Ok (r, s))))
      | FD_NONE \<Rightarrow> Panic ''fileread'')"

text \<open>The loop of \<open>filewrite\<close>, with the number of bytes that are left: a piece of at most 3072
  bytes in each transaction.\<close>

function filewrite_loop :: "nat \<Rightarrow> uint64 \<Rightarrow> int \<Rightarrow> nat \<Rightarrow> ('z) file_state_scheme \<Rightarrow>
    ('z file_state_scheme, int \<times> 'z file_state_scheme) res" where
  "filewrite_loop f ad i left s =
     (if left = 0 then Ok (i, s)
      else
        (let n1 = min left 3072
         in rbind (begin_op s) (\<lambda>s.
            rbind (ilock (Some (f_ip (ftable s f))) s) (\<lambda>s.
            rbind (writei (f_ip (ftable s f)) (SUser (ad + of_int i)) (f_off (ftable s f)) (of_nat n1) s) (\<lambda>(r, s).
            let s = (if r > 0 then upd_file f (\<lambda>x. x\<lparr>f_off := f_off x + of_int r\<rparr>) s else s)
            in rbind (iunlock (Some (f_ip (ftable s f))) s) (\<lambda>s.
               rbind (end_op s) (\<lambda>s.
               if r \<noteq> int n1 then Ok (i, s) else filewrite_loop f ad (i + r) (left - n1) s)))))))"
  by pat_completeness auto
termination
  by (relation "measure (\<lambda>(f, ad, i, left, s). left)") simp_all

declare filewrite_loop.simps [simp del]

definition filewrite :: "nat \<Rightarrow> uint64 \<Rightarrow> int \<Rightarrow> ('z) file_state_scheme \<Rightarrow> ('z file_state_scheme, int \<times> 'z file_state_scheme) res" where
  "filewrite f ad n s =
     (if \<not> f_writable (ftable s f) then Ok (-1, s)
      else case f_type (ftable s f) of
        FD_PIPE \<Rightarrow> pipewrite (f_pipe (ftable s f)) ad n s
      | FD_DEVICE \<Rightarrow>
          (let mj = f_major (ftable s f)
           in if sint mj < 0 \<or> sint mj \<ge> int NDEV \<or> devsw_write s (unat mj) = None then Ok (-1, s)
              else consolewrite True ad n s)
      | FD_INODE \<Rightarrow>
          rbind (filewrite_loop f ad 0 (nat n) s) (\<lambda>(i, s). Ok (if i = n then n else -1, s))
      | FD_NONE \<Rightarrow> Panic ''filewrite'')"

end
