(* ===== verification/Process.thy ===== *)
theory Process
  imports File
begin

text \<open>
  The operations of src/kernel/proc.c that use files: the first process, \<open>fork\<close> and \<open>exit\<close>.
  The name of a process is the array of 16 bytes the code has.
\<close>

abbreviation (input) NOFILE :: nat where "NOFILE \<equiv> 16"

definition initcode :: "byte list" where
  "initcode =
    [0x17, 0x05, 0x00, 0x00, 0x13, 0x05, 0x45, 0x02,
     0x97, 0x05, 0x00, 0x00, 0x93, 0x85, 0x35, 0x02,
     0x93, 0x08, 0x70, 0x00, 0x73, 0x00, 0x00, 0x00,
     0x93, 0x08, 0x20, 0x00, 0x73, 0x00, 0x00, 0x00,
     0xef, 0xf0, 0x9f, 0xff, 0x2f, 0x69, 0x6e, 0x69,
     0x74, 0x00, 0x00, 0x24, 0x00, 0x00, 0x00, 0x00,
     0x00, 0x00, 0x00, 0x00]"

text \<open>\<open>safestrcpy(p->name, src, sizeof(p->name))\<close>.\<close>

definition set_name :: "byte list \<Rightarrow> proc \<Rightarrow> proc" where
  "set_name src q = q\<lparr>p_name := blit (p_name q) 0 (safestrcpy_bytes 16 (arr src))\<rparr>"

definition userinit :: "('z) file_state_scheme \<Rightarrow> ('z file_state_scheme, 'z file_state_scheme) res" where
  "userinit s =
     rbind (allocproc s) (\<lambda>(mp, s).
     let s = s\<lparr>initproc := mp\<rparr>
     in deref mp (\<lambda>p.
        rbind (uvmfirst (p_pagetable (procs s p)) initcode s) (\<lambda>s.
        let s = upd_proc p (\<lambda>q. q\<lparr>p_sz := PGSIZE\<rparr>) s;
            s = tf_set p TF_epc 0 s;
            s = tf_set p TF_sp PGSIZE s;
            s = upd_proc p (set_name (ascii ''initcode'')) s
        in rbind (namei (ascii ''/'') s) (\<lambda>(cwd, s).
           let s = upd_proc p (\<lambda>q. q\<lparr>p_cwd := cwd\<rparr>) s;
               s = upd_proc p (\<lambda>q. q\<lparr>p_state := RUNNABLE\<rparr>) s
           in release (ProcLock p) s))))"

fun fork_files :: "nat \<Rightarrow> nat \<Rightarrow> nat list \<Rightarrow> ('z) file_state_scheme \<Rightarrow> ('z file_state_scheme, 'z file_state_scheme) res" where
  "fork_files p np [] s = Ok s"
| "fork_files p np (i # is) s =
     (case p_ofile (procs s p) ! i of
        None \<Rightarrow> fork_files p np is s
      | Some f \<Rightarrow>
          rbind (filedup f s) (\<lambda>(g, s).
          fork_files p np is (upd_proc np (\<lambda>q. q\<lparr>p_ofile := (p_ofile q)[i := Some g]\<rparr>) s)))"

definition fork :: "('z) file_state_scheme \<Rightarrow> ('z file_state_scheme, int \<times> 'z file_state_scheme) res" where
  "fork s =
     rbind (myproc s) (\<lambda>(mp, s). deref mp (\<lambda>p.
     rbind (allocproc s) (\<lambda>(mnp, s).
     case mnp of
       None \<Rightarrow> Ok (-1, s)
     | Some np \<Rightarrow>
         rbind (uvmcopy (p_pagetable (procs s p)) (p_pagetable (procs s np)) (p_sz (procs s p)) s) (\<lambda>(r, s).
         if r < 0 then
           rbind (freeproc np s) (\<lambda>s. rbind (release (ProcLock np) s) (\<lambda>s. Ok (-1, s)))
         else
           (let s = upd_proc np (\<lambda>q. q\<lparr>p_sz := p_sz (procs s p)\<rparr>) s;
                s = s\<lparr>mem := mem_write (mem s) (p_trapframe (procs s np)) (mem_read (mem s) (p_trapframe (procs s p)) 288)\<rparr>;
                s = tf_set np TF_a0 0 s
            in rbind (fork_files p np [0..<NOFILE] s) (\<lambda>s.
               rbind (deref (p_cwd (procs s p)) (\<lambda>c. idup c s)) (\<lambda>(c, s).
               let s = upd_proc np (\<lambda>q. q\<lparr>p_cwd := Some c\<rparr>) s;
                   s = upd_proc np (set_name (p_name (procs s p))) s;
                   pid = p_pid (procs s np)
               in rbind (release (ProcLock np) s) (\<lambda>s.
                  rbind (acquire WaitLock s) (\<lambda>s.
                  rbind (release WaitLock (upd_proc np (\<lambda>q. q\<lparr>p_parent := Some p\<rparr>) s)) (\<lambda>s.
                  rbind (acquire (ProcLock np) s) (\<lambda>s.
                  rbind (release (ProcLock np) (upd_proc np (\<lambda>q. q\<lparr>p_state := RUNNABLE\<rparr>) s)) (\<lambda>s.
                  Ok (pid, s)))))))))))))"

fun exit_files :: "nat \<Rightarrow> nat list \<Rightarrow> ('z) file_state_scheme \<Rightarrow> ('z file_state_scheme, 'z file_state_scheme) res" where
  "exit_files p [] s = Ok s"
| "exit_files p (fd # fds) s =
     (case p_ofile (procs s p) ! fd of
        None \<Rightarrow> exit_files p fds s
      | Some f \<Rightarrow>
          rbind (fileclose f s) (\<lambda>s.
          exit_files p fds (upd_proc p (\<lambda>q. q\<lparr>p_ofile := (p_ofile q)[fd := None]\<rparr>) s)))"

text \<open>\<open>exit\<close> does not return: it ends in \<open>sched\<close>, whose outcome is \<open>Slept\<close>. Nothing sleeps on a
  null pointer, so that waking the parent of a process without one has no effect.\<close>

definition exit :: "int \<Rightarrow> ('z) file_state_scheme \<Rightarrow> ('z file_state_scheme, 'a) res" where
  "exit status s =
     rbind (myproc s) (\<lambda>(mp, s). deref mp (\<lambda>p.
     if initproc s = Some p then Panic ''init exiting''
     else
       rbind (exit_files p [0..<NOFILE] s) (\<lambda>s.
       rbind (begin_op s) (\<lambda>s.
       rbind (deref (p_cwd (procs s p)) (\<lambda>c. iput c s)) (\<lambda>s.
       rbind (end_op s) (\<lambda>s.
       let s = upd_proc p (\<lambda>q. q\<lparr>p_cwd := None\<rparr>) s
       in rbind (acquire WaitLock s) (\<lambda>s.
          rbind (reparent p s) (\<lambda>s.
          rbind (case p_parent (procs s p) of Some q \<Rightarrow> wakeup (ProcChan q) s | None \<Rightarrow> Ok s) (\<lambda>s.
          rbind (acquire (ProcLock p) s) (\<lambda>s.
          let s = upd_proc p (\<lambda>q. q\<lparr>p_xstate := status\<rparr>) s;
              s = upd_proc p (\<lambda>q. q\<lparr>p_state := ZOMBIE\<rparr>) s
          in rbind (release WaitLock s) (\<lambda>s.
             rbind (sched s) (\<lambda>_. Panic ''zombie exit''))))))))))))"

end
