(* ===== verification/Sysarg.thy ===== *)
theory Sysarg
  imports Process
begin

text \<open>
  The arguments of system calls: the first half of src/kernel/syscall.c, and the descriptors of
  src/kernel/sysfile.c. \<open>fetchstr\<close> returns its result and the bytes it has stored in the buffer,
  the terminator included.
\<close>

abbreviation (input) MAXPATH :: nat where "MAXPATH \<equiv> 128"

definition fetchaddr :: "uint64 \<Rightarrow> ('z) proc_state_scheme \<Rightarrow> ('z proc_state_scheme, (int \<times> uint64) \<times> 'z proc_state_scheme) res" where
  "fetchaddr ad s =
     rbind (myproc s) (\<lambda>(mp, s). deref mp (\<lambda>p.
     if ad \<ge> p_sz (procs s p) \<or> ad + 8 > p_sz (procs s p) then Ok ((-1, 0), s)
     else rbind (copyin (p_pagetable (procs s p)) ad 8 s) (\<lambda>(r, bs).
          if r \<noteq> 0 then Ok ((-1, 0), s) else Ok ((0, le_word bs), s))))"

definition fetchstr :: "uint64 \<Rightarrow> nat \<Rightarrow> ('z) proc_state_scheme \<Rightarrow> ('z proc_state_scheme, (int \<times> byte list) \<times> 'z proc_state_scheme) res" where
  "fetchstr ad mx s =
     rbind (myproc s) (\<lambda>(mp, s). deref mp (\<lambda>p.
     rbind (copyinstr (p_pagetable (procs s p)) ad mx s) (\<lambda>(r, bs).
     if r < 0 then Ok ((-1, bs), s) else Ok ((int (length (takeWhile (\<lambda>b. b \<noteq> 0) bs)), bs), s))))"

definition argraw :: "nat \<Rightarrow> ('z) proc_state_scheme \<Rightarrow> ('z proc_state_scheme, uint64 \<times> 'z proc_state_scheme) res" where
  "argraw n s =
     rbind (myproc s) (\<lambda>(mp, s). deref mp (\<lambda>p.
     if n < 6 then Ok (tf_get p (TF_a0 + of_nat (8 * n)) s, s) else Panic ''argraw''))"

text \<open>An int is the low 32 bits of the register, signed.\<close>

definition argint :: "nat \<Rightarrow> ('z) proc_state_scheme \<Rightarrow> ('z proc_state_scheme, int \<times> 'z proc_state_scheme) res" where
  "argint n s = rbind (argraw n s) (\<lambda>(v, s). Ok (sint (ucast v :: uint32), s))"

definition argaddr :: "nat \<Rightarrow> ('z) proc_state_scheme \<Rightarrow> ('z proc_state_scheme, uint64 \<times> 'z proc_state_scheme) res" where
  "argaddr n s = argraw n s"

text \<open>The second component is the string without its terminator.\<close>

definition argstr :: "nat \<Rightarrow> nat \<Rightarrow> ('z) proc_state_scheme \<Rightarrow> ('z proc_state_scheme, (int \<times> byte list) \<times> 'z proc_state_scheme) res" where
  "argstr n mx s =
     rbind (argaddr n s) (\<lambda>(ad, s).
     rbind (fetchstr ad mx s) (\<lambda>((r, bs), s). Ok ((r, takeWhile (\<lambda>b. b \<noteq> 0) bs), s)))"

text \<open>\<open>argfd\<close> returns the descriptor and the file, \<open>None\<close> for -1.\<close>

definition argfd :: "nat \<Rightarrow> ('z) proc_state_scheme \<Rightarrow> ('z proc_state_scheme, (nat \<times> nat) option \<times> 'z proc_state_scheme) res" where
  "argfd n s =
     rbind (argint n s) (\<lambda>(fd, s).
     if fd < 0 \<or> fd \<ge> int NOFILE then Ok (None, s)
     else rbind (myproc s) (\<lambda>(mp, s). deref mp (\<lambda>p.
          case p_ofile (procs s p) ! nat fd of
            None \<Rightarrow> Ok (None, s)
          | Some f \<Rightarrow> Ok (Some (nat fd, f), s))))"

definition fdalloc :: "nat \<Rightarrow> ('z) proc_state_scheme \<Rightarrow> ('z proc_state_scheme, int \<times> 'z proc_state_scheme) res" where
  "fdalloc f s =
     rbind (myproc s) (\<lambda>(mp, s). deref mp (\<lambda>p.
     case find (\<lambda>fd. p_ofile (procs s p) ! fd = None) [0..<NOFILE] of
       None \<Rightarrow> Ok (-1, s)
     | Some fd \<Rightarrow> Ok (int fd, upd_proc p (\<lambda>q. q\<lparr>p_ofile := (p_ofile q)[fd := Some f]\<rparr>) s)))"

end
