(* ===== verification/Exec.thy ===== *)
theory Exec
  imports Process
begin

text \<open>
  Running a program, src/kernel/exec.c with the file format of src/kernel/elf.h. The headers are
  the bytes \<open>readi\<close> delivers, read at the offsets of the fields of the structures. \<open>argv\<close> are the
  non-null pointers before the terminator of the array; the strings are in kernel memory.
\<close>

abbreviation (input) MAXARG :: nat where "MAXARG \<equiv> 32"
abbreviation (input) ELF_MAGIC :: uint32 where "ELF_MAGIC \<equiv> 0x464C457F"
abbreviation (input) ELF_PROG_LOAD :: uint32 where "ELF_PROG_LOAD \<equiv> 1"

definition get64 :: "byte list \<Rightarrow> nat \<Rightarrow> uint64" where
  "get64 xs i = le_word (slice xs i 8)"

record elfhdr =
  e_magic :: uint32
  e_entry :: uint64
  e_phoff :: uint64
  e_phnum :: uint16

record proghdr =
  ph_type :: uint32
  ph_flags :: uint32
  ph_off :: uint64
  ph_vaddr :: uint64
  ph_filesz :: uint64
  ph_memsz :: uint64

definition elfhdr_of :: "byte list \<Rightarrow> elfhdr" where
  "elfhdr_of xs = \<lparr>e_magic = get32 xs 0, e_entry = get64 xs 24, e_phoff = get64 xs 32, e_phnum = get16 xs 56\<rparr>"

definition proghdr_of :: "byte list \<Rightarrow> proghdr" where
  "proghdr_of xs = \<lparr>ph_type = get32 xs 0, ph_flags = get32 xs 4, ph_off = get64 xs 8, ph_vaddr = get64 xs 16,
     ph_filesz = get64 xs 32, ph_memsz = get64 xs 40\<rparr>"

definition flags2perm :: "uint32 \<Rightarrow> uint64" where
  "flags2perm flags =
     (let perm = (if flags AND 1 \<noteq> 0 then PTE_X else 0)
      in if flags AND 2 \<noteq> 0 then perm OR PTE_W else perm)"

text \<open>The loop of \<open>loadseg\<close>. The first argument counts the pages of the segment; \<open>i\<close> wraps round
  past the last page only when the segment reaches the end of the 32-bit range, and then the loop
  of the code starts again at 0 and never ends.\<close>

fun loadseg_loop :: "nat \<Rightarrow> addr \<Rightarrow> uint64 \<Rightarrow> nat \<Rightarrow> uint32 \<Rightarrow> uint32 \<Rightarrow> uint32 \<Rightarrow> ('z) file_state_scheme \<Rightarrow>
    ('z file_state_scheme, int \<times> 'z file_state_scheme) res" where
  "loadseg_loop 0 pagetable va ip offset sz i s = (if i < sz then Spin else Ok (0, s))"
| "loadseg_loop (Suc k) pagetable va ip offset sz i s =
     (if i < sz then
        rbind (walkaddr pagetable (va + ucast i) s) (\<lambda>pa.
        if pa = 0 then Panic ''loadseg: address should exist''
        else (let n = (if sz - i < 4096 then sz - i else 4096)
              in rbind (readi ip (DKernel pa) (offset + i) n s) (\<lambda>((r, _), s).
                 if r \<noteq> int (unat n) then Ok (-1, s)
                 else loadseg_loop k pagetable va ip offset sz (i + 4096) s)))
      else Ok (0, s))"

definition loadseg :: "addr \<Rightarrow> uint64 \<Rightarrow> nat \<Rightarrow> uint32 \<Rightarrow> uint32 \<Rightarrow> ('z) file_state_scheme \<Rightarrow>
    ('z file_state_scheme, int \<times> 'z file_state_scheme) res" where
  "loadseg pagetable va ip offset sz s = loadseg_loop ((unat sz + 4095) div 4096) pagetable va ip offset sz 0 s"

text \<open>The loop over the program headers: whether every segment was loaded, and the size of the
  image so far.\<close>

fun exec_load :: "nat \<Rightarrow> addr \<Rightarrow> nat \<Rightarrow> uint32 \<Rightarrow> uint64 \<Rightarrow> ('z) file_state_scheme \<Rightarrow>
    ('z file_state_scheme, (bool \<times> uint64) \<times> 'z file_state_scheme) res" where
  "exec_load ip pagetable 0 off sz s = Ok ((True, sz), s)"
| "exec_load ip pagetable (Suc k) off sz s =
     rbind (readi ip DLocal off 56 s) (\<lambda>((r, bs), s).
     let ph = proghdr_of bs
     in if r \<noteq> 56 then Ok ((False, sz), s)
        else if ph_type ph \<noteq> ELF_PROG_LOAD then exec_load ip pagetable k (off + 56) sz s
        else if ph_memsz ph < ph_filesz ph then Ok ((False, sz), s)
        else if ph_vaddr ph + ph_memsz ph < ph_vaddr ph then Ok ((False, sz), s)
        else if ph_vaddr ph mod PGSIZE \<noteq> 0 then Ok ((False, sz), s)
        else
          rbind (uvmalloc pagetable sz (ph_vaddr ph + ph_memsz ph) (flags2perm (ph_flags ph)) s) (\<lambda>(sz1, s).
          if sz1 = 0 then Ok ((False, sz), s)
          else
            rbind (loadseg pagetable (ph_vaddr ph) ip (ucast (ph_off ph)) (ucast (ph_filesz ph)) s) (\<lambda>(r, s).
            if r < 0 then Ok ((False, sz1), s)
            else exec_load ip pagetable k (off + 56) sz1 s)))"

text \<open>Pushing the argument strings: the new stack pointer and the addresses of the strings, or
  nothing when one does not fit.\<close>

fun exec_args :: "addr \<Rightarrow> uint64 \<Rightarrow> nat \<Rightarrow> addr list \<Rightarrow> uint64 \<Rightarrow> uint64 list \<Rightarrow> ('z) file_state_scheme \<Rightarrow>
    ('z file_state_scheme, (uint64 \<times> uint64 list) option \<times> 'z file_state_scheme) res" where
  "exec_args pagetable stackbase argc [] sp ustack s = Ok (Some (sp, ustack), s)"
| "exec_args pagetable stackbase argc (a # argv) sp ustack s =
     (if argc \<ge> MAXARG then Ok (None, s)
      else case strlen (ptr (mem s) a) of
        None \<Rightarrow> Spin
      | Some len \<Rightarrow>
          (let sp = sp - of_nat (len + 1);
               sp = sp - sp mod 16
           in if sp < stackbase then Ok (None, s)
              else rbind (copyout pagetable sp (mem_read (mem s) a (len + 1)) s) (\<lambda>(r, s).
                   if r < 0 then Ok (None, s)
                   else exec_args pagetable stackbase (argc + 1) argv sp (ustack @ [sp]) s)))"

definition last_elem :: "byte list \<Rightarrow> byte list" where
  "last_elem path = rev (takeWhile (\<lambda>c. c \<noteq> slash) (rev path))"

text \<open>The label \<open>bad\<close>.\<close>

definition exec_bad :: "addr \<Rightarrow> uint64 \<Rightarrow> nat option \<Rightarrow> ('z) file_state_scheme \<Rightarrow>
    ('z file_state_scheme, int \<times> 'z file_state_scheme) res" where
  "exec_bad pagetable sz mip s =
     rbind (if pagetable \<noteq> 0 then proc_freepagetable pagetable sz s else Ok s) (\<lambda>s.
     rbind (case mip of Some ip \<Rightarrow> rbind (iunlockput ip s) (\<lambda>s. end_op s) | None \<Rightarrow> Ok s) (\<lambda>s.
     Ok (-1, s)))"

text \<open>The second half of \<open>exec\<close>: the user stack, then the new image.\<close>

definition exec_commit :: "byte list \<Rightarrow> elfhdr \<Rightarrow> addr \<Rightarrow> uint64 \<Rightarrow> uint64 \<Rightarrow> uint64 \<Rightarrow> nat \<Rightarrow> nat \<Rightarrow> ('z) file_state_scheme \<Rightarrow>
    ('z file_state_scheme, int \<times> 'z file_state_scheme) res" where
  "exec_commit path elf pagetable sz oldsz sp argc p s =
     (let s = tf_set p TF_a1 sp s;
          s = upd_proc p (set_name (last_elem path)) s;
          oldpagetable = p_pagetable (procs s p);
          s = upd_proc p (\<lambda>q. q\<lparr>p_pagetable := pagetable\<rparr>) s;
          s = upd_proc p (\<lambda>q. q\<lparr>p_sz := sz\<rparr>) s;
          s = tf_set p TF_epc (e_entry elf) s;
          s = tf_set p TF_sp sp s
      in rbind (proc_freepagetable oldpagetable oldsz s) (\<lambda>s. Ok (int argc, s)))"

definition exec_stack :: "byte list \<Rightarrow> addr list \<Rightarrow> elfhdr \<Rightarrow> addr \<Rightarrow> uint64 \<Rightarrow> nat \<Rightarrow> ('z) file_state_scheme \<Rightarrow>
    ('z file_state_scheme, int \<times> 'z file_state_scheme) res" where
  "exec_stack path argv elf pagetable sz p s =
     (let oldsz = p_sz (procs s p);
          sz = PGROUNDUP sz
      in rbind (uvmalloc pagetable sz (sz + 2 * PGSIZE) PTE_W s) (\<lambda>(sz1, s).
         if sz1 = 0 then exec_bad pagetable sz None s
         else
           rbind (uvmclear pagetable (sz1 - 2 * PGSIZE) s) (\<lambda>s.
           let stackbase = sz1 - PGSIZE
           in rbind (exec_args pagetable stackbase 0 argv sz1 [] s) (\<lambda>(pushed, s).
              case pushed of
                None \<Rightarrow> exec_bad pagetable sz1 None s
              | Some (sp, ustack) \<Rightarrow>
                  (let argc = length argv;
                       sp = sp - of_nat ((argc + 1) * 8);
                       sp = sp - sp mod 16
                   in if sp < stackbase then exec_bad pagetable sz1 None s
                      else
                        rbind (copyout pagetable sp (concat (map (le_bytes 8) (ustack @ [0]))) s) (\<lambda>(r, s).
                        if r < 0 then exec_bad pagetable sz1 None s
                        else exec_commit path elf pagetable sz1 oldsz sp argc p s))))))"

definition exec :: "byte list \<Rightarrow> addr list \<Rightarrow> ('z) file_state_scheme \<Rightarrow> ('z file_state_scheme, int \<times> 'z file_state_scheme) res" where
  "exec path argv s =
     rbind (myproc s) (\<lambda>(mp, s). deref mp (\<lambda>p.
     rbind (begin_op s) (\<lambda>s.
     rbind (namei path s) (\<lambda>(mip, s).
     case mip of
       None \<Rightarrow> rbind (end_op s) (\<lambda>s. Ok (-1, s))
     | Some ip \<Rightarrow>
         rbind (ilock (Some ip) s) (\<lambda>s.
         rbind (readi ip DLocal 0 64 s) (\<lambda>((r, bs), s).
         let elf = elfhdr_of bs
         in if r \<noteq> 64 then exec_bad 0 0 (Some ip) s
            else if e_magic elf \<noteq> ELF_MAGIC then exec_bad 0 0 (Some ip) s
            else
              rbind (proc_pagetable p s) (\<lambda>(pagetable, s).
              if pagetable = 0 then exec_bad 0 0 (Some ip) s
              else
                rbind (exec_load ip pagetable (unat (e_phnum elf)) (ucast (e_phoff elf)) 0 s) (\<lambda>((ok, sz), s).
                if \<not> ok then exec_bad pagetable sz (Some ip) s
                else
                  rbind (iunlockput ip s) (\<lambda>s.
                  rbind (end_op s) (\<lambda>s.
                  rbind (myproc s) (\<lambda>(mp, s). deref mp (\<lambda>p.
                  exec_stack path argv elf pagetable sz p s))))))))))))"

end
