(* ===== verification/Sysfile.thy ===== *)
theory Sysfile
  imports Sysarg Exec
begin

text \<open>
  The system calls on files, src/kernel/sysfile.c. Every call returns the 64-bit value that goes
  into the register a0. The three steps of many error paths - give the inode back, end the
  transaction, return -1 - are \<open>put_fail\<close>.
\<close>

abbreviation (input) O_RDONLY :: int where "O_RDONLY \<equiv> 0"
abbreviation (input) O_WRONLY :: int where "O_WRONLY \<equiv> 1"
abbreviation (input) O_RDWR :: int where "O_RDWR \<equiv> 2"
abbreviation (input) O_CREATE :: int where "O_CREATE \<equiv> 0x200"
abbreviation (input) O_TRUNC :: int where "O_TRUNC \<equiv> 0x400"

type_synonym 'z sysret = "('z file_state_scheme, uint64 \<times> 'z file_state_scheme) res"

definition end_fail :: "('z) file_state_scheme \<Rightarrow> 'z sysret" where
  "end_fail s = rbind (end_op s) (\<lambda>s. Ok (-1, s))"

definition put_fail :: "nat \<Rightarrow> ('z) file_state_scheme \<Rightarrow> 'z sysret" where
  "put_fail ip s = rbind (iunlockput ip s) (\<lambda>s. end_fail s)"

text \<open>Truth of \<open>omode & flag\<close>.\<close>

definition has_mode :: "int \<Rightarrow> int \<Rightarrow> bool" where
  "has_mode omode flag \<longleftrightarrow> omode AND flag \<noteq> 0"

subsection \<open>Calls on descriptors\<close>

definition sys_dup :: "('z) file_state_scheme \<Rightarrow> 'z sysret" where
  "sys_dup s =
     rbind (argfd 0 s) (\<lambda>(r, s).
     case r of
       None \<Rightarrow> Ok (-1, s)
     | Some (_, f) \<Rightarrow>
         rbind (fdalloc f s) (\<lambda>(fd, s).
         if fd < 0 then Ok (-1, s)
         else rbind (filedup f s) (\<lambda>(_, s). Ok (of_int fd, s))))"

definition sys_read :: "('z) file_state_scheme \<Rightarrow> 'z sysret" where
  "sys_read s =
     rbind (argaddr 1 s) (\<lambda>(p, s).
     rbind (argint 2 s) (\<lambda>(n, s).
     rbind (argfd 0 s) (\<lambda>(r, s).
     case r of
       None \<Rightarrow> Ok (-1, s)
     | Some (_, f) \<Rightarrow> rbind (fileread f p n s) (\<lambda>(v, s). Ok (of_int v, s)))))"

definition sys_write :: "('z) file_state_scheme \<Rightarrow> 'z sysret" where
  "sys_write s =
     rbind (argaddr 1 s) (\<lambda>(p, s).
     rbind (argint 2 s) (\<lambda>(n, s).
     rbind (argfd 0 s) (\<lambda>(r, s).
     case r of
       None \<Rightarrow> Ok (-1, s)
     | Some (_, f) \<Rightarrow> rbind (filewrite f p n s) (\<lambda>(v, s). Ok (of_int v, s)))))"

definition sys_close :: "('z) file_state_scheme \<Rightarrow> 'z sysret" where
  "sys_close s =
     rbind (argfd 0 s) (\<lambda>(r, s).
     case r of
       None \<Rightarrow> Ok (-1, s)
     | Some (fd, f) \<Rightarrow>
         rbind (myproc s) (\<lambda>(mp, s). deref mp (\<lambda>p.
         rbind (fileclose f (upd_proc p (\<lambda>q. q\<lparr>p_ofile := (p_ofile q)[fd := None]\<rparr>) s)) (\<lambda>s. Ok (0, s)))))"

definition sys_fstat :: "('z) file_state_scheme \<Rightarrow> 'z sysret" where
  "sys_fstat s =
     rbind (argaddr 1 s) (\<lambda>(st, s).
     rbind (argfd 0 s) (\<lambda>(r, s).
     case r of
       None \<Rightarrow> Ok (-1, s)
     | Some (_, f) \<Rightarrow> rbind (filestat f st s) (\<lambda>(v, s). Ok (of_int v, s))))"

subsection \<open>Names\<close>

definition link_bad :: "nat \<Rightarrow> ('z) file_state_scheme \<Rightarrow> 'z sysret" where
  "link_bad ip s =
     rbind (ilock (Some ip) s) (\<lambda>s.
     rbind (iupdate ip (upd_ino ip (\<lambda>i. i\<lparr>i_nlink := i_nlink i - 1\<rparr>) s)) (\<lambda>s.
     put_fail ip s))"

definition sys_link :: "('z) file_state_scheme \<Rightarrow> 'z sysret" where
  "sys_link s =
     rbind (argstr 0 MAXPATH s) (\<lambda>((r, old), s).
     if r < 0 then Ok (-1, s)
     else rbind (argstr 1 MAXPATH s) (\<lambda>((r, new), s).
     if r < 0 then Ok (-1, s)
     else rbind (begin_op s) (\<lambda>s.
     rbind (namei old s) (\<lambda>(mip, s).
     case mip of
       None \<Rightarrow> end_fail s
     | Some ip \<Rightarrow>
         rbind (ilock (Some ip) s) (\<lambda>s.
         if i_type (itable s ip) = T_DIR then put_fail ip s
         else
           rbind (iupdate ip (upd_ino ip (\<lambda>i. i\<lparr>i_nlink := i_nlink i + 1\<rparr>) s)) (\<lambda>s.
           rbind (iunlock (Some ip) s) (\<lambda>s.
           rbind (nameiparent new (replicate DIRSIZ 0) s) (\<lambda>((mdp, name), s).
           case mdp of
             None \<Rightarrow> link_bad ip s
           | Some dp \<Rightarrow>
               rbind (ilock (Some dp) s) (\<lambda>s.
               rbind (if i_dev (itable s dp) \<noteq> i_dev (itable s ip) then Ok (-1, s)
                      else dirlink dp name (i_inum (itable s ip)) s) (\<lambda>(r, s).
               if r < 0 then rbind (iunlockput dp s) (\<lambda>s. link_bad ip s)
               else
                 rbind (iunlockput dp s) (\<lambda>s.
                 rbind (iput ip s) (\<lambda>s.
                 rbind (end_op s) (\<lambda>s. Ok (0, s))))))))))))))"

fun isdirempty_loop :: "nat \<Rightarrow> uint32 list \<Rightarrow> ('z) fs_state_scheme \<Rightarrow> ('z fs_state_scheme, bool \<times> 'z fs_state_scheme) res" where
  "isdirempty_loop dp [] s = Ok (True, s)"
| "isdirempty_loop dp (off # offs) s =
     rbind (readi dp DLocal off 16 s) (\<lambda>((r, de), s).
     if r \<noteq> 16 then Panic ''isdirempty: readi''
     else if dirent_inum de \<noteq> 0 then Ok (False, s)
     else isdirempty_loop dp offs s)"

text \<open>From the third entry on.\<close>

definition isdirempty :: "nat \<Rightarrow> ('z) fs_state_scheme \<Rightarrow> ('z fs_state_scheme, bool \<times> 'z fs_state_scheme) res" where
  "isdirempty dp s = isdirempty_loop dp (drop 2 (dir_offs (i_size (itable s dp)))) s"

text \<open>The part of \<open>sys_unlink\<close> that removes the entry, both inodes locked.\<close>

definition unlink_entry :: "nat \<Rightarrow> nat \<Rightarrow> uint32 \<Rightarrow> ('z) file_state_scheme \<Rightarrow> 'z sysret" where
  "unlink_entry dp ip off s =
     rbind (writei dp (SLocal (replicate 16 0)) off 16 s) (\<lambda>(r, s).
     if r \<noteq> 16 then Panic ''unlink: writei''
     else
       rbind (if i_type (itable s ip) = T_DIR
              then iupdate dp (upd_ino dp (\<lambda>i. i\<lparr>i_nlink := i_nlink i - 1\<rparr>) s)
              else Ok s) (\<lambda>s.
       rbind (iunlockput dp s) (\<lambda>s.
       rbind (iupdate ip (upd_ino ip (\<lambda>i. i\<lparr>i_nlink := i_nlink i - 1\<rparr>) s)) (\<lambda>s.
       rbind (iunlockput ip s) (\<lambda>s.
       rbind (end_op s) (\<lambda>s. Ok (0, s)))))))"

definition sys_unlink :: "('z) file_state_scheme \<Rightarrow> 'z sysret" where
  "sys_unlink s =
     rbind (argstr 0 MAXPATH s) (\<lambda>((r, path), s).
     if r < 0 then Ok (-1, s)
     else rbind (begin_op s) (\<lambda>s.
     rbind (nameiparent path (replicate DIRSIZ 0) s) (\<lambda>((mdp, name), s).
     case mdp of
       None \<Rightarrow> end_fail s
     | Some dp \<Rightarrow>
         rbind (ilock (Some dp) s) (\<lambda>s.
         if namecmp name (ascii ''.'') = 0 \<or> namecmp name (ascii ''..'') = 0 then put_fail dp s
         else
           rbind (dirlookup dp name s) (\<lambda>(found, s).
           case found of
             None \<Rightarrow> put_fail dp s
           | Some (ip, off) \<Rightarrow>
               rbind (ilock (Some ip) s) (\<lambda>s.
               if sint (i_nlink (itable s ip)) < 1 then Panic ''unlink: nlink < 1''
               else
                 rbind (if i_type (itable s ip) = T_DIR then isdirempty ip s else Ok (True, s)) (\<lambda>(em, s).
                 if \<not> em then rbind (iunlockput ip s) (\<lambda>s. put_fail dp s)
                 else unlink_entry dp ip off s)))))))"

subsection \<open>Creating and opening\<close>

definition create_fail :: "nat \<Rightarrow> nat \<Rightarrow> ('z) fs_state_scheme \<Rightarrow> ('z fs_state_scheme, nat option \<times> 'z fs_state_scheme) res" where
  "create_fail ip dp s =
     rbind (iupdate ip (upd_ino ip (\<lambda>i. i\<lparr>i_nlink := 0\<rparr>) s)) (\<lambda>s.
     rbind (iunlockput ip s) (\<lambda>s.
     rbind (iunlockput dp s) (\<lambda>s. Ok (None, s))))"

text \<open>The entries of a new inode: \<open>.\<close> and \<open>..\<close> of a directory, then its name in the parent.\<close>

definition create_link :: "byte list \<Rightarrow> uint16 \<Rightarrow> nat \<Rightarrow> nat \<Rightarrow> ('z) fs_state_scheme \<Rightarrow> ('z fs_state_scheme, nat option \<times> 'z fs_state_scheme) res" where
  "create_link name ty ip dp s =
     rbind (if ty = T_DIR then
              rbind (dirlink ip (ascii ''.'') (i_inum (itable s ip)) s) (\<lambda>(r, s).
              if r < 0 then Ok (-1, s) else dirlink ip (ascii ''..'') (i_inum (itable s dp)) s)
            else Ok (0, s)) (\<lambda>(r, s).
     if r < 0 then create_fail ip dp s
     else
       rbind (dirlink dp name (i_inum (itable s ip)) s) (\<lambda>(r, s).
       if r < 0 then create_fail ip dp s
       else
         rbind (if ty = T_DIR
                then iupdate dp (upd_ino dp (\<lambda>i. i\<lparr>i_nlink := i_nlink i + 1\<rparr>) s)
                else Ok s) (\<lambda>s.
         rbind (iunlockput dp s) (\<lambda>s. Ok (Some ip, s)))))"

definition create :: "byte list \<Rightarrow> uint16 \<Rightarrow> uint16 \<Rightarrow> uint16 \<Rightarrow> ('z) fs_state_scheme \<Rightarrow> ('z fs_state_scheme, nat option \<times> 'z fs_state_scheme) res" where
  "create path ty maj mnr s =
     rbind (nameiparent path (replicate DIRSIZ 0) s) (\<lambda>((mdp, name), s).
     case mdp of
       None \<Rightarrow> Ok (None, s)
     | Some dp \<Rightarrow>
         rbind (ilock (Some dp) s) (\<lambda>s.
         rbind (dirlookup dp name s) (\<lambda>(found, s).
         case found of
           Some (ip, _) \<Rightarrow>
             rbind (iunlockput dp s) (\<lambda>s.
             rbind (ilock (Some ip) s) (\<lambda>s.
             if ty = T_FILE \<and> (i_type (itable s ip) = T_FILE \<or> i_type (itable s ip) = T_DEVICE) then Ok (Some ip, s)
             else rbind (iunlockput ip s) (\<lambda>s. Ok (None, s))))
         | None \<Rightarrow>
             rbind (ialloc (i_dev (itable s dp)) ty s) (\<lambda>(mip, s).
             case mip of
               None \<Rightarrow> rbind (iunlockput dp s) (\<lambda>s. Ok (None, s))
             | Some ip \<Rightarrow>
                 rbind (ilock (Some ip) s) (\<lambda>s.
                 rbind (iupdate ip (upd_ino ip (\<lambda>i. i\<lparr>i_major := maj, i_minor := mnr, i_nlink := 1\<rparr>) s)) (\<lambda>s.
                 create_link name ty ip dp s))))))"

text \<open>The part of \<open>sys_open\<close> that fills in the file, with the inode locked.\<close>

definition open_file :: "int \<Rightarrow> nat \<Rightarrow> nat \<Rightarrow> int \<Rightarrow> ('z) file_state_scheme \<Rightarrow> 'z sysret" where
  "open_file omode ip f fd s =
     (let s = (if i_type (itable s ip) = T_DEVICE
               then upd_file f (\<lambda>x. x\<lparr>f_type := FD_DEVICE, f_major := i_major (itable s ip)\<rparr>) s
               else upd_file f (\<lambda>x. x\<lparr>f_type := FD_INODE, f_off := 0\<rparr>) s);
          s = upd_file f (\<lambda>x. x\<lparr>f_ip := ip, f_readable := \<not> has_mode omode O_WRONLY,
                                f_writable := has_mode omode O_WRONLY \<or> has_mode omode O_RDWR\<rparr>) s
      in rbind (if has_mode omode O_TRUNC \<and> i_type (itable s ip) = T_FILE then itrunc ip s else Ok s) (\<lambda>s.
         rbind (iunlock (Some ip) s) (\<lambda>s.
         rbind (end_op s) (\<lambda>s. Ok (of_int fd, s)))))"

text \<open>The inode to open, locked; \<open>None\<close> when there is none, with the transaction ended.\<close>

definition open_inode :: "byte list \<Rightarrow> int \<Rightarrow> ('z) file_state_scheme \<Rightarrow> ('z file_state_scheme, nat option \<times> 'z file_state_scheme) res" where
  "open_inode path omode s =
     (if has_mode omode O_CREATE then
        rbind (create path T_FILE 0 0 s) (\<lambda>(mip, s).
        case mip of
          None \<Rightarrow> rbind (end_op s) (\<lambda>s. Ok (None, s))
        | Some ip \<Rightarrow> Ok (Some ip, s))
      else
        rbind (namei path s) (\<lambda>(mip, s).
        case mip of
          None \<Rightarrow> rbind (end_op s) (\<lambda>s. Ok (None, s))
        | Some ip \<Rightarrow>
            rbind (ilock (Some ip) s) (\<lambda>s.
            if i_type (itable s ip) = T_DIR \<and> omode \<noteq> O_RDONLY
            then rbind (iunlockput ip s) (\<lambda>s. rbind (end_op s) (\<lambda>s. Ok (None, s)))
            else Ok (Some ip, s))))"

definition sys_open :: "('z) file_state_scheme \<Rightarrow> 'z sysret" where
  "sys_open s =
     rbind (argint 1 s) (\<lambda>(omode, s).
     rbind (argstr 0 MAXPATH s) (\<lambda>((n, path), s).
     if n < 0 then Ok (-1, s)
     else rbind (begin_op s) (\<lambda>s.
     rbind (open_inode path omode s) (\<lambda>(mip, s).
     case mip of
       None \<Rightarrow> Ok (-1, s)
     | Some ip \<Rightarrow>
         if i_type (itable s ip) = T_DEVICE \<and> (sint (i_major (itable s ip)) < 0 \<or> sint (i_major (itable s ip)) \<ge> int NDEV)
         then put_fail ip s
         else
           rbind (filealloc s) (\<lambda>(mf, s).
           case mf of
             None \<Rightarrow> put_fail ip s
           | Some f \<Rightarrow>
               rbind (fdalloc f s) (\<lambda>(fd, s).
               if fd < 0 then rbind (fileclose f s) (\<lambda>s. put_fail ip s)
               else open_file omode ip f fd s))))))"

definition sys_mkdir :: "('z) file_state_scheme \<Rightarrow> 'z sysret" where
  "sys_mkdir s =
     rbind (begin_op s) (\<lambda>s.
     rbind (argstr 0 MAXPATH s) (\<lambda>((r, path), s).
     if r < 0 then end_fail s
     else rbind (create path T_DIR 0 0 s) (\<lambda>(mip, s).
          case mip of
            None \<Rightarrow> end_fail s
          | Some ip \<Rightarrow> rbind (iunlockput ip s) (\<lambda>s. rbind (end_op s) (\<lambda>s. Ok (0, s))))))"

definition sys_mknod :: "('z) file_state_scheme \<Rightarrow> 'z sysret" where
  "sys_mknod s =
     rbind (begin_op s) (\<lambda>s.
     rbind (argint 1 s) (\<lambda>(maj, s).
     rbind (argint 2 s) (\<lambda>(mnr, s).
     rbind (argstr 0 MAXPATH s) (\<lambda>((r, path), s).
     if r < 0 then end_fail s
     else rbind (create path T_DEVICE (of_int maj) (of_int mnr) s) (\<lambda>(mip, s).
          case mip of
            None \<Rightarrow> end_fail s
          | Some ip \<Rightarrow> rbind (iunlockput ip s) (\<lambda>s. rbind (end_op s) (\<lambda>s. Ok (0, s))))))))"

definition sys_chdir :: "('z) file_state_scheme \<Rightarrow> 'z sysret" where
  "sys_chdir s =
     rbind (myproc s) (\<lambda>(mp, s). deref mp (\<lambda>p.
     rbind (begin_op s) (\<lambda>s.
     rbind (argstr 0 MAXPATH s) (\<lambda>((r, path), s).
     if r < 0 then end_fail s
     else rbind (namei path s) (\<lambda>(mip, s).
          case mip of
            None \<Rightarrow> end_fail s
          | Some ip \<Rightarrow>
              rbind (ilock (Some ip) s) (\<lambda>s.
              if i_type (itable s ip) \<noteq> T_DIR then put_fail ip s
              else
                rbind (iunlock (Some ip) s) (\<lambda>s.
                rbind (deref (p_cwd (procs s p)) (\<lambda>c. iput c s)) (\<lambda>s.
                rbind (end_op s) (\<lambda>s.
                Ok (0, upd_proc p (\<lambda>q. q\<lparr>p_cwd := Some ip\<rparr>) s))))))))))"

subsection \<open>Programs and pipes\<close>

fun free_args :: "addr list \<Rightarrow> ('z) kmem_state_scheme \<Rightarrow> ('z kmem_state_scheme, 'z kmem_state_scheme) res" where
  "free_args [] s = Ok s"
| "free_args (a # as) s = rbind (kfree a s) (\<lambda>s. free_args as s)"

text \<open>The loop of \<open>sys_exec\<close>: whether it reached the terminator, and the pages it has filled. The
  count is what is left of the array of pointers.\<close>

fun exec_argv :: "uint64 \<Rightarrow> nat \<Rightarrow> nat \<Rightarrow> addr list \<Rightarrow> ('z) file_state_scheme \<Rightarrow>
    ('z file_state_scheme, (bool \<times> addr list) \<times> 'z file_state_scheme) res" where
  "exec_argv uargv i 0 argv s = Ok ((False, argv), s)"
| "exec_argv uargv i (Suc k) argv s =
     rbind (fetchaddr (uargv + of_nat (8 * i)) s) (\<lambda>((r, uarg), s).
     if r < 0 then Ok ((False, argv), s)
     else if uarg = 0 then Ok ((True, argv), s)
     else
       rbind (kalloc s) (\<lambda>(pg, s).
       if pg = 0 then Ok ((False, argv), s)
       else
         rbind (fetchstr uarg 4096 s) (\<lambda>((r, bs), s).
         let s = s\<lparr>mem := mem_write (mem s) pg bs\<rparr>
         in if r < 0 then Ok ((False, argv @ [pg]), s)
            else exec_argv uargv (i + 1) k (argv @ [pg]) s)))"

definition sys_exec :: "('z) file_state_scheme \<Rightarrow> 'z sysret" where
  "sys_exec s =
     rbind (argaddr 1 s) (\<lambda>(uargv, s).
     rbind (argstr 0 MAXPATH s) (\<lambda>((r, path), s).
     if r < 0 then Ok (-1, s)
     else
       rbind (exec_argv uargv 0 MAXARG [] s) (\<lambda>((ok, argv), s).
       if \<not> ok then rbind (free_args argv s) (\<lambda>s. Ok (-1, s))
       else
         rbind (exec path argv s) (\<lambda>(ret, s).
         rbind (free_args argv s) (\<lambda>s. Ok (of_int ret, s))))))"

definition close_both :: "nat \<Rightarrow> nat \<Rightarrow> ('z) file_state_scheme \<Rightarrow> 'z sysret" where
  "close_both rfile wfile s = rbind (fileclose rfile s) (\<lambda>s. rbind (fileclose wfile s) (\<lambda>s. Ok (-1, s)))"

definition clear_fd :: "nat \<Rightarrow> int \<Rightarrow> ('z) proc_state_scheme \<Rightarrow> ('z) proc_state_scheme" where
  "clear_fd p fd s = upd_proc p (\<lambda>q. q\<lparr>p_ofile := (p_ofile q)[nat fd := None]\<rparr>) s"

definition sys_pipe :: "('z) file_state_scheme \<Rightarrow> 'z sysret" where
  "sys_pipe s =
     rbind (myproc s) (\<lambda>(mp, s). deref mp (\<lambda>p.
     rbind (argaddr 0 s) (\<lambda>(fdarray, s).
     rbind (pipealloc s) (\<lambda>(r, s).
     case r of
       None \<Rightarrow> Ok (-1, s)
     | Some (rfile, wfile) \<Rightarrow>
         rbind (fdalloc rfile s) (\<lambda>(fd0, s).
         if fd0 < 0 then close_both rfile wfile s
         else
           rbind (fdalloc wfile s) (\<lambda>(fd1, s).
           if fd1 < 0 then close_both rfile wfile (clear_fd p fd0 s)
           else
             rbind (copyout (p_pagetable (procs s p)) fdarray (le_bytes 4 (of_int fd0 :: uint32)) s) (\<lambda>(r, s).
             rbind (if r < 0 then Ok (-1, s)
                    else copyout (p_pagetable (procs s p)) (fdarray + 4) (le_bytes 4 (of_int fd1 :: uint32)) s) (\<lambda>(r, s).
             if r < 0 then close_both rfile wfile (clear_fd p fd1 (clear_fd p fd0 s))
             else Ok (0, s)))))))))"

end
