(* ===== verification/Syscall.thy ===== *)
theory Syscall
  imports Sysfile
begin

text \<open>
  The system calls on processes, src/kernel/sysproc.c, and the dispatch of src/kernel/syscall.c.
  \<open>ticks\<close> counts the clock interrupts.
\<close>

record tick_state = file_state +
  ticks :: uint32

type_synonym 'z tickret = "('z tick_state_scheme, uint64 \<times> 'z tick_state_scheme) res"

definition sys_exit :: "('z) file_state_scheme \<Rightarrow> ('z file_state_scheme, uint64 \<times> 'z file_state_scheme) res" where
  "sys_exit s = rbind (argint 0 s) (\<lambda>(n, s). exit n s)"

definition sys_getpid :: "('z) proc_state_scheme \<Rightarrow> ('z proc_state_scheme, uint64 \<times> 'z proc_state_scheme) res" where
  "sys_getpid s = rbind (myproc s) (\<lambda>(mp, s). deref mp (\<lambda>p. Ok (of_int (p_pid (procs s p)), s)))"

definition sys_fork :: "('z) file_state_scheme \<Rightarrow> 'z sysret" where
  "sys_fork s = rbind (fork s) (\<lambda>(r, s). Ok (of_int r, s))"

definition sys_wait :: "('z) proc_state_scheme \<Rightarrow> ('z proc_state_scheme, uint64 \<times> 'z proc_state_scheme) res" where
  "sys_wait s =
     rbind (argaddr 0 s) (\<lambda>(p, s).
     rbind (wait p s) (\<lambda>(r, s). Ok (of_int r, s)))"

definition sys_sbrk :: "('z) proc_state_scheme \<Rightarrow> ('z proc_state_scheme, uint64 \<times> 'z proc_state_scheme) res" where
  "sys_sbrk s =
     rbind (argint 0 s) (\<lambda>(n, s).
     rbind (myproc s) (\<lambda>(mp, s). deref mp (\<lambda>p.
     let ad = p_sz (procs s p)
     in rbind (growproc n s) (\<lambda>(r, s). if r < 0 then Ok (-1, s) else Ok (ad, s)))))"

text \<open>The loop of \<open>sys_sleep\<close>, with the lock held: the comparison of a uint with an int is unsigned.\<close>

definition sys_sleep_loop :: "int \<Rightarrow> uint32 \<Rightarrow> ('z) tick_state_scheme \<Rightarrow> 'z tickret" where
  "sys_sleep_loop n ticks0 s =
     (if ticks s - ticks0 < of_int n then
        rbind (myproc s) (\<lambda>(mp, s). deref mp (\<lambda>p.
        rbind (killed p s) (\<lambda>(k, s).
        if k \<noteq> 0 then rbind (release TicksLock s) (\<lambda>s. Ok (-1, s))
        else sleep TicksChan TicksLock s)))
      else rbind (release TicksLock s) (\<lambda>s. Ok (0, s)))"

definition sys_sleep :: "('z) tick_state_scheme \<Rightarrow> 'z tickret" where
  "sys_sleep s =
     rbind (argint 0 s) (\<lambda>(n, s).
     rbind (acquire TicksLock s) (\<lambda>s. sys_sleep_loop n (ticks s) s))"

definition sys_kill :: "('z) proc_state_scheme \<Rightarrow> ('z proc_state_scheme, uint64 \<times> 'z proc_state_scheme) res" where
  "sys_kill s = rbind (argint 0 s) (\<lambda>(pid, s). rbind (kill pid s) (\<lambda>(r, s). Ok (of_int r, s)))"

definition sys_uptime :: "('z) tick_state_scheme \<Rightarrow> 'z tickret" where
  "sys_uptime s =
     rbind (acquire TicksLock s) (\<lambda>s.
     let xticks = ticks s
     in rbind (release TicksLock s) (\<lambda>s. Ok (ucast xticks, s)))"

subsection \<open>Dispatch\<close>

text \<open>The table of the handlers by number; there is none for the other numbers.\<close>

definition syscalls :: "nat \<Rightarrow> (('z) tick_state_scheme \<Rightarrow> 'z tickret) option" where
  "syscalls num =
     (if num = 1 then Some sys_fork
      else if num = 2 then Some sys_exit
      else if num = 3 then Some sys_wait
      else if num = 4 then Some sys_pipe
      else if num = 5 then Some sys_read
      else if num = 6 then Some sys_kill
      else if num = 7 then Some sys_exec
      else if num = 8 then Some sys_fstat
      else if num = 9 then Some sys_chdir
      else if num = 10 then Some sys_dup
      else if num = 11 then Some sys_getpid
      else if num = 12 then Some sys_sbrk
      else if num = 13 then Some sys_sleep
      else if num = 14 then Some sys_uptime
      else if num = 15 then Some sys_open
      else if num = 16 then Some sys_write
      else if num = 17 then Some sys_mknod
      else if num = 18 then Some sys_unlink
      else if num = 19 then Some sys_link
      else if num = 20 then Some sys_mkdir
      else if num = 21 then Some sys_close
      else None)"

definition syscall :: "('z) tick_state_scheme \<Rightarrow> ('z tick_state_scheme, 'z tick_state_scheme) res" where
  "syscall s =
     rbind (myproc s) (\<lambda>(mp, s). deref mp (\<lambda>p.
     let num = sint (ucast (tf_get p TF_a7 s) :: uint32);
         handler = (if num > 0 \<and> num < 22 then syscalls (nat num) else None)
     in case handler of
          Some h \<Rightarrow> rbind (h s) (\<lambda>(v, s). Ok (tf_set p TF_a0 v s))
        | None \<Rightarrow>
            rbind (printf (Some (ascii ''%d %s: unknown sys call %d'' @ [10]))
                     [AInt (of_int (p_pid (procs s p))), AStr (Some (p_name (procs s p))), AInt (of_int num)] s) (\<lambda>s.
            Ok (tf_set p TF_a0 (-1) s))))"

end
