(* ===== verification/Virtio.thy ===== *)
theory Virtio
  imports Syscall
begin

text \<open>
  The disk driver, src/kernel/virtio_disk.c and src/kernel/virtio.h. The descriptor table and the
  two rings are fields of \<open>vdisk\<close> with the elements of their structures; the addresses in
  descriptors are the objects they point to. The device is not part of the program: \<open>vregs\<close> are
  what its registers read, \<open>v_accepts\<close> the feature sets it agrees to, and what it does with a
  request is a condition on the states before and after (theory \<open>Virtio_Rw\<close>).
\<close>

abbreviation (input) NUM :: nat where "NUM \<equiv> 8"
abbreviation (input) VRING_DESC_F_NEXT :: uint16 where "VRING_DESC_F_NEXT \<equiv> 1"
abbreviation (input) VRING_DESC_F_WRITE :: uint16 where "VRING_DESC_F_WRITE \<equiv> 2"
abbreviation (input) VIRTIO_BLK_T_IN :: uint32 where "VIRTIO_BLK_T_IN \<equiv> 0"
abbreviation (input) VIRTIO_BLK_T_OUT :: uint32 where "VIRTIO_BLK_T_OUT \<equiv> 1"

datatype dptr = NullPtr | OpsPtr nat | DataPtr nat | StatusPtr nat

record virtq_desc =
  d_addr :: dptr
  d_len :: uint32
  d_flags :: uint16
  d_next :: uint16

record virtio_blk_req =
  rq_type :: uint32
  rq_reserved :: uint32
  rq_sector :: uint64

record vdisk =
  dk_desc :: "virtq_desc list"
  dk_avail_idx :: uint16
  dk_avail_ring :: "uint16 list"
  dk_used_ring_idx :: uint16
  dk_used_ring :: "uint32 list"
  dk_free :: "bool list"
  dk_used_idx :: uint16
  dk_info_b :: "nat option list"
  dk_info_status :: "byte list"
  dk_ops :: "virtio_blk_req list"

record vdisk_state = tick_state +
  vd :: vdisk
  vregs :: "nat \<Rightarrow> uint32"
  v_accepts :: "uint32 \<Rightarrow> bool"

definition upd_vd :: "(vdisk \<Rightarrow> vdisk) \<Rightarrow> ('z) vdisk_state_scheme \<Rightarrow> ('z) vdisk_state_scheme" where
  "upd_vd f s = s\<lparr>vd := f (vd s)\<rparr>"

subsection \<open>Initialisation\<close>

text \<open>Writing a register. A device that does not agree to the features the driver has chosen
  keeps FEATURES_OK (8) off in its status register (0x70).\<close>

definition vreg_write :: "nat \<Rightarrow> uint32 \<Rightarrow> ('z) vdisk_state_scheme \<Rightarrow> ('z) vdisk_state_scheme" where
  "vreg_write r v s =
     s\<lparr>vregs := (vregs s)(r := (if r = 0x70 \<and> \<not> v_accepts s (vregs s 0x20) then v AND NOT 8 else v))\<rparr>"

definition clear_feature :: "nat \<Rightarrow> uint64 \<Rightarrow> uint64" where
  "clear_feature n features = features AND NOT (push_bit n 1)"

definition zero_desc :: virtq_desc where
  "zero_desc = \<lparr>d_addr = NullPtr, d_len = 0, d_flags = 0, d_next = 0\<rparr>"

text \<open>The part from the size of the queue on.\<close>

definition virtio_queue_init :: "uint32 \<Rightarrow> ('z) vdisk_state_scheme \<Rightarrow> ('z vdisk_state_scheme, 'z vdisk_state_scheme) res" where
  "virtio_queue_init status s =
     (let mx = vregs s 0x34
      in if mx = 0 then Panic ''virtio disk has no queue 0''
         else if mx < of_nat NUM then Panic ''virtio disk max queue too short''
         else
           rbind (kalloc s) (\<lambda>(desc, s).
           rbind (kalloc s) (\<lambda>(avail, s).
           rbind (kalloc s) (\<lambda>(used, s).
           if desc = 0 \<or> avail = 0 \<or> used = 0 then Panic ''virtio disk kalloc''
           else
             (let s = s\<lparr>mem := memset (mem s) desc 0 4096\<rparr>;
                  s = s\<lparr>mem := memset (mem s) avail 0 4096\<rparr>;
                  s = s\<lparr>mem := memset (mem s) used 0 4096\<rparr>;
                  s = upd_vd (\<lambda>d. d\<lparr>dk_desc := replicate NUM zero_desc, dk_avail_idx := 0, dk_avail_ring := replicate NUM 0,
                        dk_used_ring_idx := 0, dk_used_ring := replicate NUM 0\<rparr>) s;
                  s = vreg_write 0x38 (of_nat NUM) s;
                  s = vreg_write 0x80 (ucast desc) s;
                  s = vreg_write 0x84 (ucast (drop_bit 32 desc)) s;
                  s = vreg_write 0x90 (ucast avail) s;
                  s = vreg_write 0x94 (ucast (drop_bit 32 avail)) s;
                  s = vreg_write 0xa0 (ucast used) s;
                  s = vreg_write 0xa4 (ucast (drop_bit 32 used)) s;
                  s = vreg_write 0x44 1 s;
                  s = upd_vd (\<lambda>d. d\<lparr>dk_free := replicate NUM True\<rparr>) s
              in Ok (vreg_write 0x70 (status OR 4) s))))))"

definition virtio_disk_init :: "('z) vdisk_state_scheme \<Rightarrow> ('z vdisk_state_scheme, 'z vdisk_state_scheme) res" where
  "virtio_disk_init s =
     (let s = initlock VdiskLock ''virtio_disk'' s
      in if vregs s 0x0 \<noteq> 0x74726976 \<or> vregs s 0x4 \<noteq> 2 \<or> vregs s 0x8 \<noteq> 2 \<or> vregs s 0xc \<noteq> 0x554d4551
         then Panic ''could not find virtio disk''
         else
           (let s = vreg_write 0x70 0 s;
                s = vreg_write 0x70 1 s;
                s = vreg_write 0x70 (1 OR 2) s;
                features = foldl (\<lambda>f n. clear_feature n f) (ucast (vregs s 0x10)) [5, 7, 11, 12, 27, 29, 28];
                s = vreg_write 0x20 (ucast features) s;
                s = vreg_write 0x70 (1 OR 2 OR 8) s;
                status = vregs s 0x70
            in if status AND 8 = 0 then Panic ''virtio disk FEATURES_OK unset''
               else (let s = vreg_write 0x30 0 s
                     in if vregs s 0x44 \<noteq> 0 then Panic ''virtio disk should not be ready''
                        else virtio_queue_init status s)))"

subsection \<open>Descriptors\<close>

definition alloc_desc :: "('z) vdisk_state_scheme \<Rightarrow> int \<times> ('z) vdisk_state_scheme" where
  "alloc_desc s =
     (case find (\<lambda>i. dk_free (vd s) ! i) [0..<NUM] of
        Some i \<Rightarrow> (int i, upd_vd (\<lambda>d. d\<lparr>dk_free := (dk_free d)[i := False]\<rparr>) s)
      | None \<Rightarrow> (-1, s))"

definition free_desc :: "nat \<Rightarrow> ('z) vdisk_state_scheme \<Rightarrow> ('z vdisk_state_scheme, 'z vdisk_state_scheme) res" where
  "free_desc i s =
     (if i \<ge> NUM then Panic ''free_desc 1''
      else if dk_free (vd s) ! i then Panic ''free_desc 2''
      else wakeup DiskFreeChan
             (upd_vd (\<lambda>d. d\<lparr>dk_desc := (dk_desc d)[i := zero_desc], dk_free := (dk_free d)[i := True]\<rparr>) s))"

text \<open>A chain has at most \<open>NUM\<close> descriptors, since freeing one twice panics: the first argument
  of the loop, which counts them, never reaches 0.\<close>

fun free_chain_loop :: "nat \<Rightarrow> nat \<Rightarrow> ('z) vdisk_state_scheme \<Rightarrow> ('z vdisk_state_scheme, 'z vdisk_state_scheme) res" where
  "free_chain_loop 0 i s = Spin"
| "free_chain_loop (Suc k) i s =
     (let flag = d_flags (dk_desc (vd s) ! i);
          nxt = d_next (dk_desc (vd s) ! i)
      in rbind (free_desc i s) (\<lambda>s.
         if flag AND VRING_DESC_F_NEXT \<noteq> 0 then free_chain_loop k (unat nxt) s else Ok s))"

definition free_chain :: "nat \<Rightarrow> ('z) vdisk_state_scheme \<Rightarrow> ('z vdisk_state_scheme, 'z vdisk_state_scheme) res" where
  "free_chain i s = free_chain_loop (Suc NUM) i s"

fun free_descs :: "nat list \<Rightarrow> ('z) vdisk_state_scheme \<Rightarrow> ('z vdisk_state_scheme, 'z vdisk_state_scheme) res" where
  "free_descs [] s = Ok s"
| "free_descs (i # is) s = rbind (free_desc i s) (\<lambda>s. free_descs is s)"

fun alloc_descs :: "nat \<Rightarrow> nat list \<Rightarrow> ('z) vdisk_state_scheme \<Rightarrow> ('z vdisk_state_scheme, nat list option \<times> 'z vdisk_state_scheme) res" where
  "alloc_descs 0 idx s = Ok (Some idx, s)"
| "alloc_descs (Suc k) idx s =
     (case alloc_desc s of (i, s) \<Rightarrow>
        if i < 0 then rbind (free_descs idx s) (\<lambda>s. Ok (None, s))
        else alloc_descs k (idx @ [nat i]) s)"

definition alloc3_desc :: "('z) vdisk_state_scheme \<Rightarrow> ('z vdisk_state_scheme, nat list option \<times> 'z vdisk_state_scheme) res" where
  "alloc3_desc s = alloc_descs 3 [] s"

subsection \<open>Transfers\<close>

text \<open>What \<open>virtio_disk_rw\<close> does with its three descriptors, up to the notification.\<close>

definition virtio_request :: "nat \<Rightarrow> bool \<Rightarrow> nat \<Rightarrow> nat \<Rightarrow> nat \<Rightarrow> ('z) vdisk_state_scheme \<Rightarrow> ('z) vdisk_state_scheme" where
  "virtio_request b wr i0 i1 i2 s =
     (let sector = (ucast (b_blockno (bufs s b) * 2) :: uint64);
          s = upd_vd (\<lambda>d. d\<lparr>dk_ops := (dk_ops d)[i0 := \<lparr>rq_type = (if wr then VIRTIO_BLK_T_OUT else VIRTIO_BLK_T_IN),
                 rq_reserved = 0, rq_sector = sector\<rparr>]\<rparr>) s;
          s = upd_vd (\<lambda>d. d\<lparr>dk_desc := (dk_desc d)[i0 := \<lparr>d_addr = OpsPtr i0, d_len = 16,
                 d_flags = VRING_DESC_F_NEXT, d_next = of_nat i1\<rparr>]\<rparr>) s;
          s = upd_vd (\<lambda>d. d\<lparr>dk_desc := (dk_desc d)[i1 := \<lparr>d_addr = DataPtr b, d_len = of_nat BSIZE,
                 d_flags = (if wr then 0 else VRING_DESC_F_WRITE) OR VRING_DESC_F_NEXT, d_next = of_nat i2\<rparr>]\<rparr>) s;
          s = upd_vd (\<lambda>d. d\<lparr>dk_info_status := (dk_info_status d)[i0 := 0xff]\<rparr>) s;
          s = upd_vd (\<lambda>d. d\<lparr>dk_desc := (dk_desc d)[i2 := \<lparr>d_addr = StatusPtr i0, d_len = 1,
                 d_flags = VRING_DESC_F_WRITE, d_next = 0\<rparr>]\<rparr>) s;
          s = upd_buf b (\<lambda>x. x\<lparr>b_disk := 1\<rparr>) s;
          s = upd_vd (\<lambda>d. d\<lparr>dk_info_b := (dk_info_b d)[i0 := Some b]\<rparr>) s;
          s = upd_vd (\<lambda>d. d\<lparr>dk_avail_ring := (dk_avail_ring d)[unat (dk_avail_idx d) mod NUM := of_nat i0]\<rparr>) s;
          s = upd_vd (\<lambda>d. d\<lparr>dk_avail_idx := dk_avail_idx d + 1\<rparr>) s
      in vreg_write 0x50 0 s)"

text \<open>The end of \<open>virtio_disk_rw\<close>, with the lock held: a process that sleeps runs it again.\<close>

definition virtio_disk_wait :: "nat \<Rightarrow> nat \<Rightarrow> ('z) vdisk_state_scheme \<Rightarrow> ('z vdisk_state_scheme, 'z vdisk_state_scheme) res" where
  "virtio_disk_wait b i0 s =
     (if b_disk (bufs s b) = 1 then sleep (DiskBufChan b) VdiskLock s
      else
        rbind (free_chain i0 (upd_vd (\<lambda>d. d\<lparr>dk_info_b := (dk_info_b d)[i0 := None]\<rparr>) s)) (\<lambda>s.
        release VdiskLock s))"

text \<open>From the allocation of the descriptors on, with the lock held.\<close>

definition virtio_disk_start :: "nat \<Rightarrow> bool \<Rightarrow> ('z) vdisk_state_scheme \<Rightarrow> ('z vdisk_state_scheme, 'z vdisk_state_scheme) res" where
  "virtio_disk_start b wr s =
     rbind (alloc3_desc s) (\<lambda>(r, s).
     case r of
       Some [i0, i1, i2] \<Rightarrow> virtio_disk_wait b i0 (virtio_request b wr i0 i1 i2 s)
     | _ \<Rightarrow> sleep DiskFreeChan VdiskLock s)"

definition virtio_disk_rw :: "nat \<Rightarrow> bool \<Rightarrow> ('z) vdisk_state_scheme \<Rightarrow> ('z vdisk_state_scheme, 'z vdisk_state_scheme) res" where
  "virtio_disk_rw b wr s = rbind (acquire VdiskLock s) (\<lambda>s. virtio_disk_start b wr s)"

text \<open>The loop of \<open>virtio_disk_intr\<close>; its first argument is the number of entries of the used ring
  that have not been looked at.\<close>

fun virtio_intr_loop :: "nat \<Rightarrow> ('z) vdisk_state_scheme \<Rightarrow> ('z vdisk_state_scheme, 'z vdisk_state_scheme) res" where
  "virtio_intr_loop 0 s = Ok s"
| "virtio_intr_loop (Suc k) s =
     (let i = unat (dk_used_ring (vd s) ! (unat (dk_used_idx (vd s)) mod NUM))
      in if dk_info_status (vd s) ! i \<noteq> 0 then Panic ''virtio_disk_intr status''
         else deref (dk_info_b (vd s) ! i) (\<lambda>b.
              rbind (wakeup (DiskBufChan b) (upd_buf b (\<lambda>x. x\<lparr>b_disk := 0\<rparr>) s)) (\<lambda>s.
              virtio_intr_loop k (upd_vd (\<lambda>d. d\<lparr>dk_used_idx := dk_used_idx d + 1\<rparr>) s))))"

definition virtio_disk_intr :: "('z) vdisk_state_scheme \<Rightarrow> ('z vdisk_state_scheme, 'z vdisk_state_scheme) res" where
  "virtio_disk_intr s =
     rbind (acquire VdiskLock s) (\<lambda>s.
     let s = vreg_write 0x64 (vregs s 0x60 AND 3) s
     in rbind (virtio_intr_loop (unat (dk_used_ring_idx (vd s) - dk_used_idx (vd s))) s) (\<lambda>s.
        release VdiskLock s))"

end
