(* ===== verification/Trap.thy ===== *)
theory Trap
  imports Virtio
begin

text \<open>
  Traps, src/kernel/trap.c, the interrupt controller, src/kernel/plic.c, and \<open>forkret\<close> of
  src/kernel/proc.c. \<open>hcsr\<close> are the trap registers of one hart. Of sstatus the kernel uses three
  bits: SIE is the interrupt flag of the CPU, SPP and SPIE are here. \<open>plic_pend\<close> are the
  interrupts that wait to be claimed by a hart, \<open>plic_done\<close> those a hart has completed.
  \<open>kernelvec_pc\<close>, \<open>usertrap_pc\<close> and the offsets of \<open>uservec\<close> and \<open>userret\<close> in the trampoline
  page are addresses the linker determines.

  Where a process gives up the CPU in the middle of a handler (\<open>yield\<close>, or a sleep inside a system
  call), the outcome is \<open>Slept\<close>; the rest of \<open>kerneltrap\<close> is \<open>kerneltrap_end\<close>, that of \<open>usertrap\<close>
  is \<open>usertrapret\<close>.
\<close>

record hcsr =
  ss_spp :: bool
  ss_spie :: bool
  stvec :: uint64
  sepc :: uint64
  scause :: uint64
  stval :: uint64
  sip :: uint64

record trap_state = vdisk_state +
  csrs :: "nat \<Rightarrow> hcsr"
  plic_regs :: "uint64 \<Rightarrow> uint32"
  plic_pend :: "nat \<Rightarrow> nat list"
  plic_done :: "nat \<Rightarrow> nat list"
  forkret_first :: int
  kernelvec_pc :: addr
  usertrap_pc :: addr
  uservec_off :: uint64
  userret_off :: uint64

definition upd_csr :: "(hcsr \<Rightarrow> hcsr) \<Rightarrow> ('z) trap_state_scheme \<Rightarrow> ('z) trap_state_scheme" where
  "upd_csr f s = s\<lparr>csrs := (csrs s)(tp s := f (csrs s (tp s)))\<rparr>"

definition mycsr :: "('z) trap_state_scheme \<Rightarrow> hcsr" where
  "mycsr s = csrs s (tp s)"

abbreviation (input) SSTATUS_SPP :: uint64 where "SSTATUS_SPP \<equiv> 0x100"
abbreviation (input) SSTATUS_SPIE :: uint64 where "SSTATUS_SPIE \<equiv> 0x20"
abbreviation (input) SSTATUS_SIE :: uint64 where "SSTATUS_SIE \<equiv> 2"

definition r_sstatus :: "('z) trap_state_scheme \<Rightarrow> uint64" where
  "r_sstatus s = (if ss_spp (mycsr s) then SSTATUS_SPP else 0) OR (if ss_spie (mycsr s) then SSTATUS_SPIE else 0)
     OR (if intr_get s then SSTATUS_SIE else 0)"

definition w_sstatus :: "uint64 \<Rightarrow> ('z) trap_state_scheme \<Rightarrow> ('z) trap_state_scheme" where
  "w_sstatus x s =
     (let s = upd_csr (\<lambda>c. c\<lparr>ss_spp := (x AND SSTATUS_SPP \<noteq> 0), ss_spie := (x AND SSTATUS_SPIE \<noteq> 0)\<rparr>) s
      in if x AND SSTATUS_SIE \<noteq> 0 then intr_on s else intr_off s)"

subsection \<open>The interrupt controller\<close>

abbreviation (input) UART0_IRQ :: nat where "UART0_IRQ \<equiv> 10"
abbreviation (input) VIRTIO0_IRQ :: nat where "VIRTIO0_IRQ \<equiv> 1"
abbreviation (input) PLIC :: uint64 where "PLIC \<equiv> 0x0c000000"

definition PLIC_SENABLE :: "nat \<Rightarrow> uint64" where
  "PLIC_SENABLE hart = PLIC + 0x2080 + of_nat hart * 0x100"

definition PLIC_SPRIORITY :: "nat \<Rightarrow> uint64" where
  "PLIC_SPRIORITY hart = PLIC + 0x201000 + of_nat hart * 0x2000"

definition plic_write :: "uint64 \<Rightarrow> uint32 \<Rightarrow> ('z) trap_state_scheme \<Rightarrow> ('z) trap_state_scheme" where
  "plic_write a v s = s\<lparr>plic_regs := (plic_regs s)(a := v)\<rparr>"

definition plicinit :: "('z) trap_state_scheme \<Rightarrow> ('z) trap_state_scheme" where
  "plicinit s =
     (let s = plic_write (PLIC + of_nat (UART0_IRQ * 4)) 1 s
      in plic_write (PLIC + of_nat (VIRTIO0_IRQ * 4)) 1 s)"

definition plicinithart :: "('z) trap_state_scheme \<Rightarrow> ('z) trap_state_scheme" where
  "plicinithart s =
     (let hart = cpuid s;
          s = plic_write (PLIC_SENABLE hart) (push_bit UART0_IRQ 1 OR push_bit VIRTIO0_IRQ 1) s
      in plic_write (PLIC_SPRIORITY hart) 0 s)"

text \<open>Reading the claim register gives the next interrupt and 0 when there is none; writing it
  completes one.\<close>

definition plic_claim :: "('z) trap_state_scheme \<Rightarrow> nat \<times> ('z) trap_state_scheme" where
  "plic_claim s =
     (let hart = cpuid s
      in case plic_pend s hart of
           [] \<Rightarrow> (0, s)
         | irq # irqs \<Rightarrow> (irq, s\<lparr>plic_pend := (plic_pend s)(hart := irqs)\<rparr>))"

definition plic_complete :: "nat \<Rightarrow> ('z) trap_state_scheme \<Rightarrow> ('z) trap_state_scheme" where
  "plic_complete irq s =
     (let hart = cpuid s
      in s\<lparr>plic_done := (plic_done s)(hart := plic_done s hart @ [irq])\<rparr>)"

subsection \<open>Interrupts\<close>

definition trapinit :: "('z) machine_scheme \<Rightarrow> ('z) machine_scheme" where
  "trapinit s = initlock TicksLock ''time'' s"

definition trapinithart :: "('z) trap_state_scheme \<Rightarrow> ('z) trap_state_scheme" where
  "trapinithart s = upd_csr (\<lambda>c. c\<lparr>stvec := kernelvec_pc s\<rparr>) s"

definition clockintr :: "('z) tick_state_scheme \<Rightarrow> ('z tick_state_scheme, 'z tick_state_scheme) res" where
  "clockintr s =
     rbind (acquire TicksLock s) (\<lambda>s.
     rbind (wakeup TicksChan (s\<lparr>ticks := ticks s + 1\<rparr>)) (\<lambda>s.
     release TicksLock s))"

definition devintr :: "('z) trap_state_scheme \<Rightarrow> ('z trap_state_scheme, nat \<times> 'z trap_state_scheme) res" where
  "devintr s =
     (let cause = scause (mycsr s)
      in if cause AND 0x8000000000000000 \<noteq> 0 \<and> cause AND 0xff = 9 then
           (case plic_claim s of (irq, s) \<Rightarrow>
              rbind (if irq = UART0_IRQ then uartintr s
                     else if irq = VIRTIO0_IRQ then virtio_disk_intr s
                     else if irq \<noteq> 0 then printf (Some (ascii ''unexpected interrupt irq=%d'' @ [10])) [AInt (of_nat irq)] s
                     else Ok s) (\<lambda>s.
              Ok (1, if irq \<noteq> 0 then plic_complete irq s else s)))
         else if cause = 0x8000000000000001 then
           rbind (if cpuid s = 0 then clockintr s else Ok s) (\<lambda>s.
           Ok (2, upd_csr (\<lambda>c. c\<lparr>sip := sip c AND NOT 2\<rparr>) s))
         else Ok (0, s))"

subsection \<open>Traps from user space\<close>

text \<open>\<open>usertrapret\<close> jumps to \<open>userret\<close> in the trampoline: its result is the address of the jump
  and the value that goes into satp.\<close>

definition usertrapret :: "('z) trap_state_scheme \<Rightarrow> ('z trap_state_scheme, (uint64 \<times> uint64) \<times> 'z trap_state_scheme) res" where
  "usertrapret s =
     rbind (myproc s) (\<lambda>(mp, s). deref mp (\<lambda>p.
     let s = intr_off s;
         s = upd_csr (\<lambda>c. c\<lparr>stvec := TRAMPOLINE + uservec_off s\<rparr>) s;
         s = tf_set p TF_kernel_satp (satp s (tp s)) s;
         s = tf_set p TF_kernel_sp (p_kstack (procs s p) + PGSIZE) s;
         s = tf_set p TF_kernel_trap (usertrap_pc s) s;
         s = tf_set p TF_kernel_hartid (of_nat (tp s)) s;
         x = r_sstatus s;
         x = x AND NOT SSTATUS_SPP;
         x = x OR SSTATUS_SPIE;
         s = w_sstatus x s;
         s = upd_csr (\<lambda>c. c\<lparr>sepc := tf_get p TF_epc s\<rparr>) s
     in Ok ((TRAMPOLINE + userret_off s, MAKE_SATP (p_pagetable (procs s p))), s)))"

definition usertrap :: "('z) trap_state_scheme \<Rightarrow> ('z trap_state_scheme, (uint64 \<times> uint64) \<times> 'z trap_state_scheme) res" where
  "usertrap s =
     (if r_sstatus s AND SSTATUS_SPP \<noteq> 0 then Panic ''usertrap: not from user mode''
      else
        (let s = upd_csr (\<lambda>c. c\<lparr>stvec := kernelvec_pc s\<rparr>) s
         in rbind (myproc s) (\<lambda>(mp, s). deref mp (\<lambda>p.
            let s = tf_set p TF_epc (sepc (mycsr s)) s
            in rbind (if scause (mycsr s) = 8 then
                        rbind (killed p s) (\<lambda>(k, s).
                        if k \<noteq> 0 then exit (-1) s
                        else
                          (let s = tf_set p TF_epc (tf_get p TF_epc s + 4) s;
                               s = intr_on s
                           in rbind (syscall s) (\<lambda>s. Ok (0, s))))
                      else
                        rbind (devintr s) (\<lambda>(which_dev, s).
                        if which_dev \<noteq> 0 then Ok (which_dev, s)
                        else
                          rbind (printf (Some (ascii ''usertrap(): unexpected scause %p pid=%d'' @ [10]))
                                   [APtr (scause (mycsr s)), AInt (of_int (p_pid (procs s p)))] s) (\<lambda>s.
                          rbind (printf (Some (ascii ''            sepc=%p stval=%p'' @ [10]))
                                   [APtr (sepc (mycsr s)), APtr (stval (mycsr s))] s) (\<lambda>s.
                          rbind (setkilled p s) (\<lambda>s. Ok (0, s)))))) (\<lambda>(which_dev, s).
               rbind (killed p s) (\<lambda>(k, s).
               if k \<noteq> 0 then exit (-1) s
               else rbind (if which_dev = 2 then yield s else Ok s) (\<lambda>s. usertrapret s)))))))"

subsection \<open>Traps from the kernel\<close>

definition kerneltrap_end :: "uint64 \<Rightarrow> uint64 \<Rightarrow> ('z) trap_state_scheme \<Rightarrow> ('z) trap_state_scheme" where
  "kerneltrap_end epc status s = w_sstatus status (upd_csr (\<lambda>c. c\<lparr>sepc := epc\<rparr>) s)"

definition kerneltrap :: "('z) trap_state_scheme \<Rightarrow> ('z trap_state_scheme, 'z trap_state_scheme) res" where
  "kerneltrap s =
     (let epc = sepc (mycsr s);
          status = r_sstatus s;
          cause = scause (mycsr s)
      in if status AND SSTATUS_SPP = 0 then Panic ''kerneltrap: not from supervisor mode''
         else if intr_get s then Panic ''kerneltrap: interrupts enabled''
         else
           rbind (devintr s) (\<lambda>(which_dev, s).
           if which_dev = 0 then
             rbind (printf (Some (ascii ''scause %p'' @ [10])) [APtr cause] s) (\<lambda>s.
             rbind (printf (Some (ascii ''sepc=%p stval=%p'' @ [10])) [APtr (sepc (mycsr s)), APtr (stval (mycsr s))] s) (\<lambda>s.
             Panic ''kerneltrap''))
           else
             rbind (myproc s) (\<lambda>(mp, s).
             rbind (if which_dev = 2 \<and> (case mp of Some p \<Rightarrow> p_state (procs s p) = RUNNING | None \<Rightarrow> False)
                    then yield s else Ok s) (\<lambda>s.
             Ok (kerneltrap_end epc status s)))))"

subsection \<open>The first run of a process\<close>

definition forkret :: "('z) trap_state_scheme \<Rightarrow> ('z trap_state_scheme, (uint64 \<times> uint64) \<times> 'z trap_state_scheme) res" where
  "forkret s =
     rbind (myproc s) (\<lambda>(mp, s). deref mp (\<lambda>p.
     rbind (release (ProcLock p) s) (\<lambda>s.
     rbind (if forkret_first s \<noteq> 0 then fsinit ROOTDEV (s\<lparr>forkret_first := 0\<rparr>) else Ok s) (\<lambda>s.
     usertrapret s))))"

end
