(* ===== verification/Boot.thy ===== *)
theory Boot
  imports Trap
begin

text \<open>
  Starting up: src/kernel/start.c, which every hart runs in machine mode, and src/kernel/main.c.
  \<open>mcsr\<close> are the machine-mode registers of a hart; the timer's registers are memory. \<open>main\<close> ends in
  the scheduler: its outcome is the state in which \<open>scheduler\<close> starts. The other harts wait until
  \<open>started\<close> is set.
\<close>

record mcsr =
  mstatus :: uint64
  mepc :: uint64
  medeleg :: uint64
  mideleg :: uint64
  sie :: uint64
  pmpaddr0 :: uint64
  pmpcfg0 :: uint64
  mscratch :: uint64
  mtvec :: uint64
  mie :: uint64

record boot_state = trap_state +
  mcsrs :: "nat \<Rightarrow> mcsr"
  started :: int
  main_pc :: addr
  timervec_pc :: addr
  timer_scratch :: addr

definition upd_mcsr :: "nat \<Rightarrow> (mcsr \<Rightarrow> mcsr) \<Rightarrow> ('z) boot_state_scheme \<Rightarrow> ('z) boot_state_scheme" where
  "upd_mcsr h f s = s\<lparr>mcsrs := (mcsrs s)(h := f (mcsrs s h))\<rparr>"

definition CLINT_MTIMECMP :: "nat \<Rightarrow> uint64" where
  "CLINT_MTIMECMP hartid = 0x2000000 + 0x4000 + 8 * of_nat hartid"

definition CLINT_MTIME :: uint64 where
  "CLINT_MTIME = 0x2000000 + 0xBFF8"

definition timerinit :: "nat \<Rightarrow> ('z) boot_state_scheme \<Rightarrow> ('z) boot_state_scheme" where
  "timerinit mhartid s =
     (let interval = 1000000;
          s = s\<lparr>mem := store64 (mem s) (CLINT_MTIMECMP mhartid) (load64 (mem s) CLINT_MTIME + interval)\<rparr>;
          scratch = timer_scratch s + of_nat (40 * mhartid);
          s = s\<lparr>mem := store64 (mem s) (scratch + 24) (CLINT_MTIMECMP mhartid)\<rparr>;
          s = s\<lparr>mem := store64 (mem s) (scratch + 32) interval\<rparr>;
          s = upd_mcsr mhartid (\<lambda>c. c\<lparr>mscratch := scratch\<rparr>) s;
          s = upd_mcsr mhartid (\<lambda>c. c\<lparr>mtvec := timervec_pc s\<rparr>) s;
          s = upd_mcsr mhartid (\<lambda>c. c\<lparr>mstatus := mstatus c OR 8\<rparr>) s
      in upd_mcsr mhartid (\<lambda>c. c\<lparr>mie := mie c OR 0x80\<rparr>) s)"

text \<open>\<open>start\<close> ends with \<open>mret\<close>, which continues at mepc in the mode of MPP.\<close>

definition start :: "nat \<Rightarrow> ('z) boot_state_scheme \<Rightarrow> ('z) boot_state_scheme" where
  "start mhartid s =
     (let s = upd_mcsr mhartid (\<lambda>c. c\<lparr>mstatus := (mstatus c AND NOT 0x1800) OR 0x800\<rparr>) s;
          s = upd_mcsr mhartid (\<lambda>c. c\<lparr>mepc := main_pc s\<rparr>) s;
          s = s\<lparr>satp := (satp s)(mhartid := 0)\<rparr>;
          s = upd_mcsr mhartid (\<lambda>c. c\<lparr>medeleg := 0xffff\<rparr>) s;
          s = upd_mcsr mhartid (\<lambda>c. c\<lparr>mideleg := 0xffff\<rparr>) s;
          s = upd_mcsr mhartid (\<lambda>c. c\<lparr>sie := sie c OR 0x200 OR 0x20 OR 2\<rparr>) s;
          s = upd_mcsr mhartid (\<lambda>c. c\<lparr>pmpaddr0 := 0x3fffffffffffff\<rparr>) s;
          s = upd_mcsr mhartid (\<lambda>c. c\<lparr>pmpcfg0 := 0xf\<rparr>) s;
          s = timerinit mhartid s
      in s\<lparr>tp := mhartid\<rparr>)"

definition kmain :: "('z) boot_state_scheme \<Rightarrow> ('z boot_state_scheme, 'z boot_state_scheme) res" where
  "kmain s =
     (if cpuid s = 0 then
        (let s = consoleinit s;
             s = printfinit s
         in rbind (printf (Some [10]) [] s) (\<lambda>s.
            rbind (printf (Some (ascii ''xv6 kernel is booting'' @ [10])) [] s) (\<lambda>s.
            rbind (printf (Some [10]) [] s) (\<lambda>s.
            rbind (kinit s) (\<lambda>s.
            rbind (kvminit s) (\<lambda>s.
            let s = kvminithart s;
                s = procinit s;
                s = trapinit s;
                s = trapinithart s;
                s = plicinit s;
                s = plicinithart s;
                s = binit s;
                s = iinit s;
                s = fileinit s
            in rbind (virtio_disk_init s) (\<lambda>s.
               rbind (userinit s) (\<lambda>s.
               Ok (scheduler_start (s\<lparr>started := 1\<rparr>))))))))))
      else if started s = 0 then Spin
      else
        rbind (printf (Some (ascii ''hart %d starting'' @ [10])) [AInt (of_nat (cpuid s))] s) (\<lambda>s.
        let s = kvminithart s;
            s = trapinithart s;
            s = plicinithart s
        in Ok (scheduler_start s)))"

end
