(* ===== verification/Asm.thy ===== *)
theory Asm
  imports Vm
begin

text \<open>
  The assembly code of the kernel: src/kernel/entry.S, swtch.S, trampoline.S and kernelvec.S, as
  lists of instructions with an interpreter for the instructions they use. A program runs on a
  hart: its registers, its control registers and the physical memory. \<open>h_xlate\<close> gives the physical
  address of a virtual one under a value of satp; in machine mode addresses are physical. The last
  instruction of each program jumps away and leaves the target in \<open>h_pc\<close>.
\<close>

datatype reg = RA | SP | GP | TP | T0 | T1 | T2 | S0 | S1 | A0 | A1 | A2 | A3 | A4 | A5 | A6 | A7
  | S2 | S3 | S4 | S5 | S6 | S7 | S8 | S9 | S10 | S11 | T3 | T4 | T5 | T6

datatype csr = SSCRATCH | SATP | SEPC | SIP | MSCRATCH | MEPC | MHARTID

datatype instr = SD reg nat reg | LD reg nat reg | LI reg uint64 | ADDI reg reg int | ADD reg reg reg
  | MUL reg reg reg | CSRW csr reg | CSRR reg csr | CSRRW reg csr reg | SFENCE | JR reg | RET | SRET | MRET

record hart =
  h_reg :: "reg \<Rightarrow> uint64"
  h_csr :: "csr \<Rightarrow> uint64"
  h_mem :: memory
  h_machine :: bool
  h_xlate :: "uint64 \<Rightarrow> addr \<Rightarrow> addr"
  h_pc :: addr

definition pa_of :: "hart \<Rightarrow> addr \<Rightarrow> addr" where
  "pa_of h va = (if h_machine h then va else h_xlate h (h_csr h SATP) va)"

definition set_reg :: "reg \<Rightarrow> uint64 \<Rightarrow> hart \<Rightarrow> hart" where
  "set_reg r v h = h\<lparr>h_reg := (h_reg h)(r := v)\<rparr>"

definition set_csr :: "csr \<Rightarrow> uint64 \<Rightarrow> hart \<Rightarrow> hart" where
  "set_csr c v h = h\<lparr>h_csr := (h_csr h)(c := v)\<rparr>"

fun istep :: "instr \<Rightarrow> hart \<Rightarrow> hart" where
  "istep (SD r n b) h = h\<lparr>h_mem := store64 (h_mem h) (pa_of h (h_reg h b + of_nat n)) (h_reg h r)\<rparr>"
| "istep (LD r n b) h = set_reg r (load64 (h_mem h) (pa_of h (h_reg h b + of_nat n))) h"
| "istep (LI r v) h = set_reg r v h"
| "istep (ADDI r a n) h = set_reg r (h_reg h a + of_int n) h"
| "istep (ADD r a b) h = set_reg r (h_reg h a + h_reg h b) h"
| "istep (MUL r a b) h = set_reg r (h_reg h a * h_reg h b) h"
| "istep (CSRW c r) h = set_csr c (h_reg h r) h"
| "istep (CSRR r c) h = set_reg r (h_csr h c) h"
| "istep (CSRRW r c a) h = set_reg r (h_csr h c) (set_csr c (h_reg h a) h)"
| "istep SFENCE h = h"
| "istep (JR r) h = h\<lparr>h_pc := h_reg h r\<rparr>"
| "istep RET h = h\<lparr>h_pc := h_reg h RA\<rparr>"
| "istep SRET h = h\<lparr>h_pc := h_csr h SEPC\<rparr>"
| "istep MRET h = h\<lparr>h_pc := h_csr h MEPC\<rparr>"

definition irun :: "instr list \<Rightarrow> hart \<Rightarrow> hart" where
  "irun is h = fold istep is h"

subsection \<open>The programs\<close>

definition uservec :: "instr list" where
  "uservec =
    [CSRW SSCRATCH A0, LI A0 TRAPFRAME,
     SD RA 40 A0, SD SP 48 A0, SD GP 56 A0, SD TP 64 A0, SD T0 72 A0, SD T1 80 A0, SD T2 88 A0,
     SD S0 96 A0, SD S1 104 A0, SD A1 120 A0, SD A2 128 A0, SD A3 136 A0, SD A4 144 A0, SD A5 152 A0,
     SD A6 160 A0, SD A7 168 A0, SD S2 176 A0, SD S3 184 A0, SD S4 192 A0, SD S5 200 A0, SD S6 208 A0,
     SD S7 216 A0, SD S8 224 A0, SD S9 232 A0, SD S10 240 A0, SD S11 248 A0, SD T3 256 A0, SD T4 264 A0,
     SD T5 272 A0, SD T6 280 A0,
     CSRR T0 SSCRATCH, SD T0 112 A0,
     LD SP 8 A0, LD TP 32 A0, LD T0 16 A0, LD T1 0 A0,
     SFENCE, CSRW SATP T1, SFENCE, JR T0]"

definition userret :: "instr list" where
  "userret =
    [SFENCE, CSRW SATP A0, SFENCE, LI A0 TRAPFRAME,
     LD RA 40 A0, LD SP 48 A0, LD GP 56 A0, LD TP 64 A0, LD T0 72 A0, LD T1 80 A0, LD T2 88 A0,
     LD S0 96 A0, LD S1 104 A0, LD A1 120 A0, LD A2 128 A0, LD A3 136 A0, LD A4 144 A0, LD A5 152 A0,
     LD A6 160 A0, LD A7 168 A0, LD S2 176 A0, LD S3 184 A0, LD S4 192 A0, LD S5 200 A0, LD S6 208 A0,
     LD S7 216 A0, LD S8 224 A0, LD S9 232 A0, LD S10 240 A0, LD S11 248 A0, LD T3 256 A0, LD T4 264 A0,
     LD T5 272 A0, LD T6 280 A0,
     LD A0 112 A0, SRET]"

text \<open>\<open>kernelvec\<close> up to its call of \<open>kerneltrap\<close>, and from there on.\<close>

definition kernelvec_save :: "instr list" where
  "kernelvec_save =
    [ADDI SP SP (-256),
     SD RA 0 SP, SD SP 8 SP, SD GP 16 SP, SD TP 24 SP, SD T0 32 SP, SD T1 40 SP, SD T2 48 SP, SD S0 56 SP,
     SD S1 64 SP, SD A0 72 SP, SD A1 80 SP, SD A2 88 SP, SD A3 96 SP, SD A4 104 SP, SD A5 112 SP,
     SD A6 120 SP, SD A7 128 SP, SD S2 136 SP, SD S3 144 SP, SD S4 152 SP, SD S5 160 SP, SD S6 168 SP,
     SD S7 176 SP, SD S8 184 SP, SD S9 192 SP, SD S10 200 SP, SD S11 208 SP, SD T3 216 SP, SD T4 224 SP,
     SD T5 232 SP, SD T6 240 SP]"

definition kernelvec_restore :: "instr list" where
  "kernelvec_restore =
    [LD RA 0 SP, LD SP 8 SP, LD GP 16 SP, LD T0 32 SP, LD T1 40 SP, LD T2 48 SP, LD S0 56 SP,
     LD S1 64 SP, LD A0 72 SP, LD A1 80 SP, LD A2 88 SP, LD A3 96 SP, LD A4 104 SP, LD A5 112 SP,
     LD A6 120 SP, LD A7 128 SP, LD S2 136 SP, LD S3 144 SP, LD S4 152 SP, LD S5 160 SP, LD S6 168 SP,
     LD S7 176 SP, LD S8 184 SP, LD S9 192 SP, LD S10 200 SP, LD S11 208 SP, LD T3 216 SP, LD T4 224 SP,
     LD T5 232 SP, LD T6 240 SP,
     ADDI SP SP 256, SRET]"

definition timervec :: "instr list" where
  "timervec =
    [CSRRW A0 MSCRATCH A0, SD A1 0 A0, SD A2 8 A0, SD A3 16 A0,
     LD A1 24 A0, LD A2 32 A0, LD A3 0 A1, ADD A3 A3 A2, SD A3 0 A1,
     LI A1 2, CSRW SIP A1,
     LD A3 16 A0, LD A2 8 A0, LD A1 0 A0, CSRRW A0 MSCRATCH A0, MRET]"

definition swtch :: "instr list" where
  "swtch =
    [SD RA 0 A0, SD SP 8 A0, SD S0 16 A0, SD S1 24 A0, SD S2 32 A0, SD S3 40 A0, SD S4 48 A0, SD S5 56 A0,
     SD S6 64 A0, SD S7 72 A0, SD S8 80 A0, SD S9 88 A0, SD S10 96 A0, SD S11 104 A0,
     LD RA 0 A1, LD SP 8 A1, LD S0 16 A1, LD S1 24 A1, LD S2 32 A1, LD S3 40 A1, LD S4 48 A1, LD S5 56 A1,
     LD S6 64 A1, LD S7 72 A1, LD S8 80 A1, LD S9 88 A1, LD S10 96 A1, LD S11 104 A1,
     RET]"

text \<open>\<open>_entry\<close> up to its call of \<open>start\<close>; \<open>stack0\<close> is an address the linker determines.\<close>

definition entry :: "addr \<Rightarrow> instr list" where
  "entry stack0 =
    [LI SP stack0, LI A0 (1024 * 4), CSRR A1 MHARTID, ADDI A1 A1 1, MUL A0 A0 A1, ADD SP SP A0]"

subsection \<open>Saving and restoring a table of registers\<close>

lemma irun_simps [simp]:
  "irun [] h = h" "irun (i # is) h = irun is (istep i h)" "irun (is @ js) h = irun js (irun is h)"
  by (simp_all add: irun_def)

definition saves :: "reg \<Rightarrow> (reg \<times> nat) list \<Rightarrow> instr list" where
  "saves b tbl = map (\<lambda>(r, n). SD r n b) tbl"

definition restores :: "reg \<Rightarrow> (reg \<times> nat) list \<Rightarrow> instr list" where
  "restores b tbl = map (\<lambda>(r, n). LD r n b) tbl"

text \<open>Distinct 8-byte slots of an area of at most a page, and where the area is in memory.\<close>

definition slots :: "nat \<Rightarrow> (reg \<times> nat) list \<Rightarrow> bool" where
  "slots sz tbl \<longleftrightarrow> sz \<le> 4096 \<and> distinct (map snd tbl) \<and> (\<forall>(r, n) \<in> set tbl. n mod 8 = 0 \<and> n < sz)"

definition mapped :: "hart \<Rightarrow> nat \<Rightarrow> addr \<Rightarrow> addr \<Rightarrow> bool" where
  "mapped h sz va pa \<longleftrightarrow> (\<forall>n < sz. n mod 8 = 0 \<longrightarrow> pa_of h (va + of_nat n) = pa + of_nat n)"

lemma pa_of_simps [simp]:
  "pa_of (h\<lparr>h_mem := m\<rparr>) = pa_of h" "pa_of (set_reg r v h) = pa_of h"
  by (simp_all add: fun_eq_iff pa_of_def set_reg_def)

lemma set_reg_sel [simp]:
  "h_reg (set_reg r v h) = (h_reg h)(r := v)" "h_csr (set_reg r v h) = h_csr h" "h_mem (set_reg r v h) = h_mem h"
  "h_machine (set_reg r v h) = h_machine h" "h_xlate (set_reg r v h) = h_xlate h" "h_pc (set_reg r v h) = h_pc h"
  by (simp_all add: set_reg_def)

lemma set_csr_sel [simp]:
  "h_reg (set_csr c v h) = h_reg h" "h_csr (set_csr c v h) = (h_csr h)(c := v)" "h_mem (set_csr c v h) = h_mem h"
  "h_machine (set_csr c v h) = h_machine h" "h_xlate (set_csr c v h) = h_xlate h" "h_pc (set_csr c v h) = h_pc h"
  by (simp_all add: set_csr_def)

lemma slot_apart:
  assumes "m mod 8 = 0" "n mod 8 = 0" "m \<noteq> n" "m < 4096" "n < 4096" "i < 8"
  shows "\<not> in_area (pa + of_nat m) 8 (pa + of_nat n + of_nat i :: addr)"
proof -
  have e: "pa + of_nat n + of_nat i - (pa + of_nat m) = (of_nat (n + i) - of_nat m :: addr)" by simp
  have apart: "n + 8 \<le> m \<or> m + 8 \<le> n" using assms(1-3) by presburger
  show ?thesis
  proof (cases "m \<le> n + i")
    case True
    then have "(of_nat (n + i) - of_nat m :: addr) = of_nat (n + i - m)" by (simp add: of_nat_diff)
    moreover have "unat (of_nat (n + i - m) :: addr) = n + i - m" using assms by (simp add: unat_of_nat)
    ultimately have "unat (pa + of_nat n + of_nat i - (pa + of_nat m)) = n + i - m" by (simp only: e)
    then show ?thesis using apart True assms(6) by linarith
  next
    case False
    have "(of_nat (n + i) - of_nat m :: addr) = of_nat (18446744073709551616 + (n + i) - m)"
      using assms(4) by (simp add: of_nat_diff)
    moreover have "unat (of_nat (18446744073709551616 + (n + i) - m) :: addr) = 18446744073709551616 + (n + i) - m"
      using False assms(4) by (intro unat_of_nat64) linarith
    ultimately have "unat (pa + of_nat n + of_nat i - (pa + of_nat m)) = 18446744073709551616 + (n + i) - m" by (simp only: e)
    then show ?thesis using assms(4) by linarith
  qed
qed

lemma load64_frame:
  assumes "n mod 8 = 0" "n < 4096" and "\<And>i. i < 8 \<Longrightarrow> m' (pa + of_nat n + of_nat i) = m (pa + of_nat n + of_nat i)"
  shows "load64 m' (pa + of_nat n) = load64 m (pa + of_nat n)"
  by (rule load64_cong) (rule assms(3))

lemma run_saves:
  assumes "mapped h sz (h_reg h b) pa" and "slots sz tbl"
  shows "\<exists>m. irun (saves b tbl) h = h\<lparr>h_mem := m\<rparr>
    \<and> (\<forall>(r, n) \<in> set tbl. load64 m (pa + of_nat n) = h_reg h r)
    \<and> (\<forall>x. (\<forall>(r, n) \<in> set tbl. \<not> in_area (pa + of_nat n) 8 x) \<longrightarrow> m x = h_mem h x)"
  using assms
proof (induction tbl arbitrary: h)
  case Nil
  show ?case by (rule exI [of _ "h_mem h"]) (simp add: saves_def)
next
  case (Cons e tbl)
  obtain r n where e: "e = (r, n)" by (cases e)
  have rn: "n mod 8 = 0" "n < 4096" "n < sz" "slots sz tbl" "\<forall>(r', n') \<in> set tbl. n' mod 8 = 0 \<and> n' < 4096 \<and> n' \<noteq> n"
    using Cons.prems(2) by (auto simp: slots_def e image_iff)
  define h1 where "h1 = h\<lparr>h_mem := store64 (h_mem h) (pa + of_nat n) (h_reg h r)\<rparr>"
  have step: "istep (SD r n b) h = h1" using Cons.prems(1) rn by (simp add: h1_def mapped_def)
  have "mapped h1 sz (h_reg h1 b) pa" using Cons.prems(1) by (simp add: h1_def mapped_def)
  from Cons.IH [OF this rn(4)] obtain m where m: "irun (saves b tbl) h1 = h1\<lparr>h_mem := m\<rparr>"
    "\<forall>(r, n) \<in> set tbl. load64 m (pa + of_nat n) = h_reg h1 r"
    "\<forall>x. (\<forall>(r, n) \<in> set tbl. \<not> in_area (pa + of_nat n) 8 x) \<longrightarrow> m x = h_mem h1 x" by blast
  have "load64 m (pa + of_nat n) = load64 (h_mem h1) (pa + of_nat n)"
    by (rule load64_frame [OF rn(1,2)], rule m(3) [rule_format]) (use rn(5) slot_apart [OF _ rn(1) _ _ rn(2)] in fastforce)
  then have "load64 m (pa + of_nat n) = h_reg h r" by (simp add: h1_def)
  moreover have "m x = h_mem h x" if "\<forall>(r, n) \<in> set (e # tbl). \<not> in_area (pa + of_nat n) 8 x" for x
    using m(3) that by (simp add: e h1_def store64_other)
  ultimately show ?case using m(1,2) step
    by (intro exI [of _ m]) (auto simp: saves_def e h1_def)
qed

lemma load64_other_slot:
  assumes "slots sz tbl" and "k mod 8 = 0" "k < 4096" "k \<notin> snd ` set tbl"
    and "\<forall>x. (\<forall>(r, n) \<in> set tbl. \<not> in_area (pa + of_nat n) 8 x) \<longrightarrow> m' x = m x"
  shows "load64 m' (pa + of_nat k) = load64 m (pa + of_nat k)"
proof (rule load64_frame [OF assms(2,3)], rule assms(5) [rule_format])
  fix i :: nat and e assume "i < 8" "e \<in> set tbl"
  moreover obtain r n where "e = (r, n)" by (cases e)
  moreover from calculation have "n mod 8 = 0" "n < 4096" "n \<noteq> k" using assms(1,4) by (auto simp: slots_def image_iff)
  ultimately show "case e of (r, n) \<Rightarrow> \<not> in_area (pa + of_nat n) 8 (pa + of_nat k + of_nat i)"
    using slot_apart [of n k i pa] assms(2,3) by simp
qed

lemma run_restores:
  assumes "mapped h sz (h_reg h b) pa" and "slots sz tbl" and "distinct (map fst tbl)"
    and "\<And>n. (b, n) \<in> set tbl \<Longrightarrow> load64 (h_mem h) (pa + of_nat n) = h_reg h b"
  shows "\<exists>g. irun (restores b tbl) h = h\<lparr>h_reg := g\<rparr>
    \<and> (\<forall>(r, n) \<in> set tbl. g r = load64 (h_mem h) (pa + of_nat n)) \<and> (\<forall>r. r \<notin> fst ` set tbl \<longrightarrow> g r = h_reg h r)"
  using assms
proof (induction tbl arbitrary: h)
  case Nil
  show ?case by (rule exI [of _ "h_reg h"]) (simp add: restores_def)
next
  case (Cons e tbl)
  obtain r n where e: "e = (r, n)" by (cases e)
  have rn: "n mod 8 = 0" "n < sz" "slots sz tbl" "distinct (map fst tbl)" "r \<notin> fst ` set tbl"
    using Cons.prems(2,3) by (auto simp: slots_def e)
  define v where "v = load64 (h_mem h) (pa + of_nat n)"
  have step: "istep (LD r n b) h = set_reg r v h" using Cons.prems(1) rn by (simp add: v_def mapped_def)
  have b: "h_reg (set_reg r v h) b = h_reg h b" using Cons.prems(4) by (simp add: e v_def)
  have "mapped (set_reg r v h) sz (h_reg (set_reg r v h) b) pa"
    using Cons.prems(1) by (simp only: b) (simp add: mapped_def)
  moreover have "load64 (h_mem (set_reg r v h)) (pa + of_nat k) = h_reg (set_reg r v h) b" if "(b, k) \<in> set tbl" for k
    using Cons.prems(4) that by (simp only: b) simp
  ultimately obtain g where g: "irun (restores b tbl) (set_reg r v h) = (set_reg r v h)\<lparr>h_reg := g\<rparr>"
    "\<forall>(r, n) \<in> set tbl. g r = load64 (h_mem h) (pa + of_nat n)"
    "\<forall>x. x \<notin> fst ` set tbl \<longrightarrow> g x = h_reg (set_reg r v h) x"
    using Cons.IH [of "set_reg r v h"] rn(3,4) by auto
  have "(set_reg r v h)\<lparr>h_reg := g\<rparr> = h\<lparr>h_reg := g\<rparr>" by (simp add: set_reg_def)
  then show ?case using g step rn(5)
    by (intro exI [of _ g]) (auto simp: restores_def e v_def)
qed

subsection \<open>Traps from user space\<close>

definition user_regs :: "(reg \<times> nat) list" where
  "user_regs =
    [(RA, 40), (SP, 48), (GP, 56), (TP, 64), (T0, 72), (T1, 80), (T2, 88), (S0, 96), (S1, 104), (A1, 120), (A2, 128),
     (A3, 136), (A4, 144), (A5, 152), (A6, 160), (A7, 168), (S2, 176), (S3, 184), (S4, 192), (S5, 200), (S6, 208),
     (S7, 216), (S8, 224), (S9, 232), (S10, 240), (S11, 248), (T3, 256), (T4, 264), (T5, 272), (T6, 280)]"

lemma user_regs_table:
  "slots 4096 user_regs" "distinct (map fst user_regs)" "fst ` set user_regs = UNIV - {A0}" "\<And>n. (A0, n) \<notin> set user_regs"
  "\<forall>(r, n) \<in> set user_regs. 40 \<le> n \<and> n \<le> 280 \<and> n \<noteq> 112"
proof -
  show "fst ` set user_regs = UNIV - {A0}"
  proof (intro set_eqI)
    fix r show "r \<in> fst ` set user_regs \<longleftrightarrow> r \<in> UNIV - {A0}" by (cases r) (simp_all add: user_regs_def)
  qed
qed (simp_all add: user_regs_def slots_def)

lemma uservec_shape:
  "uservec = [CSRW SSCRATCH A0, LI A0 TRAPFRAME] @ saves A0 user_regs @ [CSRR T0 SSCRATCH] @ saves A0 [(T0, 112)]
     @ [LD SP 8 A0, LD TP 32 A0, LD T0 16 A0, LD T1 0 A0, SFENCE, CSRW SATP T1, SFENCE, JR T0]"
  by (simp add: uservec_def saves_def user_regs_def)

lemma userret_shape:
  "userret = [SFENCE, CSRW SATP A0, SFENCE, LI A0 TRAPFRAME] @ restores A0 user_regs @ [LD A0 112 A0] @ [SRET]"
  by (simp add: userret_def restores_def user_regs_def)

lemma uservec_effect:
  fixes h :: hart
  assumes "mapped h 4096 TRAPFRAME tf"
  defines "h' \<equiv> irun uservec h"
  shows "\<forall>(r, n) \<in> set user_regs. load64 (h_mem h') (tf + of_nat n) = h_reg h r"
    "load64 (h_mem h') (tf + 112) = h_reg h A0"
    "h_reg h' SP = load64 (h_mem h) (tf + 8)" "h_reg h' TP = load64 (h_mem h) (tf + 32)"
    "h_pc h' = load64 (h_mem h) (tf + 16)" "h_csr h' SATP = load64 (h_mem h) tf"
proof -
  define h1 where "h1 = set_reg A0 TRAPFRAME (set_csr SSCRATCH (h_reg h A0) h)"
  have h1: "pa_of h1 = pa_of h" "h_reg h1 A0 = TRAPFRAME" "h_csr h1 SSCRATCH = h_reg h A0" "h_mem h1 = h_mem h"
    "r \<noteq> A0 \<Longrightarrow> h_reg h1 r = h_reg h r" for r
    by (simp_all add: h1_def fun_eq_iff pa_of_def)
  have "mapped h1 4096 (h_reg h1 A0) tf" using assms(1) by (simp add: mapped_def h1)
  from run_saves [OF this user_regs_table(1)] obtain m where m: "irun (saves A0 user_regs) h1 = h1\<lparr>h_mem := m\<rparr>"
    "\<forall>(r, n) \<in> set user_regs. load64 m (tf + of_nat n) = h_reg h1 r"
    "\<forall>x. (\<forall>(r, n) \<in> set user_regs. \<not> in_area (tf + of_nat n) 8 x) \<longrightarrow> m x = h_mem h1 x" by blast
  define h2 where "h2 = set_reg T0 (h_reg h A0) (h1\<lparr>h_mem := m\<rparr>)"
  have h2: "pa_of h2 = pa_of h" "h_reg h2 A0 = TRAPFRAME" "h_reg h2 T0 = h_reg h A0" by (simp_all add: h2_def h1)
  have t: "slots 4096 [(T0, 112)]" by (simp add: slots_def)
  have "mapped h2 4096 (h_reg h2 A0) tf" using assms(1) by (simp add: mapped_def h2)
  from run_saves [OF this t] obtain m' where m': "irun (saves A0 [(T0, 112)]) h2 = h2\<lparr>h_mem := m'\<rparr>"
    "load64 m' (tf + 112) = h_reg h2 T0"
    "\<forall>x. (\<forall>(r, n) \<in> set [(T0, 112)]. \<not> in_area (tf + of_nat n) 8 x) \<longrightarrow> m' x = h_mem h2 x" by auto
  have keep: "load64 m' (tf + of_nat k) = load64 m (tf + of_nat k)" if "k mod 8 = 0" "k < 4096" "k \<noteq> 112" for k
    using load64_other_slot [OF t that(1,2) _ m'(3)] that(3) by (simp add: h2_def)
  have low: "load64 m (tf + of_nat k) = load64 (h_mem h) (tf + of_nat k)" if "k mod 8 = 0" "k < 40" for k
    using load64_other_slot [OF user_regs_table(1) that(1) _ _ m(3)] that user_regs_table(5) by (fastforce simp: h1(4))
  have slot: "pa_of h (TRAPFRAME + of_nat k) = tf + of_nat k" if "k mod 8 = 0" "k < 4096" for k
    using assms(1) that by (simp add: mapped_def)
  have start: "irun [CSRW SSCRATCH A0, LI A0 TRAPFRAME] h = h1" by (simp add: h1_def)
  have mid: "irun [CSRR T0 SSCRATCH] (h1\<lparr>h_mem := m\<rparr>) = h2" by (simp add: h2_def h1)
  have run: "h' = irun [LD SP 8 A0, LD TP 32 A0, LD T0 16 A0, LD T1 0 A0, SFENCE, CSRW SATP T1, SFENCE, JR T0] (h2\<lparr>h_mem := m'\<rparr>)"
    by (simp only: h'_def uservec_shape irun_simps(3) start m(1) mid m'(1))
  have v: "load64 m' (tf + of_nat k) = load64 (h_mem h) (tf + of_nat k)" if "k mod 8 = 0" "k < 40" for k
    using keep [of k] low [of k] that by simp
  show "\<forall>(r, n) \<in> set user_regs. load64 (h_mem h') (tf + of_nat n) = h_reg h r"
    using m(2) user_regs_table(1,4,5) keep by (auto simp: run slots_def split: prod.splits) (metis (no_types, lifting) case_prodD h1(5))
  show "load64 (h_mem h') (tf + 112) = h_reg h A0" using m'(2) by (simp add: run h2(3))
  show "h_reg h' SP = load64 (h_mem h) (tf + 8)" "h_reg h' TP = load64 (h_mem h) (tf + 32)"
    "h_pc h' = load64 (h_mem h) (tf + 16)" "h_csr h' SATP = load64 (h_mem h) tf"
    using v [of 8] v [of 32] v [of 16] v [of 0] slot [of 8] slot [of 32] slot [of 16] slot [of 0] by (simp_all add: run h2)
qed

lemma userret_effect:
  fixes k :: hart
  assumes "mapped (set_csr SATP (h_reg k A0) k) 4096 TRAPFRAME tf"
  shows "(r, n) \<in> set user_regs \<Longrightarrow> h_reg (irun userret k) r = load64 (h_mem k) (tf + of_nat n)"
    "h_reg (irun userret k) A0 = load64 (h_mem k) (tf + 112)" "h_csr (irun userret k) = (h_csr k)(SATP := h_reg k A0)"
    "h_mem (irun userret k) = h_mem k" "h_pc (irun userret k) = h_csr k SEPC"
proof -
  define k1 where "k1 = set_reg A0 TRAPFRAME (set_csr SATP (h_reg k A0) k)"
  have k1: "h_mem k1 = h_mem k" "h_reg k1 A0 = TRAPFRAME" "h_csr k1 = (h_csr k)(SATP := h_reg k A0)" by (simp_all add: k1_def)
  have map: "mapped k1 4096 (h_reg k1 A0) tf" using assms by (simp add: mapped_def k1_def)
  have "(A0, n) \<in> set user_regs \<Longrightarrow> load64 (h_mem k1) (tf + of_nat n) = h_reg k1 A0" for n using user_regs_table(4) by simp
  from run_restores [OF map user_regs_table(1,2) this] obtain g where g: "irun (restores A0 user_regs) k1 = k1\<lparr>h_reg := g\<rparr>"
    "\<forall>(r, n) \<in> set user_regs. g r = load64 (h_mem k1) (tf + of_nat n)" "\<forall>r. r \<notin> fst ` set user_regs \<longrightarrow> g r = h_reg k1 r"
    by blast
  have gA0: "g A0 = TRAPFRAME" using g(3) user_regs_table(3) k1(2) by simp
  have "pa_of (k1\<lparr>h_reg := g\<rparr>) = pa_of k1" by (simp add: pa_of_def fun_eq_iff)
  moreover have "pa_of k1 (TRAPFRAME + 112) = tf + 112" using map [unfolded mapped_def, rule_format, of 112] by (simp add: k1)
  ultimately have ld: "irun [LD A0 112 A0] (k1\<lparr>h_reg := g\<rparr>) = set_reg A0 (load64 (h_mem k) (tf + 112)) (k1\<lparr>h_reg := g\<rparr>)"
    by (simp add: gA0 k1)
  have start: "irun [SFENCE, CSRW SATP A0, SFENCE, LI A0 TRAPFRAME] k = k1" by (simp add: k1_def)
  have run: "irun userret k = irun [SRET] (set_reg A0 (load64 (h_mem k) (tf + 112)) (k1\<lparr>h_reg := g\<rparr>))"
    by (simp only: userret_shape irun_simps(3) start g(1) ld)
  show "h_reg (irun userret k) r = load64 (h_mem k) (tf + of_nat n)" if "(r, n) \<in> set user_regs"
    using g(2) that user_regs_table(4) by (auto simp: run k1)
  show "h_reg (irun userret k) A0 = load64 (h_mem k) (tf + 112)" "h_csr (irun userret k) = (h_csr k)(SATP := h_reg k A0)"
    "h_mem (irun userret k) = h_mem k" "h_pc (irun userret k) = h_csr k SEPC"
    by (simp_all add: run k1)
qed

text \<open>C18: a user program does not notice a trap. \<open>uservec\<close> saves every register of the program in the
  trapframe and enters \<open>usertrap\<close> with the kernel's stack, hart number and page table from there.
  Whatever the kernel does then, if it leaves the saved registers in the trapframe as they are and
  jumps to \<open>userret\<close> with the program's satp, the program continues at sepc with every register and
  its page table as they were.\<close>

theorem trap_preserves_registers:
  assumes "mapped h 4096 TRAPFRAME tf" and "h_machine k = h_machine h" and "h_xlate k = h_xlate h" and "h_reg k A0 = h_csr h SATP"
    and "\<forall>n. 40 \<le> n \<and> n < 288 \<longrightarrow> h_mem k (tf + of_nat n) = h_mem (irun uservec h) (tf + of_nat n)"
  shows "h_reg (irun userret k) = h_reg h \<and> h_csr (irun userret k) SATP = h_csr h SATP \<and> h_pc (irun userret k) = h_csr k SEPC
    \<and> h_pc (irun uservec h) = load64 (h_mem h) (tf + 16) \<and> h_reg (irun uservec h) SP = load64 (h_mem h) (tf + 8)
    \<and> h_reg (irun uservec h) TP = load64 (h_mem h) (tf + 32) \<and> h_csr (irun uservec h) SATP = load64 (h_mem h) tf"
proof -
  have same: "load64 (h_mem k) (tf + of_nat n) = load64 (h_mem (irun uservec h)) (tf + of_nat n)" if "40 \<le> n" "n \<le> 280" for n
  proof (rule load64_cong)
    fix i :: nat assume "i < 8"
    then show "h_mem k (tf + of_nat n + of_nat i) = h_mem (irun uservec h) (tf + of_nat n + of_nat i)"
      using assms(5) [rule_format, of "n + i"] that by (simp add: add.assoc)
  qed
  have "pa_of (set_csr SATP (h_reg k A0) k) = pa_of h" by (simp add: fun_eq_iff pa_of_def assms(2-4))
  then have "mapped (set_csr SATP (h_reg k A0) k) 4096 TRAPFRAME tf" using assms(1) by (simp add: mapped_def)
  note ret = userret_effect [OF this]
  have "h_reg (irun userret k) r = h_reg h r" for r
  proof (cases "r = A0")
    case True
    then show ?thesis using ret(2) same [of 112] uservec_effect(2) [OF assms(1)] by simp
  next
    case False
    then have "r \<in> fst ` set user_regs" using user_regs_table(3) by simp
    then obtain n where n: "(r, n) \<in> set user_regs" by auto
    then have "40 \<le> n" "n \<le> 280" using user_regs_table(5) by auto
    then show ?thesis using ret(1) [OF n] same uservec_effect(1) [OF assms(1)] n by auto
  qed
  then show ?thesis using ret(3,5) assms(4) uservec_effect(3-6) [OF assms(1)] by (auto simp: fun_eq_iff)
qed

definition demo_hart :: hart where
  "demo_hart = \<lparr>h_reg = (\<lambda>r. if r = A0 then 7 else if r = S3 then 9 else 0), h_csr = (\<lambda>c. if c = SATP then 5 else 0),
     h_mem = (\<lambda>x. 0), h_machine = False, h_xlate = (\<lambda>x va. va - TRAPFRAME + 0x87000000), h_pc = 0\<rparr>"

theorem trap_preserves_registers_witness:
  "h_reg (irun userret ((irun uservec demo_hart)\<lparr>h_reg := (\<lambda>r. 5)\<rparr>)) S3 = 9"
proof -
  have "h_machine (irun uservec demo_hart) = False" "h_xlate (irun uservec demo_hart) = h_xlate demo_hart"
    by (simp_all add: uservec_def demo_hart_def)
  moreover have "mapped demo_hart 4096 TRAPFRAME 0x87000000" by (simp add: mapped_def pa_of_def demo_hart_def)
  ultimately show ?thesis
    using trap_preserves_registers [of demo_hart "0x87000000" "(irun uservec demo_hart)\<lparr>h_reg := (\<lambda>r. 5)\<rparr>"]
    by (simp add: demo_hart_def)
qed

end
