(* ===== verification/Asm_Switch.thy ===== *)
theory Asm_Switch
  imports Asm
begin

text \<open>
  The context switch, traps inside the kernel, the timer interrupt and the entry point: what the
  programs of swtch.S, kernelvec.S and entry.S do to the registers and to memory.
\<close>

subsection \<open>Context switches\<close>

definition ctx_regs :: "(reg \<times> nat) list" where
  "ctx_regs = [(RA, 0), (SP, 8), (S0, 16), (S1, 24), (S2, 32), (S3, 40), (S4, 48), (S5, 56), (S6, 64), (S7, 72), (S8, 80),
     (S9, 88), (S10, 96), (S11, 104)]"

lemma ctx_regs_table:
  "slots 112 ctx_regs" "distinct (map fst ctx_regs)" "(RA, 0) \<in> set ctx_regs"
  "\<And>n. (A0, n) \<notin> set ctx_regs" "\<And>n. (A1, n) \<notin> set ctx_regs"
  "\<forall>(r, n) \<in> set ctx_regs. n + 8 \<le> 112"
  by (simp_all add: ctx_regs_def slots_def)

lemma swtch_shape: "swtch = saves A0 ctx_regs @ restores A1 ctx_regs @ [RET]"
  by (simp add: swtch_def saves_def restores_def ctx_regs_def)

text \<open>Two areas of 112 bytes have no byte in common.\<close>

definition ctx_apart :: "addr \<Rightarrow> addr \<Rightarrow> bool" where
  "ctx_apart a b \<longleftrightarrow> (\<forall>m < 112. \<forall>n < 112. a + of_nat m \<noteq> b + of_nat n)"

lemma apart_slot:
  assumes "ctx_apart a b" and "m + 8 \<le> 112" and "n < 112"
  shows "\<not> in_area (a + of_nat m) 8 (b + of_nat n)"
proof
  define i where "i = unat (b + of_nat n - (a + of_nat m))"
  assume "in_area (a + of_nat m) 8 (b + of_nat n)"
  then have "i < 8" by (simp add: i_def)
  moreover have "a + of_nat (m + i) = b + of_nat n" by (simp add: i_def)
  ultimately show False using assms(1) [unfolded ctx_apart_def, rule_format, of "m + i" n] assms(2,3) by simp
qed

lemma swtch_effect:
  fixes h :: hart
  assumes "mapped h 112 (h_reg h A0) old" and "mapped h 112 (h_reg h A1) new" and "ctx_apart old new"
  shows "(r, n) \<in> set ctx_regs \<Longrightarrow> load64 (h_mem (irun swtch h)) (old + of_nat n) = h_reg h r"
    "(r, n) \<in> set ctx_regs \<Longrightarrow> h_reg (irun swtch h) r = load64 (h_mem h) (new + of_nat n)"
    "r \<notin> fst ` set ctx_regs \<Longrightarrow> h_reg (irun swtch h) r = h_reg h r"
    "h_pc (irun swtch h) = load64 (h_mem h) new" "h_csr (irun swtch h) = h_csr h"
    "\<forall>n < 112. x \<noteq> old + of_nat n \<Longrightarrow> h_mem (irun swtch h) x = h_mem h x"
proof -
  from run_saves [OF assms(1) ctx_regs_table(1)] obtain m where m: "irun (saves A0 ctx_regs) h = h\<lparr>h_mem := m\<rparr>"
    "\<forall>(r, n) \<in> set ctx_regs. load64 m (old + of_nat n) = h_reg h r"
    "\<forall>x. (\<forall>(r, n) \<in> set ctx_regs. \<not> in_area (old + of_nat n) 8 x) \<longrightarrow> m x = h_mem h x" by blast
  have off: "n + 8 \<le> 112" if "(r, n) \<in> set ctx_regs" for r n using that ctx_regs_table(6) by auto
  have new: "load64 m (new + of_nat n) = load64 (h_mem h) (new + of_nat n)" if "n + 8 \<le> 112" for n
  proof (rule load64_cong)
    fix i :: nat assume "i < 8"
    then have "\<not> in_area (old + of_nat k) 8 (new + of_nat n + of_nat i)" if "(r, k) \<in> set ctx_regs" for r k
      using apart_slot [OF assms(3) off [OF that], of "n + i"] \<open>n + 8 \<le> 112\<close> by (simp add: add.assoc)
    then show "m (new + of_nat n + of_nat i) = h_mem h (new + of_nat n + of_nat i)" using m(3) by blast
  qed
  define h1 where "h1 = h\<lparr>h_mem := m\<rparr>"
  have "mapped h1 112 (h_reg h1 A1) new" using assms(2) by (simp add: mapped_def h1_def)
  from run_restores [OF this ctx_regs_table(1,2)] ctx_regs_table(5) obtain g where
    g: "irun (restores A1 ctx_regs) h1 = h1\<lparr>h_reg := g\<rparr>" "\<forall>(r, n) \<in> set ctx_regs. g r = load64 m (new + of_nat n)"
    "\<forall>r. r \<notin> fst ` set ctx_regs \<longrightarrow> g r = h_reg h r" by (auto simp: h1_def)
  have run: "irun swtch h = irun [RET] (h1\<lparr>h_reg := g\<rparr>)"
    by (simp only: swtch_shape irun_simps(3) m(1) h1_def [symmetric] g(1))
  show "load64 (h_mem (irun swtch h)) (old + of_nat n) = h_reg h r" if "(r, n) \<in> set ctx_regs" using m(2) that by (auto simp: run h1_def)
  show r: "h_reg (irun swtch h) r = load64 (h_mem h) (new + of_nat n)" if "(r, n) \<in> set ctx_regs" for r n
    using g(2) new [OF off [OF that]] that by (auto simp: run)
  show "h_reg (irun swtch h) r = h_reg h r" if "r \<notin> fst ` set ctx_regs" using g(3) that by (simp add: run)
  show "h_pc (irun swtch h) = load64 (h_mem h) new" using r [OF ctx_regs_table(3)] by (simp add: run)
  show "h_csr (irun swtch h) = h_csr h" by (simp add: run h1_def)
  have "\<not> in_area (old + of_nat k) 8 x" if "(r, k) \<in> set ctx_regs" "\<forall>n < 112. x \<noteq> old + of_nat n" for r k
  proof
    define i where "i = unat (x - (old + of_nat k))"
    assume "in_area (old + of_nat k) 8 x"
    then have "i < 8" by (simp add: i_def)
    moreover have "x = old + of_nat (k + i)" by (simp add: i_def)
    ultimately show False using that(2) [rule_format, of "k + i"] off [OF that(1)] by simp
  qed
  then show "h_mem (irun swtch h) x = h_mem h x" if "\<forall>n < 112. x \<noteq> old + of_nat n" using that by (simp add: run h1_def) (rule m(3) [rule_format], auto)
qed

text \<open>C19: a context switch is undone by the next switch to the saved context. \<open>swtch(old, new)\<close> continues
  where the context \<open>new\<close> says; when some CPU later calls \<open>swtch\<close> with \<open>old\<close> as the context to load,
  and \<open>old\<close> is still what the first call saved, execution continues at the return address of the
  first call with its stack pointer and all callee-saved registers, as if that call had just returned.\<close>

theorem swtch_returns:
  assumes "mapped h 112 (h_reg h A0) old" and "mapped h 112 (h_reg h A1) new" and "ctx_apart old new"
    and "mapped k 112 (h_reg k A0) cur" and "mapped k 112 (h_reg k A1) old" and "ctx_apart cur old"
    and "\<forall>n < 112. h_mem k (old + of_nat n) = h_mem (irun swtch h) (old + of_nat n)"
  shows "h_pc (irun swtch h) = load64 (h_mem h) new \<and> h_pc (irun swtch k) = h_reg h RA
    \<and> (\<forall>r \<in> {RA, SP, S0, S1, S2, S3, S4, S5, S6, S7, S8, S9, S10, S11}. h_reg (irun swtch k) r = h_reg h r)"
proof -
  have ret: "h_reg (irun swtch k) r = h_reg h r" if "(r, n) \<in> set ctx_regs" for r n
  proof -
    have "load64 (h_mem k) (old + of_nat n) = load64 (h_mem (irun swtch h)) (old + of_nat n)"
    proof (rule load64_cong)
      fix i :: nat assume "i < 8"
      moreover have "n + 8 \<le> 112" using that ctx_regs_table(6) by auto
      ultimately show "h_mem k (old + of_nat n + of_nat i) = h_mem (irun swtch h) (old + of_nat n + of_nat i)"
        using assms(7) [rule_format, of "n + i"] by (simp add: add.assoc)
    qed
    then show ?thesis using swtch_effect(2) [OF assms(4-6) that] swtch_effect(1) [OF assms(1-3) that] by simp
  qed
  have "h_pc (irun swtch k) = h_reg (irun swtch k) RA"
    using swtch_effect(2) [OF assms(4-6) ctx_regs_table(3)] swtch_effect(4) [OF assms(4-6)] by simp
  moreover have "\<forall>r \<in> {RA, SP, S0, S1, S2, S3, S4, S5, S6, S7, S8, S9, S10, S11}. \<exists>n. (r, n) \<in> set ctx_regs"
    by (simp add: ctx_regs_def)
  ultimately show ?thesis using ret ret [OF ctx_regs_table(3)] swtch_effect(4) [OF assms(1-3)] by metis
qed

definition swtch_hart :: "addr \<Rightarrow> addr \<Rightarrow> hart" where
  "swtch_hart a0 a1 = \<lparr>h_reg = (\<lambda>r. if r = A0 then a0 else if r = A1 then a1 else if r = RA then 0x80001234 else 0x42), h_csr = (\<lambda>c. 0),
     h_mem = (\<lambda>x. 0), h_machine = True, h_xlate = (\<lambda>x va. va), h_pc = 0\<rparr>"

lemma swtch_hart_mapped:
  "mapped (swtch_hart a b) 112 x x" "h_reg (swtch_hart a b) A0 = a" "h_reg (swtch_hart a b) A1 = b"
  "mapped (swtch_hart a b\<lparr>h_mem := m\<rparr>) 112 x x"
  by (simp_all add: swtch_hart_def mapped_def pa_of_def)

lemma ctx_apart_demo: "ctx_apart 0x1000 0x2000" "ctx_apart 0x2000 0x1000"
proof -
  have "False" if "m < 112" "n < 112" "(0x1000 :: addr) + of_nat m = 0x2000 + of_nat n" for m n :: nat
  proof -
    have "unat ((0x1000 :: addr) + of_nat m) = 0x1000 + m" "unat ((0x2000 :: addr) + of_nat n) = 0x2000 + n"
      using that(1,2) by (simp_all add: unat_word_ariths)
    then show False using that by simp
  qed
  then show "ctx_apart 0x1000 0x2000" "ctx_apart 0x2000 0x1000" unfolding ctx_apart_def by metis+
qed

theorem swtch_returns_witness:
  "h_pc (irun swtch (swtch_hart 0x2000 0x1000\<lparr>h_mem := h_mem (irun swtch (swtch_hart 0x1000 0x2000))\<rparr>)) = 0x80001234"
proof -
  let ?h = "swtch_hart 0x1000 0x2000" and ?k = "swtch_hart 0x2000 0x1000\<lparr>h_mem := h_mem (irun swtch (swtch_hart 0x1000 0x2000))\<rparr>"
  have "h_reg ?h RA = 0x80001234" "h_reg ?k A0 = 0x2000" "h_reg ?k A1 = 0x1000" by (simp_all add: swtch_hart_def)
  then show ?thesis
    using swtch_returns [of ?h "0x1000" "0x2000" ?k "0x2000"] ctx_apart_demo swtch_hart_mapped by simp
qed

subsection \<open>Traps inside the kernel\<close>

definition kernel_regs :: "(reg \<times> nat) list" where
  "kernel_regs =
    [(RA, 0), (SP, 8), (GP, 16), (T0, 32), (T1, 40), (T2, 48), (S0, 56), (S1, 64), (A0, 72), (A1, 80), (A2, 88), (A3, 96),
     (A4, 104), (A5, 112), (A6, 120), (A7, 128), (S2, 136), (S3, 144), (S4, 152), (S5, 160), (S6, 168), (S7, 176),
     (S8, 184), (S9, 192), (S10, 200), (S11, 208), (T3, 216), (T4, 224), (T5, 232), (T6, 240)]"

definition kernel_saved :: "(reg \<times> nat) list" where
  "kernel_saved = take 3 kernel_regs @ [(TP, 24)] @ drop 3 kernel_regs"

lemma kernel_regs_table:
  "slots 248 kernel_regs" "distinct (map fst kernel_regs)" "fst ` set kernel_regs = UNIV - {TP}"
  "(SP, n) \<in> set kernel_regs \<longleftrightarrow> n = 8" "slots 248 kernel_saved" "set kernel_regs \<subseteq> set kernel_saved"
  "\<forall>(r, n) \<in> set kernel_regs. n + 8 \<le> 248"
proof -
  show "fst ` set kernel_regs = UNIV - {TP}"
  proof (intro set_eqI)
    fix r show "r \<in> fst ` set kernel_regs \<longleftrightarrow> r \<in> UNIV - {TP}" by (cases r) (simp_all add: kernel_regs_def)
  qed
qed (auto simp: kernel_regs_def kernel_saved_def slots_def)

lemma kernelvec_shape:
  "kernelvec_save = [ADDI SP SP (-256)] @ saves SP kernel_saved"
  "kernelvec_restore = restores SP kernel_regs @ [ADDI SP SP 256, SRET]"
  by (simp_all add: kernelvec_save_def kernelvec_restore_def saves_def restores_def kernel_regs_def kernel_saved_def)

text \<open>C33: kernel code does not notice a trap. \<open>kernelvec\<close> saves the registers below the stack pointer and
  calls \<open>kerneltrap\<close>; when that comes back with the stack pointer it was called with and the saved
  registers still there - possibly on another hart, after a \<open>yield\<close> - the interrupted code continues
  at sepc with every register as it was, except tp, which keeps the number of the hart it runs on now.\<close>

theorem kernelvec_preserves_registers:
  assumes "mapped h 248 (h_reg h SP - 256) pa" and "mapped k 248 (h_reg h SP - 256) pa" and "h_reg k SP = h_reg h SP - 256"
    and "\<forall>n < 248. h_mem k (pa + of_nat n) = h_mem (irun kernelvec_save h) (pa + of_nat n)"
  shows "(\<forall>r. r \<noteq> TP \<longrightarrow> h_reg (irun kernelvec_restore k) r = h_reg h r) \<and> h_reg (irun kernelvec_restore k) TP = h_reg k TP
    \<and> h_pc (irun kernelvec_restore k) = h_csr k SEPC \<and> h_mem (irun kernelvec_restore k) = h_mem k"
proof -
  define h1 where "h1 = set_reg SP (h_reg h SP - 256) h"
  have "mapped h1 248 (h_reg h1 SP) pa" using assms(1) by (simp add: h1_def mapped_def)
  from run_saves [OF this kernel_regs_table(5)] obtain m where m: "irun (saves SP kernel_saved) h1 = h1\<lparr>h_mem := m\<rparr>"
    "\<forall>(r, n) \<in> set kernel_saved. load64 m (pa + of_nat n) = h_reg h1 r" by blast
  have save: "h_mem (irun kernelvec_save h) = m" using m(1) by (simp add: kernelvec_shape h1_def)
  have saved: "load64 (h_mem k) (pa + of_nat n) = h_reg h1 r" if "(r, n) \<in> set kernel_regs" for r n
  proof -
    have "load64 (h_mem k) (pa + of_nat n) = load64 m (pa + of_nat n)"
    proof (rule load64_cong)
      fix i :: nat assume "i < 8"
      moreover have "n + 8 \<le> 248" using that kernel_regs_table(7) by auto
      ultimately show "h_mem k (pa + of_nat n + of_nat i) = m (pa + of_nat n + of_nat i)"
        using assms(4) [rule_format, of "n + i"] save by (simp add: add.assoc)
    qed
    then show ?thesis using m(2) that kernel_regs_table(6) by auto
  qed
  have sp: "load64 (h_mem k) (pa + of_nat n) = h_reg k SP" if "(SP, n) \<in> set kernel_regs" for n
    using saved [OF that] assms(3) by (simp add: h1_def)
  have "mapped k 248 (h_reg k SP) pa" using assms(2,3) by simp
  from run_restores [OF this kernel_regs_table(1,2) sp] obtain g where g: "irun (restores SP kernel_regs) k = k\<lparr>h_reg := g\<rparr>"
    "\<forall>(r, n) \<in> set kernel_regs. g r = load64 (h_mem k) (pa + of_nat n)" "\<forall>r. r \<notin> fst ` set kernel_regs \<longrightarrow> g r = h_reg k r"
    by blast
  have gr: "g r = h_reg h1 r" if "r \<noteq> TP" for r
  proof -
    have "r \<in> fst ` set kernel_regs" using that kernel_regs_table(3) by simp
    then show ?thesis using g(2) saved by force
  qed
  have "g TP = h_reg k TP" using g(3) kernel_regs_table(3) by simp
  then show ?thesis using gr g(1) by (auto simp: kernelvec_shape h1_def)
qed

theorem kernelvec_preserves_registers_witness:
  "h_reg (irun kernelvec_restore ((irun kernelvec_save (swtch_hart 1 2))\<lparr>h_reg := (\<lambda>r. 0x42 - 256)\<rparr>)) A1 = 2"
proof -
  let ?h = "swtch_hart 1 2" and ?k = "(irun kernelvec_save (swtch_hart 1 2))\<lparr>h_reg := (\<lambda>r. 0x42 - 256)\<rparr>"
  have "h_machine ?k" by (simp add: kernelvec_save_def swtch_hart_def)
  then have "mapped ?k 248 (0x42 - 256) (0x42 - 256)" "mapped ?h 248 (0x42 - 256) (0x42 - 256)"
    by (simp_all add: mapped_def pa_of_def swtch_hart_def)
  moreover have "h_reg ?h SP = 0x42" "h_reg ?h A1 = 2" by (simp_all add: swtch_hart_def)
  ultimately show ?thesis using kernelvec_preserves_registers [of ?h "0x42 - 256" ?k] by simp
qed

subsection \<open>The timer interrupt\<close>

lemma load64_store64_slot:
  assumes "a mod 8 = 0" "b mod 8 = 0" "a \<noteq> b" "a < 4096" "b < 4096"
  shows "load64 (store64 m (pa + of_nat a) v) (pa + of_nat b) = load64 m (pa + of_nat b)"
  by (rule load64_cong) (rule store64_other, rule slot_apart [OF assms])

lemma load64_store64_apart:
  assumes "\<And>i j. i < 8 \<Longrightarrow> j < 8 \<Longrightarrow> a + of_nat i \<noteq> b + of_nat j"
  shows "load64 (store64 m a v) b = load64 m b"
proof (rule load64_cong, rule store64_other)
  fix j :: nat assume j: "j < 8"
  show "\<not> in_area a 8 (b + of_nat j)"
  proof
    assume "in_area a 8 (b + of_nat j)"
    then show False using assms [of "unat (b + of_nat j - a)" j] j by simp
  qed
qed

text \<open>C34: the timer interrupt is invisible to the code it interrupts. \<open>timervec\<close> runs in machine mode at
  any point of the kernel or of a user program; it moves the time of the next interrupt forward by the
  interval that \<open>timerinit\<close> stored, makes a software interrupt pending, and returns to where it came
  from with every register, and all memory but its scratch area, as it was.\<close>

theorem timervec_transparent:
  assumes "h_machine h" and "\<forall>m < 8. \<forall>n < 40. load64 (h_mem h) (h_csr h MSCRATCH + 24) + of_nat m \<noteq> h_csr h MSCRATCH + of_nat n"
  shows "h_reg (irun timervec h) = h_reg h \<and> h_csr (irun timervec h) = (h_csr h)(SIP := 2) \<and> h_pc (irun timervec h) = h_csr h MEPC
    \<and> load64 (h_mem (irun timervec h)) (load64 (h_mem h) (h_csr h MSCRATCH + 24))
        = load64 (h_mem h) (load64 (h_mem h) (h_csr h MSCRATCH + 24)) + load64 (h_mem h) (h_csr h MSCRATCH + 32)
    \<and> (\<forall>x. \<not> in_area (h_csr h MSCRATCH) 24 x \<and> \<not> in_area (load64 (h_mem h) (h_csr h MSCRATCH + 24)) 8 x
         \<longrightarrow> h_mem (irun timervec h) x = h_mem h x)"
proof -
  define sc where "sc = h_csr h MSCRATCH"
  define t where "t = load64 (h_mem h) (sc + 24)"
  define m where "m = store64 (store64 (store64 (h_mem h) sc (h_reg h A1)) (sc + 8) (h_reg h A2)) (sc + 16) (h_reg h A3)"
  have slot: "load64 (store64 mm (sc + of_nat a) v) (sc + of_nat b) = load64 mm (sc + of_nat b)"
    if "a mod 8 = 0" "b mod 8 = 0" "a \<noteq> b" "a < 4096" "b < 4096" for mm a b v by (rule load64_store64_slot [OF that])
  have apart: "i < 8 \<Longrightarrow> n < 40 \<Longrightarrow> t + of_nat i \<noteq> sc + of_nat n" for i n using assms(2) by (simp add: t_def sc_def)
  have t_sc: "load64 (store64 mm t v) (sc + of_nat b) = load64 mm (sc + of_nat b)" if "b \<le> 32" for mm v b
    by (rule load64_store64_apart) (use apart [of _ "b + _"] that in \<open>simp add: add.assoc\<close>)
  have sc_t: "load64 (store64 mm (sc + of_nat b) v) t = load64 mm t" if "b \<le> 32" for mm v b
  proof (rule load64_store64_apart)
    fix i j :: nat assume "i < 8" "j < 8"
    then show "sc + of_nat b + of_nat i \<noteq> t + of_nat j" using apart [of j "b + i"] that by (simp add: add.assoc eq_commute)
  qed
  have m: "load64 m (sc + 24) = t" "load64 m (sc + 32) = load64 (h_mem h) (sc + 32)" "load64 m t = load64 (h_mem h) t"
    "load64 m sc = h_reg h A1" "load64 m (sc + 8) = h_reg h A2" "load64 m (sc + 16) = h_reg h A3"
    using slot [of 0 24] slot [of 8 24] slot [of 16 24] slot [of 0 32] slot [of 8 32] slot [of 16 32] slot [of 8 0] slot [of 16 0]
      slot [of 16 8] sc_t [of 0] sc_t [of 8] sc_t [of 16]
    by (simp_all add: m_def t_def)
  define m' where "m' = store64 m t (load64 (h_mem h) t + load64 (h_mem h) (sc + 32))"
  have m': "load64 m' sc = h_reg h A1" "load64 m' (sc + 8) = h_reg h A2" "load64 m' (sc + 16) = h_reg h A3"
    using t_sc [of 0] t_sc [of 8] t_sc [of 16] by (simp_all add: m'_def m)
  have run: "h_mem (irun timervec h) = m'" "h_reg (irun timervec h) = h_reg h" "h_csr (irun timervec h) = (h_csr h)(SIP := 2)"
    "h_pc (irun timervec h) = h_csr h MEPC"
    using m m' by (auto simp: timervec_def pa_of_def assms(1) sc_def [symmetric] m_def [symmetric] m'_def [symmetric] fun_eq_iff)
  have area: "in_area sc 24 x" if "in_area (sc + of_nat b) 8 x" "b \<le> 16" for x b
  proof -
    define d where "d = unat (x - (sc + of_nat b))"
    have "x - sc = of_nat (b + d)" by (simp add: d_def)
    then have "unat (x - sc) = b + d" using that by (simp only:) (intro unat_of_nat64, simp add: d_def)
    then show ?thesis using that by (simp add: d_def)
  qed
  have "m' x = h_mem h x" if "\<not> in_area sc 24 x" "\<not> in_area t 8 x" for x
  proof -
    have "\<not> in_area sc 8 x" "\<not> in_area (sc + 8) 8 x" "\<not> in_area (sc + 16) 8 x"
      using that(1) area [of x 0] area [of x 8] area [of x 16] by auto
    then show ?thesis using that(2) by (simp add: m'_def m_def store64_other)
  qed
  moreover have "load64 m' t = load64 (h_mem h) t + load64 (h_mem h) (sc + 32)" by (simp add: m'_def)
  ultimately show ?thesis using run by (simp add: sc_def [symmetric] t_def [symmetric])
qed

definition timer_hart :: hart where
  "timer_hart = \<lparr>h_reg = (\<lambda>r. 3), h_csr = (\<lambda>c. if c = MSCRATCH then 0x80010000 else 0),
     h_mem = store64 (\<lambda>x. 0) (0x80010000 + 24) 0x2004000, h_machine = True, h_xlate = (\<lambda>x va. va), h_pc = 0\<rparr>"

theorem timervec_transparent_witness:
  "h_reg (irun timervec timer_hart) A2 = 3 \<and> h_csr (irun timervec timer_hart) SIP = 2"
proof -
  have "load64 (h_mem timer_hart) (0x80010000 + 24) = 0x2004000" unfolding timer_hart_def hart.simps by (rule load64_store64)
  moreover have "h_machine timer_hart" "h_csr timer_hart MSCRATCH = 0x80010000" "h_reg timer_hart A2 = 3" by (simp_all add: timer_hart_def)
  moreover have "False" if "m < 8" "n < 40" "(0x2004000 :: addr) + of_nat m = 0x80010000 + of_nat n" for m n :: nat
  proof -
    have "unat ((0x2004000 :: addr) + of_nat m) = 0x2004000 + m" "unat ((0x80010000 :: addr) + of_nat n) = 0x80010000 + n"
      using that(1,2) by (simp_all add: unat_word_ariths)
    then show False using that by simp
  qed
  then have "\<forall>m < 8. \<forall>n < 40. (0x2004000 :: addr) + of_nat m \<noteq> 0x80010000 + of_nat n" by blast
  ultimately show ?thesis using timervec_transparent [of timer_hart] by simp
qed

subsection \<open>The entry point\<close>



end
