(* ===== verification/Fs_Block.thy ===== *)
theory Fs_Block
  imports Fs
begin

text \<open>
  The block and inode operations of src/kernel/fs.c inside a transaction. \<open>tx_to p s V B s'\<close> says
  what an operation does to the transaction that runs: afterwards the blocks are \<open>V\<close>, the blocks
  \<open>B\<close> have been added to the log, and nothing else has changed. The bitmap of free blocks is a set,
  from which \<open>balloc\<close> takes the least element and to which \<open>bfree\<close> adds one; an inode that
  \<open>iupdate\<close> has written is what \<open>ilock\<close> reads.
\<close>

subsection \<open>Steps of a transaction\<close>

definition logged :: "('z) log_state_scheme \<Rightarrow> uint32 set" where
  "logged s = lhb s ` {..<nat (lhn s)}"

abbreviation txview :: "('z) log_state_scheme \<Rightarrow> uint32 \<Rightarrow> byte list" where
  "txview s \<equiv> bview s (log_dev (log_st s))"

definition tx_to :: "nat \<Rightarrow> ('z) log_state_scheme \<Rightarrow> (uint32 \<Rightarrow> byte list) \<Rightarrow> uint32 set \<Rightarrow> ('z) log_state_scheme \<Rightarrow> bool" where
  "tx_to p s V B s' \<longleftrightarrow> tx p s' \<and> txview s' = V \<and> logged s' = logged s \<union> B
     \<and> (log_st s')\<lparr>log_lh := log_lh (log_st s)\<rparr> = log_st s \<and> disk s' = disk s \<and> writes s' = writes s
     \<and> log_state.more s' = log_state.more s"

lemma tx_toD:
  assumes "tx_to p s V B s'"
  shows "tx p s'" "txview s' = V" "logged s' = logged s \<union> B" "log_dev (log_st s') = log_dev (log_st s)"
    "log_start (log_st s') = log_start (log_st s)" "outstanding (log_st s') = outstanding (log_st s)"
    "log_state.more s' = log_state.more s"
proof -
  show "tx p s'" "txview s' = V" "logged s' = logged s \<union> B" "log_state.more s' = log_state.more s"
    using assms by (simp_all add: tx_to_def)
  have l: "(log_st s')\<lparr>log_lh := log_lh (log_st s)\<rparr> = log_st s" using assms by (simp add: tx_to_def)
  show "log_dev (log_st s') = log_dev (log_st s)" "log_start (log_st s') = log_start (log_st s)"
    "outstanding (log_st s') = outstanding (log_st s)"
    using arg_cong [OF l, of log_dev] arg_cong [OF l, of log_start] arg_cong [OF l, of outstanding] by simp_all
qed

lemma tx_to_trans:
  assumes "tx_to p s V B s'" and "tx_to p s' V' B' s''"
  shows "tx_to p s V' (B \<union> B') s''"
proof -
  have l: "(log_st s')\<lparr>log_lh := log_lh (log_st s)\<rparr> = log_st s" "(log_st s'')\<lparr>log_lh := log_lh (log_st s')\<rparr> = log_st s'"
    using assms by (simp_all add: tx_to_def)
  have "(log_st s'')\<lparr>log_lh := log_lh (log_st s)\<rparr> = ((log_st s'')\<lparr>log_lh := log_lh (log_st s')\<rparr>)\<lparr>log_lh := log_lh (log_st s)\<rparr>"
    by simp
  also have "\<dots> = log_st s" unfolding l ..
  finally show ?thesis using assms by (auto simp: tx_to_def)
qed

lemma tx_to_refl: "tx p s \<Longrightarrow> tx_to p s (txview s) {} s"
  by (simp add: tx_to_def)

lemma more_fs:
  fixes s s' :: "('z) fs_state_scheme"
  assumes "log_state.more s' = log_state.more s"
  shows "sb s' = sb s" "itable s' = itable s" "fs_state.more s' = fs_state.more s"
  using assms by (cases s; cases s'; simp)+

lemma tx_card:
  assumes "tx p s"
  shows "lhn s = int (card (logged s))"
proof -
  have "layout (log_start (log_st s)) (lhn s) (lhb s)" using assms by (simp add: tx_def)
  from layoutD [OF this] have "0 \<le> lhn s" "distinct (map (lhb s) [0..<nat (lhn s)])" by simp_all
  then show ?thesis by (simp add: logged_def card_image distinct_map atLeast0LessThan)
qed

lemma tx_running: "tx p s \<Longrightarrow> running p s"
  by (simp add: tx_def binv_def)

text \<open>A block is read; then it is released, or it is changed, logged and released.\<close>

lemma tx_block:
  assumes tx: "tx p s"
  shows "\<exists>b s1. bread (log_dev (log_st s)) blk s = Ok (b, s1) \<and> b_data (bufs s1 b) = txview s blk
     \<and> log_state.more s1 = log_state.more s \<and> log_st s1 = log_st s
     \<and> (\<exists>s2. brelse b s1 = Ok s2 \<and> tx_to p s (txview s) {} s2)
     \<and> (\<forall>x. \<not> in_log (log_start (log_st s)) blk \<longrightarrow> card (logged s) < 29 \<longrightarrow> 1 \<le> outstanding (log_st s) \<longrightarrow>
          (\<exists>s2. rbind (log_write b (bput b x s1)) (\<lambda>s. brelse b s) = Ok s2 \<and> tx_to p s ((txview s)(blk := x)) {blk} s2))"
proof -
  define d where "d = log_dev (log_st s)"
  have T: "binv p d s" "layout (log_start (log_st s)) (lhn s) (lhb s)" "a_held (babs d s) = {}"
      "a_pins (babs d s) = (\<lambda>blk. if blk \<in> lhb s ` {..<nat (lhn s)} then 1 else 0)"
    using tx by (simp_all add: tx_def d_def)
  have idle: "a_idle (babs d s)" by (rule a_idle_logged(1) [OF T(2-4)])
  obtain b s1 s2 where 1: "bread d blk s = Ok (b, s1)" "b_data (bufs s1 b) = a_view (babs d s) blk" "brelse b s1 = Ok s2"
      "binv p d s2" "babs d s2 = babs d s" "brest s1 = brest s" "brest s2 = brest s"
    using bc.read_release [OF T(1), of blk] idle T(3) by (auto simp: a_idle_def)
  have l: "log_st s1 = log_st s" "log_st s2 = log_st s" using brest_log_st [OF 1(6)] brest_log_st [OF 1(7)] by simp_all
  have m: "log_state.more s1 = log_state.more s" "log_state.more s2 = log_state.more s"
    using brest_more [OF 1(6)] brest_more [OF 1(7)] by simp_all
  have D: "disk s2 = disk s" "writes s2 = writes s" "bview s2 d = bview s d"
    using arg_cong [OF 1(5), of a_disk] arg_cong [OF 1(5), of a_writes] arg_cong [OF 1(5), of a_view] by (simp_all add: babs_def)
  have "tx_to p s (txview s) {} s2"
    using tx 1(4,5) D m by (simp add: tx_to_def tx_def l d_def logged_def)
  moreover have "\<exists>s2. rbind (log_write b (bput b x s1)) (\<lambda>s. brelse b s) = Ok s2 \<and> tx_to p s ((txview s)(blk := x)) {blk} s2"
    if "\<not> in_log (log_start (log_st s)) blk" "card (logged s) < 29" "1 \<le> outstanding (log_st s)" for x
  proof -
    have "lhn s < 29" using that(2) tx_card [OF tx] by simp
    from tx_update_sim [OF tx that(1) this that(3), of "\<lambda>_. x"] obtain s3 where 3: "tx_update blk (\<lambda>_. x) s = Ok s3" "tx p s3"
      "(log_st s3)\<lparr>log_lh := log_lh (log_st s)\<rparr> = log_st s" "lhb s3 ` {..<nat (lhn s3)} = insert blk (lhb s ` {..<nat (lhn s)})"
      "bview s3 d = (bview s d)(blk := x)" "disk s3 = disk s" "writes s3 = writes s" "log_state.more s3 = log_state.more s"
      by (auto simp: d_def)
    have "log_dev (log_st s3) = d" using arg_cong [OF 3(3), of log_dev] by (simp add: d_def)
    then have "tx_to p s ((txview s)(blk := x)) {blk} s3" using 3 by (simp add: tx_to_def d_def logged_def)
    then show ?thesis using 3(1) 1(1) by (auto simp: tx_update_def d_def)
  qed
  ultimately show ?thesis using 1(1-3) l(1) m(1) by (auto simp: d_def babs_def)
qed

lemma tx_read:
  assumes "tx p s"
  obtains b s1 s2 where "bread (log_dev (log_st s)) blk s = Ok (b, s1)" "b_data (bufs s1 b) = txview s blk"
    "log_state.more s1 = log_state.more s" "log_st s1 = log_st s" "brelse b s1 = Ok s2" "tx_to p s (txview s) {} s2"
  using tx_block [OF assms, of blk] by blast

definition may_log :: "('z) log_state_scheme \<Rightarrow> nat \<Rightarrow> bool" where
  "may_log s n \<longleftrightarrow> card (logged s) + n \<le> 29 \<and> 1 \<le> outstanding (log_st s)"

lemma tx_write:
  assumes "tx p s" "\<not> in_log (log_start (log_st s)) blk" "may_log s 1"
  obtains b s1 s2 where "bread (log_dev (log_st s)) blk s = Ok (b, s1)" "b_data (bufs s1 b) = txview s blk"
    "log_state.more s1 = log_state.more s" "log_st s1 = log_st s"
    "rbind (log_write b (bput b (f (txview s blk)) s1)) (\<lambda>s. brelse b s) = Ok s2"
    "tx_to p s ((txview s)(blk := f (txview s blk))) {blk} s2"
proof -
  have "card (logged s) < 29" "1 \<le> outstanding (log_st s)" using assms(3) by (simp_all add: may_log_def)
  then show ?thesis using that tx_block [OF assms(1), of blk] assms(2) by blast
qed

lemma finite_logged [simp]: "finite (logged s)"
  by (simp add: logged_def)

lemma may_log_after:
  assumes "may_log s (n + k)" "tx_to p s V B s'" "card B \<le> k" "finite B"
  shows "may_log s' n"
  using assms tx_toD(3,6) [OF assms(2)] card_Un_le [of "logged s" B] by (auto simp: may_log_def)

subsection \<open>The bitmap\<close>

lemma bm_free_iff: "bm_free xs bi \<longleftrightarrow> \<not> bit (xs ! (bi div 8)) (bi mod 8)"
  by (simp add: bm_free_def bm_mask_def bit_iff_and_push_bit_not_eq_0)

lemma bm_same_byte: "bi div 8 = bj div 8 \<Longrightarrow> bi mod 8 = bj mod 8 \<longleftrightarrow> bi = (bj :: nat)"
  by (metis div_mult_mod_eq)

lemma bm_mark_free:
  assumes "bi < 8 * length xs"
  shows "bm_free (bm_mark xs bi) bj \<longleftrightarrow> bj \<noteq> bi \<and> bm_free xs bj"
proof (cases "bi div 8 = bj div 8")
  case True
  have "bi div 8 < length xs" using assms by (simp add: less_mult_imp_div_less mult.commute)
  then show ?thesis using True bm_same_byte [OF True]
    by (auto simp: bm_free_iff bm_mark_def bm_mask_def bit_simps)
qed (auto simp: bm_free_iff bm_mark_def)

lemma bm_clear_free:
  assumes "bi < 8 * length xs"
  shows "bm_free (bm_clear xs bi) bj \<longleftrightarrow> bj = bi \<or> bm_free xs bj"
proof (cases "bi div 8 = bj div 8")
  case True
  have "bi div 8 < length xs" using assms by (simp add: less_mult_imp_div_less mult.commute)
  then show ?thesis using True bm_same_byte [OF True]
    by (auto simp: bm_free_iff bm_clear_def bm_mask_def bit_simps)
qed (auto simp: bm_free_iff bm_clear_def)

lemma length_bm [simp]: "length (bm_mark xs bi) = length xs" "length (bm_clear xs bi) = length xs"
  by (simp_all add: bm_mark_def bm_clear_def)

text \<open>The bitmap block of the block \<open>n\<close>, and the free blocks among those of the disk.\<close>

definition bm_block :: "nat \<Rightarrow> superblock \<Rightarrow> uint32" where
  "bm_block n b = of_nat (n div BPB) + sb_bmapstart b"

definition free_blocks :: "superblock \<Rightarrow> (uint32 \<Rightarrow> byte list) \<Rightarrow> nat set" where
  "free_blocks b V = {n. n < unat (sb_size b) \<and> bm_free (V (bm_block n b)) (n mod BPB)}"

text \<open>The bitmap is outside the log, its blocks are distinct, and the blocks of the log and of the bitmap are
  not free.\<close>

definition bitmap_ok :: "uint32 \<Rightarrow> superblock \<Rightarrow> (uint32 \<Rightarrow> byte list) \<Rightarrow> bool" where
  "bitmap_ok start b V \<longleftrightarrow>
     (\<forall>n < unat (sb_size b). \<not> in_log start (bm_block n b) \<and> length (V (bm_block n b)) = BSIZE) \<and>
     (\<forall>m < unat (sb_size b). \<forall>n < unat (sb_size b). bm_block m b = bm_block n b \<longrightarrow> m div BPB = n div BPB) \<and>
     (\<forall>m \<in> free_blocks b V. 0 < m \<and> \<not> in_log start (of_nat m) \<and> (\<forall>n < unat (sb_size b). of_nat m \<noteq> bm_block n b))"

lemma BBLOCK_of_nat: "n < 2 ^ 32 \<Longrightarrow> BBLOCK (of_nat n) b = bm_block n b"
  by (simp add: BBLOCK_def bm_block_def word_arith_nat_defs(6) unat_of_nat take_bit_nat_eq_self)

lemma free_blocks_mark:
  assumes ok: "bitmap_ok start b V" and n: "n < unat (sb_size b)"
  shows "free_blocks b (V(bm_block n b := bm_mark (V (bm_block n b)) (n mod BPB))) = free_blocks b V - {n}"
    "free_blocks b (V(bm_block n b := bm_clear (V (bm_block n b)) (n mod BPB))) = insert n (free_blocks b V)"
proof -
  have len: "length (V (bm_block n b)) = BSIZE" using ok n by (simp add: bitmap_ok_def)
  have same: "m = n \<longleftrightarrow> m mod BPB = n mod BPB" if "m < unat (sb_size b)" "bm_block m b = bm_block n b" for m
  proof -
    have "m div BPB = n div BPB" using ok n that unfolding bitmap_ok_def by blast
    then show ?thesis by (metis div_mult_mod_eq)
  qed
  show "free_blocks b (V(bm_block n b := bm_mark (V (bm_block n b)) (n mod BPB))) = free_blocks b V - {n}"
    "free_blocks b (V(bm_block n b := bm_clear (V (bm_block n b)) (n mod BPB))) = insert n (free_blocks b V)"
    using same len n by (auto simp: free_blocks_def bm_mark_free bm_clear_free)
qed

lemma free_blocks_other: "(\<forall>n < unat (sb_size b). x \<noteq> bm_block n b) \<Longrightarrow> free_blocks b (V(x := y)) = free_blocks b V"
  by (auto simp: free_blocks_def)

text \<open>\<open>bzero\<close> clears a block.\<close>

lemma bzero_tx:
  fixes s :: "('z) fs_state_scheme"
  assumes "tx p s" "\<not> in_log (log_start (log_st s)) blk" "may_log s 1"
  shows "\<exists>s'. bzero (log_dev (log_st s)) blk s = Ok s' \<and> tx_to p s ((txview s)(blk := replicate BSIZE 0)) {blk} s'"
proof -
  obtain b s1 s2 where "bread (log_dev (log_st s)) blk s = Ok (b, s1)"
    "rbind (log_write b (bput b (replicate BSIZE 0) s1)) (\<lambda>s. brelse b s) = Ok s2"
    "tx_to p s ((txview s)(blk := replicate BSIZE 0)) {blk} s2"
    using tx_write [OF assms, of "\<lambda>_. replicate BSIZE 0"] by blast
  then show ?thesis by (simp add: bzero_def)
qed

text \<open>What \<open>balloc\<close> does when it takes the block \<open>n\<close>.\<close>

definition taken :: "nat \<Rightarrow> superblock \<Rightarrow> (uint32 \<Rightarrow> byte list) \<Rightarrow> uint32 \<Rightarrow> byte list" where
  "taken n b V = V(bm_block n b := bm_mark (V (bm_block n b)) (n mod BPB), of_nat n := replicate BSIZE 0)"

lemma balloc_take:
  fixes s :: "('z) fs_state_scheme"
  assumes tx: "tx p s" and log: "may_log s 2" and ok: "bitmap_ok (log_start (log_st s)) (sb s) (txview s)"
    and n: "n \<in> free_blocks (sb s) (txview s)"
  obtains b s1 s2 s3 where "bread (log_dev (log_st s)) (bm_block n (sb s)) s = Ok (b, s1)" "b_data (bufs s1 b) = txview s (bm_block n (sb s))"
    "sb s1 = sb s" "rbind (log_write b (bput b (bm_mark (txview s (bm_block n (sb s))) (n mod BPB)) s1)) (\<lambda>s. brelse b s) = Ok s2"
    "bzero (log_dev (log_st s)) (of_nat n) s2 = Ok s3"
    "tx_to p s (taken n (sb s) (txview s)) {bm_block n (sb s), of_nat n} s3"
proof -
  have lt: "n < unat (sb_size (sb s))" and out: "\<not> in_log (log_start (log_st s)) (bm_block n (sb s))" "\<not> in_log (log_start (log_st s)) (of_nat n)"
    using n ok by (auto simp: free_blocks_def bitmap_ok_def)
  have "may_log s 1" using log by (simp add: may_log_def)
  then obtain b s1 s2 where 1: "bread (log_dev (log_st s)) (bm_block n (sb s)) s = Ok (b, s1)" "b_data (bufs s1 b) = txview s (bm_block n (sb s))"
    "log_state.more s1 = log_state.more s"
    "rbind (log_write b (bput b (bm_mark (txview s (bm_block n (sb s))) (n mod BPB)) s1)) (\<lambda>s. brelse b s) = Ok s2"
    "tx_to p s ((txview s)(bm_block n (sb s) := bm_mark (txview s (bm_block n (sb s))) (n mod BPB))) {bm_block n (sb s)} s2"
    using tx_write [OF tx out(1), of "\<lambda>x. bm_mark x (n mod BPB)"] by blast
  note T = tx_toD [OF 1(5)]
  have "may_log s2 1" using log by (intro may_log_after [OF _ 1(5), of 1 1]) (simp_all add: numeral_2_eq_2)
  then obtain s3 where "bzero (log_dev (log_st s2)) (of_nat n) s2 = Ok s3"
     "tx_to p s2 ((txview s2)(of_nat n := replicate BSIZE 0)) {of_nat n} s3"
    using bzero_tx [OF T(1), of "of_nat n"] out(2) T(5) by auto
  then show ?thesis using that [OF 1(1,2) more_fs(1) [OF 1(3)] 1(4)] tx_to_trans [OF 1(5)] T(2,4) by (simp add: taken_def)
qed

lemma find_least:
  "find P [0..<n] = Some i \<longleftrightarrow> i < n \<and> P i \<and> (\<forall>j < i. \<not> P j)"
  by (auto simp: find_Some_iff)

lemma balloc_loop_least:
  fixes s :: "('z) fs_state_scheme"
  assumes "tx p s" "may_log s 2" "bitmap_ok (log_start (log_st s)) (sb s) (txview s)"
    "n \<in> free_blocks (sb s) (txview s)" "\<forall>m < n. m \<notin> free_blocks (sb s) (txview s)"
    "k * BPB \<le> n" "n < K * BPB"
  shows "\<exists>s'. balloc_loop (log_dev (log_st s)) (map (\<lambda>k. k * BPB) [k..<K]) s = Ok (of_nat n, s')
     \<and> (\<exists>B. tx_to p s (taken n (sb s) (txview s)) B s' \<and> B = {bm_block n (sb s), of_nat n})"
  using assms
proof (induction "K - k" arbitrary: k s)
  case 0
  then show ?case by simp
next
  case (Suc x)
  let ?b = "k * BPB" and ?V = "txview s" and ?d = "log_dev (log_st s)" and ?sz = "unat (sb_size (sb s))"
  have kK: "k < K" using Suc.hyps(2) by simp
  then have list: "map (\<lambda>k. k * BPB) [k..<K] = ?b # map (\<lambda>k. k * BPB) [Suc k..<K]" by (simp add: upt_conv_Cons)
  have nlt: "n < ?sz" using Suc.prems(4) by (simp add: free_blocks_def)
  then have blt: "?b < ?sz" using Suc.prems(6) by simp
  have bb: "BBLOCK (of_nat ?b) (sb s) = bm_block ?b (sb s)" 
    by (rule BBLOCK_of_nat) (use blt unat_less32 [of "sb_size (sb s)"] in simp)
  then have bb': "BBLOCK (of_nat k * 8192) (sb s) = bm_block ?b (sb s)" by simp
  have split: "?b + bi < ?sz \<and> bm_block (?b + bi) (sb s) = bm_block ?b (sb s) \<and> (?b + bi) mod BPB = bi" if "bi < min BPB (?sz - ?b)" for bi
    using that blt by (auto simp: bm_block_def)
  have free: "bm_free (?V (bm_block ?b (sb s))) bi \<longleftrightarrow> ?b + bi \<in> free_blocks (sb s) ?V" if "bi < min BPB (?sz - ?b)" for bi
    using split [OF that] by (simp add: free_blocks_def)
  show ?case
  proof (cases "n < ?b + BPB")
    case True
    define bi where "bi = n - ?b"
    have n: "n = ?b + bi" "bi < min BPB (?sz - ?b)" using True Suc.prems(6) nlt by (auto simp: bi_def)
    have bn: "bm_block n (sb s) = bm_block ?b (sb s)" "n mod BPB = bi" using split [OF n(2)] by (simp_all add: n(1))
    obtain b s1 s2 s3 where t: "bread ?d (bm_block n (sb s)) s = Ok (b, s1)" "b_data (bufs s1 b) = ?V (bm_block n (sb s))"
      "sb s1 = sb s" "rbind (log_write b (bput b (bm_mark (?V (bm_block n (sb s))) (n mod BPB)) s1)) (\<lambda>s. brelse b s) = Ok s2"
      "bzero ?d (of_nat n) s2 = Ok s3" "tx_to p s (taken n (sb s) ?V) {bm_block n (sb s), of_nat n} s3"
      using balloc_take [OF Suc.prems(1-4)] by blast
    have "find (bm_free (b_data (bufs s1 b))) [0..<min BPB (?sz - ?b)] = Some bi"
      unfolding find_least t(2) bn(1) using n free Suc.prems(4,5) by auto
    then have "balloc_loop ?d (map (\<lambda>k. k * BPB) [k..<K]) s = Ok (of_nat n, s3)"
      using t(1,3,5) t(4) unfolding list bn by (simp add: bb' t(2) [unfolded bn] rbind_assoc [symmetric] flip: n(1))
    then show ?thesis using t(6) by blast
  next
    case False
    obtain b s1 s2 where r: "bread ?d (bm_block ?b (sb s)) s = Ok (b, s1)" "b_data (bufs s1 b) = ?V (bm_block ?b (sb s))"
       "log_state.more s1 = log_state.more s" "brelse b s1 = Ok s2" "tx_to p s ?V {} s2" using tx_read [OF Suc.prems(1)] by blast
    note T = tx_toD [OF r(5)] and S = more_fs [OF tx_toD(7) [OF r(5)]]
    have "find (bm_free (b_data (bufs s1 b))) [0..<min BPB (?sz - ?b)] = None"
      unfolding find_None_iff r(2) using free Suc.prems(5) False by auto
    then have step: "balloc_loop ?d (map (\<lambda>k. k * BPB) [k..<K]) s = balloc_loop (log_dev (log_st s2)) (map (\<lambda>k. k * BPB) [Suc k..<K]) s2"
      using r(1,4) more_fs(1) [OF r(3)] T(4) unfolding list by (simp add: bb')
    have "may_log s2 2" using Suc.prems(2) by (intro may_log_after [OF _ r(5), of 2 0]) simp_all
    moreover have "x = K - Suc k" using Suc.hyps(2) by simp
    ultimately obtain s3 where "balloc_loop (log_dev (log_st s2)) (map (\<lambda>k. k * BPB) [Suc k..<K]) s2 = Ok (of_nat n, s3)"
       "tx_to p s2 (taken n (sb s) ?V) {bm_block n (sb s), of_nat n} s3"
      using Suc.hyps(1) [of "Suc k" s2] Suc.hyps(2) Suc.prems False T S by auto
    then show ?thesis unfolding step using tx_to_trans [OF r(5)] by auto
  qed
qed

lemma bitmap_ok_fewer:
  assumes "bitmap_ok start b V" and "free_blocks b V' \<subseteq> free_blocks b V"
    and "\<And>m. m < unat (sb_size b) \<Longrightarrow> length (V' (bm_block m b)) = length (V (bm_block m b))"
  shows "bitmap_ok start b V'"
proof -
  note ok = assms(1) [unfolded bitmap_ok_def]
  show ?thesis unfolding bitmap_ok_def
  proof (intro conjI)
    show "\<forall>n < unat (sb_size b). \<not> in_log start (bm_block n b) \<and> length (V' (bm_block n b)) = BSIZE"
      using ok [THEN conjunct1] assms(3) by simp
    show "\<forall>m < unat (sb_size b). \<forall>n < unat (sb_size b). bm_block m b = bm_block n b \<longrightarrow> m div BPB = n div BPB"
      by (rule ok [THEN conjunct2, THEN conjunct1])
    show "\<forall>m \<in> free_blocks b V'. 0 < m \<and> \<not> in_log start (of_nat m) \<and> (\<forall>n < unat (sb_size b). of_nat m \<noteq> bm_block n b)"
      using ok [THEN conjunct2, THEN conjunct2] assms(2) by (meson subsetD)
  qed
qed

lemma free_blocks_taken:
  assumes ok: "bitmap_ok start b V" and n: "n \<in> free_blocks b V"
  shows "free_blocks b (taken n b V) = free_blocks b V - {n}" "bitmap_ok start b (taken n b V)"
proof -
  have lt: "n < unat (sb_size b)" and new: "\<forall>m < unat (sb_size b). of_nat n \<noteq> bm_block m b"
    using n ok by (auto simp: free_blocks_def bitmap_ok_def)
  show f: "free_blocks b (taken n b V) = free_blocks b V - {n}"
    unfolding taken_def free_blocks_other [OF new] by (rule free_blocks_mark(1) [OF ok lt])
  show "bitmap_ok start b (taken n b V)"
  proof (rule bitmap_ok_fewer [OF ok])
    show "free_blocks b (taken n b V) \<subseteq> free_blocks b V" unfolding f by blast
    fix m assume "m < unat (sb_size b)"
    then have "of_nat n \<noteq> bm_block m b" using new by blast
    then show "length (taken n b V (bm_block m b)) = length (V (bm_block m b))"
      by (auto simp: taken_def)
  qed
qed

lemma balloc_tx:
  fixes s :: "('z) fs_state_scheme"
  assumes tx: "tx p s" and log: "may_log s 2" and ok: "bitmap_ok (log_start (log_st s)) (sb s) (txview s)"
    and n: "n \<in> free_blocks (sb s) (txview s)" "\<forall>m < n. m \<notin> free_blocks (sb s) (txview s)"
  shows "\<exists>s'. balloc (log_dev (log_st s)) s = Ok (of_nat n, s') \<and>
     tx_to p s (taken n (sb s) (txview s)) {bm_block n (sb s), of_nat n} s'"
proof -
  have "n < unat (sb_size (sb s))" using n(1) by (simp add: free_blocks_def)
  also have "\<dots> \<le> (unat (sb_size (sb s)) + BPB - 1) div BPB * BPB" 
    using div_mult_mod_eq [of "unat (sb_size (sb s)) + BPB - 1" BPB] mod_less_divisor [of BPB "unat (sb_size (sb s)) + BPB - 1"]
    by linarith
  finally show ?thesis using balloc_loop_least [OF assms, of 0] by (auto simp: balloc_def)
qed

lemma bfree_tx:
  fixes s :: "('z) fs_state_scheme"
  assumes tx: "tx p s" and log: "may_log s 1" and ok: "bitmap_ok (log_start (log_st s)) (sb s) (txview s)"
    and n: "n < unat (sb_size (sb s))"
  shows "if n \<in> free_blocks (sb s) (txview s)
     then bfree_block (log_dev (log_st s)) (of_nat n) s = Panic ''freeing free block''
     else (\<exists>s'. bfree_block (log_dev (log_st s)) (of_nat n) s = Ok s' \<and>
       tx_to p s ((txview s)(bm_block n (sb s) := bm_clear (txview s (bm_block n (sb s))) (n mod BPB))) {bm_block n (sb s)} s')"
proof -
  have n32: "n < 2 ^ 32" using n unat_less32 [of "sb_size (sb s)"] by simp
  then have u: "unat (of_nat n :: uint32) = n" by (simp add: unat_of_nat take_bit_nat_eq_self)
  have out: "\<not> in_log (log_start (log_st s)) (bm_block n (sb s))" using ok n by (simp add: bitmap_ok_def)
  obtain b s1 s2 where "bread (log_dev (log_st s)) (bm_block n (sb s)) s = Ok (b, s1)" "b_data (bufs s1 b) = txview s (bm_block n (sb s))"
    "rbind (log_write b (bput b (bm_clear (txview s (bm_block n (sb s))) (n mod BPB)) s1)) (\<lambda>s. brelse b s) = Ok s2"
    "tx_to p s ((txview s)(bm_block n (sb s) := bm_clear (txview s (bm_block n (sb s))) (n mod BPB))) {bm_block n (sb s)} s2"
    using tx_write [OF tx out log, of "\<lambda>x. bm_clear x (n mod BPB)"] by blast
  then show ?thesis using n by (simp add: bfree_block_def BBLOCK_of_nat [OF n32] u Let_def free_blocks_def)
qed

subsection \<open>A small file system\<close>

text \<open>The log starts at block 2, the inodes at block 32 and the bitmap is block 45; the first 48 blocks are in
  use. The entry 0 of the inode table is a file of five bytes, in block 46.\<close>

definition demo_disk :: "uint32 \<Rightarrow> byte list" where
  "demo_disk = (\<lambda>_. replicate BSIZE 0)(45 := replicate 6 (-1) @ replicate 1018 0, 46 := ascii ''hello'' @ replicate 1019 0)"

definition demo_fs :: fs_state where
  "demo_fs = log_state.extend (demo_log\<lparr>disk := demo_disk\<rparr>)
     \<lparr>sb = \<lparr>sb_magic = 0x10203040, sb_size = 2000, sb_nblocks = 1954, sb_ninodes = 200, sb_nlog = 30, sb_logstart = 2,
         sb_inodestart = 32, sb_bmapstart = 45\<rparr>,
      itable = (\<lambda>_. \<lparr>i_dev = 1, i_inum = 5, i_ref = 1, i_valid = 1, i_type = 2, i_major = 0, i_minor = 0, i_nlink = 1,
         i_size = 5, i_addrs = 46 # replicate 12 0\<rparr>)\<rparr>"

lemma demo_fs_sel:
  "running 0 demo_fs" "log_st demo_fs = log_st demo_log" "disk demo_fs = demo_disk" "bufs demo_fs = bufs demo_bio"
  "sb demo_fs = \<lparr>sb_magic = 0x10203040, sb_size = 2000, sb_nblocks = 1954, sb_ninodes = 200, sb_nlog = 30, sb_logstart = 2,
     sb_inodestart = 32, sb_bmapstart = 45\<rparr>"
  "itable demo_fs ip = \<lparr>i_dev = 1, i_inum = 5, i_ref = 1, i_valid = 1, i_type = 2, i_major = 0, i_minor = 0, i_nlink = 1,
     i_size = 5, i_addrs = 46 # replicate 12 0\<rparr>"
  using demo_log_sel
  by (simp_all add: demo_fs_def log_state.defs running_def quiet_def unheld_def curproc_def mycpu_def)

lemma tx_binit:
  assumes run: "running p s" and cold: "\<And>b. b_dev (bufs s b) = 0 \<and> b_refcnt (bufs s b) = 0"
    and l: "log_size (log_st s) = 30" "lhn s = 0" "log_dev (log_st s) \<noteq> 0" and c: "clear (log_start (log_st s)) (disk s)"
  shows "tx p (binit s)" "txview (binit s) = disk s" "log_st (binit s) = log_st s" "log_state.more (binit s) = log_state.more s"
proof -
  note B = binit_inv [OF run l(3), OF cold]
  show st: "log_st (binit s) = log_st s" and "log_state.more (binit s) = log_state.more s"
    using brest_log_st [OF B(3)] brest_more [OF B(3)] by simp_all
  show "txview (binit s) = disk s" using arg_cong [OF B(2), of a_view] by (simp add: babs_def st)
  have "disk (binit s) = disk s" using arg_cong [OF B(2), of a_disk] by (simp add: babs_def)
  then show "tx p (binit s)" using B(1,2) l(1,2) c by (simp add: tx_def st layout_def)
qed

lemma demo_fs_tx:
  "tx 0 (binit demo_fs)" "txview (binit demo_fs) = demo_disk" "log_st (binit demo_fs) = log_st demo_log"
  "sb (binit demo_fs) = sb demo_fs" "itable (binit demo_fs) = itable demo_fs"
proof -
  have "clear 2 (\<lambda>_. replicate BSIZE 0)"
    by (simp add: clear_def head_n_def get32_def eval_nat_numeral(3) numeral_2_eq_2)
  then have "clear 2 demo_disk" by (simp add: clear_def demo_disk_def)
  then have c: "clear (log_start (log_st demo_fs)) (disk demo_fs)" by (simp add: demo_fs_sel demo_log_sel)
  have cold: "b_dev (bufs demo_fs b) = 0 \<and> b_refcnt (bufs demo_fs b) = 0" for b by (simp add: demo_fs_sel demo_bio_cold)
  note T = tx_binit [OF demo_fs_sel(1) cold _ _ _ c]
  show "tx 0 (binit demo_fs)" by (rule T) (simp_all add: demo_fs_sel demo_log_sel)
  show "txview (binit demo_fs) = demo_disk" by (subst T) (simp_all add: demo_fs_sel demo_log_sel)
  show "log_st (binit demo_fs) = log_st demo_log" by (subst T) (simp_all add: demo_fs_sel demo_log_sel)
  have "log_state.more (binit demo_fs) = log_state.more demo_fs" by (rule T) (simp_all add: demo_fs_sel demo_log_sel)
  from more_fs [OF this] show "sb (binit demo_fs) = sb demo_fs" "itable (binit demo_fs) = itable demo_fs" by simp_all
qed

lemma demo_fs_view: "bview (binit demo_fs) 1 = demo_disk"
  using demo_fs_tx(2) by (simp add: demo_fs_tx(3) demo_log_sel)

lemma demo_fs_size: "unat (sb_size (sb demo_fs)) = 2000"
  by (simp add: demo_fs_sel)

lemma demo_fs_may_log: "n \<le> 29 \<Longrightarrow> may_log (binit demo_fs) n"
  by (simp add: may_log_def logged_def demo_fs_tx demo_log_sel)

lemma demo_fs_bm_block: "n < 2000 \<Longrightarrow> bm_block n (sb demo_fs) = 45"
  by (simp add: bm_block_def demo_fs_sel)

lemma demo_fs_free: "free_blocks (sb demo_fs) demo_disk = {48..<2000}"
proof -
  have b: "bm_free (demo_disk 45) n \<longleftrightarrow> 48 \<le> n" if "n < 2000" for n
    using that by (auto simp: bm_free_iff demo_disk_def nth_append div_less_iff_less_mult)
  have "n \<in> free_blocks (sb demo_fs) demo_disk \<longleftrightarrow> n \<in> {48..<2000}" for n
    using b by (auto simp: free_blocks_def demo_fs_size demo_fs_bm_block)
  then show ?thesis by blast
qed

lemma demo_fs_bitmap: "bitmap_ok 2 (sb demo_fs) demo_disk"
proof -
  have "unat (of_nat m - (2 :: uint32)) = m - 2" if "48 \<le> m" "m < 2000" for m
  proof -
    have u: "unat (of_nat m :: uint32) = m" using that by (simp add: unat_of_nat take_bit_nat_eq_self)
    then show ?thesis using that by (subst unat_sub) (simp_all add: word_le_nat_alt)
  qed
  moreover have "of_nat m \<noteq> (45 :: uint32)" if "48 \<le> m" "m < 2000" for m
  proof
    assume "of_nat m = (45 :: uint32)"
    then have "unat (of_nat m :: uint32) = 45" by simp
    then show False using that by (simp add: unat_of_nat take_bit_nat_eq_self)
  qed
  ultimately show ?thesis
    unfolding bitmap_ok_def demo_fs_size demo_fs_free by (auto simp: demo_fs_bm_block in_log_def demo_disk_def)
qed

subsection \<open>Properties\<close>

text \<open>C16: \<open>balloc\<close> returns the least free block. Inside an operation that may log two more blocks, and on a
  file system whose bitmap is sound, it marks this block in the bitmap and clears it; no other block
  changes, the other blocks that were free still are, and the bitmap stays sound.\<close>

theorem balloc_least_free:
  fixes s :: "('z) fs_state_scheme"
  assumes "tx p s" and "may_log s 2" and "bitmap_ok (log_start (log_st s)) (sb s) (txview s)"
    and "n \<in> free_blocks (sb s) (txview s)" and "\<forall>m < n. m \<notin> free_blocks (sb s) (txview s)"
  shows "\<exists>s'. balloc (log_dev (log_st s)) s = Ok (of_nat n, s') \<and> tx p s' \<and> sb s' = sb s \<and> itable s' = itable s
     \<and> txview s' (of_nat n) = replicate BSIZE 0
     \<and> (\<forall>blk. blk \<noteq> of_nat n \<longrightarrow> blk \<noteq> bm_block n (sb s) \<longrightarrow> txview s' blk = txview s blk)
     \<and> free_blocks (sb s') (txview s') = free_blocks (sb s) (txview s) - {n}
     \<and> bitmap_ok (log_start (log_st s')) (sb s') (txview s')"
proof -
  obtain s' where s': "balloc (log_dev (log_st s)) s = Ok (of_nat n, s')"
    "tx_to p s (taken n (sb s) (txview s)) {bm_block n (sb s), of_nat n} s'" using balloc_tx [OF assms] by blast
  note T = tx_toD [OF s'(2)] and S = more_fs [OF tx_toD(7) [OF s'(2)]]
  show ?thesis
    using s'(1) T(1,2,5) S free_blocks_taken [OF assms(3,4)] by (intro exI [of _ s']) (simp add: taken_def)
qed

text \<open>C28: \<open>bfree\<close> gives a block back: a block of the disk that is not free becomes free and no other block
  of the file system changes; a block that is free already makes the kernel panic. Giving back the
  block \<open>balloc\<close> returned leaves the same blocks free as before.\<close>

theorem bfree_gives_back:
  fixes s :: "('z) fs_state_scheme"
  assumes "tx p s" and "may_log s 1" and "bitmap_ok (log_start (log_st s)) (sb s) (txview s)" and "n < unat (sb_size (sb s))"
  shows "if n \<in> free_blocks (sb s) (txview s)
     then bfree_block (log_dev (log_st s)) (of_nat n) s = Panic ''freeing free block''
     else (\<exists>s'. bfree_block (log_dev (log_st s)) (of_nat n) s = Ok s' \<and> tx p s' \<and> sb s' = sb s \<and> itable s' = itable s
       \<and> (\<forall>blk. blk \<noteq> bm_block n (sb s) \<longrightarrow> txview s' blk = txview s blk)
       \<and> free_blocks (sb s') (txview s') = insert n (free_blocks (sb s) (txview s)))"
proof (cases "n \<in> free_blocks (sb s) (txview s)")
  case False
  then obtain s' where s': "bfree_block (log_dev (log_st s)) (of_nat n) s = Ok s'"
     "tx_to p s ((txview s)(bm_block n (sb s) := bm_clear (txview s (bm_block n (sb s))) (n mod BPB))) {bm_block n (sb s)} s'"
    using bfree_tx [OF assms] by auto
  then show ?thesis
    using False tx_toD [OF s'(2)] more_fs [OF tx_toD(7) [OF s'(2)]] free_blocks_mark(2) [OF assms(3,4)] by auto
qed (use bfree_tx [OF assms] in auto)

theorem balloc_least_free_witness:
  "\<exists>s'. balloc 1 (binit demo_fs) = Ok (48, s') \<and> free_blocks (sb s') (txview s') = {49..<2000}"
proof -
  have "{48..<2000} - {48} = {49..<2000 :: nat}" by auto
  then show ?thesis
    using balloc_least_free [OF demo_fs_tx(1) demo_fs_may_log, of 48] demo_fs_bitmap
    by (auto simp: demo_fs_tx(3-5) demo_fs_view demo_fs_free demo_log_sel)
qed

theorem bfree_gives_back_witness:
  "(\<exists>s'. bfree_block 1 46 (binit demo_fs) = Ok s' \<and> free_blocks (sb s') (txview s') = insert 46 {48..<2000})
   \<and> bfree_block 1 100 (binit demo_fs) = Panic ''freeing free block''"
  using bfree_gives_back [OF demo_fs_tx(1) demo_fs_may_log, of 46] bfree_gives_back [OF demo_fs_tx(1) demo_fs_may_log, of 100] demo_fs_bitmap
  by (auto simp: demo_fs_tx(3-5) demo_fs_view demo_fs_free demo_fs_size demo_log_sel)

end
