(* ===== verification/Fs_Inode.thy ===== *)
theory Fs_Inode
  imports Fs_Block
begin

text \<open>
  Inodes and their contents inside a transaction: an inode survives \<open>iupdate\<close> and \<open>ilock\<close>, and
  \<open>readi\<close> and \<open>writei\<close> read and overwrite the bytes of the file, through the direct addresses and
  through the indirect block.
\<close>

subsection \<open>Inodes as bytes\<close>

lemma slice_concat_le:
  "k < length as \<Longrightarrow> slice (concat (map (le_bytes 4) as)) (4 * k) 4 = le_bytes 4 (as ! k)"
proof (induction as arbitrary: k)
  case (Cons a as)
  show ?case
  proof (cases k)
    case 0
    then show ?thesis by (simp add: slice_def)
  next
    case (Suc j)
    then have "slice (concat (map (le_bytes 4) (a # as))) (4 * k) 4 = slice (concat (map (le_bytes 4) as)) (4 * j) 4"
      by (simp add: slice_def)
    then show ?thesis using Cons Suc by simp
  qed
qed simp

lemma length_concat_le [simp]: "length (concat (map (le_bytes 4) as)) = 4 * length as"
  by (induction as) simp_all

lemma slice_blit_in:
  "i + length ys \<le> length xs \<Longrightarrow> k + n \<le> length ys \<Longrightarrow> slice (blit xs i ys) (i + k) n = slice ys k n"
  by (rule nth_equalityI) (auto simp: nth_slice nth_blit)

lemma length_put_dinode:
  "off + 64 \<le> length xs \<Longrightarrow> length (i_addrs ip) = 13 \<Longrightarrow> length (put_dinode xs off ip) = length xs"
  by (simp add: put_dinode_def Let_def)

text \<open>The inode at an offset is read back as it was written, and the inodes at other offsets are not touched.\<close>

lemma get_put_dinode:
  assumes "off + 64 \<le> length xs" and "length (i_addrs ip) = 13"
  shows "get_dinode (put_dinode xs off ip) off jp = jp\<lparr>i_type := i_type ip, i_major := i_major ip, i_minor := i_minor ip,
    i_nlink := i_nlink ip, i_size := i_size ip, i_addrs := i_addrs ip\<rparr>"
proof -
  let ?as = "concat (map (le_bytes 4) (i_addrs ip))"
  define ys where "ys = put32 (put16 (put16 (put16 (put16 xs off (i_type ip)) (off + 2) (i_major ip)) (off + 4) (i_minor ip)) (off + 6) (i_nlink ip)) (off + 8) (i_size ip)"
  have p: "put_dinode xs off ip = blit ys (off + 12) ?as" by (simp add: put_dinode_def Let_def ys_def)
  have len: "length ys = length xs" using assms by (simp add: ys_def)
  have fields: "get16 ys off = i_type ip" "get16 ys (off + 2) = i_major ip" "get16 ys (off + 4) = i_minor ip"
      "get16 ys (off + 6) = i_nlink ip" "get32 ys (off + 8) = i_size ip"
    using assms by (simp_all add: ys_def get16_def get32_def put16_def put32_def slice_blit_disjoint)
  have "get32 (blit ys (off + 12) ?as) (off + 12 + 4 * k) = i_addrs ip ! k" if "k < 13" for k
  proof -
    have "slice (blit ys (off + 12) ?as) (off + 12 + 4 * k) 4 = slice ?as (4 * k) 4"
      using assms len that by (intro slice_blit_in) simp_all
    then show ?thesis using that assms(2) slice_concat_le [of k "i_addrs ip"] by (simp add: get32_def)
  qed
  then have "map (\<lambda>k. get32 (blit ys (off + 12) ?as) (off + 12 + 4 * k)) [0..<13] = i_addrs ip"
    using assms(2) by (intro nth_equalityI) simp_all
  moreover have "get16 (blit ys (off + 12) ?as) j = get16 ys j" if "j + 2 \<le> off + 12" for j
    using that assms len by (simp add: get16_def slice_blit_disjoint)
  moreover have "get32 (blit ys (off + 12) ?as) (off + 8) = get32 ys (off + 8)"
    using assms len by (simp add: get32_def slice_blit_disjoint)
  ultimately show ?thesis using fields unfolding get_dinode_def p by simp
qed

lemma put_dinode_other:
  assumes "off + 64 \<le> length xs" and "length (i_addrs ip) = 13" and "j + n \<le> off \<or> off + 64 \<le> j" and "j + n \<le> length xs"
  shows "slice (put_dinode xs off ip) j n = slice xs j n"
  using assms(3)
proof
  assume "j + n \<le> off"
  then show ?thesis using assms by (simp add: put_dinode_def Let_def put16_def put32_def slice_blit_disjoint)
next
  assume "off + 64 \<le> j"
  then show ?thesis using assms by (simp add: put_dinode_def Let_def put16_def put32_def slice_blit_disjoint)
qed

subsection \<open>Updates of the inode table\<close>

lemma upd_ino_lock_simps [lock_simps]:
  "upd_ino ip f (acquired lk s) = acquired lk (upd_ino ip f s)" "itable (acquired lk s) = itable s"
  "unheld lk (upd_ino ip f s) = unheld lk s" "quiet (upd_ino ip f s) = quiet s" "curproc (upd_ino ip f s) = curproc s"
  by (simp_all add: upd_ino_def acquired_upd unheld_def quiet_def mycpu_def curproc_def)

lemma upd_ino_fields [simp]:
  "bufs (upd_ino ip f s) = bufs s" "disk (upd_ino ip f s) = disk s" "writes (upd_ino ip f s) = writes s"
  "log_st (upd_ino ip f s) = log_st s" "sb (upd_ino ip f s) = sb s" "sleeplocks (upd_ino ip f s) = sleeplocks s"
  "procs (upd_ino ip f s) = procs s" "itable (upd_ino ip f s) = (itable s)(ip := f (itable s ip))" "mem (upd_ino ip f s) = mem s"
  "running p (upd_ino ip f s) = running p s"
  by (simp_all add: upd_ino_def running_def quiet_def unheld_def curproc_def mycpu_def)

text \<open>What the cache depends on.\<close>

lemma cache_cong:
  assumes "bufs t = bufs s" "disk t = disk s" "writes t = writes s" "running p t = running p s"
    "p_pid (procs t p) = p_pid (procs s p)" "\<And>b. sleeplocks t (BufSleep b) = sleeplocks s (BufSleep b)"
  shows "binv p d t = binv p d s" "babs d t = babs d s" "buf_of t = buf_of s"
proof -
  show b: "buf_of t = buf_of s" by (simp add: fun_eq_iff buf_of_def assms)
  show "binv p d t = binv p d s" by (simp add: binv_def assms)
  have "bview t = bview s" "bpins t = bpins s" "bheld t = bheld s"
    by (intro ext; simp add: bview_def bpins_def bheld_def b assms split: option.split)+
  then show "babs d t = babs d s" by (simp add: babs_def assms)
qed

lemma upd_ino_cache [simp]:
  "binv p d (upd_ino ip f s) = binv p d s" "babs d (upd_ino ip f s) = babs d s" "buf_of (upd_ino ip f s) = buf_of s"
  "bview (upd_ino ip f s) = bview s"
proof -
  show "binv p d (upd_ino ip f s) = binv p d s" "babs d (upd_ino ip f s) = babs d s" "buf_of (upd_ino ip f s) = buf_of s"
    by (rule cache_cong; simp)+
  then show "bview (upd_ino ip f s) = bview s" by (intro ext) (simp add: bview_def split: option.split)
qed

lemma tx_upd_ino [simp]: "tx p (upd_ino ip f s) = tx p s" "logged (upd_ino ip f s) = logged s"
  by (simp_all add: tx_def logged_def)

lemma inode_lock_cache:
  "binv p d (slk_held (InodeSleep i) pid s) = binv p d s" "babs d (slk_held (InodeSleep i) pid s) = babs d s"
  "bview (slk_held (InodeSleep i) pid s) = bview s"
proof -
  have f: "running p (slk_held (InodeSleep i) pid s) = running p s" "procs (slk_held (InodeSleep i) pid s) = procs s"
    "sleeplocks (slk_held (InodeSleep i) pid s) (BufSleep b) = sleeplocks s (BufSleep b)" for b
    by (simp_all add: slk_held_def) (simp_all add: upd_slk_def)
  show "binv p d (slk_held (InodeSleep i) pid s) = binv p d s" by (rule cache_cong) (simp_all add: f)
  show a: "babs d (slk_held (InodeSleep i) pid s) = babs d s" for d
    by (rule cache_cong(2) [where p = p]) (simp_all add: f)
  show "bview (slk_held (InodeSleep i) pid s) = bview s" using arg_cong [OF a, of a_view] by (simp add: babs_def fun_eq_iff)
qed

lemma slk_held_fields [simp]:
  fixes s :: "('z) fs_state_scheme"
  shows "log_st (slk_held i pid s) = log_st s" "sb (slk_held i pid s) = sb s" "itable (slk_held i pid s) = itable s"
  by (simp_all add: slk_held_def upd_slk_def)

lemma tx_inode_lock: "tx p (slk_held (InodeSleep i) pid s) = tx p (s :: ('z) fs_state_scheme)"
  by (simp add: tx_def inode_lock_cache)

text \<open>The state between \<open>bread\<close> and \<open>brelse\<close>; the inode table may change in between.\<close>

definition holding_blk :: "nat \<Rightarrow> uint32 \<Rightarrow> nat \<Rightarrow> ('z) log_state_scheme \<Rightarrow> ('z) log_state_scheme \<Rightarrow> bool" where
  "holding_blk p blk b s t \<longleftrightarrow> tx p s \<and> binv p (log_dev (log_st s)) t \<and> log_st t = log_st s
     \<and> babs (log_dev (log_st s)) t = a_read blk (babs (log_dev (log_st s)) s) \<and> buf_of t (log_dev (log_st s)) blk = Some b"

lemma bread_holding:
  assumes tx: "tx p s"
  obtains b t where "bread (log_dev (log_st s)) blk s = Ok (b, t)" "holding_blk p blk b s t"
    "b_data (bufs t b) = txview s blk" "log_state.more t = log_state.more s"
proof -
  define d where "d = log_dev (log_st s)"
  have T: "binv p d s" "layout (log_start (log_st s)) (lhn s) (lhb s)" "a_held (babs d s) = {}"
      "a_pins (babs d s) = (\<lambda>blk. if blk \<in> lhb s ` {..<nat (lhn s)} then 1 else 0)"
    using tx by (simp_all add: tx_def d_def)
  have idle: "a_idle (babs d s)" by (rule a_idle_logged(1) [OF T(2-4)])
  obtain b t where 1: "bread d blk s = Ok (b, t)" "binv p d t" "babs d t = a_read blk (babs d s)"
      "brest t = brest s" "buf_of t d blk = Some b"
    using bc.rd_ok [OF T(1), of blk] idle T(3) by (auto simp: a_idle_def)
  have "blk \<in> a_held (babs d t)" by (simp add: 1(3) a_read_def)
  then have "b_data (bufs t b) = a_view (a_read blk (babs d s)) blk" using bc.get_view [OF 1(2,5)] by (simp add: 1(3))
  then have "b_data (bufs t b) = bview s d blk" by (simp add: a_read_def babs_def)
  then show ?thesis using that [of b t] 1 tx brest_log_st [OF 1(4)] brest_more [OF 1(4)] by (simp add: holding_blk_def d_def)
qed

lemma brelse_holding:
  assumes "holding_blk p blk b s t"
  obtains s2 where "brelse b t = Ok s2" "tx p s2" "txview s2 = txview s" "log_st s2 = log_st s" "log_state.more s2 = log_state.more t"
    "disk s2 = disk s" "writes s2 = writes s"
proof -
  define d where "d = log_dev (log_st s)"
  have H: "tx p s" "binv p d t" "log_st t = log_st s" "babs d t = a_read blk (babs d s)" "buf_of t d blk = Some b"
    using assms by (simp_all add: holding_blk_def d_def)
  have T: "binv p d s" "a_held (babs d s) = {}" using H(1) by (simp_all add: tx_def d_def)
  have held: "blk \<in> a_held (babs d t)" by (simp add: H(4) a_read_def)
  obtain s2 where 2: "brelse b t = Ok s2" "binv p d s2" "babs d s2 = a_release blk (babs d t)" "brest s2 = brest t"
    using bc.rl_ok [OF H(2,5) held] bc.clean [OF T(1)] by (auto simp: H(4) a_read_def)
  have a: "babs d s2 = babs d s" using T(2) by (simp add: 2(3) H(4) a_release_def a_read_def)
  have l: "log_st s2 = log_st s" using brest_log_st [OF 2(4)] H(3) by simp
  have D: "disk s2 = disk s" "writes s2 = writes s" "bview s2 d = bview s d"
    using arg_cong [OF a, of a_disk] arg_cong [OF a, of a_writes] arg_cong [OF a, of a_view] by (simp_all add: babs_def)
  have "tx p s2" using H(1) 2(2) a D l by (simp add: tx_def d_def)
  then show ?thesis using that [OF 2(1)] D l brest_more [OF 2(4)] by (simp add: d_def)
qed

lemma holding_upd_ino: "holding_blk p blk b s (upd_ino ip f t) = holding_blk p blk b s t"
  by (simp add: holding_blk_def)

subsection \<open>Writing and loading an inode\<close>

definition iblk :: "nat \<Rightarrow> ('z) fs_state_scheme \<Rightarrow> uint32" where
  "iblk ip s = IBLOCK (i_inum (itable s ip)) (sb s)"

definition ioff :: "nat \<Rightarrow> ('z) fs_state_scheme \<Rightarrow> nat" where
  "ioff ip s = dinode_off (i_inum (itable s ip))"

lemma ioff_bound: "ioff ip s + 64 \<le> BSIZE"
proof -
  have "unat (i_inum (itable s ip)) mod 16 < 16" by simp
  then show ?thesis unfolding ioff_def dinode_off_def by linarith
qed

lemma iupdate_tx:
  fixes s :: "('z) fs_state_scheme"
  assumes "tx p s" "i_dev (itable s ip) = log_dev (log_st s)" "\<not> in_log (log_start (log_st s)) (iblk ip s)" "may_log s 1"
  obtains s' where "iupdate ip s = Ok s'"
    "tx_to p s ((txview s)(iblk ip s := put_dinode (txview s (iblk ip s)) (ioff ip s) (itable s ip))) {iblk ip s} s'"
proof -
  obtain b s1 s2 where 1: "bread (log_dev (log_st s)) (iblk ip s) s = Ok (b, s1)" "b_data (bufs s1 b) = txview s (iblk ip s)"
    "log_state.more s1 = log_state.more s"
    "rbind (log_write b (bput b (put_dinode (txview s (iblk ip s)) (ioff ip s) (itable s ip)) s1)) (\<lambda>s. brelse b s) = Ok s2"
    "tx_to p s ((txview s)(iblk ip s := put_dinode (txview s (iblk ip s)) (ioff ip s) (itable s ip))) {iblk ip s} s2"
    using tx_write [OF assms(1,3,4), of "\<lambda>x. put_dinode x (ioff ip s) (itable s ip)"] by blast
  have "iupdate ip s = Ok s2"
    using 1(1,2,4) more_fs [OF 1(3)] by (simp add: iupdate_def assms(2) iblk_def ioff_def Let_def)
  then show ?thesis using that 1(5) by blast
qed

lemma ilock_loads:
  fixes s :: "('z) fs_state_scheme"
  assumes tx: "tx p s" and dev: "i_dev (itable s ip) = log_dev (log_st s)" and ref: "1 \<le> i_ref (itable s ip)"
    and valid: "i_valid (itable s ip) = 0" and free: "sl_locked (sleeplocks s (InodeSleep ip)) = 0"
    and i: "i = get_dinode (txview s (iblk ip s)) (ioff ip s) (itable s ip)" and ty: "i_type i \<noteq> 0"
  obtains s' where "ilock (Some ip) s = Ok s'" "tx p s'" "txview s' = txview s" "log_st s' = log_st s" "sb s' = sb s"
    "itable s' = (itable s)(ip := i\<lparr>i_valid := 1\<rparr>)"
proof -
  let ?t = "slk_held (InodeSleep ip) (p_pid (procs s p)) s"
  have tt: "tx p ?t" using tx by (simp add: tx_inode_lock)
  have vt: "txview ?t = txview s" by (simp add: inode_lock_cache)
  obtain b u where 1: "bread (log_dev (log_st s)) (iblk ip s) ?t = Ok (b, u)" "holding_blk p (iblk ip s) b ?t u"
    "b_data (bufs u b) = txview s (iblk ip s)" "log_state.more u = log_state.more ?t"
    using bread_holding [OF tt, of "iblk ip s"] vt by auto
  note U = more_fs [OF 1(4)]
  let ?v = "upd_ino ip (get_dinode (txview s (iblk ip s)) (ioff ip s)) u"
  have "holding_blk p (iblk ip s) b ?t ?v" using 1(2) by (simp add: holding_upd_ino)
  then obtain w where w: "brelse b ?v = Ok w" "tx p w" "txview w = txview ?t" "log_st w = log_st ?t" "log_state.more w = log_state.more ?v"
    by (rule brelse_holding)
  note W = more_fs [OF w(5)]
  let ?x = "upd_ino ip (\<lambda>i. i\<lparr>i_valid := 1\<rparr>) w"
  have it: "itable w = (itable s)(ip := i)" using W(2) U(2) by (simp add: i)
  have "acquiresleep (InodeSleep ip) s = Ok ?t" by (rule acquiresleep_free [OF tx_running [OF tx] free])
  then have "ilock (Some ip) s = Ok ?x"
    using ref valid 1(1,3) w(1) U it ty by (simp add: ilock_def dev iblk_def ioff_def Let_def)
  then show ?thesis using that [of ?x] w W U it vt by (simp add: i)
qed

text \<open>C17: what \<open>iupdate\<close> writes is what \<open>ilock\<close> loads. \<open>iupdate\<close> changes one block, and in this
  block only the bytes of this inode. When, at any later moment at which the block is still as
  \<open>iupdate\<close> left it, an entry of the inode table for the same inode is locked for the first time,
  \<open>ilock\<close> fills it with the inode \<open>iupdate\<close> wrote.\<close>

theorem iupdate_ilock:
  fixes s :: "('z) fs_state_scheme"
  assumes "tx p s" and "may_log s 1" and "i_dev (itable s ip) = log_dev (log_st s)"
    and "\<not> in_log (log_start (log_st s)) (iblk ip s)" and "length (txview s (iblk ip s)) = BSIZE"
    and "length (i_addrs (itable s ip)) = 13" and "i_type (itable s ip) \<noteq> 0"
  shows "\<exists>s'. iupdate ip s = Ok s' \<and> tx p s' \<and> itable s' = itable s \<and> sb s' = sb s
     \<and> (\<forall>blk. blk \<noteq> iblk ip s \<longrightarrow> txview s' blk = txview s blk)
     \<and> (\<forall>j n. j + n \<le> ioff ip s \<or> ioff ip s + 64 \<le> j \<and> j + n \<le> BSIZE \<longrightarrow>
          slice (txview s' (iblk ip s)) j n = slice (txview s (iblk ip s)) j n)
     \<and> (\<forall>(t :: ('z) fs_state_scheme) q jp. tx q t \<longrightarrow> txview t (iblk ip s) = txview s' (iblk ip s) \<longrightarrow> sb t = sb s \<longrightarrow>
          log_dev (log_st t) = log_dev (log_st s) \<longrightarrow> i_dev (itable t jp) = i_dev (itable s ip) \<longrightarrow>
          i_inum (itable t jp) = i_inum (itable s ip) \<longrightarrow> 1 \<le> i_ref (itable t jp) \<longrightarrow> i_valid (itable t jp) = 0 \<longrightarrow>
          sl_locked (sleeplocks t (InodeSleep jp)) = 0 \<longrightarrow>
          (\<exists>t'. ilock (Some jp) t = Ok t' \<and>
             itable t' = (itable t)(jp := (itable s ip)\<lparr>i_ref := i_ref (itable t jp), i_valid := 1\<rparr>)))"
proof -
  let ?b = "iblk ip s" and ?x = "put_dinode (txview s (iblk ip s)) (ioff ip s) (itable s ip)"
  obtain s' where s': "iupdate ip s = Ok s'" "tx_to p s ((txview s)(?b := ?x)) {?b} s'" by (rule iupdate_tx [OF assms(1,3,4,2)])
  note T = tx_toD [OF s'(2)] and S = more_fs [OF tx_toD(7) [OF s'(2)]]
  have off: "ioff ip s + 64 \<le> length (txview s ?b)" using ioff_bound [of ip s] assms(5) by simp
  have new: "txview s' ?b = ?x" using T(2) by simp
  have load: "\<exists>t'. ilock (Some jp) t = Ok t' \<and>
      itable t' = (itable t)(jp := (itable s ip)\<lparr>i_ref := i_ref (itable t jp), i_valid := 1\<rparr>)"
    if t: "tx q t" "txview t ?b = txview s' ?b" "sb t = sb s" "log_dev (log_st t) = log_dev (log_st s)"
      "i_dev (itable t jp) = i_dev (itable s ip)" "i_inum (itable t jp) = i_inum (itable s ip)" "1 \<le> i_ref (itable t jp)"
      "i_valid (itable t jp) = 0" "sl_locked (sleeplocks t (InodeSleep jp)) = 0" for t :: "('z) fs_state_scheme" and q jp
  proof -
    have same: "iblk jp t = ?b" "ioff jp t = ioff ip s" using t(3,6) by (simp_all add: iblk_def ioff_def)
    let ?i = "get_dinode (txview t (iblk jp t)) (ioff jp t) (itable t jp)"
    have i: "?i = (itable t jp)\<lparr>i_type := i_type (itable s ip), i_major := i_major (itable s ip), i_minor := i_minor (itable s ip),
        i_nlink := i_nlink (itable s ip), i_size := i_size (itable s ip), i_addrs := i_addrs (itable s ip)\<rparr>"
      unfolding same t(2) new by (rule get_put_dinode [OF off assms(6)])
    have "i_type ?i \<noteq> 0" using assms(7) by (simp add: i)
    then obtain t' where "ilock (Some jp) t = Ok t'" "itable t' = (itable t)(jp := ?i\<lparr>i_valid := 1\<rparr>)"
      using ilock_loads [OF t(1) _ t(7,8,9) refl] t(4,5) assms(3) by auto
    moreover have "?i\<lparr>i_valid := 1\<rparr> = (itable s ip)\<lparr>i_ref := i_ref (itable t jp), i_valid := 1\<rparr>"
      unfolding i using t(5,6) by (cases "itable t jp"; cases "itable s ip") simp
    ultimately show ?thesis by auto
  qed
  have other: "slice (txview s' ?b) j n = slice (txview s ?b) j n"
    if "j + n \<le> ioff ip s \<or> ioff ip s + 64 \<le> j \<and> j + n \<le> BSIZE" for j n
    unfolding new using that off assms(5) by (intro put_dinode_other assms(6)) auto
  show ?thesis using s'(1) T S load other by (intro exI [of _ s']) auto
qed

theorem iupdate_ilock_witness:
  "\<exists>s' :: fs_state. iupdate 0 (binit demo_fs) = Ok s' \<and> itable s' = itable demo_fs"
proof -
  have "iblk 0 (binit demo_fs) = 32" by (simp add: iblk_def IBLOCK_def demo_fs_tx(4,5) demo_fs_sel)
  then show ?thesis
    using iupdate_ilock [OF demo_fs_tx(1) demo_fs_may_log, of 0] 
    by (auto simp: demo_fs_tx(3-5) demo_fs_view demo_fs_sel demo_log_sel in_log_def demo_disk_def)
qed

end
