(* ===== verification/Fs_File.thy ===== *)
theory Fs_File
  imports Fs_Inode
begin

text \<open>
  The contents of files. \<open>baddr\<close> is the block of the disk that holds a block of a file, and \<open>fbyte\<close> a byte
  of the file. On a file whose blocks are allocated, \<open>readi\<close> returns the bytes of the file and \<open>writei\<close>
  overwrites them, each through the direct and indirect blocks and in pieces that do not cross blocks.
\<close>

subsection \<open>Blocks and bytes of a file\<close>

definition baddr :: "(uint32 \<Rightarrow> byte list) \<Rightarrow> inode \<Rightarrow> nat \<Rightarrow> uint32" where
  "baddr V i bn = (if bn < NDIRECT then i_addrs i ! bn
     else if i_addrs i ! NDIRECT = 0 then 0 else get32 (V (i_addrs i ! NDIRECT)) (4 * (bn - NDIRECT)))"

definition fbyte :: "(uint32 \<Rightarrow> byte list) \<Rightarrow> inode \<Rightarrow> nat \<Rightarrow> byte" where
  "fbyte V i k = V (baddr V i (k div 1024)) ! (k mod 1024)"

text \<open>The first \<open>hi\<close> bytes of the file are in blocks of their own, outside the log and apart from the
  indirect block and the block \<open>ib\<close> of the inode.\<close>

definition file_ok :: "uint32 \<Rightarrow> (uint32 \<Rightarrow> byte list) \<Rightarrow> inode \<Rightarrow> uint32 \<Rightarrow> nat \<Rightarrow> bool" where
  "file_ok start V i ib hi \<longleftrightarrow> hi \<le> MAXFILE * 1024 \<and> inj_on (baddr V i) {b. b * 1024 < hi} \<and>
     (\<forall>b. b * 1024 < hi \<longrightarrow> baddr V i b \<noteq> 0 \<and> \<not> in_log start (baddr V i b) \<and> length (V (baddr V i b)) = 1024
        \<and> baddr V i b \<noteq> ib \<and> baddr V i b \<noteq> i_addrs i ! NDIRECT) \<and>
     i_addrs i ! NDIRECT \<noteq> ib"

lemma file_okD:
  assumes "file_ok start V i ib hi" "k < hi"
  shows "baddr V i (k div 1024) \<noteq> 0" "\<not> in_log start (baddr V i (k div 1024))" "length (V (baddr V i (k div 1024))) = 1024"
    "baddr V i (k div 1024) \<noteq> ib" "baddr V i (k div 1024) \<noteq> i_addrs i ! NDIRECT" "k div 1024 < MAXFILE"
proof -
  have "k div 1024 * 1024 < hi" using assms(2) by (metis div_times_less_eq_dividend le_less_trans)
  then show "baddr V i (k div 1024) \<noteq> 0" "\<not> in_log start (baddr V i (k div 1024))" "length (V (baddr V i (k div 1024))) = 1024"
    "baddr V i (k div 1024) \<noteq> ib" "baddr V i (k div 1024) \<noteq> i_addrs i ! NDIRECT"
    using assms(1) by (simp_all add: file_ok_def)
  show "k div 1024 < MAXFILE" using assms by (simp add: file_ok_def less_mult_imp_div_less)
qed

lemma file_ok_same:
  assumes "file_ok start V i ib hi" "k < hi" "j < hi" "baddr V i (k div 1024) = baddr V i (j div 1024)"
  shows "k div 1024 = j div 1024"
proof -
  have "k div 1024 * 1024 < hi" "j div 1024 * 1024 < hi" using assms(2,3) by (metis div_times_less_eq_dividend le_less_trans)+
  then show ?thesis using assms(1,4) by (auto simp: file_ok_def inj_on_def)
qed

lemma bmap_mapped:
  fixes s :: "('z) fs_state_scheme"
  assumes tx: "tx p s" and dev: "i_dev (itable s ip) = log_dev (log_st s)"
    and bn: "unat bn < MAXFILE" and nz: "baddr (txview s) (itable s ip) (unat bn) \<noteq> 0"
  obtains s' where "bmap ip bn s = Ok (baddr (txview s) (itable s ip) (unat bn), s')" "tx_to p s (txview s) {} s'"
proof (cases "unat bn < NDIRECT")
  case True
  then have "bn < of_nat NDIRECT" by (simp add: word_less_nat_alt)
  then have "bmap ip bn s = Ok (baddr (txview s) (itable s ip) (unat bn), s)"
    using True nz by (simp add: bmap_def baddr_def Let_def)
  then show ?thesis using that tx_to_refl [OF tx] by blast
next
  case False
  let ?a = "i_addrs (itable s ip) ! NDIRECT"
  have ind: "?a \<noteq> 0" "baddr (txview s) (itable s ip) (unat bn) = get32 (txview s ?a) (4 * (unat bn - NDIRECT))"
    using False nz by (auto simp: baddr_def)
  have c: "\<not> bn < of_nat NDIRECT" using False by (simp add: word_less_nat_alt)
  have u: "unat (bn - of_nat NDIRECT) = unat bn - NDIRECT" using False by (subst unat_sub) (simp_all add: word_le_nat_alt)
  then have lt: "bn - of_nat NDIRECT < of_nat NINDIRECT" using bn False by (simp add: word_less_nat_alt)
  obtain b s1 s2 where 1: "bread (log_dev (log_st s)) ?a s = Ok (b, s1)" "b_data (bufs s1 b) = txview s ?a"
    "log_state.more s1 = log_state.more s" "brelse b s1 = Ok s2" "tx_to p s (txview s) {} s2"
    using tx_read [OF tx] by blast
  have "bmap ip bn s = Ok (baddr (txview s) (itable s ip) (unat bn), s2)"
    using c lt 1 u ind nz by (simp add: bmap_def Let_def dev)
  then show ?thesis using that 1(5) by blast
qed

subsection \<open>Reading\<close>

lemma off_div: "unat (off div 1024 :: uint32) = unat off div 1024" "unat (off mod 1024 :: uint32) = unat off mod 1024"
  by (simp_all add: unat_div unat_mod)

lemma within_block:
  assumes "(a :: nat) mod 1024 + k < 1024"
  shows "(a + k) div 1024 = a div 1024" "(a + k) mod 1024 = a mod 1024 + k"
proof -
  define q r where "q = a div 1024" and "r = a mod 1024"
  have "a = q * 1024 + r" "r + k < 1024" using assms by (simp_all add: q_def r_def)
  then show "(a + k) div 1024 = a div 1024" "(a + k) mod 1024 = a mod 1024 + k" by (simp_all add: add.assoc)
qed

lemma chunk_block:
  fixes off :: uint32
  assumes "k < unat (io_chunk n tot off)" "tot < n"
  shows "(unat off + k) div 1024 = unat off div 1024" "(unat off + k) mod 1024 = unat off mod 1024 + k"
  using io_chunk_bounds(3) [OF assms(2), of off] assms(1) by (intro within_block; simp add: off_div)+

lemma sint_unat:
  fixes n :: uint32
  assumes "unat n < 2 ^ 31"
  shows "sint n = int (unat n)"
proof -
  have "uint n < 2 ^ 31" using assms by (metis of_nat_less_iff of_nat_numeral of_nat_power unsigned_of_nat uint_nat)
  moreover have "- (2 ^ 31) \<le> uint n" using uint_ge_0 [of n] by (rule order_trans [rotated]) simp
  ultimately have "signed_take_bit 31 (uint n) = uint n" by (intro signed_take_bit_int_eq_self)
  then show ?thesis by (simp add: sint_uint)
qed

lemma readi_loop_local:
  fixes s :: "('z) fs_state_scheme"
  assumes "tx p s" and "i_dev (itable s ip) = log_dev (log_st s)" and "tot \<le> n" and "unat n < 2 ^ 31"
    and "file_ok start (txview s) (itable s ip) ib hi" and "unat off + (unat n - unat tot) \<le> hi"
  shows "\<exists>s'. readi_loop ip DLocal off tot n acc s =
     Ok ((int (unat n), acc @ map (\<lambda>k. fbyte (txview s) (itable s ip) (unat off + k)) [0..<unat n - unat tot]), s')
     \<and> tx_to p s (txview s) {} s'"
  using assms
proof (induction "unat n - unat tot" arbitrary: off tot acc s rule: less_induct)
  case less
  have sn: "sint n = int (unat n)" using less.prems(4) by (rule sint_unat)
  show ?case
  proof (cases "tot < n")
    case False
    then have "tot = n" using less.prems(3) by simp
    then show ?thesis using tx_to_refl [OF less.prems(1)] by (auto simp: readi_loop.simps [of ip DLocal off] sn)
  next
    case True
    define m where "m = io_chunk n tot off"
    let ?V = "txview s" and ?i = "itable s ip"
    note ch = io_chunk_bounds [OF True, of off, folded m_def]
    have off_lt: "unat off < hi" using less.prems(6) ch(1,2) by linarith
    note ok = file_okD [OF less.prems(5) off_lt]
    obtain s1 where 1: "bmap ip (off div 1024) s = Ok (baddr ?V ?i (unat off div 1024), s1)" "tx_to p s ?V {} s1"
      using bmap_mapped [OF less.prems(1,2), of "off div 1024"] ok by (auto simp: off_div)
    note T1 = tx_toD [OF 1(2)] and S1 = more_fs [OF tx_toD(7) [OF 1(2)]]
    obtain b s2 s3 where 2: "bread (log_dev (log_st s1)) (baddr ?V ?i (unat off div 1024)) s1 = Ok (b, s2)"
      "b_data (bufs s2 b) = ?V (baddr ?V ?i (unat off div 1024))" "brelse b s2 = Ok s3" "tx_to p s1 ?V {} s3"
      using tx_read [OF T1(1), unfolded T1(2)] by blast
    have 3: "tx_to p s ?V {} s3" using tx_to_trans [OF 1(2) 2(4)] by simp
    note T3 = tx_toD [OF 3] and S3 = more_fs [OF tx_toD(7) [OF 3]]
    let ?bs = "map (\<lambda>k. fbyte ?V ?i (unat off + k)) [0..<unat m]"
    have piece: "slice (?V (baddr ?V ?i (unat off div 1024))) (unat (off mod 1024)) (unat m) = ?bs"
      using ch(3) chunk_block [where off = off, OF _ True, folded m_def] ok(3)
      by (intro nth_equalityI) (simp_all add: nth_slice fbyte_def off_div)
    have step: "readi_loop ip DLocal off tot n acc s = readi_loop ip DLocal (off + m) (tot + m) n (acc @ ?bs) s3"
      using True 1(1) 2(1-3) ok(1) T1(4) S1 piece less.prems(2)
      by (simp add: readi_loop.simps [of ip DLocal off] Let_def m_def [symmetric])
    have om: "unat (off + m) = unat off + unat m"
      by (rule unat_add_le) (use less.prems(5,6) ch(2) in \<open>simp add: file_ok_def\<close>)
    have le: "unat n - unat (tot + m) < unat n - unat tot" "tot + m \<le> n"
      using ch True by (simp_all add: word_less_nat_alt word_le_nat_alt)
    have "file_ok start (txview s3) (itable s3 ip) ib hi" "unat (off + m) + (unat n - unat (tot + m)) \<le> hi"
      using less.prems(5,6) T3(2) S3 om ch(2,4) by simp_all
    from less.hyps [OF le(1) T3(1) _ le(2) less.prems(4) this, of "acc @ ?bs"]
    obtain s4 where 4: "readi_loop ip DLocal (off + m) (tot + m) n (acc @ ?bs) s3 = Ok ((int (unat n), (acc @ ?bs) @
        map (\<lambda>k. fbyte ?V ?i (unat (off + m) + k)) [0..<unat n - unat (tot + m)]), s4)" "tx_to p s3 ?V {} s4"
      using less.prems(2) T3(2,4) S3 by auto
    have len: "unat n - unat tot = unat m + (unat n - unat (tot + m))" using ch(2,4) by simp
    have "?bs @ map (\<lambda>k. fbyte ?V ?i (unat (off + m) + k)) [0..<unat n - unat (tot + m)] =
        map (\<lambda>k. fbyte ?V ?i (unat off + k)) [0..<unat n - unat tot]"
      unfolding len by (rule nth_equalityI) (auto simp: nth_append om)
    then show ?thesis unfolding step 4(1) using tx_to_trans [OF 3 4(2)] by auto
  qed
qed

subsection \<open>Writing\<close>

lemma baddr_cong: "V' (i_addrs i ! NDIRECT) = V (i_addrs i ! NDIRECT) \<Longrightarrow> baddr V' i = baddr V i"
  by (simp add: baddr_def fun_eq_iff)

lemma baddr_size [simp]: "baddr V (i\<lparr>i_size := n\<rparr>) = baddr V i" "fbyte V (i\<lparr>i_size := n\<rparr>) = fbyte V i"
  by (simp_all add: baddr_def fbyte_def fun_eq_iff)

lemma file_ok_size [simp]: "file_ok start V (i\<lparr>i_size := n\<rparr>) ib hi = file_ok start V i ib hi"
  by (simp add: file_ok_def)

text \<open>A change of a block that is not one of the file's.\<close>

lemma other_block:
  assumes "x \<noteq> i_addrs i ! NDIRECT" and "\<And>k. k < hi \<Longrightarrow> x \<noteq> baddr V i (k div 1024)"
  shows "k < hi \<Longrightarrow> fbyte (V(x := y)) i k = fbyte V i k" "file_ok start V i ib hi \<Longrightarrow> file_ok start (V(x := y)) i ib hi"
proof -
  have b: "baddr (V(x := y)) i = baddr V i" using assms(1) by (intro baddr_cong) simp
  show "k < hi \<Longrightarrow> fbyte (V(x := y)) i k = fbyte V i k" using assms(2) [of k] by (auto simp: fbyte_def b)
  assume ok: "file_ok start V i ib hi"
  have "baddr V i n \<noteq> x" if "n * 1024 < hi" for n using assms(2) [OF that] by simp
  then show "file_ok start (V(x := y)) i ib hi" using ok by (simp add: file_ok_def b)
qed

lemma same_block:
  assumes "(k :: nat) div 1024 = j div 1024"
  shows "j mod 1024 \<le> k mod 1024 \<longleftrightarrow> j \<le> k" "k mod 1024 < j mod 1024 + n \<longleftrightarrow> k < j + n" "k mod 1024 - j mod 1024 = k - j"
proof -
  define q r t where "q = j div 1024" and "r = k mod 1024" and "t = j mod 1024"
  have "k = q * 1024 + r" "j = q * 1024 + t" unfolding q_def r_def t_def by (metis assms div_mult_mod_eq)+
  then show "j mod 1024 \<le> k mod 1024 \<longleftrightarrow> j \<le> k" "k mod 1024 < j mod 1024 + n \<longleftrightarrow> k < j + n" "k mod 1024 - j mod 1024 = k - j"
    unfolding r_def [symmetric] t_def [symmetric] by auto
qed

text \<open>Bytes stored inside one block of the file.\<close>

lemma write_piece:
  assumes ok: "file_ok start V i ib hi" and off: "off + length bs \<le> hi" "off mod 1024 + length bs \<le> 1024" "off < hi"
  defines "a \<equiv> baddr V i (off div 1024)"
  defines "V' \<equiv> V(a := blit (V a) (off mod 1024) bs)"
  shows "baddr V' i = baddr V i" "file_ok start V' i ib hi"
    "k < hi \<Longrightarrow> fbyte V' i k = (if off \<le> k \<and> k < off + length bs then bs ! (k - off) else fbyte V i k)"
proof -
  note D = file_okD [OF ok off(3), folded a_def]
  show b: "baddr V' i = baddr V i" using D(5) by (intro baddr_cong) (simp add: V'_def)
  show "file_ok start V' i ib hi" using ok off(2) D(3) by (simp add: file_ok_def b) (simp add: V'_def)
  assume k: "k < hi"
  have fb: "fbyte V' i k = (if baddr V i (k div 1024) = a then blit (V a) (off mod 1024) bs ! (k mod 1024) else fbyte V i k)"
    unfolding fbyte_def b by (simp add: V'_def)
  show "fbyte V' i k = (if off \<le> k \<and> k < off + length bs then bs ! (k - off) else fbyte V i k)"
  proof (cases "baddr V i (k div 1024) = a")
    case False
    then have "\<not> (off \<le> k \<and> k < off + length bs)"
      using within_block(1) [of off "k - off"] off(2) by (auto simp: a_def)
    then show ?thesis using False by (auto simp: fb)
  next
    case True
    then have same: "k div 1024 = off div 1024" using file_ok_same [OF ok k off(3)] by (simp add: a_def)
    have "fbyte V' i k = blit (V a) (off mod 1024) bs ! (k mod 1024)" using True by (simp add: fb)
    also have "\<dots> = (if off mod 1024 \<le> k mod 1024 \<and> k mod 1024 < off mod 1024 + length bs
        then bs ! (k mod 1024 - off mod 1024) else V a ! (k mod 1024))"
      using off(2) D(3) by (intro nth_blit) simp_all
    also have "\<dots> = (if off \<le> k \<and> k < off + length bs then bs ! (k - off) else fbyte V i k)"
      using True same_block [OF same] by (simp add: fbyte_def)
    finally show ?thesis .
  qed
qed

lemma io_chunk_unat:
  assumes "tot < n"
  shows "unat (io_chunk n tot off) = min (unat n - unat tot) (1024 - unat off mod 1024)"
proof -
  have "unat (n - tot) = unat n - unat tot" using assms by (simp add: unat_sub less_imp_le)
  moreover have "unat (1024 - off mod 1024) = 1024 - unat off mod 1024"
    by (subst unat_sub) (simp_all add: word_le_nat_alt off_div)
  ultimately show ?thesis by (simp add: io_chunk_def min_def word_le_nat_alt)
qed

text \<open>The number of blocks a range of bytes touches.\<close>

definition nblk :: "nat \<Rightarrow> nat \<Rightarrow> nat" where
  "nblk off n = (if n = 0 then 0 else (off + n - 1) div 1024 - off div 1024 + 1)"

lemma nblk_step:
  assumes "0 < n" and m: "m = min n (1024 - off mod 1024)"
  shows "nblk (off + m) (n - m) + 1 \<le> nblk off n"
proof (cases "n \<le> 1024 - off mod 1024")
  case True
  then show ?thesis using assms by (simp add: nblk_def)
next
  case False
  then have mm: "m = 1024 - off mod 1024" by (simp add: m)
  have "off mod 1024 < 1024" by simp
  then have "off + m = (off div 1024 + 1) * 1024" using div_mult_mod_eq [of off 1024] unfolding mm by (simp only: distrib_right)
  then have d: "(off + m) div 1024 = off div 1024 + 1" by simp
  have e: "off + m + (n - m) = off + n" using False mm by simp
  have "(off + m) div 1024 \<le> (off + n - 1) div 1024" using False mm by (intro div_le_mono) simp
  then have "off div 1024 + 1 \<le> (off + n - 1) div 1024" by (simp only: d)
  moreover have "x - (q + 1) + 1 + 1 \<le> x - q + 1" if "q + 1 \<le> x" for x q :: nat using that by simp
  ultimately have "(off + n - 1) div 1024 - (off div 1024 + 1) + 1 + 1 \<le> (off + n - 1) div 1024 - off div 1024 + 1" by blast
  then show ?thesis using False mm assms(1) unfolding nblk_def e d by auto
qed

text \<open>\<open>overwritten\<close>: the bytes \<open>bs\<close> are in the file from \<open>off\<close> on, and nothing else has changed.\<close>

definition overwritten :: "(uint32 \<Rightarrow> byte list) \<Rightarrow> inode \<Rightarrow> nat \<Rightarrow> nat \<Rightarrow> byte list \<Rightarrow> (uint32 \<Rightarrow> byte list) \<Rightarrow> bool" where
  "overwritten V i hi off bs V' \<longleftrightarrow> baddr V' i = baddr V i \<and>
     (\<forall>k < hi. fbyte V' i k = (if off \<le> k \<and> k < off + length bs then bs ! (k - off) else fbyte V i k)) \<and>
     (\<forall>blk. (\<forall>k < hi. blk \<noteq> baddr V i (k div 1024)) \<longrightarrow> V' blk = V blk)"

lemma overwritten_trans:
  assumes "overwritten V i hi off bs V1" "overwritten V1 i hi (off + length bs) cs V2"
  shows "overwritten V i hi off (bs @ cs) V2"
  using assms by (auto simp: overwritten_def nth_append)

lemma overwritten_piece:
  assumes "file_ok start V i ib hi" "off + length bs \<le> hi" "off mod 1024 + length bs \<le> 1024" "off < hi"
  shows "overwritten V i hi off bs (V(baddr V i (off div 1024) := blit (V (baddr V i (off div 1024))) (off mod 1024) bs))"
  using write_piece [OF assms] assms(4) by (auto simp: overwritten_def)

lemma writei_loop_local:
  fixes s :: "('z) fs_state_scheme"
  assumes "tx p s" and "i_dev (itable s ip) = log_dev (log_st s)" and "tot \<le> n"
    and "file_ok (log_start (log_st s)) (txview s) (itable s ip) ib hi" and "unat off + (unat n - unat tot) \<le> hi"
    and "length bs = unat n - unat tot" and "may_log s (nblk (unat off) (unat n - unat tot))"
  shows "\<exists>s' V B. writei_loop ip (SLocal bs) off tot n s = Ok ((n, off + (n - tot)), s') \<and> tx_to p s V B s'
     \<and> finite B \<and> card B \<le> nblk (unat off) (unat n - unat tot)
     \<and> file_ok (log_start (log_st s)) V (itable s ip) ib hi \<and> overwritten (txview s) (itable s ip) hi (unat off) bs V"
  using assms
proof (induction "unat n - unat tot" arbitrary: off tot bs s rule: less_induct)
  case less
  show ?case
  proof (cases "tot < n")
    case False
    then have "tot = n" using less.prems(3) by simp
    then show ?thesis using tx_to_refl [OF less.prems(1)] less.prems
      by (intro exI [of _ s] exI [of _ "txview s"] exI [of _ "{}"])
        (auto simp: writei_loop.simps [of ip "SLocal []"] overwritten_def)
  next
    case True
    define m where "m = io_chunk n tot off"
    let ?V = "txview s" and ?i = "itable s ip"
    let ?a = "baddr ?V ?i (unat off div 1024)" and ?f = "\<lambda>x. blit x (unat (off mod 1024)) (take (unat m) bs)"
    note ch = io_chunk_bounds [OF True, of off, folded m_def]
    have off_lt: "unat off < hi" using less.prems(5) ch(1,2) by linarith
    note ok = file_okD [OF less.prems(4) off_lt]
    obtain s1 where 1: "bmap ip (off div 1024) s = Ok (?a, s1)" "tx_to p s ?V {} s1"
      using bmap_mapped [OF less.prems(1,2), of "off div 1024"] ok by (auto simp: off_div)
    note T1 = tx_toD [OF 1(2)] and S1 = more_fs [OF tx_toD(7) [OF 1(2)]]
    have mu: "unat m = min (unat n - unat tot) (1024 - unat off mod 1024)"
      using True by (simp add: m_def io_chunk_unat)
    have nb: "nblk (unat off + unat m) (unat n - unat tot - unat m) + 1 \<le> nblk (unat off) (unat n - unat tot)"
      using True mu by (intro nblk_step) (simp_all add: word_less_nat_alt)
    have ml: "may_log s1 1" "may_log s (nblk (unat off + unat m) (unat n - unat tot - unat m) + 1)"
      using less.prems(7) nb T1(3,6) by (simp_all add: may_log_def)
    obtain b s2 s3 where 2: "bread (log_dev (log_st s1)) ?a s1 = Ok (b, s2)" "b_data (bufs s2 b) = ?V ?a"
      "rbind (log_write b (bput b (?f (?V ?a)) s2)) (\<lambda>s. brelse b s) = Ok s3" "tx_to p s1 (?V(?a := ?f (?V ?a))) {?a} s3"
      using tx_write [OF T1(1) _ ml(1), of ?a ?f, unfolded T1(2,5)] ok(2) by blast
    have 3: "tx_to p s (?V(?a := ?f (?V ?a))) {?a} s3" using tx_to_trans [OF 1(2) 2(4)] by simp
    note T3 = tx_toD [OF 3] and S3 = more_fs [OF tx_toD(7) [OF 3]]
    have lm: "length (take (unat m) bs) = unat m" using less.prems(6) ch(2) by simp
    have piece: "unat off + length (take (unat m) bs) \<le> hi" "unat off mod 1024 + length (take (unat m) bs) \<le> 1024"
      using less.prems(5) ch lm by (simp_all add: off_div)
    note W = write_piece(2) [OF less.prems(4) piece off_lt] overwritten_piece [OF less.prems(4) piece off_lt]
    obtain w where w: "log_write b (bput b (?f (?V ?a)) s2) = Ok w" "brelse b w = Ok s3" using rbind_OkE [OF 2(3)] by blast
    have step: "writei_loop ip (SLocal bs) off tot n s = writei_loop ip (SLocal (drop (unat m) bs)) (off + m) (tot + m) n s3"
      by (simp add: writei_loop.simps [of ip "SLocal bs"] True 1(1) ok(1) S1 less.prems(2) 2(1) [unfolded T1(4)] 2(2) w
        Let_def m_def [symmetric])
    have om: "unat (off + m) = unat off + unat m"
      by (rule unat_add_le) (use less.prems(4,5) ch(2) in \<open>simp add: file_ok_def\<close>)
    have le: "unat n - unat (tot + m) < unat n - unat tot" "tot + m \<le> n" "unat n - unat (tot + m) = unat n - unat tot - unat m"
      using ch True by (simp_all add: word_less_nat_alt word_le_nat_alt)
    have ml3: "may_log s3 (nblk (unat (off + m)) (unat n - unat (tot + m)))"
      using may_log_after [OF ml(2) 3] om le(3) by simp
    have ok3: "file_ok (log_start (log_st s3)) (txview s3) (itable s3 ip) ib hi" "i_dev (itable s3 ip) = log_dev (log_st s3)"
      "unat (off + m) + (unat n - unat (tot + m)) \<le> hi" "length (drop (unat m) bs) = unat n - unat (tot + m)"
      using W(1) T3(2,4,5) S3 less.prems(2,5,6) om ch(2,4) by (simp_all add: off_div)
    obtain s4 V B where 4: "writei_loop ip (SLocal (drop (unat m) bs)) (off + m) (tot + m) n s3 = Ok ((n, off + m + (n - (tot + m))), s4)"
      "tx_to p s3 V B s4" "finite B" "card B \<le> nblk (unat (off + m)) (unat n - unat (tot + m))"
      "file_ok (log_start (log_st s)) V ?i ib hi" "overwritten (txview s3) ?i hi (unat (off + m)) (drop (unat m) bs) V"
      using less.hyps [OF le(1) T3(1) ok3(2) le(2) ok3(1,3,4) ml3] T3(5) S3 by auto
    have "overwritten ?V ?i hi (unat off) bs V"
      using overwritten_trans [OF W(2), of "drop (unat m) bs" V] 4(6) T3(2) lm om by (simp add: off_div)
    moreover have "card ({?a} \<union> B) \<le> nblk (unat off) (unat n - unat tot)"
      using card_insert_le_m1 4(3,4) nb om le(3) by (simp add: card_insert_if)
    ultimately show ?thesis using step 4 tx_to_trans [OF 3 4(2)] by (auto simp: algebra_simps)
  qed
qed

lemma readi_local:
  fixes s :: "('z) fs_state_scheme"
  assumes "tx p s" and "i_dev (itable s ip) = log_dev (log_st s)" and nov: "unat off + unat n < 2 ^ 32"
    and ok: "file_ok start (txview s) (itable s ip) ib hi" and size: "unat (i_size (itable s ip)) \<le> hi"
  defines "e \<equiv> min (unat off + unat n) (unat (i_size (itable s ip)))"
  shows "\<exists>s'. readi ip DLocal off n s = Ok ((int (e - unat off), map (fbyte (txview s) (itable s ip)) [unat off..<e]), s')
     \<and> tx_to p s (txview s) {} s'"
proof (cases "i_size (itable s ip) < off")
  case True
  then have "e - unat off = 0" "e \<le> unat off" by (simp_all add: e_def word_less_nat_alt)
  then show ?thesis using True tx_to_refl [OF assms(1)] by (auto simp: readi_def)
next
  case False
  let ?n = "if i_size (itable s ip) < off + n then i_size (itable s ip) - off else n"
  have on: "unat (off + n) = unat off + unat n" by (rule unat_add_le) (use nov in simp)
  have le: "unat off \<le> unat (i_size (itable s ip))" using False by (simp add: word_le_nat_alt not_less)
  have un: "unat ?n = e - unat off" using le on False by (auto simp: e_def word_less_nat_alt unat_sub not_less word_le_nat_alt)
  have hi: "hi < 2 ^ 31" using ok by (simp add: file_ok_def)
  have b: "unat ?n < 2 ^ 31" "unat off + (unat ?n - unat (0 :: uint32)) \<le> hi" using size hi le un by (auto simp: e_def)
  have r: "readi ip DLocal off n s = readi_loop ip DLocal off 0 ?n [] s"
    using False on by (simp add: readi_def Let_def word_less_nat_alt)
  obtain s' where s': "readi_loop ip DLocal off 0 ?n [] s =
      Ok ((int (e - unat off), map (\<lambda>k. fbyte (txview s) (itable s ip) (unat off + k)) [0..<e - unat off]), s')"
    "tx_to p s (txview s) {} s'"
    using readi_loop_local [OF assms(1,2) _ b(1) ok b(2), of "[]"] unfolding un by auto
  have "map (\<lambda>k. fbyte (txview s) (itable s ip) (unat off + k)) [0..<e - unat off] = map (fbyte (txview s) (itable s ip)) [unat off..<e]"
    by (rule nth_equalityI) simp_all
  then show ?thesis using r s' by auto
qed

lemma writei_local:
  fixes s :: "('z) fs_state_scheme"
  assumes "tx p s" and dev: "i_dev (itable s ip) = log_dev (log_st s)" and len: "length bs = unat n" "unat n < 2 ^ 31"
    and ok: "file_ok (log_start (log_st s)) (txview s) (itable s ip) (iblk ip s) hi" and hi: "unat off + unat n \<le> hi"
    and size: "off \<le> i_size (itable s ip)" and log: "may_log s (nblk (unat off) (unat n) + 1)"
    and ib: "\<not> in_log (log_start (log_st s)) (iblk ip s)"
  defines "i \<equiv> (itable s ip)\<lparr>i_size := max (i_size (itable s ip)) (off + n)\<rparr>"
  obtains s' V where "writei ip (SLocal bs) off n s = Ok (int (unat n), s')" "tx p s'" "itable s' = (itable s)(ip := i)"
    "log_dev (log_st s') = log_dev (log_st s)" "overwritten (txview s) (itable s ip) hi (unat off) bs V"
    "file_ok (log_start (log_st s)) V (itable s ip) (iblk ip s) hi" "txview s' = V(iblk ip s := put_dinode (V (iblk ip s)) (ioff ip s) i)"
proof -
  have on: "unat (off + n) = unat off + unat n" by (rule unat_add_le) (use ok hi in \<open>simp add: file_ok_def\<close>)
  have guards: "\<not> off > i_size (itable s ip)" "\<not> off + n < off" "\<not> off + n > of_nat (MAXFILE * BSIZE)"
    using size on ok hi by (simp_all add: word_less_nat_alt word_le_nat_alt not_less file_ok_def)
  obtain s1 V B where 1: "writei_loop ip (SLocal bs) off 0 n s = Ok ((n, off + n), s1)" "tx_to p s V B s1" "finite B"
    "card B \<le> nblk (unat off) (unat n)" "file_ok (log_start (log_st s)) V (itable s ip) (iblk ip s) hi"
    "overwritten (txview s) (itable s ip) hi (unat off) bs V"
    using writei_loop_local [OF assms(1) dev _ ok, of 0 n off bs] hi len(1) log by (auto simp: may_log_def)
  note T1 = tx_toD [OF 1(2)] and S1 = more_fs [OF tx_toD(7) [OF 1(2)]]
  define s2 where "s2 = upd_ino ip (\<lambda>_. i) s1"
  have u: "(if off + n > i_size (itable s1 ip) then upd_ino ip (\<lambda>i. i\<lparr>i_size := off + n\<rparr>) s1 else s1) = s2"
    using S1 by (simp add: s2_def i_def upd_ino_def max_def)
  have "may_log s1 1" using log 1(2,3,4) by (intro may_log_after [of s 1 "nblk (unat off) (unat n)"]) (simp_all add: add.commute)
  then have ml: "may_log s2 1" by (simp add: s2_def may_log_def logged_def)
  have b: "iblk ip s2 = iblk ip s" "ioff ip s2 = ioff ip s" "itable s2 ip = i" "itable s2 = (itable s)(ip := i)"
    using S1 by (simp_all add: s2_def iblk_def ioff_def upd_ino_def i_def)
  have tx2: "tx p s2" using T1(1) by (simp add: s2_def)
  obtain s3 where 3: "iupdate ip s2 = Ok s3"
    "tx_to p s2 ((txview s2)(iblk ip s := put_dinode (txview s2 (iblk ip s)) (ioff ip s) i)) {iblk ip s} s3"
    using iupdate_tx [OF tx2, of ip] ml ib dev T1(4,5) b by (auto simp: s2_def i_def)
  note T3 = tx_toD [OF 3(2)] and S3 = more_fs [OF tx_toD(7) [OF 3(2)]]
  have "txview s2 = V" using T1(2) by (simp add: s2_def)
  moreover have "writei ip (SLocal bs) off n s = Ok (int (unat n), s3)"
    using guards 1(1) u 3(1) sint_unat [OF len(2)] by (simp add: writei_def Let_def)
  ultimately show ?thesis using that [of s3 V] T3 S3 b 1(5,6) T1(4) by (simp add: s2_def)
qed

subsection \<open>Properties\<close>

text \<open>C21: on a file whose bytes are in allocated blocks, \<open>readi\<close> returns exactly the bytes of the file from
  \<open>off\<close> to \<open>off + n\<close> or to the end of the file, whichever comes first, and their number. It reads through
  the direct and the indirect blocks, and changes neither a block nor the inode table.\<close>

theorem readi_reads:
  fixes s :: "('z) fs_state_scheme"
  assumes "tx p s" and "i_dev (itable s ip) = log_dev (log_st s)" and "unat off + unat n < 2 ^ 32"
    and "file_ok start (txview s) (itable s ip) ib hi" and "unat (i_size (itable s ip)) \<le> hi"
  shows "\<exists>s'. readi ip DLocal off n s =
       (let e = min (unat off + unat n) (unat (i_size (itable s ip)))
        in Ok ((int (e - unat off), map (fbyte (txview s) (itable s ip)) [unat off..<e]), s'))
     \<and> tx p s' \<and> txview s' = txview s \<and> itable s' = itable s"
proof -
  obtain s' where "readi ip DLocal off n s = (let e = min (unat off + unat n) (unat (i_size (itable s ip)))
        in Ok ((int (e - unat off), map (fbyte (txview s) (itable s ip)) [unat off..<e]), s'))" and t: "tx_to p s (txview s) {} s'"
    using readi_local [OF assms] by (auto simp: Let_def)
  then show ?thesis using tx_toD [OF t] more_fs [OF tx_toD(7) [OF t]] by blast
qed

lemma demo_file:
  "itable (binit demo_fs) 0 = itable demo_fs 0" "iblk 0 (binit demo_fs) = 32"
  "file_ok 2 demo_disk (itable demo_fs 0) 32 1024" "i_dev (itable demo_fs 0) = 1" "i_size (itable demo_fs 0) = 5"
proof -
  show "itable (binit demo_fs) 0 = itable demo_fs 0" "i_dev (itable demo_fs 0) = 1" "i_size (itable demo_fs 0) = 5"
    by (simp_all add: demo_fs_tx demo_fs_sel)
  show "iblk 0 (binit demo_fs) = 32" by (simp add: iblk_def IBLOCK_def demo_fs_tx(4,5) demo_fs_sel)
  have "b * 1024 < 1024 \<longleftrightarrow> b = 0" for b :: nat by simp
  then show "file_ok 2 demo_disk (itable demo_fs 0) 32 1024"
    by (simp add: file_ok_def baddr_def demo_fs_sel in_log_def demo_disk_def inj_on_def ascii_def)
qed

theorem readi_reads_witness:
  "\<exists>s' :: fs_state. readi 0 DLocal 1 10 (binit demo_fs) = Ok ((4, ascii ''ello''), s')"
proof -
  have "map (fbyte demo_disk (itable demo_fs 0)) [1..<5] = ascii ''ello''"
    by (simp add: fbyte_def baddr_def demo_fs_sel demo_disk_def upt_rec ascii_def)
  then show ?thesis
    using readi_reads [OF demo_fs_tx(1), of 0 1 10 2 32 1024] demo_file
    by (auto simp: demo_fs_tx(3-5) demo_fs_view demo_log_sel Let_def)
qed

text \<open>C2: \<open>writei\<close> followed by \<open>readi\<close>. Writing \<open>n\<close> bytes at \<open>off\<close> (inside the file, or at its end, which the
  write then moves) into allocated blocks returns \<open>n\<close>; afterwards \<open>readi\<close> of any range of the file finds
  the bytes written in \<open>off\<close> to \<open>off + n\<close> and the old bytes elsewhere. The inode keeps everything but
  its size, and no block changes but those of the file and the one that holds the inode.\<close>

theorem writei_readi:
  fixes s :: "('z) fs_state_scheme"
  assumes "tx p s" and "i_dev (itable s ip) = log_dev (log_st s)" and "length bs = unat n" and "unat n < 2 ^ 31"
    and "file_ok (log_start (log_st s)) (txview s) (itable s ip) (iblk ip s) hi"
    and "unat off + unat n \<le> hi" and "off \<le> i_size (itable s ip)" and "unat (i_size (itable s ip)) \<le> hi"
    and "may_log s (nblk (unat off) (unat n) + 1)" and "\<not> in_log (log_start (log_st s)) (iblk ip s)"
  shows "\<exists>s'. writei ip (SLocal bs) off n s = Ok (int (unat n), s') \<and> tx p s'
     \<and> itable s' = (itable s)(ip := (itable s ip)\<lparr>i_size := max (i_size (itable s ip)) (off + n)\<rparr>)
     \<and> (\<forall>blk. blk \<noteq> iblk ip s \<longrightarrow> (\<forall>k < hi. blk \<noteq> baddr (txview s) (itable s ip) (k div 1024)) \<longrightarrow> txview s' blk = txview s blk)
     \<and> (\<forall>a m. unat a + unat m \<le> max (unat (i_size (itable s ip))) (unat off + unat n) \<longrightarrow>
          (\<exists>s''. readi ip DLocal a m s' = Ok ((int (unat m), map (\<lambda>k. if unat off \<le> k \<and> k < unat off + unat n
             then bs ! (k - unat off) else fbyte (txview s) (itable s ip) k) [unat a..<unat a + unat m]), s'')))"
proof -
  let ?i = "(itable s ip)\<lparr>i_size := max (i_size (itable s ip)) (off + n)\<rparr>" and ?V = "txview s" and ?ib = "iblk ip s"
  have on: "unat (off + n) = unat off + unat n" by (rule unat_add_le) (use assms(5,6) in \<open>simp add: file_ok_def\<close>)
  then have sz: "unat (i_size ?i) = max (unat (i_size (itable s ip))) (unat off + unat n)"
    by (simp add: max_def word_le_nat_alt)
  obtain s' W where w: "writei ip (SLocal bs) off n s = Ok (int (unat n), s')" "tx p s'" "itable s' = (itable s)(ip := ?i)"
    "log_dev (log_st s') = log_dev (log_st s)" "overwritten ?V (itable s ip) hi (unat off) bs W"
    "file_ok (log_start (log_st s)) W (itable s ip) ?ib hi" "txview s' = W(?ib := put_dinode (W ?ib) (ioff ip s) ?i)"
    by (rule writei_local [OF assms(1-7,9,10)])
  have nib: "?ib \<noteq> i_addrs (itable s ip) ! NDIRECT" using w(6) by (auto simp: file_ok_def)
  have "\<And>k. k < hi \<Longrightarrow> ?ib \<noteq> baddr W (itable s ip) (k div 1024)" by (rule file_okD(4) [OF w(6), symmetric])
  then have O: "k < hi \<Longrightarrow> fbyte (W(?ib := y)) (itable s ip) k = fbyte W (itable s ip) k"
      "file_ok (log_start (log_st s)) (W(?ib := y)) (itable s ip) ?ib hi" for k y
    using other_block [OF nib, of hi W] w(6) by blast+
  have fb: "fbyte (txview s') ?i k = (if unat off \<le> k \<and> k < unat off + unat n then bs ! (k - unat off) else fbyte ?V (itable s ip) k)"
    if "k < hi" for k using O(1) [OF that] w(5,7) that assms(3) by (simp add: overwritten_def)
  have ok: "file_ok (log_start (log_st s)) (txview s') (itable s' ip) ?ib hi" using O(2) w(3,7) by simp
  have rd: "\<exists>s''. readi ip DLocal a m s' = Ok ((int (unat m), map (\<lambda>k. if unat off \<le> k \<and> k < unat off + unat n
       then bs ! (k - unat off) else fbyte ?V (itable s ip) k) [unat a..<unat a + unat m]), s'')"
    if am: "unat a + unat m \<le> max (unat (i_size (itable s ip))) (unat off + unat n)" for a m
  proof -
    have le: "unat a + unat m \<le> hi" using am assms(6,8) by auto
    have "hi < 2 ^ 32" using assms(5) by (simp add: file_ok_def)
    then obtain s'' where "readi ip DLocal a m s' = Ok ((int (unat m), map (fbyte (txview s') ?i) [unat a..<unat a + unat m]), s'')"
      using readi_local [OF w(2) _ _ ok, of a m] sz am le w(3,4) assms(2,6,8) by (auto simp: min_absorb1)
    moreover have "map (fbyte (txview s') ?i) [unat a..<unat a + unat m] = map (\<lambda>k. if unat off \<le> k \<and> k < unat off + unat n
       then bs ! (k - unat off) else fbyte ?V (itable s ip) k) [unat a..<unat a + unat m]"
      using fb le by (intro map_cong refl) simp
    ultimately show ?thesis by auto
  qed
  show ?thesis using w(1-3,5,7) rd by (intro exI [of _ s']) (auto simp: overwritten_def)
qed

theorem writei_readi_witness:
  "\<exists>s' :: fs_state. writei 0 (SLocal (ascii ''p me'')) 3 4 (binit demo_fs) = Ok (4, s') \<and>
     (\<exists>s''. readi 0 DLocal 0 7 s' = Ok ((7, ascii ''help me''), s''))"
proof -
  have r: "map (\<lambda>k. if 3 \<le> k \<and> k < 7 then ascii ''p me'' ! (k - 3) else fbyte demo_disk (itable demo_fs 0) k) [0..<7] = ascii ''help me''"
    by (simp add: fbyte_def baddr_def demo_fs_sel demo_disk_def upt_rec ascii_def)
  have "may_log (binit demo_fs) (nblk 3 4 + 1)" by (intro demo_fs_may_log) (simp add: nblk_def)
  then obtain s' :: fs_state where s': "writei 0 (SLocal (ascii ''p me'')) 3 4 (binit demo_fs) = Ok (4, s')"
    "\<And>a m :: uint32. unat a + unat m \<le> 7 \<Longrightarrow> \<exists>s''. readi 0 DLocal a m s' = Ok ((int (unat m),
        map (\<lambda>k. if 3 \<le> k \<and> k < 7 then ascii ''p me'' ! (k - 3) else fbyte demo_disk (itable demo_fs 0) k) [unat a..<unat a + unat m]), s'')"
    using writei_readi [OF demo_fs_tx(1), of 0 "ascii ''p me''" 4 1024 3] demo_file
    by (auto simp: demo_fs_tx(3-5) demo_fs_view demo_log_sel in_log_def ascii_def cong: if_cong)
  show ?thesis using s'(1) s'(2) [of 0 7] r by auto
qed

end
