(* ===== verification/Mkfs.thy ===== *)
theory Mkfs
  imports Fs_File
begin

text \<open>
  mkfs/mkfs.c, which writes the disk image the kernel starts from. The image file is a map from sectors to
  their contents, empty after \<open>O_TRUNC\<close>; \<open>die\<close>, a failed assertion and the usage message are the outcome
  \<open>Panic\<close>. A \<open>struct dinode\<close> is its 64 bytes, a \<open>struct dirent\<close> its 16 bytes. What the host does is the
  record \<open>host\<close>: whether the image can be created, whether a sector can be written and read, and what the
  reads of an input file return (None when it cannot be opened). The messages on standard output are left out.
\<close>

subsection \<open>Sectors\<close>

record host =
  h_create :: "byte list \<Rightarrow> bool"
  h_sector :: "uint32 \<Rightarrow> bool"
  h_file :: "byte list \<Rightarrow> byte list list option"

record mkfs_state =
  mk_img :: "uint32 \<Rightarrow> byte list option"
  mk_sb :: superblock
  mk_freeinode :: uint32
  mk_freeblock :: uint32

type_synonym 'a mkfs = "(mkfs_state, 'a) res"

abbreviation (input) FSSIZE :: nat where "FSSIZE \<equiv> 2000"
abbreviation (input) NINODES :: nat where "NINODES \<equiv> 200"
abbreviation (input) mk_nlog :: nat where "mk_nlog \<equiv> 30"
abbreviation (input) mk_ninodeblocks :: nat where "mk_ninodeblocks \<equiv> NINODES div IPB + 1"
abbreviation (input) mk_nbitmap :: nat where "mk_nbitmap \<equiv> FSSIZE div (BSIZE * 8) + 1"
abbreviation (input) mk_nmeta :: nat where "mk_nmeta \<equiv> 2 + mk_nlog + mk_ninodeblocks + mk_nbitmap"

text \<open>The conversions to the byte order of the target, on a little-endian host.\<close>

definition xshort :: "uint16 \<Rightarrow> uint16" where
  "xshort x = le_word [ucast x, ucast (drop_bit 8 x)]"

definition xint :: "uint32 \<Rightarrow> uint32" where
  "xint x = le_word [ucast x, ucast (drop_bit 8 x), ucast (drop_bit 16 x), ucast (drop_bit 24 x)]"

text \<open>The product \<open>sec * BSIZE\<close> is computed in 32 bits.\<close>

definition sector :: "uint32 \<Rightarrow> uint32" where
  "sector sec = (sec * of_nat BSIZE) div of_nat BSIZE"

definition wsect :: "host \<Rightarrow> uint32 \<Rightarrow> byte list \<Rightarrow> mkfs_state \<Rightarrow> mkfs_state mkfs" where
  "wsect h sec buf m =
     (if h_sector h (sector sec) then Ok (m\<lparr>mk_img := (mk_img m)(sector sec \<mapsto> buf)\<rparr>) else Panic ''write'')"

definition rsect :: "host \<Rightarrow> uint32 \<Rightarrow> mkfs_state \<Rightarrow> byte list mkfs" where
  "rsect h sec m =
     (if h_sector h (sector sec) then (case mk_img m (sector sec) of Some buf \<Rightarrow> Ok buf | None \<Rightarrow> Panic ''read'')
      else Panic ''read'')"

subsection \<open>Inodes\<close>

definition winode :: "host \<Rightarrow> uint32 \<Rightarrow> byte list \<Rightarrow> mkfs_state \<Rightarrow> mkfs_state mkfs" where
  "winode h inum din m =
     (let bn = IBLOCK inum (mk_sb m)
      in rbind (rsect h bn m) (\<lambda>buf. wsect h bn (blit buf (dinode_off inum) din) m))"

definition rinode :: "host \<Rightarrow> uint32 \<Rightarrow> mkfs_state \<Rightarrow> byte list mkfs" where
  "rinode h inum m = rbind (rsect h (IBLOCK inum (mk_sb m)) m) (\<lambda>buf. Ok (slice buf (dinode_off inum) 64))"

definition mk_ialloc :: "host \<Rightarrow> uint16 \<Rightarrow> mkfs_state \<Rightarrow> (uint32 \<times> mkfs_state) mkfs" where
  "mk_ialloc h type m =
     (let inum = mk_freeinode m;
          m = m\<lparr>mk_freeinode := inum + 1\<rparr>;
          din = put16 (replicate 64 0) 0 (xshort type);
          din = put16 din 6 (xshort 1);
          din = put32 din 8 (xint 0)
      in rbind (winode h inum din m) (\<lambda>m. Ok (inum, m)))"

text \<open>The fields of the inode that \<open>iappend\<close> uses.\<close>

definition din_size :: "byte list \<Rightarrow> uint32" where
  "din_size din = xint (get32 din 8)"

definition din_addr :: "byte list \<Rightarrow> nat \<Rightarrow> uint32" where
  "din_addr din k = xint (get32 din (12 + 4 * k))"

definition set_addr :: "byte list \<Rightarrow> nat \<Rightarrow> uint32 \<Rightarrow> byte list" where
  "set_addr din k a = put32 din (12 + 4 * k) (xint a)"

text \<open>The block of the image for the block \<open>fbn\<close> of the file, allocated when there is none.\<close>

definition take_block :: "mkfs_state \<Rightarrow> uint32 \<times> mkfs_state" where
  "take_block m = (mk_freeblock m, m\<lparr>mk_freeblock := mk_freeblock m + 1\<rparr>)"

definition iappend_indirect :: "host \<Rightarrow> nat \<Rightarrow> byte list \<Rightarrow> mkfs_state \<Rightarrow> (uint32 \<times> byte list \<times> mkfs_state) mkfs" where
  "iappend_indirect h fbn din m =
     rbind (rsect h (din_addr din NDIRECT) m) (\<lambda>indirect.
     if get32 indirect (4 * (fbn - NDIRECT)) = 0 then
       (let (b, m) = take_block m;
            indirect = put32 indirect (4 * (fbn - NDIRECT)) (xint b)
        in rbind (wsect h (din_addr din NDIRECT) indirect m) (\<lambda>m.
           Ok (xint (get32 indirect (4 * (fbn - NDIRECT))), din, m)))
     else Ok (xint (get32 indirect (4 * (fbn - NDIRECT))), din, m))"

definition iappend_block :: "host \<Rightarrow> nat \<Rightarrow> byte list \<Rightarrow> mkfs_state \<Rightarrow> (uint32 \<times> byte list \<times> mkfs_state) mkfs" where
  "iappend_block h fbn din m =
     (if fbn < NDIRECT then
        (let (din, m) = (if din_addr din fbn = 0 then let (b, m) = take_block m in (set_addr din fbn b, m) else (din, m))
         in Ok (din_addr din fbn, din, m))
      else
        (let (din, m) = (if din_addr din NDIRECT = 0 then let (b, m) = take_block m in (set_addr din NDIRECT b, m) else (din, m))
         in iappend_indirect h fbn din m))"

definition iappend_room :: "byte list \<Rightarrow> uint32 \<Rightarrow> nat" where
  "iappend_room p off = min (length p) (unat ((off div of_nat BSIZE + 1) * of_nat BSIZE - off))"

lemma iappend_room_pos:
  assumes "off div 1024 < (268 :: uint32)" "p \<noteq> []"
  shows "0 < iappend_room p off" "iappend_room p off = min (length p) (1024 - unat off mod 1024)"
proof -
  have q: "unat off div 1024 < 268" using assms(1) by (simp add: word_less_nat_alt unat_div)
  have o: "unat off = unat off div 1024 * 1024 + unat off mod 1024" by simp
  have g: "a = b * 1024 + c \<Longrightarrow> (b + 1) * 1024 - a = 1024 - c" for a b c :: nat by simp
  have "unat ((off div 1024 + 1) * 1024) = (unat off div 1024 + 1) * 1024"
    using q by (simp add: unat_word_ariths unat_div)
  moreover have "off \<le> (off div 1024 + 1) * 1024"
    unfolding word_le_nat_alt calculation by (subst o) (simp add: less_imp_le)
  ultimately have r: "unat ((off div 1024 + 1) * 1024 - off) = 1024 - unat off mod 1024"
    using g [OF o] by (simp only: unat_sub)
  then show "iappend_room p off = min (length p) (1024 - unat off mod 1024)"
    by (simp add: iappend_room_def)
  then show "0 < iappend_room p off" using assms(2) by simp
qed

function iappend_loop :: "host \<Rightarrow> byte list \<Rightarrow> uint32 \<Rightarrow> byte list \<Rightarrow> mkfs_state \<Rightarrow> (uint32 \<times> byte list \<times> mkfs_state) mkfs" where
  "iappend_loop h p off din m =
     (if p = [] then Ok (off, din, m)
      else
        (let fbn = off div of_nat BSIZE
         in if \<not> fbn < of_nat MAXFILE then Panic ''assert''
            else rbind (iappend_block h (unat fbn) din m) (\<lambda>(x, din, m).
              let n1 = iappend_room p off
              in rbind (rsect h x m) (\<lambda>buf.
                 rbind (wsect h x (blit buf (unat (off - fbn * of_nat BSIZE)) (take n1 p)) m) (\<lambda>m.
                 iappend_loop h (drop n1 p) (off + of_nat n1) din m)))))"
  by pat_completeness auto
termination
  by (relation "measure (\<lambda>(h, p, off, din, m). length p)") (use iappend_room_pos in \<open>auto simp: not_le\<close>)

declare iappend_loop.simps [simp del]

definition iappend :: "host \<Rightarrow> uint32 \<Rightarrow> byte list \<Rightarrow> mkfs_state \<Rightarrow> mkfs_state mkfs" where
  "iappend h inum p m =
     rbind (rinode h inum m) (\<lambda>din.
     rbind (iappend_loop h p (din_size din) din m) (\<lambda>(off, din, m).
     winode h inum (put32 din 8 (xint off)) m))"

subsection \<open>The bitmap\<close>

definition mk_mark :: "byte list \<Rightarrow> nat \<Rightarrow> byte list" where
  "mk_mark buf i = buf[i div 8 := buf ! (i div 8) OR push_bit (i mod 8) 1]"

definition mk_balloc :: "host \<Rightarrow> uint32 \<Rightarrow> mkfs_state \<Rightarrow> mkfs_state mkfs" where
  "mk_balloc h used m =
     (if \<not> sint used < int (BSIZE * 8) then Panic ''assert''
      else wsect h (sb_bmapstart (mk_sb m)) (foldl mk_mark (replicate BSIZE 0) [0..<nat (sint used)]) m)"

subsection \<open>The program\<close>

definition mkfs_sb :: superblock where
  "mkfs_sb = \<lparr>sb_magic = FSMAGIC, sb_size = xint (of_nat FSSIZE), sb_nblocks = xint (of_nat (FSSIZE - mk_nmeta)),
     sb_ninodes = xint (of_nat NINODES), sb_nlog = xint (of_nat mk_nlog), sb_logstart = xint 2,
     sb_inodestart = xint (of_nat (2 + mk_nlog)), sb_bmapstart = xint (of_nat (2 + mk_nlog + mk_ninodeblocks))\<rparr>"

definition sb_bytes :: "superblock \<Rightarrow> byte list" where
  "sb_bytes b = concat (map (le_bytes 4) [sb_magic b, sb_size b, sb_nblocks b, sb_ninodes b, sb_nlog b, sb_logstart b,
     sb_inodestart b, sb_bmapstart b])"

fun write_zeroes :: "host \<Rightarrow> nat list \<Rightarrow> mkfs_state \<Rightarrow> mkfs_state mkfs" where
  "write_zeroes h [] m = Ok m"
| "write_zeroes h (i # is) m = rbind (wsect h (of_nat i) (replicate BSIZE 0) m) (write_zeroes h is)"

text \<open>A directory entry whose name is stored by \<open>strcpy\<close>, with its terminator, or by \<open>strncpy\<close>.\<close>

definition mk_dirent :: "uint32 \<Rightarrow> byte list \<Rightarrow> byte list" where
  "mk_dirent inum name = blit (put16 (replicate 16 0) 0 (xshort (ucast inum))) 2 name"

fun append_reads :: "host \<Rightarrow> uint32 \<Rightarrow> byte list list \<Rightarrow> mkfs_state \<Rightarrow> mkfs_state mkfs" where
  "append_reads h inum [] m = Ok m"
| "append_reads h inum (cc # ccs) m = (if cc = [] then Ok m else rbind (iappend h inum cc m) (append_reads h inum ccs))"

definition mk_shortname :: "byte list \<Rightarrow> byte list" where
  "mk_shortname path = (if take 5 path = ascii ''user/'' then drop 5 path else path)"

definition skip_underscore :: "byte list \<Rightarrow> byte list" where
  "skip_underscore nm = (if nm \<noteq> [] \<and> hd nm = 95 then tl nm else nm)"

definition mkfs_file :: "host \<Rightarrow> uint32 \<Rightarrow> byte list \<Rightarrow> mkfs_state \<Rightarrow> mkfs_state mkfs" where
  "mkfs_file h rootino path m =
     (let shortname = mk_shortname path
      in if 47 \<in> set shortname then Panic ''assert''
         else case h_file h path of
           None \<Rightarrow> Panic ''open''
         | Some reads \<Rightarrow>
             rbind (mk_ialloc h 2 m) (\<lambda>(inum, m).
             rbind (iappend h rootino (mk_dirent inum (dirname14 (skip_underscore shortname))) m) (\<lambda>m.
             append_reads h inum reads m)))"

fun mkfs_files :: "host \<Rightarrow> uint32 \<Rightarrow> byte list list \<Rightarrow> mkfs_state \<Rightarrow> mkfs_state mkfs" where
  "mkfs_files h rootino [] m = Ok m"
| "mkfs_files h rootino (path # paths) m = rbind (mkfs_file h rootino path m) (mkfs_files h rootino paths)"

definition fix_root_size :: "host \<Rightarrow> uint32 \<Rightarrow> mkfs_state \<Rightarrow> mkfs_state mkfs" where
  "fix_root_size h rootino m =
     rbind (rinode h rootino m) (\<lambda>din.
     let off = din_size din;
         off = (off div of_nat BSIZE + 1) * of_nat BSIZE
     in winode h rootino (put32 din 8 (xint off)) m)"

definition mkfs_empty :: mkfs_state where
  "mkfs_empty = \<lparr>mk_img = Map.empty, mk_sb = mkfs_sb, mk_freeinode = 1, mk_freeblock = of_nat mk_nmeta\<rparr>"

definition mkfs :: "host \<Rightarrow> byte list list \<Rightarrow> mkfs_state mkfs" where
  "mkfs h argv =
     (if length argv < 2 then Panic ''usage''
      else if \<not> h_create h (argv ! 1) then Panic ''open''
      else
        rbind (write_zeroes h [0..<FSSIZE] mkfs_empty) (\<lambda>m.
        rbind (wsect h 1 (blit (replicate BSIZE 0) 0 (sb_bytes (mk_sb m))) m) (\<lambda>m.
        rbind (mk_ialloc h 1 m) (\<lambda>(rootino, m).
        if rootino \<noteq> ROOTINO then Panic ''assert''
        else
          rbind (iappend h rootino (mk_dirent rootino (ascii ''.'' @ [0])) m) (\<lambda>m.
          rbind (iappend h rootino (mk_dirent rootino (ascii ''..'' @ [0])) m) (\<lambda>m.
          rbind (mkfs_files h rootino (drop 2 argv) m) (\<lambda>m.
          rbind (fix_root_size h rootino m) (\<lambda>m.
          mk_balloc h (mk_freeblock m) m))))))))"

end
