(* ===== verification/Mkfs_Image.thy ===== *)
theory Mkfs_Image
  imports Mkfs
begin

text \<open>
  The image mkfs writes, as the kernel reads it. \<open>dblk\<close> is the block of the image that holds a block of a
  file. Every block that mkfs has handed out belongs to one place: \<open>own\<close> gives for a block the inode and the
  block of the file it holds (268 for the indirect block), so that appending to one file leaves the others
  alone. \<open>mapped\<close> says that the first \<open>M\<close> blocks of a file are there and no others, \<open>holds\<close> that they hold
  the contents followed by zeroes.
\<close>

lemma xint_id [simp]: "xint x = x"
proof -
  have "xint x = le_word (le_bytes 4 x)" by (simp add: xint_def numeral_eq_Suc drop_bit_drop_bit)
  then show ?thesis by simp
qed

lemma xshort_id [simp]: "xshort x = x"
proof -
  have "xshort x = le_word (le_bytes 2 x)" by (simp add: xshort_def numeral_eq_Suc)
  then show ?thesis by simp
qed

lemma get32_put32_cell:
  "i \<noteq> j \<Longrightarrow> a + 4 * i + 4 \<le> length xs \<Longrightarrow> a + 4 * j + 4 \<le> length xs \<Longrightarrow> get32 (put32 xs (a + 4 * i) w) (a + 4 * j) = get32 xs (a + 4 * j)"
  by (rule get32_put32_other; linarith)

lemmas get32_put32_cells = get32_put32_cell get32_put32_cell [of _ _ 0, simplified]

subsection \<open>Blocks of one file\<close>

abbreviation dind :: "byte list \<Rightarrow> uint32" where
  "dind d \<equiv> get32 d 60"

definition dblk :: "(uint32 \<Rightarrow> byte list) \<Rightarrow> byte list \<Rightarrow> nat \<Rightarrow> uint32" where
  "dblk V d bn = (if bn < NDIRECT then get32 d (12 + 4 * bn)
     else if dind d = 0 then 0 else get32 (V (dind d)) (4 * (bn - NDIRECT)))"

type_synonym owner = "uint32 \<Rightarrow> (nat \<times> nat) option"

definition mapped :: "(uint32 \<Rightarrow> byte list) \<Rightarrow> byte list \<Rightarrow> nat \<Rightarrow> owner \<Rightarrow> nat \<Rightarrow> bool" where
  "mapped V d M own j \<longleftrightarrow> length d = 64 \<and> M \<le> MAXFILE
     \<and> (\<forall>bn < MAXFILE. if bn < M then own (dblk V d bn) = Some (j, bn) else dblk V d bn = 0)
     \<and> (dind d \<noteq> 0 \<longrightarrow> own (dind d) = Some (j, MAXFILE) \<and> length (V (dind d)) = BSIZE) \<and> (NDIRECT < M \<longrightarrow> dind d \<noteq> 0)"

definition holds :: "(uint32 \<Rightarrow> byte list) \<Rightarrow> byte list \<Rightarrow> nat \<Rightarrow> byte list \<Rightarrow> bool" where
  "holds V d M c \<longleftrightarrow> length c \<le> M * BSIZE
     \<and> (\<forall>k < M * BSIZE. V (dblk V d (k div BSIZE)) ! (k mod BSIZE) = (if k < length c then c ! k else 0))"

lemma mappedD:
  assumes "mapped V d M own j"
  shows "length d = 64" "M \<le> MAXFILE" "bn < M \<Longrightarrow> own (dblk V d bn) = Some (j, bn)"
    "M \<le> bn \<Longrightarrow> bn < MAXFILE \<Longrightarrow> dblk V d bn = 0" "dind d \<noteq> 0 \<Longrightarrow> own (dind d) = Some (j, MAXFILE)"
    "dind d \<noteq> 0 \<Longrightarrow> length (V (dind d)) = BSIZE" "NDIRECT < M \<Longrightarrow> dind d \<noteq> 0"
  using assms by (auto simp: mapped_def split: if_splits)

lemma block_lt: "k < M * 1024 \<Longrightarrow> k div 1024 < (M :: nat)"
  by (simp add: less_mult_imp_div_less)

text \<open>A change outside the blocks of the file does not change the file.\<close>

lemma dblk_frame:
  assumes "mapped V d M own j" "\<And>a s. own a = Some (j, s) \<Longrightarrow> V' a = V a"
  shows "dblk V' d = dblk V d"
  using mappedD(5) [OF assms(1)] assms(2) by (auto simp: dblk_def fun_eq_iff)

lemma mapped_frame:
  assumes m: "mapped V d M own j" and eq: "\<And>a s. own a = Some (j, s) \<Longrightarrow> V' a = V a"
    and ext: "\<And>a x. own a = Some x \<Longrightarrow> own' a = Some x"
  shows "mapped V' d M own' j" "holds V d M c \<Longrightarrow> holds V' d M c"
proof -
  have b: "dblk V' d = dblk V d" by (rule dblk_frame [OF m eq])
  show "mapped V' d M own' j" using m eq ext unfolding mapped_def b by auto
  show "holds V' d M c" if "holds V d M c"
    using that mappedD(3) [OF m] eq block_lt unfolding holds_def b by auto
qed

text \<open>Writing behind the contents, in a block that is there.\<close>

lemma dblk_upd: "dind d \<noteq> x \<or> dind d = 0 \<Longrightarrow> dblk (V(x := y)) d = dblk V d"
  by (auto simp: dblk_def fun_eq_iff)

lemma mapped_write:
  assumes m: "mapped V d M own j" and q: "q < M"
  shows "dblk (V(dblk V d q := y)) d = dblk V d" "mapped (V(dblk V d q := y)) d M own j"
proof -
  have "q < MAXFILE" using q mappedD(2) [OF m] by simp
  then have i: "dind d \<noteq> dblk V d q \<or> dind d = 0" using mappedD(5) [OF m] mappedD(3) [OF m q] by (cases "dind d = 0") auto
  then show b: "dblk (V(dblk V d q := y)) d = dblk V d" by (rule dblk_upd)
  show "mapped (V(dblk V d q := y)) d M own j" using m i unfolding mapped_def b by auto
qed

lemma holds_write:
  assumes m: "mapped V d M own j" and h: "holds V d M c" and L: "length c = q * 1024 + r" and q: "q < M"
    and len: "length (V (dblk V d q)) = 1024" and n: "r + length p \<le> 1024"
  shows "holds (V(dblk V d q := blit (V (dblk V d q)) r p)) d M (c @ p)"
proof -
  define x where "x = dblk V d q"
  define V' where "V' = V(x := blit (V x) r p)"
  have ox: "own x = Some (j, q)" using mappedD(3) [OF m q] by (simp add: x_def)
  have b: "dblk V' d = dblk V d" unfolding V'_def x_def by (rule mapped_write(1) [OF m q])
  have "(q + 1) * 1024 \<le> M * 1024" using q by (intro mult_le_mono1) simp
  then have le: "length (c @ p) \<le> M * 1024" using L n by simp
  have "V' (dblk V d i) ! e = (if i * 1024 + e < length (c @ p) then (c @ p) ! (i * 1024 + e) else 0)"
    if i: "i < M" and e: "e < 1024" for i e
  proof -
    have "i * 1024 + e < M * 1024" using i e by (metis add.commute add_less_cancel_left less_le_trans mult_Suc mult_le_mono1 Suc_leI)
    then have old: "V (dblk V d i) ! e = (if i * 1024 + e < length c then c ! (i * 1024 + e) else 0)"
      using h e unfolding holds_def by (auto dest!: spec [of _ "i * 1024 + e"])
    show ?thesis
    proof (cases "i = q")
      case True
      have "V' x ! e = (if r \<le> e \<and> e < r + length p then p ! (e - r) else V x ! e)"
        using n len e by (simp add: V'_def x_def nth_blit)
      then show ?thesis using old True by (auto simp: x_def [symmetric] nth_append not_less L)
    next
      case False
      then have ne: "dblk V d i \<noteq> x" using ox mappedD(3) [OF m i] by auto
      have "i * 1024 + e < length c \<longleftrightarrow> i * 1024 + e < length (c @ p)"
      proof (cases "i < q")
        case True
        then have "(i + 1) * 1024 \<le> q * 1024" by (intro mult_le_mono1) simp
        then show ?thesis using e L by simp
      next
        case ge: False
        then have "(q + 1) * 1024 \<le> i * 1024" using False by (intro mult_le_mono1) simp
        then show ?thesis using L n by simp
      qed
      then show ?thesis using old ne by (auto simp: V'_def nth_append)
    qed
  qed
  from this [of "k div 1024" "k mod 1024" for k] show ?thesis
    using le block_lt unfolding holds_def x_def [symmetric] V'_def [symmetric] b by simp
qed

text \<open>The next block of the file is a new block, which is empty.\<close>

lemma grow:
  assumes m: "mapped V d M own j" and M: "M < MAXFILE" and F: "own F = None" "V' F = replicate 1024 0"
    and b: "\<And>bn. bn < MAXFILE \<Longrightarrow> dblk V' d' bn = (if bn = M then F else dblk V d bn)"
    and eq: "\<And>a s. own a = Some (j, s) \<Longrightarrow> s < MAXFILE \<Longrightarrow> V' a = V a"
    and d: "length d' = 64" "dind d' = dind d" "dind d \<noteq> 0 \<Longrightarrow> length (V' (dind d)) = 1024" "NDIRECT \<le> M \<Longrightarrow> dind d \<noteq> 0"
  shows "mapped V' d' (M + 1) (own(F \<mapsto> (j, M))) j" "holds V d M c \<Longrightarrow> holds V' d' (M + 1) c"
proof -
  have F': "dblk V d bn \<noteq> F" if "bn < M" for bn using mappedD(3) [OF m that] F(1) by auto
  have "dind d = F \<Longrightarrow> dind d = 0" using mappedD(5) [OF m] F(1) by fastforce
  then show "mapped V' d' (M + 1) (own(F \<mapsto> (j, M))) j"
    using mappedD [OF m] F' M d b unfolding mapped_def by (auto simp: less_Suc_eq)
  assume h: "holds V d M c"
  have "V' (dblk V' d' (k div 1024)) ! (k mod 1024) = (if k < length c then c ! k else 0)" if k: "k < (M + 1) * 1024" for k
  proof (cases "k div 1024 = M")
    case True
    then have "\<not> k < M * 1024" by (metis block_lt less_irrefl)
    then have "\<not> k < length c" using h by (simp add: holds_def)
    then show ?thesis using True F(2) b M by simp
  next
    case False
    then have lt: "k div 1024 < M" using block_lt [OF k] by simp
    then have "k < M * 1024" by (simp add: div_less_iff_less_mult)
    then show ?thesis using h lt b [of "k div 1024"] eq [OF mappedD(3) [OF m lt]] M by (simp add: holds_def)
  qed
  then show "holds V' d' (M + 1) c" using h by (simp add: holds_def)
qed

lemma grow_direct:
  assumes m: "mapped V d M own j" and M: "M < NDIRECT" and F: "own F = None" "V F = replicate 1024 0"
  shows "mapped V (set_addr d M F) (M + 1) (own(F \<mapsto> (j, M))) j" "holds V d M c \<Longrightarrow> holds V (set_addr d M F) (M + 1) c"
proof -
  have d: "length (set_addr d M F) = 64" "dind (set_addr d M F) = dind d"
    using mappedD(1) [OF m] M by (simp_all add: set_addr_def get32_put32_other)
  have b: "dblk V (set_addr d M F) bn = (if bn = M then F else dblk V d bn)" for bn
    using d mappedD(1) [OF m] M by (auto simp: dblk_def set_addr_def get32_put32_cells)
  show "mapped V (set_addr d M F) (M + 1) (own(F \<mapsto> (j, M))) j" "holds V d M c \<Longrightarrow> holds V (set_addr d M F) (M + 1) c"
    using grow [where V = V and V' = V and d' = "set_addr d M F", OF m _ F] M b d mappedD(6) [OF m] by auto
qed

lemma add_indirect:
  assumes m: "mapped V d NDIRECT own j" and z: "dind d = 0" and F: "own F = None" "V F = replicate 1024 0" "F \<noteq> 0"
  shows "mapped V (set_addr d NDIRECT F) NDIRECT (own(F \<mapsto> (j, MAXFILE))) j" "dind (set_addr d NDIRECT F) = F"
    "holds V d NDIRECT c \<Longrightarrow> holds V (set_addr d NDIRECT F) NDIRECT c"
proof -
  show d: "dind (set_addr d NDIRECT F) = F" using mappedD(1) [OF m] by (simp add: set_addr_def)
  have b: "dblk V (set_addr d NDIRECT F) bn = dblk V d bn" if "bn < MAXFILE" for bn
    using d F z mappedD(1) [OF m] that by (auto simp: dblk_def set_addr_def get32_put32_other)
  have F': "dblk V d bn \<noteq> F" if "bn < NDIRECT" for bn using mappedD(3) [OF m that] F(1) by auto
  show "mapped V (set_addr d NDIRECT F) NDIRECT (own(F \<mapsto> (j, MAXFILE))) j"
    using mappedD [OF m] F' F d b unfolding mapped_def by (auto simp: set_addr_def)
  show "holds V d NDIRECT c \<Longrightarrow> holds V (set_addr d NDIRECT F) NDIRECT c"
    using b block_lt [of _ NDIRECT] unfolding holds_def by fastforce
qed

lemma grow_indirect:
  assumes m: "mapped V d M own j" and M: "NDIRECT \<le> M" "M < MAXFILE" and z: "dind d \<noteq> 0"
    and F: "own F = None" "V F = replicate 1024 0"
  defines "V' \<equiv> V(dind d := put32 (V (dind d)) (4 * (M - NDIRECT)) F)"
  shows "mapped V' d (M + 1) (own(F \<mapsto> (j, M))) j" "holds V d M c \<Longrightarrow> holds V' d (M + 1) c"
proof -
  have l: "length (V (dind d)) = 1024" "length (V' (dind d)) = 1024"
    using mappedD(6) [OF m z] M by (simp_all add: V'_def)
  have b: "dblk V' d bn = (if bn = M then F else dblk V d bn)" if "bn < MAXFILE" for bn
    using z l M that by (auto simp: dblk_def V'_def get32_put32_cells)
  have "F \<noteq> dind d" using mappedD(5) [OF m z] F(1) by auto
  then have F': "V' F = replicate 1024 0" using F(2) by (simp add: V'_def)
  have "V' a = V a" if "own a = Some (j, s)" "s < MAXFILE" for a s
    using that mappedD(5) [OF m z] by (auto simp: V'_def)
  then show "mapped V' d (M + 1) (own(F \<mapsto> (j, M))) j" "holds V d M c \<Longrightarrow> holds V' d (M + 1) c"
    using grow [where V = V and V' = V' and d' = d, OF m M(2) F(1) F' b] mappedD(1) [OF m] z l(2) by auto
qed

subsection \<open>The image\<close>

abbreviation img :: "mkfs_state \<Rightarrow> uint32 \<Rightarrow> byte list" where
  "img m \<equiv> \<lambda>b. the (mk_img m b)"

abbreviation fb :: "mkfs_state \<Rightarrow> nat" where
  "fb m \<equiv> unat (mk_freeblock m)"

definition ind_blocks :: "byte list \<Rightarrow> nat" where
  "ind_blocks d = (if dind d \<noteq> 0 then 1 else 0)"

definition image_ok :: "mkfs_state \<Rightarrow> (nat \<Rightarrow> byte list) \<Rightarrow> (nat \<Rightarrow> nat) \<Rightarrow> (nat \<Rightarrow> byte list) \<Rightarrow> owner \<Rightarrow> nat \<Rightarrow> bool" where
  "image_ok m D M C own n \<longleftrightarrow>
     (\<forall>b. unat b < FSSIZE \<longrightarrow> (\<exists>x. mk_img m b = Some x \<and> length x = BSIZE)) \<and> mk_sb m = mkfs_sb \<and> fb m \<le> FSSIZE
     \<and> (\<forall>a. own a \<noteq> None \<longleftrightarrow> 46 \<le> unat a \<and> unat a < fb m)
     \<and> (\<forall>b. fb m \<le> unat b \<and> unat b < FSSIZE \<longrightarrow> mk_img m b = Some (replicate BSIZE 0))
     \<and> (\<forall>j \<in> {1..<n}. mapped (img m) (D j) (M j) own j \<and> holds (img m) (D j) (M j) (C j))
     \<and> fb m = 46 + (\<Sum>j = 1..<n. M j + ind_blocks (D j))"

lemma image_okD:
  assumes "image_ok m D M C own n"
  shows "unat b < FSSIZE \<Longrightarrow> mk_img m b = Some (img m b) \<and> length (img m b) = BSIZE" "mk_sb m = mkfs_sb" "fb m \<le> FSSIZE"
    "own a \<noteq> None \<longleftrightarrow> 46 \<le> unat a \<and> unat a < fb m" "fb m \<le> unat b \<Longrightarrow> unat b < FSSIZE \<Longrightarrow> img m b = replicate BSIZE 0"
    "1 \<le> j \<Longrightarrow> j < n \<Longrightarrow> mapped (img m) (D j) (M j) own j" "1 \<le> j \<Longrightarrow> j < n \<Longrightarrow> holds (img m) (D j) (M j) (C j)"
    "fb m = 46 + (\<Sum>j = 1..<n. M j + ind_blocks (D j))"
  using assms by (auto simp: image_ok_def)

lemma sum_upd:
  fixes f :: "nat \<Rightarrow> nat"
  assumes "finite A" "j \<in> A"
  shows "sum (f(j := v)) A + f j = sum f A + v"
  using assms by (simp add: sum.remove [of A j])

lemma image_ok_change:
  assumes inv: "image_ok m D M C own n" and j: "1 \<le> j" "j < n" and sb: "mk_sb m' = mk_sb m"
    and img: "\<And>b. mk_img m' b = mk_img m b \<or> (\<exists>s. own b = Some (j, s)) \<and> (\<exists>y. mk_img m' b = Some y \<and> length y = BSIZE)"
    and own: "\<And>a x. own a = Some x \<Longrightarrow> own' a = Some x"
      "\<And>a. own' a \<noteq> None \<longleftrightarrow> 46 \<le> unat a \<and> unat a < fb m'"
    and fb: "fb m \<le> fb m'" "fb m' \<le> FSSIZE" "fb m' + (M j + ind_blocks (D j)) = fb m + (M' + ind_blocks d')"
    and new: "mapped (img m') d' M' own' j" "holds (img m') d' M' c'"
  shows "image_ok m' (D(j := d')) (M(j := M')) (C(j := c')) own' n"
proof -
  have same: "mk_img m' a = mk_img m a" if "\<And>s. own a \<noteq> Some (j, s)" for a using img [of a] that by auto
  have files: "mapped (img m') (D i) (M i) own' i \<and> holds (img m') (D i) (M i) (C i)" if "1 \<le> i" "i < n" "i \<noteq> j" for i
  proof -
    have "img m' a = img m a" if "own a = Some (i, s)" for a s using same [of a] that \<open>i \<noteq> j\<close> by simp
    note fr = mapped_frame [where V' = "img m'", OF image_okD(6) [OF inv that(1,2)] this own(1)]
    show ?thesis using fr(1) fr(2) [OF _ _ image_okD(7) [OF inv that(1,2)]] by simp
  qed
  have zero: "mk_img m' b = Some (replicate BSIZE 0)" if "fb m' \<le> unat b" "unat b < FSSIZE" for b
  proof -
    have "own b = None" using image_okD(4) [OF inv, of b] fb(1) that by (cases "own b") auto
    then have "mk_img m' b = mk_img m b" by (intro same) simp
    then show ?thesis using inv that fb(1) unfolding image_ok_def by auto
  qed
  have all: "\<exists>x. mk_img m' b = Some x \<and> length x = BSIZE" if "unat b < FSSIZE" for b
    using img [of b] image_okD(1) [OF inv that] by auto
  let ?g = "\<lambda>i. M i + ind_blocks (D i)"
  have g: "(\<lambda>i. (M(j := M')) i + ind_blocks ((D(j := d')) i)) = ?g(j := M' + ind_blocks d')" by auto
  have "sum (?g(j := M' + ind_blocks d')) {1..<n} + ?g j = sum ?g {1..<n} + (M' + ind_blocks d')"
    using j by (intro sum_upd) auto
  then have "fb m' = 46 + sum (?g(j := M' + ind_blocks d')) {1..<n}" using image_okD(8) [OF inv] fb(3) by simp
  then show ?thesis unfolding image_ok_def g
    using all sb image_okD(2) [OF inv] fb(2) own(2) zero files new by auto
qed

subsection \<open>Sectors and blocks\<close>

text \<open>The host lets mkfs create the image and write every sector of it.\<close>

definition host_ok :: "host \<Rightarrow> bool" where
  "host_ok h \<longleftrightarrow> (\<forall>path. h_create h path) \<and> (\<forall>b. h_sector h b)"

lemma img_upd: "(\<lambda>b. the ((f(a \<mapsto> y)) b)) = (\<lambda>b. the (f b))(a := y)"
  by auto

lemma sector_id:
  assumes "unat b < FSSIZE"
  shows "sector b = b"
proof -
  have "unat (b * 1024) = unat b * 1024" using assms by (simp add: unat_word_ariths)
  then show ?thesis by (simp add: sector_def word_unat_eq_iff unat_div)
qed

lemma wsect_eq: "host_ok h \<Longrightarrow> unat b < FSSIZE \<Longrightarrow> wsect h b buf m = Ok (m\<lparr>mk_img := (mk_img m)(b \<mapsto> buf)\<rparr>)"
  by (simp add: wsect_def sector_id host_ok_def)

lemma rsect_eq: "host_ok h \<Longrightarrow> image_ok m D M C own n \<Longrightarrow> unat b < FSSIZE \<Longrightarrow> rsect h b m = Ok (img m b)"
  using image_okD(1) [of m D M C own n b] by (cases "mk_img m b") (simp_all add: rsect_def sector_id host_ok_def)

lemma owned_range: "image_ok m D M C own n \<Longrightarrow> own a = Some x \<Longrightarrow> 46 \<le> unat a \<and> unat a < FSSIZE"
  using image_okD(3) [of m D M C own n] image_okD(4) [of m D M C own n a] by simp

lemma din_addr_eq: "din_addr d k = get32 d (12 + 4 * k)"
  by (simp add: din_addr_def)

text \<open>The part of the inode before the addresses, and everything below the data blocks, stays as it is.\<close>

definition keeps :: "byte list \<Rightarrow> mkfs_state \<Rightarrow> byte list \<Rightarrow> mkfs_state \<Rightarrow> bool" where
  "keeps d m d' m' \<longleftrightarrow> slice d' 0 12 = slice d 0 12 \<and> (\<forall>b. unat b < 46 \<longrightarrow> mk_img m' b = mk_img m b)
     \<and> mk_freeinode m' = mk_freeinode m"

lemma keeps_refl [simp]: "keeps d m d m"
  by (simp add: keeps_def)

lemma keeps_trans: "keeps d m d' m' \<Longrightarrow> keeps d' m' d'' m'' \<Longrightarrow> keeps d m d'' m''"
  by (simp add: keeps_def)

lemma slice_set_addr: "length d = 64 \<Longrightarrow> k \<le> NDIRECT \<Longrightarrow> slice (set_addr d k a) 0 12 = slice d 0 12"
  by (simp add: set_addr_def put32_def slice_blit_disjoint)

text \<open>Handing out the next block.\<close>

lemma free_block:
  assumes "image_ok m D M C own n" "fb m < FSSIZE"
  shows "own (mk_freeblock m) = None" "img m (mk_freeblock m) = replicate BSIZE 0" "unat (mk_freeblock m + 1) = fb m + 1"
    "mk_freeblock m \<noteq> 0" "unat (mk_freeblock m) < FSSIZE"
    "(own(mk_freeblock m \<mapsto> x)) a \<noteq> None \<longleftrightarrow> 46 \<le> unat a \<and> unat a < fb m + 1"
proof -
  show n: "own (mk_freeblock m) = None" using image_okD(4) [OF assms(1), of "mk_freeblock m"] by (cases "own (mk_freeblock m)") auto
  show "img m (mk_freeblock m) = replicate BSIZE 0" using image_okD(5) [OF assms(1), of "mk_freeblock m"] assms(2) by simp
  show "unat (mk_freeblock m + 1) = fb m + 1" using assms(2) by (simp add: unat_word_ariths)
  have "46 \<le> fb m" using image_okD(8) [OF assms(1)] by simp
  then show "mk_freeblock m \<noteq> 0" by auto
  show "unat (mk_freeblock m) < FSSIZE" by (rule assms(2))
  show "(own(mk_freeblock m \<mapsto> x)) a \<noteq> None \<longleftrightarrow> 46 \<le> unat a \<and> unat a < fb m + 1"
    using image_okD(4) [OF assms(1), of a] \<open>46 \<le> fb m\<close> by (auto simp: less_Suc_eq word_unat_eq_iff)
qed

lemma image_ok_take:
  assumes inv: "image_ok m D M C own n" and j: "1 \<le> j" "j < n" and lt: "fb m < FSSIZE"
    and img: "\<And>b. im b = mk_img m b \<or> (\<exists>s. own b = Some (j, s)) \<and> (\<exists>y. im b = Some y \<and> length y = BSIZE)"
    and new: "mapped (\<lambda>b. the (im b)) d' M' (own(mk_freeblock m \<mapsto> (j, s))) j" "holds (\<lambda>b. the (im b)) d' M' (C j)"
    and cnt: "M' + ind_blocks d' = M j + ind_blocks (D j) + 1"
  shows "image_ok (m\<lparr>mk_img := im, mk_freeblock := mk_freeblock m + 1\<rparr>) (D(j := d')) (M(j := M')) C (own(mk_freeblock m \<mapsto> (j, s))) n"
proof -
  note F = free_block [OF inv lt]
  have "image_ok (m\<lparr>mk_img := im, mk_freeblock := mk_freeblock m + 1\<rparr>) (D(j := d')) (M(j := M')) (C(j := C j)) (own(mk_freeblock m \<mapsto> (j, s))) n"
    by (rule image_ok_change [OF inv j]) (use F lt img new cnt in \<open>auto simp del: not_None_eq\<close>)
  then show ?thesis by simp
qed

lemma iappend_indirect_new:
  assumes inv: "image_ok m D M C own n" and h: "host_ok h" and j: "1 \<le> j" "j < n"
    and M: "NDIRECT \<le> M j" "M j < MAXFILE" and z: "dind (D j) \<noteq> 0" and lt: "fb m < FSSIZE"
  obtains m' own' where "iappend_indirect h (M j) (D j) m = Ok (dblk (img m') (D j) (M j), D j, m')"
    "image_ok m' D (M(j := M j + 1)) C own' n" "keeps (D j) m (D j) m'"
proof -
  let ?d = "D j" and ?F = "mk_freeblock m"
  note F = free_block [OF inv lt] and mp = image_okD(6) [OF inv j] and hd = image_okD(7) [OF inv j]
  have own: "own (dind ?d) = Some (j, MAXFILE)" by (rule mappedD(5) [OF mp z])
  note a = owned_range [OF inv own]
  let ?y = "put32 (img m (dind ?d)) (4 * (M j - NDIRECT)) ?F"
  let ?m = "m\<lparr>mk_img := (mk_img m)(dind ?d \<mapsto> ?y), mk_freeblock := ?F + 1\<rparr>"
  have g: "mapped (\<lambda>b. the (((mk_img m)(dind ?d \<mapsto> ?y)) b)) ?d (M j + 1) (own(?F \<mapsto> (j, M j))) j"
    "holds (\<lambda>b. the (((mk_img m)(dind ?d \<mapsto> ?y)) b)) ?d (M j + 1) (C j)"
    unfolding img_upd using grow_indirect [OF mp M z F(1,2)] hd by auto
  have len: "length (img m (dind ?d)) = BSIZE" "length ?y = BSIZE" using mappedD(6) [OF mp z] M by simp_all
  have e: "get32 (img m (dind ?d)) (4 * (M j - NDIRECT)) = 0"
    using mappedD(4) [OF mp, of "M j"] M z by (simp add: dblk_def)
  have "image_ok ?m (D(j := ?d)) (M(j := M j + 1)) C (own(?F \<mapsto> (j, M j))) n"
    by (rule image_ok_take [OF inv j lt _ g]) (use own len in auto)
  moreover have "iappend_indirect h (M j) ?d m = Ok (dblk (img ?m) ?d (M j), ?d, ?m)"
    using h z a e M len by (simp add: iappend_indirect_def din_addr_eq rsect_eq [OF h inv] take_block_def wsect_eq dblk_def)
  moreover have "keeps ?d m ?d ?m" using a by (auto simp: keeps_def)
  ultimately show ?thesis using that by simp
qed

lemma iappend_block_old:
  assumes inv: "image_ok m D M C own n" and h: "host_ok h" and j: "1 \<le> j" "j < n" and q: "q < M j"
  shows "iappend_block h q (D j) m = Ok (dblk (img m) (D j) q, D j, m)"
proof -
  note mp = image_okD(6) [OF inv j]
  note a = owned_range [OF inv mappedD(3) [OF mp q]]
  then have nz: "dblk (img m) (D j) q \<noteq> 0" by auto
  show ?thesis
  proof (cases "q < NDIRECT")
    case True
    then show ?thesis using nz by (simp add: iappend_block_def din_addr_eq dblk_def)
  next
    case False
    then have z: "dind (D j) \<noteq> 0" using mappedD(7) [OF mp] q by simp
    note i = owned_range [OF inv mappedD(5) [OF mp z]]
    show ?thesis using False z nz i
      by (simp add: iappend_block_def iappend_indirect_def din_addr_eq rsect_eq [OF h inv] dblk_def)
  qed
qed

lemma iappend_block_new:
  assumes inv: "image_ok m D M C own n" and h: "host_ok h" and j: "1 \<le> j" "j < n" and M: "M j < MAXFILE"
    and lt: "fb m + (if NDIRECT \<le> M j \<and> dind (D j) = 0 then 2 else 1) \<le> FSSIZE"
  obtains d' m' own' where "iappend_block h (M j) (D j) m = Ok (dblk (img m') d' (M j), d', m')"
    "image_ok m' (D(j := d')) (M(j := M j + 1)) C own' n" "keeps (D j) m d' m'"
    "dind d' \<noteq> 0 \<longleftrightarrow> dind (D j) \<noteq> 0 \<or> NDIRECT \<le> M j"
proof -
  let ?d = "D j" and ?F = "mk_freeblock m"
  have fb: "fb m < FSSIZE" using lt by (simp split: if_splits)
  note F = free_block [OF inv fb] and mp = image_okD(6) [OF inv j] and hd = image_okD(7) [OF inv j]
  note L = mappedD(1) [OF mp]
  consider "M j < NDIRECT" | "NDIRECT \<le> M j" "dind ?d \<noteq> 0" | "NDIRECT \<le> M j" "dind ?d = 0" by linarith
  then show ?thesis
  proof cases
    case 1
    let ?d' = "set_addr ?d (M j) ?F"
    have i: "dind ?d' = dind ?d" using L 1 by (simp add: set_addr_def get32_put32_other)
    have "image_ok (m\<lparr>mk_img := mk_img m, mk_freeblock := ?F + 1\<rparr>) (D(j := ?d')) (M(j := M j + 1)) C (own(?F \<mapsto> (j, M j))) n"
      by (rule image_ok_take [OF inv j fb]) (use grow_direct [OF mp 1 F(1,2)] hd i in \<open>auto simp: ind_blocks_def\<close>)
    moreover have "iappend_block h (M j) ?d m = Ok (dblk (img m) ?d' (M j), ?d', m\<lparr>mk_freeblock := ?F + 1\<rparr>)"
      using 1 L mappedD(4) [OF mp, of "M j"]
      by (simp add: iappend_block_def din_addr_eq take_block_def dblk_def set_addr_def)
    ultimately show ?thesis using that 1 i slice_set_addr [OF L, of "M j" ?F] by (simp add: keeps_def)
  next
    case 2
    obtain m' own' where "iappend_indirect h (M j) ?d m = Ok (dblk (img m') ?d (M j), ?d, m')"
      "image_ok m' D (M(j := M j + 1)) C own' n" "keeps ?d m ?d m'"
      using iappend_indirect_new [OF inv h j 2(1) M 2(2) fb] by blast
    then show ?thesis using that 2 by (simp add: iappend_block_def din_addr_eq)
  next
    case 3
    then have M12: "M j = NDIRECT" using mappedD(7) [OF mp] by (cases "M j = NDIRECT") auto
    let ?d' = "set_addr ?d NDIRECT ?F" and ?m = "m\<lparr>mk_img := mk_img m, mk_freeblock := ?F + 1\<rparr>"
    note ai = add_indirect [OF mp [unfolded M12] 3(2) F(1,2,4)]
    have 1: "image_ok ?m (D(j := ?d')) (M(j := M j)) C (own(?F \<mapsto> (j, MAXFILE))) n"
      by (rule image_ok_take [OF inv j fb]) (use ai hd M12 3(2) F(4) in \<open>auto simp: ind_blocks_def\<close>)
    obtain m' own' where 2: "iappend_indirect h ((M(j := M j)) j) ((D(j := ?d')) j) ?m
        = Ok (dblk (img m') ((D(j := ?d')) j) ((M(j := M j)) j), (D(j := ?d')) j, m')"
      "image_ok m' (D(j := ?d')) ((M(j := M j))(j := (M(j := M j)) j + 1)) C own' n" "keeps ((D(j := ?d')) j) ?m ((D(j := ?d')) j) m'"
      by (rule iappend_indirect_new [OF 1 h j]) (use 3 M ai(2) F(3,4) lt in simp_all)
    have "keeps ?d m ?d' ?m" using slice_set_addr [OF L, of NDIRECT ?F] by (simp add: keeps_def)
    then show ?thesis using that [of m' ?d'] 2 keeps_trans [OF _ 2(3)] ai(2) F(4) 3 by (simp add: iappend_block_def din_addr_eq take_block_def)
  qed
qed

subsection \<open>Appending to a file\<close>

definition nb :: "nat \<Rightarrow> nat" where
  "nb l = (l + 1023) div 1024"

definition need :: "nat \<Rightarrow> nat" where
  "need l = nb l + (if NDIRECT < nb l then 1 else 0)"

lemma nb_whole: "nb (q * 1024) = q"
proof -
  have "nb (q * 1024) = (1023 + q * 1024) div 1024" by (simp only: nb_def add.commute)
  also have "\<dots> = q" by (subst div_mult_self1) simp_all
  finally show ?thesis .
qed

lemma nb_part:
  assumes "0 < k" "k \<le> 1024"
  shows "nb (q * 1024 + k) = q + 1"
proof -
  have "q * 1024 + k + 1023 = (k - 1) + (q + 1) * 1024" using assms by simp
  then have "nb (q * 1024 + k) = ((k - 1) + (q + 1) * 1024) div 1024" by (simp only: nb_def)
  also have "\<dots> = q + 1" using assms by (subst div_mult_self1) simp_all
  finally show ?thesis .
qed

lemma nb_mono: "a \<le> b \<Longrightarrow> nb a \<le> nb b"
  by (simp add: nb_def div_le_mono)

lemma need_mono: "a \<le> b \<Longrightarrow> need a \<le> need b"
  using nb_mono [of a b] by (auto simp: need_def)

text \<open>A file of which no block is there that it does not need.\<close>

definition tight :: "byte list \<Rightarrow> nat \<Rightarrow> nat \<Rightarrow> bool" where
  "tight d M l \<longleftrightarrow> M = nb l \<and> (dind d \<noteq> 0 \<longleftrightarrow> NDIRECT < M)"

lemma tight_need: "tight d M l \<Longrightarrow> M + ind_blocks d = need l"
  by (auto simp: tight_def need_def ind_blocks_def)

lemma image_ok_count:
  assumes "image_ok m D M C own n" "image_ok m' (D(j := d')) (M(j := M')) C' own' n" "1 \<le> j" "j < n"
  shows "fb m' + (M j + ind_blocks (D j)) = fb m + (M' + ind_blocks d')"
proof -
  let ?g = "\<lambda>i. M i + ind_blocks (D i)"
  have g: "(\<lambda>i. (M(j := M')) i + ind_blocks ((D(j := d')) i)) = ?g(j := M' + ind_blocks d')" by auto
  have "sum (?g(j := M' + ind_blocks d')) {1..<n} + ?g j = sum ?g {1..<n} + (M' + ind_blocks d')"
    using assms(3,4) by (intro sum_upd) auto
  then show ?thesis using image_okD(8) [OF assms(1)] image_okD(8) [OF assms(2), unfolded g] by simp
qed

lemma write_piece_ok:
  assumes inv: "image_ok m D M C own n" and h: "host_ok h" and j: "1 \<le> j" "j < n"
    and L: "length (C j) = q * 1024 + r" and q: "q < M j" and n: "r + length p \<le> 1024"
  defines "x \<equiv> dblk (img m) (D j) q"
  obtains m' where "rsect h x m = Ok (img m x)" "wsect h x (blit (img m x) r p) m = Ok m'"
    "image_ok m' D M (C(j := C j @ p)) own n" "keeps (D j) m (D j) m'"
proof -
  note mp = image_okD(6) [OF inv j] and hd = image_okD(7) [OF inv j]
  have ox: "own x = Some (j, q)" unfolding x_def by (rule mappedD(3) [OF mp q])
  note a = owned_range [OF inv ox]
  have len: "length (img m x) = 1024" using image_okD(1) [OF inv] a by blast
  let ?y = "blit (img m x) r p" let ?m = "m\<lparr>mk_img := (mk_img m)(x \<mapsto> ?y)\<rparr>"
  have V: "img ?m = (img m)(x := ?y)" by auto
  have f: "mapped (img ?m) (D j) (M j) own j" "holds (img ?m) (D j) (M j) (C j @ p)"
    unfolding V using mapped_write(2) [OF mp q] holds_write [OF mp hd L q _ n] len by (simp_all add: x_def)
  have "image_ok ?m (D(j := D j)) (M(j := M j)) (C(j := C j @ p)) own n"
    by (rule image_ok_change [OF inv j _ _ _ _ _ _ _ f])
      (use ox len n image_okD(3,4) [OF inv] in \<open>auto simp del: not_None_eq\<close>)
  moreover have "keeps (D j) m (D j) ?m" using a by (auto simp: keeps_def)
  moreover have "rsect h x m = Ok (img m x)" "wsect h x ?y m = Ok ?m" using a by (auto intro: rsect_eq [OF h inv] wsect_eq [OF h])
  ultimately show ?thesis using that by simp
qed

lemma iappend_block_ok:
  assumes inv: "image_ok m D M C own n" and h: "host_ok h" and j: "1 \<le> j" "j < n" and t: "tight (D j) (M j) (length (C j))"
    and L: "length (C j) = q * 1024 + r" and r: "r < 1024" and q: "q < MAXFILE" and k: "0 < k" "r + k \<le> 1024"
    and room: "fb m + need (length (C j) + k) \<le> FSSIZE + need (length (C j))"
  obtains d' m' own' where "iappend_block h q (D j) m = Ok (dblk (img m') d' q, d', m')"
    "image_ok m' (D(j := d')) (M(j := q + 1)) C own' n" "keeps (D j) m d' m'" "tight d' (q + 1) (length (C j) + k)"
proof -
  have e: "nb (length (C j) + k) = q + 1" using nb_part [of "r + k" q] k by (simp add: L add.assoc)
  note t' = t [unfolded tight_def]
  show ?thesis
  proof (cases "r = 0")
    case False
    then have Mj: "M j = q + 1" using nb_part [of r q] r t' by (simp add: L)
    show ?thesis
      by (rule that [of m "D j" own]) (use Mj iappend_block_old [OF inv h j, of q] inv t' e in \<open>simp_all add: tight_def fun_upd_idem\<close>)
  next
    case True
    then have Mj: "M j = q" using nb_whole [of q] t' by (simp add: L)
    have "fb m + (if NDIRECT \<le> M j \<and> dind (D j) = 0 then 2 else 1) \<le> FSSIZE"
      using room e t' Mj by (auto simp: need_def split: if_splits)
    then obtain d' m' own' where 1: "iappend_block h q (D j) m = Ok (dblk (img m') d' q, d', m')"
      "image_ok m' (D(j := d')) (M(j := q + 1)) C own' n" "keeps (D j) m d' m'" "dind d' \<noteq> 0 \<longleftrightarrow> dind (D j) \<noteq> 0 \<or> NDIRECT \<le> q"
      using iappend_block_new [OF inv h j] q Mj by metis
    moreover have "tight d' (q + 1) (length (C j) + k)" using 1(4) t' e Mj by (auto simp: tight_def)
    ultimately show ?thesis using that by blast
  qed
qed

lemma iappend_loop_ok:
  assumes "image_ok m D M C own n" "host_ok h" "1 \<le> j" "j < n" "tight (D j) (M j) (length (C j))"
    and "length (C j) + length p \<le> MAXFILE * 1024" "fb m + need (length (C j) + length p) \<le> FSSIZE + need (length (C j))"
  shows "\<exists>d' m' own'. iappend_loop h p (of_nat (length (C j))) (D j) m = Ok (of_nat (length (C j) + length p), d', m')
     \<and> image_ok m' (D(j := d')) (M(j := nb (length (C j) + length p))) (C(j := C j @ p)) own' n
     \<and> keeps (D j) m d' m' \<and> tight d' (nb (length (C j) + length p)) (length (C j) + length p)"
  using assms
proof (induction "length p" arbitrary: p m D M C own rule: less_induct)
  case less
  note inv = less.prems(1) and h = less.prems(2) and j = less.prems(3,4) and t = less.prems(5) and fits = less.prems(6) and room = less.prems(7)
  show ?case
  proof (cases "p = []")
    case True
    then show ?thesis using inv t by (auto simp: iappend_loop.simps tight_def fun_upd_idem)
  next
    case False
    define L q r where "L = length (C j)" and "q = L div 1024" and "r = L mod 1024"
    define off where "off = (of_nat L :: uint32)"
    define k where "k = min (length p) (1024 - r)"
    have Lqr: "L = q * 1024 + r" "r < 1024" by (simp_all add: q_def r_def)
    have "0 < length p" using False by simp
    then have lt: "L < MAXFILE * 1024" using fits unfolding L_def by linarith
    then have q: "q < MAXFILE" by (simp add: q_def less_mult_imp_div_less)
    have u: "unat off = L" using lt by (simp add: off_def)
    have w: "off div 1024 < 268" "unat (off div 1024) = q" "unat (off - off div 1024 * 1024) = r"
      using q u by (simp_all add: word_less_nat_alt unat_div q_def r_def minus_div_mult_eq_mod unat_mod)
    have rm: "iappend_room p off = k" using iappend_room_pos(2) [OF w(1) False] u by (simp add: k_def r_def)
    have k: "0 < k" "r + k \<le> 1024" "k \<le> length p" using False Lqr(2) by (simp_all add: k_def)
    have "need (L + k) \<le> need (L + length p)" by (rule need_mono) (use k in simp)
    then have "fb m + need (length (C j) + k) \<le> FSSIZE + need (length (C j))" using room by (simp add: L_def)
    then obtain d1 m1 own1 where 1: "iappend_block h q (D j) m = Ok (dblk (img m1) d1 q, d1, m1)"
      "image_ok m1 (D(j := d1)) (M(j := q + 1)) C own1 n" "keeps (D j) m d1 m1" "tight d1 (q + 1) (L + k)"
      using iappend_block_ok [OF inv h j t Lqr(1) [unfolded L_def] Lqr(2) q k(1,2)] unfolding L_def by metis
    obtain m2 where 2: "rsect h (dblk (img m1) d1 q) m1 = Ok (img m1 (dblk (img m1) d1 q))"
      "wsect h (dblk (img m1) d1 q) (blit (img m1 (dblk (img m1) d1 q)) r (take k p)) m1 = Ok m2"
      "image_ok m2 (D(j := d1)) (M(j := q + 1)) (C(j := C j @ take k p)) own1 n" "keeps d1 m1 d1 m2"
      using write_piece_ok [OF 1(2) h j, of q r "take k p"] Lqr(1) k by (auto simp: L_def)
    have cnt: "fb m2 + need L = fb m + need (L + k)"
      using image_ok_count [OF inv 2(3) j] tight_need [OF t] tight_need [OF 1(4)] by (simp add: L_def)
    have lk: "length (C j @ take k p) = L + k" "length (drop k p) = length p - k" using k by (simp_all add: L_def)
    have IH: "\<exists>d' m' own'. iappend_loop h (drop k p) (of_nat (L + k)) d1 m2 = Ok (of_nat (L + length p), d', m')
       \<and> image_ok m' (D(j := d')) (M(j := nb (L + length p))) (C(j := C j @ p)) own' n
       \<and> keeps d1 m2 d' m' \<and> tight d' (nb (L + length p)) (L + length p)"
      using less.hyps [of "drop k p", OF _ 2(3) h j] k False 1(4) lk cnt fits room by (simp add: L_def)
    have e: "iappend_loop h p off (D j) m = iappend_loop h (drop k p) (of_nat (L + k)) d1 m2"
      using False w rm 1(1) 2(1,2) by (subst iappend_loop.simps) (simp add: Let_def off_def)
    show ?thesis using IH keeps_trans [OF keeps_trans [OF 1(3) 2(4)]] unfolding L_def [symmetric] off_def [symmetric] e by blast
  qed
qed

end
