(* ===== verification/Mkfs_Inode.thy ===== *)
theory Mkfs_Inode
  imports Mkfs_Image
begin

text \<open>
  The inodes of the image and the run of mkfs as a whole. \<open>fs_ok m T C own n\<close>: the image holds the inodes 1
  to \<open>n - 1\<close>, the inode \<open>j\<close> with the type \<open>T j\<close> and the contents \<open>C j\<close>, in exactly the blocks they need.
\<close>

subsection \<open>Inodes in their blocks\<close>

definition iblock :: "nat \<Rightarrow> uint32" where
  "iblock j = of_nat (32 + j div 16)"

definition din_at :: "mkfs_state \<Rightarrow> nat \<Rightarrow> byte list" where
  "din_at m j = slice (img m (iblock j)) (64 * (j mod 16)) 64"

lemma mkfs_sb_sel [simp]:
  "sb_magic mkfs_sb = 0x10203040" "sb_size mkfs_sb = 2000" "sb_nblocks mkfs_sb = 1954" "sb_ninodes mkfs_sb = 200"
  "sb_nlog mkfs_sb = 30" "sb_logstart mkfs_sb = 2" "sb_inodestart mkfs_sb = 32" "sb_bmapstart mkfs_sb = 45"
  by (simp_all add: mkfs_sb_def)

lemma iblock_unat: "j < 200 \<Longrightarrow> unat (iblock j) = 32 + j div 16"
  by (simp add: iblock_def del: of_nat_add)

lemma iblock_range: "j < 200 \<Longrightarrow> 32 \<le> unat (iblock j) \<and> unat (iblock j) < 45"
  using div_le_mono [of j 199 16] by (simp add: iblock_unat)

lemma IBLOCK_eq: "j < 200 \<Longrightarrow> IBLOCK (of_nat j) mkfs_sb = iblock j" "j < 200 \<Longrightarrow> dinode_off (of_nat j) = 64 * (j mod 16)"
  by (simp_all add: IBLOCK_def iblock_def dinode_off_def word_arith_nat_defs(6) unat_of_nat take_bit_nat_eq_self)

lemma iblock_same:
  assumes "iblock i = iblock j" "i < 200" "j < 200" "i \<noteq> j"
  shows "64 * (i mod 16) + 64 \<le> 64 * (j mod 16) \<or> 64 * (j mod 16) + 64 \<le> 64 * (i mod 16)"
proof -
  have "i div 16 = j div 16" using iblock_unat [OF assms(2)] iblock_unat [OF assms(3)] assms(1) by simp
  then have "i mod 16 \<noteq> j mod 16" using assms(4) by (metis div_mult_mod_eq)
  then show ?thesis by linarith
qed

text \<open>Changing blocks below the data blocks keeps the files.\<close>

lemma image_ok_low:
  assumes inv: "image_ok m D M C own n" and b: "unat b < 46" and y: "length y = BSIZE"
  shows "image_ok (m\<lparr>mk_img := (mk_img m)(b \<mapsto> y)\<rparr>) D M C own n"
proof -
  let ?m = "m\<lparr>mk_img := (mk_img m)(b \<mapsto> y)\<rparr>"
  have nob: "own b = None" using image_okD(4) [OF inv, of b] b by (cases "own b") auto
  have "img ?m a = img m a" if "own a = Some x" for a x using that nob by auto
  then have "mapped (img ?m) (D j) (M j) own j \<and> holds (img ?m) (D j) (M j) (C j)" if "1 \<le> j" "j < n" for j
    using mapped_frame [where V' = "img ?m", OF image_okD(6) [OF inv that]] image_okD(7) [OF inv that] by blast
  moreover have "46 \<le> fb m" using image_okD(8) [OF inv] by simp
  ultimately show ?thesis using inv b y unfolding image_ok_def by auto
qed

lemma image_ok_cong:
  assumes "image_ok m D M C own n" "\<And>j. 1 \<le> j \<Longrightarrow> j < n \<Longrightarrow> D' j = D j \<and> M' j = M j \<and> C' j = C j"
  shows "image_ok m D' M' C' own n"
proof -
  have "(\<Sum>j = 1..<n. M' j + ind_blocks (D' j)) = (\<Sum>j = 1..<n. M j + ind_blocks (D j))"
    by (rule sum.cong) (use assms(2) in auto)
  then show ?thesis using assms unfolding image_ok_def by auto
qed

lemma image_ok_size:
  assumes "image_ok m (D(j := d)) M C own n" "length d = 64"
  shows "image_ok m (D(j := put32 d 8 v)) M C own n"
proof -
  have i: "dind (put32 d 8 v) = dind d" using assms(2) by (simp add: get32_put32_other)
  have b: "dblk V (put32 d 8 v) = dblk V d" for V
    using assms(2) i by (auto simp: dblk_def get32_put32_other fun_eq_iff)
  have m: "mapped V (put32 d 8 v) k own i = mapped V d k own i" "holds V (put32 d 8 v) k c = holds V d k c" for V k i c
    using assms(2) by (simp_all add: mapped_def holds_def b i)
  have s: "(\<lambda>x. M x + ind_blocks ((D(j := put32 d 8 v)) x)) = (\<lambda>x. M x + ind_blocks ((D(j := d)) x))"
    by (auto simp: ind_blocks_def i)
  show ?thesis using assms(1) unfolding image_ok_def s by (auto simp: m)
qed

lemma winode_ok:
  assumes inv: "image_ok m D M C own n" and h: "host_ok h" and j: "j < 200" and d: "length d = 64"
  defines "m' \<equiv> m\<lparr>mk_img := (mk_img m)(iblock j \<mapsto> blit (img m (iblock j)) (64 * (j mod 16)) d)\<rparr>"
  shows "winode h (of_nat j) d m = Ok m'" "image_ok m' D M C own n" "din_at m' j = d"
    "\<And>i. i < 200 \<Longrightarrow> i \<noteq> j \<Longrightarrow> din_at m' i = din_at m i"
proof -
  note b = iblock_range [OF j]
  have len: "length (img m (iblock j)) = BSIZE" using image_okD(1) [OF inv, of "iblock j"] b by simp
  have o: "64 * (j mod 16) + 64 \<le> 1024" by (simp add: less_Suc_eq_le [symmetric])
  have "64 * (i mod 16) + 64 \<le> (1024 :: nat)" for i :: nat
    using mod_less_divisor [of 16 i] by linarith
  note o = this
  show "winode h (of_nat j) d m = Ok m'"
    using b by (simp add: winode_def image_okD(2) [OF inv] IBLOCK_eq [OF j] rsect_eq [OF h inv] wsect_eq [OF h] m'_def Let_def)
  show "image_ok m' D M C own n" unfolding m'_def by (rule image_ok_low [OF inv]) (use b len d o in auto)
  show "din_at m' j = d" using len d o by (simp add: din_at_def m'_def)
  show "din_at m' i = din_at m i" if "i < 200" "i \<noteq> j" for i
    using iblock_same [OF _ that(1) j that(2)] len d o by (auto simp: din_at_def m'_def slice_blit_disjoint)
qed

lemma rinode_ok:
  assumes "image_ok m D M C own n" "host_ok h" "j < 200"
  shows "rinode h (of_nat j) m = Ok (din_at m j)"
  using iblock_range [OF assms(3)]
  by (simp add: rinode_def image_okD(2) [OF assms(1)] IBLOCK_eq [OF assms(3)] rsect_eq [OF assms(2,1)] din_at_def)

lemma length_din_at: "image_ok m D M C own n \<Longrightarrow> j < 200 \<Longrightarrow> length (din_at m j) = 64"
  using image_okD(1) [of m D M C own n "iblock j"] iblock_range [of j] mod_less_divisor [of 16 j]
  by (simp add: din_at_def)

subsection \<open>The file system\<close>

definition inode_ok :: "byte list \<Rightarrow> uint16 \<Rightarrow> byte list \<Rightarrow> bool" where
  "inode_ok d t c \<longleftrightarrow> tight d (nb (length c)) (length c) \<and> get16 d 0 = t \<and> get16 d 6 = 1 \<and> get32 d 8 = of_nat (length c)
     \<and> length c \<le> MAXFILE * BSIZE"

definition fs_ok :: "mkfs_state \<Rightarrow> (nat \<Rightarrow> uint16) \<Rightarrow> (nat \<Rightarrow> byte list) \<Rightarrow> owner \<Rightarrow> nat \<Rightarrow> bool" where
  "fs_ok m T C own n \<longleftrightarrow> image_ok m (din_at m) (\<lambda>j. nb (length (C j))) C own n \<and> (\<forall>j \<in> {1..<n}. inode_ok (din_at m j) (T j) (C j))
     \<and> mk_freeinode m = of_nat n \<and> n \<le> NINODES \<and> superblock_of (img m 1) = mkfs_sb \<and> img m 2 = replicate BSIZE 0"

lemma fs_okD:
  assumes "fs_ok m T C own n"
  shows "image_ok m (din_at m) (\<lambda>j. nb (length (C j))) C own n" "1 \<le> j \<Longrightarrow> j < n \<Longrightarrow> inode_ok (din_at m j) (T j) (C j)"
    "mk_freeinode m = of_nat n" "n \<le> NINODES" "superblock_of (img m 1) = mkfs_sb" "img m 2 = replicate BSIZE 0"
  using assms by (auto simp: fs_ok_def)

text \<open>\<open>fs_ok\<close> after a change of the inode \<open>j\<close>.\<close>

lemma fs_ok_upd:
  assumes fs: "fs_ok m T C own n" and inv: "image_ok m' D M C' own' n'"
    and D: "D = (din_at m)(j := d)" "M = (\<lambda>j. nb (length (C j)))(j := nb (length c))" "C' = C(j := c)"
    and n: "n' \<le> NINODES" "n' = n \<or> n' = n + 1 \<and> j = n" "mk_freeinode m' = of_nat n'"
    and din: "din_at m' j = d" "\<And>i. i < 200 \<Longrightarrow> i \<noteq> j \<Longrightarrow> din_at m' i = din_at m i"
    and i: "inode_ok d t c" and low: "mk_img m' 1 = mk_img m 1" "mk_img m' 2 = mk_img m 2"
  shows "fs_ok m' (T(j := t)) (C(j := c)) own' n'"
proof -
  have "din_at m' i = D i" if "i < n'" for i using that din n(1) by (simp add: D(1))
  then have "image_ok m' (din_at m') (\<lambda>i. nb (length ((C(j := c)) i))) (C(j := c)) own' n'"
    by (intro image_ok_cong [OF inv]) (auto simp: D)
  moreover have "inode_ok (din_at m' k) ((T(j := t)) k) ((C(j := c)) k)" if "1 \<le> k" "k < n'" for k
    using that din i n fs_okD(2) [OF fs, of k] by auto
  ultimately show ?thesis using n(1,3) low fs_okD(5,6) [OF fs] by (simp add: fs_ok_def)
qed

lemma get_slice: "get16 xs 0 = get16 (slice xs 0 12) 0" "get16 xs 6 = get16 (slice xs 0 12) 6"
  by (simp_all add: get16_def slice_def min_def drop_take)

lemma iappend_fs:
  assumes fs: "fs_ok m T C own n" and h: "host_ok h" and j: "1 \<le> j" "j < n" and le: "length (C j) + length p \<le> MAXFILE * BSIZE"
    and room: "fb m + need (length (C j) + length p) \<le> FSSIZE + need (length (C j))"
  obtains m' own' where "iappend h (of_nat j) p m = Ok m'" "fs_ok m' T (C(j := C j @ p)) own' n"
    "fb m' + need (length (C j)) = fb m + need (length (C j) + length p)"
proof -
  let ?L = "length (C j) + length p" and ?M = "\<lambda>j. nb (length (C j))"
  note inv = fs_okD(1) [OF fs]
  have j200: "j < 200" using j(2) fs_okD(4) [OF fs] by simp
  note ij = fs_okD(2) [OF fs j, unfolded inode_ok_def]
  obtain d1 m1 own1 where 1: "iappend_loop h p (of_nat (length (C j))) (din_at m j) m = Ok (of_nat ?L, d1, m1)"
    "image_ok m1 ((din_at m)(j := d1)) (?M(j := nb ?L)) (C(j := C j @ p)) own1 n" "keeps (din_at m j) m d1 m1" "tight d1 (nb ?L) ?L"
    using iappend_loop_ok [OF inv h j _ le room] ij by blast
  have low: "mk_img m1 b = mk_img m b" if "unat b < 46" for b using 1(3) that by (simp add: keeps_def)
  have din1: "din_at m1 i = din_at m i" if "i < 200" for i using low iblock_range [OF that] by (simp add: din_at_def)
  have len: "length d1 = 64" using mappedD(1) [OF image_okD(6) [OF 1(2) j]] by simp
  let ?d = "put32 d1 8 (of_nat ?L)"
  note 2 = image_ok_size [OF 1(2) len, of "of_nat ?L"]
  note w = winode_ok [OF 2 h j200, of ?d]
  define m' where "m' = m1\<lparr>mk_img := (mk_img m1)(iblock j \<mapsto> blit (img m1 (iblock j)) (64 * (j mod 16)) ?d)\<rparr>"
  note w = w [folded m'_def]
  have ap: "iappend h (of_nat j) p m = Ok m'"
    using w(1) len 1(1) ij by (simp add: iappend_def rinode_ok [OF inv h j200] din_size_def)
  have s: "get16 ?d 0 = get16 (din_at m j) 0" "get16 ?d 6 = get16 (din_at m j) 6"
    using 1(3) len unfolding keeps_def by (simp_all add: get16_put32_other) (metis get_slice)+
  have io: "inode_ok ?d (T j) (C j @ p)"
    using 1(4) ij s le len by (simp add: inode_ok_def tight_def get32_put32_other)
  have nb: "iblock j \<noteq> 1" "iblock j \<noteq> 2" using iblock_range [OF j200] by auto
  have "fs_ok m' (T(j := T j)) (C(j := C j @ p)) own1 n"
    by (rule fs_ok_upd [OF fs w(2) refl _ refl]) (use w len io nb low din1 1(3) fs_okD(3,4) [OF fs] in \<open>auto simp: m'_def keeps_def\<close>)
  moreover have "fb m' + need (length (C j)) = fb m + need ?L"
    using image_ok_count [OF inv 1(2) j] tight_need [OF 1(4)] tight_need [OF conjunct1 [OF ij]] by (simp add: m'_def)
  ultimately show ?thesis using that ap by simp
qed

lemma new_inode:
  fixes t :: uint16
  defines "d \<equiv> put32 (put16 (put16 (replicate 64 0) 0 t) 6 1) 8 0"
  shows "length d = 64" "inode_ok d t []" "mapped V d 0 own j" "holds V d 0 []" "ind_blocks d = 0"
proof -
  show l: "length d = 64" by (simp add: d_def)
  have g: "get32 d (12 + 4 * k) = 0" if "k \<le> NDIRECT" for k
    using that by (simp add: d_def get32_put32_other get32_put16_other)
  have i: "dind d = 0" using g [of NDIRECT] by simp
  have "dblk V d bn = 0" for bn using g i by (simp add: dblk_def)
  then show "mapped V d 0 own j" using l i by (simp add: mapped_def)
  show "holds V d 0 []" "ind_blocks d = 0" using i by (simp_all add: holds_def ind_blocks_def)
  show "inode_ok d t []"
    using i by (simp add: inode_ok_def tight_def nb_def) (simp add: d_def get16_put32_other get16_put16_other)
qed

lemma ialloc_fs:
  assumes fs: "fs_ok m T C own n" and h: "host_ok h" and n: "1 \<le> n" "n < NINODES"
  obtains m' where "mk_ialloc h t m = Ok (of_nat n, m')" "fs_ok m' (T(n := t)) (C(n := [])) own (n + 1)" "fb m' = fb m"
proof -
  note inv = fs_okD(1) [OF fs]
  let ?d = "put32 (put16 (put16 (replicate 64 0) 0 t) 6 1) 8 0"
  let ?M = "\<lambda>j. nb (length (C j))" and ?m = "m\<lparr>mk_freeinode := of_nat (n + 1)\<rparr>"
  note d = new_inode [where t = t]
  have a: "image_ok ?m ((din_at m)(n := ?d)) (?M(n := nb (length ([] :: byte list)))) (C(n := [])) own n"
    by (rule image_ok_cong [of _ "din_at m" ?M C]) (use inv in \<open>auto simp: image_ok_def\<close>)
  have "image_ok ?m ((din_at m)(n := ?d)) (?M(n := nb (length ([] :: byte list)))) (C(n := [])) own (n + 1)"
    using a n(1) d(3,4,5) unfolding image_ok_def by (auto simp: less_Suc_eq nb_def sum.atLeastLessThan_Suc)
  note w = winode_ok [OF this h n(2) d(1)]
  define m' where "m' = ?m\<lparr>mk_img := (mk_img ?m)(iblock n \<mapsto> blit (img ?m (iblock n)) (64 * (n mod 16)) ?d)\<rparr>"
  note w = w [folded m'_def]
  have nb: "iblock n \<noteq> 1" "iblock n \<noteq> 2" using iblock_range [OF n(2)] by auto
  have "fs_ok m' (T(n := t)) (C(n := [])) own (n + 1)"
    by (rule fs_ok_upd [OF fs w(2) refl _ refl]) (use w n nb d(2) in \<open>auto simp: m'_def din_at_def\<close>)
  moreover have "mk_ialloc h t m = Ok (of_nat n, m')"
    using w(1) fs_okD(3) [OF fs] by (simp add: mk_ialloc_def Let_def add.commute)
  ultimately show ?thesis using that by (simp add: m'_def)
qed

subsection \<open>Copying the input files\<close>

definition file_data :: "host \<Rightarrow> byte list \<Rightarrow> byte list" where
  "file_data h path = concat (takeWhile (\<lambda>c. c \<noteq> []) (the (h_file h path)))"

lemma append_reads_fs:
  assumes "fs_ok m T C own n" "host_ok h" "1 \<le> j" "j < n"
    "length (C j) + length (concat (takeWhile (\<lambda>c. c \<noteq> []) cs)) \<le> MAXFILE * BSIZE"
    "fb m + need (length (C j) + length (concat (takeWhile (\<lambda>c. c \<noteq> []) cs))) \<le> FSSIZE + need (length (C j))"
  shows "\<exists>m' own'. append_reads h (of_nat j) cs m = Ok m' \<and> fs_ok m' T (C(j := C j @ concat (takeWhile (\<lambda>c. c \<noteq> []) cs))) own' n
     \<and> fb m' + need (length (C j)) = fb m + need (length (C j) + length (concat (takeWhile (\<lambda>c. c \<noteq> []) cs)))"
  using assms
proof (induction cs arbitrary: m C own)
  case Nil
  then show ?case by (auto simp: fun_upd_idem)
next
  case (Cons c cs)
  show ?case
  proof (cases "c = []")
    case True
    then show ?thesis using Cons.prems(1) by (auto simp: fun_upd_idem)
  next
    case False
    let ?r = "concat (takeWhile (\<lambda>c. c \<noteq> []) cs)"
    have "need (length (C j) + length c) \<le> need (length (C j) + (length c + length ?r))" by (rule need_mono) simp
    then obtain m1 own1 where 1: "iappend h (of_nat j) c m = Ok m1" "fs_ok m1 T (C(j := C j @ c)) own1 n"
      "fb m1 + need (length (C j)) = fb m + need (length (C j) + length c)"
      using iappend_fs [OF Cons.prems(1-4), of c] Cons.prems(5,6) False by auto
    have "\<exists>m' own'. append_reads h (of_nat j) cs m1 = Ok m' \<and> fs_ok m' T (C(j := C j @ c @ ?r)) own' n
       \<and> fb m' + need (length (C j) + length c) = fb m1 + need (length (C j) + (length c + length ?r))"
      using Cons.IH [OF 1(2) Cons.prems(2-4)] 1(3) Cons.prems(5,6) False by (simp add: add.assoc fun_upd_def cong: if_cong)
    then show ?thesis using 1(1,3) False by (auto simp del: fun_upd_apply)
  qed
qed

definition entry_name :: "byte list \<Rightarrow> byte list" where
  "entry_name path = dirname14 (skip_underscore (mk_shortname path))"

lemma length_dirname14 [simp]: "length (dirname14 nm) = DIRSIZ"
  by (simp add: dirname14_def Let_def)

lemma length_mk_dirent [simp]: "length nm \<le> DIRSIZ \<Longrightarrow> length (mk_dirent inum nm) = 16"
  by (simp add: mk_dirent_def)

lemma need_0 [simp]: "need 0 = 0"
  by (simp add: need_def nb_def)

lemma mkfs_file_fs:
  assumes fs: "fs_ok m T C own n" and h: "host_ok h" and n: "2 \<le> n" "n < NINODES"
    and path: "47 \<notin> set (mk_shortname path)" "h_file h path = Some reads" "length (file_data h path) \<le> MAXFILE * BSIZE"
    and root: "length (C 1) + 16 \<le> MAXFILE * BSIZE"
    and room: "fb m + need (length (C 1) + 16) + need (length (file_data h path)) \<le> FSSIZE + need (length (C 1))"
  obtains m' own' where "mkfs_file h 1 path m = Ok m'"
    "fs_ok m' (T(n := 2)) (C(n := file_data h path, 1 := C 1 @ mk_dirent (of_nat n) (entry_name path))) own' (n + 1)"
    "fb m' + need (length (C 1)) = fb m + need (length (C 1) + 16) + need (length (file_data h path))"
proof -
  have n1: "1 \<le> n" "n \<noteq> 1" using n by simp_all
  let ?e = "mk_dirent (of_nat n) (entry_name path)" and ?f = "file_data h path"
  have le: "length ?e = 16" by (simp add: entry_name_def)
  obtain m1 where 1: "mk_ialloc h 2 m = Ok (of_nat n, m1)" "fs_ok m1 (T(n := 2)) (C(n := [])) own (n + 1)" "fb m1 = fb m"
    using ialloc_fs [OF fs h n1(1) n(2)] by blast
  obtain m2 own2 where 2: "iappend h (of_nat 1) ?e m1 = Ok m2" "fs_ok m2 (T(n := 2)) (C(n := [], 1 := C 1 @ ?e)) own2 (n + 1)"
    "fb m2 + need (length (C 1)) = fb m + need (length (C 1) + 16)"
    using iappend_fs [OF 1(2) h, of 1 ?e] n1 le root room 1(3) by auto
  have "fb m2 + need (length ?f) \<le> FSSIZE" using 2(3) room by simp
  then obtain m3 own3 where 3: "append_reads h (of_nat n) reads m2 = Ok m3"
    "fs_ok m3 (T(n := 2)) ((C(n := [], 1 := C 1 @ ?e))(n := ?f)) own3 (n + 1)" "fb m3 = fb m2 + need (length ?f)"
    using append_reads_fs [OF 2(2) h n1(1), of reads] path n1(2) by (auto simp: file_data_def)
  have "(C(n := [], 1 := C 1 @ ?e))(n := ?f) = C(n := ?f, 1 := C 1 @ ?e)" using n1(2) by auto
  moreover have "mkfs_file h 1 path m = Ok m3"
    using 1(1) 2(1) 3(1) path by (simp add: mkfs_file_def entry_name_def Let_def)
  ultimately show ?thesis using that 3(2,3) 2(3) by simp
qed

definition entries :: "nat \<Rightarrow> byte list list \<Rightarrow> byte list" where
  "entries n paths = concat (map2 (\<lambda>i path. mk_dirent (of_nat i) (entry_name path)) [n..<n + length paths] paths)"

lemma entries_Cons: "entries n (path # paths) = mk_dirent (of_nat n) (entry_name path) @ entries (n + 1) paths"
proof -
  have "[n..<n + length (path # paths)] = n # [n + 1..<n + 1 + length paths]" by (subst upt_conv_Cons) simp_all
  then show ?thesis by (simp only: entries_def) simp
qed

definition files_ok :: "host \<Rightarrow> byte list list \<Rightarrow> bool" where
  "files_ok h paths \<longleftrightarrow> (\<forall>path \<in> set paths. 47 \<notin> set (mk_shortname path) \<and> h_file h path \<noteq> None
     \<and> length (file_data h path) \<le> MAXFILE * BSIZE)"

definition files_need :: "host \<Rightarrow> byte list list \<Rightarrow> nat" where
  "files_need h paths = (\<Sum>path \<leftarrow> paths. need (length (file_data h path)))"

lemma mkfs_files_fs:
  assumes "fs_ok m T C own n" "host_ok h" "2 \<le> n" "n + length paths \<le> NINODES" "files_ok h paths"
    "length (C 1) + 16 * length paths \<le> MAXFILE * BSIZE"
    "fb m + need (length (C 1) + 16 * length paths) + files_need h paths \<le> FSSIZE + need (length (C 1))"
  shows "\<exists>m' T' C' own'. mkfs_files h 1 paths m = Ok m' \<and> fs_ok m' T' C' own' (n + length paths)
     \<and> C' 1 = C 1 @ entries n paths \<and> T' 1 = T 1 \<and> (\<forall>i < n. i \<noteq> 1 \<longrightarrow> C' i = C i \<and> T' i = T i)
     \<and> (\<forall>i < length paths. C' (n + i) = file_data h (paths ! i) \<and> T' (n + i) = 2)"
  using assms
proof (induction paths arbitrary: m T C own n)
  case Nil
  then show ?case by (auto simp: entries_def)
next
  case (Cons path paths)
  have p: "47 \<notin> set (mk_shortname path)" "length (file_data h path) \<le> MAXFILE * BSIZE" "files_ok h paths"
    using Cons.prems(5) by (auto simp: files_ok_def)
  obtain reads where r: "h_file h path = Some reads" using Cons.prems(5) by (auto simp: files_ok_def)
  let ?e = "mk_dirent (of_nat n) (entry_name path)" and ?T = "T(n := 2)"
  let ?C = "C(n := file_data h path, 1 := C 1 @ ?e)"
  have le: "length (?C 1) = length (C 1) + 16" by (simp add: entry_name_def)
  have "need (length (C 1) + 16) \<le> need (length (C 1) + 16 * length (path # paths))" by (rule need_mono) simp
  then have "fb m + need (length (C 1) + 16) + need (length (file_data h path)) \<le> FSSIZE + need (length (C 1))"
    using Cons.prems(7) by (simp add: files_need_def)
  then obtain m1 own1 where 1: "mkfs_file h 1 path m = Ok m1" "fs_ok m1 ?T ?C own1 (n + 1)"
    "fb m1 + need (length (C 1)) = fb m + need (length (C 1) + 16) + need (length (file_data h path))"
    using mkfs_file_fs [OF Cons.prems(1-3) _ p(1) r p(2)] Cons.prems(4,6) by (auto simp del: fun_upd_apply)
  obtain m' T' C' own' where 2: "mkfs_files h 1 paths m1 = Ok m'" "fs_ok m' T' C' own' (n + 1 + length paths)"
    "C' 1 = ?C 1 @ entries (n + 1) paths" "T' 1 = ?T 1" "\<forall>i < n + 1. i \<noteq> 1 \<longrightarrow> C' i = ?C i \<and> T' i = ?T i"
    "\<forall>i < length paths. C' (n + 1 + i) = file_data h (paths ! i) \<and> T' (n + 1 + i) = 2"
    using Cons.IH [OF 1(2) Cons.prems(2) _ _ p(3)] Cons.prems(3,4,6,7) 1(3) le
    by (auto simp: files_need_def add.assoc simp del: fun_upd_apply)
  have "C' (n + i) = file_data h ((path # paths) ! i) \<and> T' (n + i) = 2" if "i < length (path # paths)" for i
    using that 2(5,6) Cons.prems(3) by (cases i) auto
  then show ?case using 1(1) 2 Cons.prems(3) by (intro exI [of _ m'] exI [of _ T'] exI [of _ C'] exI [of _ own']) (auto simp: entries_Cons)
qed

subsection \<open>The first and the last steps\<close>

lemma write_zeroes_eq:
  assumes "host_ok h" "\<forall>i \<in> set is. i < FSSIZE"
  shows "write_zeroes h is m = Ok (m\<lparr>mk_img := (\<lambda>b. if unat b \<in> set is then Some (replicate BSIZE 0) else mk_img m b)\<rparr>)"
  using assms(2)
proof (induction "is" arbitrary: m)
  case (Cons i js)
  then have "write_zeroes h (i # js) m = write_zeroes h js (m\<lparr>mk_img := (mk_img m)(of_nat i \<mapsto> replicate BSIZE 0)\<rparr>)"
    by (simp add: wsect_eq [OF assms(1)])
  moreover have "b = of_nat i \<longleftrightarrow> unat b = i" for b :: uint32 using Cons.prems by (auto simp: word_unat_eq_iff)
  ultimately show ?case using Cons by (auto simp: fun_eq_iff)
qed simp

lemma superblock_of_sb_bytes: "superblock_of (blit (replicate BSIZE 0) 0 (sb_bytes b)) = b"
  by (simp add: superblock_of_def sb_bytes_def blit_def get32_def slice_def)

lemma start_fs:
  assumes h: "host_ok h"
  obtains m own where "rbind (write_zeroes h [0..<FSSIZE] mkfs_empty) (\<lambda>m. wsect h 1 (blit (replicate BSIZE 0) 0 (sb_bytes (mk_sb m))) m) = Ok m"
    "fs_ok m (\<lambda>_. 0) (\<lambda>_. []) own 1" "fb m = 46"
proof -
  let ?z = "mkfs_empty\<lparr>mk_img := (\<lambda>b. if unat b < FSSIZE then Some (replicate BSIZE 0) else None)\<rparr>"
  let ?m = "?z\<lparr>mk_img := (mk_img ?z)(1 \<mapsto> blit (replicate BSIZE 0) 0 (sb_bytes mkfs_sb))\<rparr>"
  have z: "write_zeroes h [0..<FSSIZE] mkfs_empty = Ok ?z"
    by (subst write_zeroes_eq [OF h]) (auto simp: mkfs_empty_def fun_eq_iff)
  have "image_ok ?z D (\<lambda>_. 0) C (\<lambda>_. None) 1" for D C by (auto simp: image_ok_def mkfs_empty_def)
  moreover have l: "length (blit (replicate 1024 0) 0 (sb_bytes mkfs_sb)) = 1024" by (simp add: sb_bytes_def)
  ultimately have "image_ok ?m (din_at ?m) (\<lambda>_. 0) (\<lambda>_. []) (\<lambda>_. None) 1" by (intro image_ok_low) auto
  then have "fs_ok ?m (\<lambda>_. 0) (\<lambda>_. []) (\<lambda>_. None) 1"
    unfolding fs_ok_def by (auto simp: nb_def superblock_of_sb_bytes mkfs_empty_def)
  moreover have "rbind (write_zeroes h [0..<FSSIZE] mkfs_empty) (\<lambda>m. wsect h 1 (blit (replicate BSIZE 0) 0 (sb_bytes (mk_sb m))) m) = Ok ?m"
    unfolding z by (simp add: wsect_eq [OF h]) (simp add: mkfs_empty_def)
  ultimately show ?thesis using that by (auto simp: mkfs_empty_def)
qed

lemma mk_marks_free: "k \<le> 8192 \<Longrightarrow> b < 8192 \<Longrightarrow> bm_free (foldl mk_mark (replicate 1024 0) [0..<k]) b \<longleftrightarrow> k \<le> b"
  and length_mk_marks: "length (foldl mk_mark (replicate 1024 0) [0..<k]) = 1024"
proof -
  have mk: "mk_mark = bm_mark" by (simp add: fun_eq_iff mk_mark_def bm_mark_def bm_mask_def)
  show l: "length (foldl mk_mark (replicate 1024 0) [0..<k]) = 1024" for k
    by (induction k) (simp_all add: mk_mark_def)
  show "k \<le> 8192 \<Longrightarrow> b < 8192 \<Longrightarrow> bm_free (foldl mk_mark (replicate 1024 0) [0..<k]) b \<longleftrightarrow> k \<le> b"
  proof (induction k)
    case 0
    then show ?case by (simp add: bm_free_def less_mult_imp_div_less)
  next
    case (Suc k)
    then show ?case using l [of k] by (auto simp: mk bm_mark_free)
  qed
qed

text \<open>The image at the end: the root inode has its size rounded up, and the bitmap marks the blocks handed out.\<close>

definition image_done :: "mkfs_state \<Rightarrow> (nat \<Rightarrow> uint16) \<Rightarrow> (nat \<Rightarrow> byte list) \<Rightarrow> owner \<Rightarrow> nat \<Rightarrow> bool" where
  "image_done m T C own n \<longleftrightarrow> image_ok m (din_at m) (\<lambda>j. nb (length (C j))) C own n \<and> (\<forall>j \<in> {2..<n}. inode_ok (din_at m j) (T j) (C j))
     \<and> get16 (din_at m 1) 0 = T 1 \<and> get16 (din_at m 1) 6 = 1
     \<and> get32 (din_at m 1) 8 = of_nat ((length (C 1) div BSIZE + 1) * BSIZE) \<and> n \<le> NINODES
     \<and> superblock_of (img m 1) = mkfs_sb \<and> img m 2 = replicate BSIZE 0
     \<and> img m 45 = foldl mk_mark (replicate BSIZE 0) [0..<fb m]"

lemma finish_fs:
  assumes fs: "fs_ok m T C own n" and h: "host_ok h" and n: "2 \<le> n"
  obtains m' where "rbind (fix_root_size h 1 m) (\<lambda>m. mk_balloc h (mk_freeblock m) m) = Ok m'" "image_done m' T C own n"
proof -
  note inv = fs_okD(1) [OF fs] and i1 = fs_okD(2) [OF fs, of 1, unfolded inode_ok_def]
  have one: "rinode h 1 m = Ok (din_at m 1)" using rinode_ok [OF inv h, of 1] by simp
  have len: "length (din_at m 1) = 64" by (rule length_din_at [OF inv]) simp
  let ?R = "(length (C 1) div BSIZE + 1) * BSIZE" let ?d = "put32 (din_at m 1) 8 (of_nat ?R)"
  have sz: "(din_size (din_at m 1) div of_nat BSIZE + 1) * of_nat BSIZE = (of_nat ?R :: uint32)"
    using i1 n by (simp add: din_size_def word_arith_nat_defs(6) unat_of_nat take_bit_nat_eq_self)
  have inv1: "image_ok m ((din_at m)(1 := ?d)) (\<lambda>j. nb (length (C j))) C own n"
    by (rule image_ok_size) (use inv len in simp_all)
  note w = winode_ok [OF inv1 h, of 1 ?d]
  define m1 where "m1 = m\<lparr>mk_img := (mk_img m)(iblock 1 \<mapsto> blit (img m (iblock 1)) (64 * (1 mod 16)) ?d)\<rparr>"
  note w = w [folded m1_def]
  have fr: "fix_root_size h 1 m = Ok m1" unfolding fix_root_size_def one rbind.simps Let_def sz xint_id using w(1) len by simp
  let ?b = "foldl mk_mark (replicate BSIZE 0) [0..<fb m]"
  define m' where "m' = m1\<lparr>mk_img := (mk_img m1)(45 \<mapsto> ?b)\<rparr>"
  have fb: "fb m1 = fb m" "fb m \<le> 2000" using image_okD(3) [OF inv] by (simp_all add: m1_def)
  have u: "sint (mk_freeblock m1) = int (fb m)" using fb by (subst sint_unat) simp_all
  have u1: "sint (mk_freeblock m1) < int (BSIZE * 8)" unfolding u using fb(2) by linarith
  have u2: "nat (sint (mk_freeblock m1)) = fb m" unfolding u by (rule nat_int)
  have sb: "sb_bmapstart (mk_sb m1) = 45" using w(2) len by (simp add: image_okD(2))
  have bal: "mk_balloc h (mk_freeblock m1) m1 = Ok m'"
    unfolding mk_balloc_def u2 sb using u1 by (simp add: wsect_eq [OF h] m'_def)
  have inv': "image_ok m' ((din_at m)(1 := ?d)) (\<lambda>j. nb (length (C j))) C own n"
    unfolding m'_def by (rule image_ok_low) (use w(2) len length_mk_marks in simp_all)
  have i45: "iblock j \<noteq> 45" "iblock j \<noteq> 1" "iblock j \<noteq> 2" if "j < 200" for j using iblock_range [OF that] by auto
  then have "din_at m' j = din_at m1 j" if "j < 200" for j using that by (simp add: din_at_def m'_def)
  then have din: "din_at m' j = ((din_at m)(1 := ?d)) j" if "j < 200" for j using w(3,4) len that by simp
  have n200: "n \<le> 200" by (rule fs_okD(4) [OF fs])
  have "image_ok m' (din_at m') (\<lambda>j. nb (length (C j))) C own n"
    by (rule image_ok_cong [OF inv']) (use din n200 in auto)
  moreover have "inode_ok (din_at m' j) (T j) (C j)" if "2 \<le> j" "j < n" for j
    using fs_okD(2) [OF fs, of j] din [of j] n200 that by simp
  moreover have "mk_img m' 1 = mk_img m 1" "mk_img m' 2 = mk_img m 2" "img m' 45 = ?b" "fb m' = fb m"
    using i45 [of 1] by (auto simp: m'_def m1_def)
  ultimately have "image_done m' T C own n"
    using din [of 1] i1 n len n200 fs_okD(5,6) [OF fs] by (simp add: image_done_def get16_put32_other)
  then show ?thesis using that bal fr by simp
qed

end
