(* ===== verification/Mkfs_Kernel.thy ===== *)
theory Mkfs_Kernel
  imports Mkfs_Inode
begin

text \<open>
  The image of mkfs as the kernel finds it: the superblock, the inodes with the contents of the files, the root
  directory and the bitmap, and \<open>ilock\<close> and \<open>readi\<close> of the kernel on such a disk.
\<close>

subsection \<open>The run of mkfs\<close>

definition root_data :: "byte list list \<Rightarrow> byte list" where
  "root_data paths = mk_dirent 1 (ascii ''.'' @ [0]) @ mk_dirent 1 (ascii ''..'' @ [0]) @ entries 2 paths"

lemma length_entries: "length (entries n paths) = 16 * length paths"
  by (induction paths arbitrary: n) (simp_all add: entries_Cons entry_name_def, simp add: entries_def)

lemma length_root_data: "length (root_data paths) = 16 * (length paths + 2)"
  by (simp add: root_data_def length_entries ascii_def)

text \<open>The files fit into an image: there are inodes and blocks for all of them and for the root directory.\<close>

definition mkfs_fits :: "host \<Rightarrow> byte list list \<Rightarrow> bool" where
  "mkfs_fits h paths \<longleftrightarrow> files_ok h paths \<and> length paths + 2 \<le> NINODES
     \<and> need (16 * (length paths + 2)) + files_need h paths \<le> FSSIZE - 46"

lemma mkfs_done:
  assumes h: "host_ok h" and fits: "mkfs_fits h paths"
  obtains m T C own where "mkfs h (prog # fsimg # paths) = Ok m" "image_done m T C own (2 + length paths)"
    "C 1 = root_data paths" "T 1 = 1" "\<And>i. i < length paths \<Longrightarrow> C (2 + i) = file_data h (paths ! i) \<and> T (2 + i) = 2"
proof -
  note F = fits [unfolded mkfs_fits_def]
  let ?dot = "mk_dirent 1 (ascii ''.'' @ [0])" and ?dd = "mk_dirent 1 (ascii ''..'' @ [0])"
  have ld: "length ?dot = 16" "length ?dd = 16" by (simp_all add: ascii_def)
  have n32: "need 16 \<le> need 32" "need 32 \<le> need (16 * (length paths + 2))" by (rule need_mono; simp)+
  obtain m0 own0 where 0: "rbind (write_zeroes h [0..<FSSIZE] mkfs_empty) (\<lambda>m. wsect h 1 (blit (replicate BSIZE 0) 0 (sb_bytes (mk_sb m))) m) = Ok m0"
    "fs_ok m0 (\<lambda>_. 0) (\<lambda>_. []) own0 1" "fb m0 = 46" using start_fs [OF h] by blast
  have p: "1 \<le> (1 :: nat)" "(1 :: nat) < 200" "(1 :: nat) < 2" by simp_all
  obtain m1 where 1: "mk_ialloc h 1 m0 = Ok (of_nat 1, m1)" "fs_ok m1 ((\<lambda>_. 0)(1 := 1)) ((\<lambda>_. [])(1 := [])) own0 (1 + 1)" "fb m1 = fb m0"
    using ialloc_fs [OF 0(2) h p(1,2), where t = 1] by blast
  define T1 :: "nat \<Rightarrow> uint16" where "T1 = (\<lambda>_. 0)(1 := 1)"
  define C1 :: "nat \<Rightarrow> byte list" where "C1 = (\<lambda>_. [])(1 := [])"
  note 1 = 1 [folded T1_def C1_def, unfolded 0(3) one_add_one]
  have C1: "C1 1 = []" by (simp add: C1_def)
  obtain m2 own2 where 2: "iappend h (of_nat 1) ?dot m1 = Ok m2" "fs_ok m2 T1 (C1(1 := C1 1 @ ?dot)) own2 2" "fb m2 + need 0 = 46 + need 16"
    using iappend_fs [OF 1(2) h p(1,3), of ?dot, unfolded C1] 1(3) ld n32 F unfolding C1 by (simp del: of_nat_1 fun_upd_apply) blast
  define C2 where "C2 = C1(1 := C1 1 @ ?dot)"
  note 2 = 2 [folded C2_def]
  have C2: "C2 1 = ?dot" by (simp add: C2_def C1_def)
  obtain m3 own3 where 3: "iappend h (of_nat 1) ?dd m2 = Ok m3" "fs_ok m3 T1 (C2(1 := C2 1 @ ?dd)) own3 2" "fb m3 + need 16 = fb m2 + need 32"
    using iappend_fs [OF 2(2) h p(1,3), of ?dd, unfolded C2] 2(3) ld n32 F unfolding C2 by (simp del: of_nat_1 fun_upd_apply) blast
  define C3 where "C3 = C2(1 := C2 1 @ ?dd)"
  note 3 = 3 [folded C3_def]
  have C3: "C3 1 = ?dot @ ?dd" unfolding C3_def C2 by simp
  then have l3: "length (C3 1) = 32" using ld by simp
  have "length paths \<le> 198" "files_ok h paths" using F by simp_all
  then obtain m4 T4 C4 own4 where 4: "mkfs_files h 1 paths m3 = Ok m4" "fs_ok m4 T4 C4 own4 (2 + length paths)"
     "C4 1 = C3 1 @ entries 2 paths" "T4 1 = T1 1" "\<forall>i < length paths. C4 (2 + i) = file_data h (paths ! i) \<and> T4 (2 + i) = 2"
    using mkfs_files_fs [OF 3(2) h, of paths] 3(3) 2(3) l3 F by (auto simp: algebra_simps)
  obtain m5 where 5: "rbind (fix_root_size h 1 m4) (\<lambda>m. mk_balloc h (mk_freeblock m) m) = Ok m5" "image_done m5 T4 C4 own4 (2 + length paths)"
    using finish_fs [OF 4(2) h] by auto
  have "mkfs h (prog # fsimg # paths) = Ok m5"
    using h 0(1) 1(1) 2(1) 3(1) 4(1) 5(1) by (simp add: mkfs_def host_ok_def res_simps) blast
  then show ?thesis using that 5(2) 4(3-5) C3 by (auto simp: root_data_def T1_def)
qed

subsection \<open>The inodes as the kernel reads them\<close>

definition disk_inode :: "mkfs_state \<Rightarrow> nat \<Rightarrow> inode \<Rightarrow> inode" where
  "disk_inode m j ip = get_dinode (img m (IBLOCK (of_nat j) mkfs_sb)) (dinode_off (of_nat j)) ip"

lemma get_of_slice:
  "k + 2 \<le> n \<Longrightarrow> get16 (slice xs i n) k = get16 xs (i + k)" "k + 4 \<le> n \<Longrightarrow> get32 (slice xs i n) k = get32 xs (i + k)"
  by (simp_all add: get16_def get32_def slice_def drop_take min_def add.commute)

lemma disk_inode_sel:
  assumes "j < 200"
  shows "i_type (disk_inode m j ip) = get16 (din_at m j) 0" "i_nlink (disk_inode m j ip) = get16 (din_at m j) 6"
    "i_size (disk_inode m j ip) = get32 (din_at m j) 8" "k \<le> NDIRECT \<Longrightarrow> i_addrs (disk_inode m j ip) ! k = get32 (din_at m j) (12 + 4 * k)"
    "i_dev (disk_inode m j ip) = i_dev ip" "i_ref (disk_inode m j ip) = i_ref ip" "i_inum (disk_inode m j ip) = i_inum ip"
  using assms by (simp_all add: disk_inode_def get_dinode_def IBLOCK_eq din_at_def get_of_slice nth_append add.assoc del: upt_Suc)

lemma disk_inode_blocks:
  assumes "j < 200" "bn < MAXFILE"
  shows "baddr V (disk_inode m j ip) bn = dblk V (din_at m j) bn"
  using assms disk_inode_sel(4) [OF assms(1), of bn m ip] disk_inode_sel(4) [OF assms(1), of 12 m ip]
  by (simp add: baddr_def dblk_def)

lemma baddr_addrs: "i_addrs i = i_addrs i' \<Longrightarrow> baddr V i = baddr V i'"
  by (simp add: baddr_def fun_eq_iff)

lemma data_block:
  assumes "46 \<le> unat (b :: uint32)" "unat b < 2000"
  shows "b \<noteq> 0" "\<not> in_log 2 b" "j < 200 \<Longrightarrow> b \<noteq> iblock j"
proof -
  show "b \<noteq> 0" using assms by auto
  have "unat (b - 2) = unat b - 2" using assms by (subst unat_sub) (simp_all add: word_le_nat_alt)
  then show "\<not> in_log 2 b" using assms by (simp add: in_log_def)
  show "j < 200 \<Longrightarrow> b \<noteq> iblock j" using assms(1) iblock_range [of j] by auto
qed

lemma disk_inode_file:
  assumes inv: "image_ok m D M C own n" and j: "1 \<le> j" "j < n" "n \<le> NINODES" and D: "D j = din_at m j"
  shows "file_ok 2 (img m) (disk_inode m j ip) (iblock j) (M j * BSIZE)"
    "k < M j * BSIZE \<Longrightarrow> fbyte (img m) (disk_inode m j ip) k = (if k < length (C j) then C j ! k else 0)"
    "b < M j \<Longrightarrow> own (baddr (img m) (disk_inode m j ip) b) = Some (j, b)"
proof -
  have j200: "j < 200" using j by simp
  note mp = image_okD(6) [OF inv j(1,2), unfolded D] and hd = image_okD(7) [OF inv j(1,2), unfolded D]
  note M = mappedD(2) [OF mp]
  have ba: "baddr (img m) (disk_inode m j ip) b = dblk (img m) (din_at m j) b" if "b < M j" for b
    by (rule disk_inode_blocks [OF j200]) (use that M in simp)
  show own: "own (baddr (img m) (disk_inode m j ip) b) = Some (j, b)" if "b < M j" for b
    using mappedD(3) [OF mp that] ba [OF that] by simp
  show "fbyte (img m) (disk_inode m j ip) k = (if k < length (C j) then C j ! k else 0)" if "k < M j * BSIZE"
    using hd that ba [OF block_lt [OF that]] by (simp add: holds_def fbyte_def)
  let ?i = "disk_inode m j ip"
  have ind: "i_addrs ?i ! NDIRECT = dind (din_at m j)" using disk_inode_sel(4) [OF j200, of 12 m ip] by simp
  have r: "46 \<le> unat (baddr (img m) ?i b) \<and> unat (baddr (img m) ?i b) < 2000" if "b < M j" for b
    by (rule owned_range [OF inv own [OF that]])
  have "length (img m (baddr (img m) ?i b)) = 1024" if "b < M j" for b
    using image_okD(1) [OF inv] r [OF that] by blast
  moreover have "baddr (img m) ?i b \<noteq> dind (din_at m j)" if "b < M j" for b
  proof (cases "dind (din_at m j) = 0")
    case True
    then show ?thesis using data_block(1) r [OF that] by metis
  next
    case False
    then show ?thesis using mappedD(5) [OF mp] own [OF that] M that by auto
  qed
  moreover have "inj_on (baddr (img m) ?i) {b. b * 1024 < M j * 1024}"
    by (rule inj_onI) (use own in \<open>auto dest!: arg_cong [of _ _ own]\<close>)
  moreover have "dind (din_at m j) \<noteq> iblock j"
  proof (cases "dind (din_at m j) = 0")
    case True
    then show ?thesis using iblock_range [OF j200] by auto
  next
    case False
    then show ?thesis using owned_range [OF inv mappedD(5) [OF mp]] data_block(3) j200 by blast
  qed
  ultimately show "file_ok 2 (img m) ?i (iblock j) (M j * BSIZE)"
    using M data_block r j200 unfolding file_ok_def ind by auto
qed

subsection \<open>Directory entries\<close>

lemma ucast_of_nat: "(ucast (of_nat k :: uint32) :: uint16) = of_nat k"
  by (simp add: word_unat_eq_iff unsigned_ucast_eq unat_of_nat take_bit_eq_mod mod_mod_cancel)

lemma mk_dirent_sel:
  assumes "length nm \<le> DIRSIZ"
  shows "dirent_inum (mk_dirent inum nm) = ucast inum" "length nm = DIRSIZ \<Longrightarrow> dirent_name (mk_dirent inum nm) = nm"
  using assms by (simp_all add: mk_dirent_def dirent_inum_def dirent_name_def get16_def put16_def slice_blit_disjoint)

lemma entries_slot:
  assumes "i < length paths"
  shows "slice (entries n paths) (16 * i) 16 = mk_dirent (of_nat (n + i)) (entry_name (paths ! i))"
  using assms
proof (induction paths arbitrary: n i)
  case (Cons path paths)
  have l: "length (mk_dirent (of_nat n) (entry_name path)) = 16" by (simp add: entry_name_def)
  show ?case
  proof (cases i)
    case 0
    then show ?thesis using l by (simp add: entries_Cons slice_def)
  next
    case (Suc k)
    then have "slice (entries n (path # paths)) (16 * i) 16 = slice (entries (n + 1) paths) (16 * k) 16"
      using l by (simp add: entries_Cons slice_def)
    then show ?thesis using Cons.IH [of k "n + 1"] Cons.prems Suc by simp
  qed
qed simp

lemma root_slot:
  assumes "i < length paths"
  shows "slice (root_data paths) (16 * (2 + i)) 16 = mk_dirent (of_nat (2 + i)) (entry_name (paths ! i))"
proof -
  have "length (mk_dirent 1 (ascii ''.'' @ [0])) = 16" "length (mk_dirent 1 (ascii ''..'' @ [0])) = 16" by (simp_all add: ascii_def)
  then have "slice (root_data paths) (16 * (2 + i)) 16 = slice (entries 2 paths) (16 * i) 16"
    by (simp add: root_data_def slice_def)
  then show ?thesis using entries_slot [OF assms, of 2] by simp
qed

subsection \<open>What the image holds\<close>

lemma image_doneD:
  assumes "image_done m T C own n"
  shows "image_ok m (din_at m) (\<lambda>j. nb (length (C j))) C own n" "2 \<le> j \<Longrightarrow> j < n \<Longrightarrow> inode_ok (din_at m j) (T j) (C j)"
    "get16 (din_at m 1) 0 = T 1" "get16 (din_at m 1) 6 = 1" "get32 (din_at m 1) 8 = of_nat ((length (C 1) div BSIZE + 1) * BSIZE)"
    "n \<le> NINODES" "superblock_of (img m 1) = mkfs_sb" "img m 2 = replicate BSIZE 0"
    "img m 45 = foldl mk_mark (replicate BSIZE 0) [0..<fb m]"
  using assms unfolding image_done_def by auto

lemma nb_covers: "l \<le> nb l * 1024"
proof -
  have "l + 1023 = nb l * 1024 + (l + 1023) mod 1024" by (simp add: nb_def)
  moreover have "(l + 1023) mod 1024 < 1024" by simp
  ultimately show ?thesis by linarith
qed

lemma next_block: "(l :: nat) \<le> (l div 1024 + 1) * 1024"
proof -
  have "a = b * 1024 + c \<Longrightarrow> c < 1024 \<Longrightarrow> a \<le> (b + 1) * 1024" for a b c :: nat by simp
  from this [of l "l div 1024" "l mod 1024"] show ?thesis by simp
qed

lemma disk_inode_data:
  assumes "image_done m T C own n" "1 \<le> j" "j < n"
  shows "map (fbyte (img m) (disk_inode m j ip)) [0..<length (C j)] = C j"
proof -
  note inv = image_doneD(1) [OF assms(1)]
  have "fbyte (img m) (disk_inode m j ip) k = C j ! k" if "k < length (C j)" for k
    using disk_inode_file(2) [OF inv assms(2,3) image_doneD(6) [OF assms(1)] refl, of k ip] nb_covers [of "length (C j)"] that by simp
  then show ?thesis by (auto intro: nth_equalityI)
qed

lemma clear_zero: "D 2 = replicate BSIZE 0 \<Longrightarrow> clear 2 D"
  by (simp add: clear_def head_n_def get32_def eval_nat_numeral(3) numeral_2_eq_2)

text \<open>C6: mkfs writes an image from which the kernel reads back the files. When the files fit, mkfs succeeds; the
  superblock the kernel decodes is the one mkfs computed and the log is empty; the inode of the \<open>i\<close>-th file is a
  file with one link whose size and bytes, through its direct and indirect blocks, are those of the host's file,
  and the entry in the root directory that names it, without \<open>user/\<close> and the underscore, has its number.\<close>

theorem mkfs_image:
  assumes "host_ok h" and "mkfs_fits h paths"
  shows "\<exists>m. mkfs h (prog # fsimg # paths) = Ok m \<and> superblock_of (img m 1) = mkfs_sb \<and> clear 2 (img m)
     \<and> (\<forall>ip. \<forall>i < length paths.
          let f = disk_inode m (2 + i) ip; root = map (fbyte (img m) (disk_inode m 1 ip)) [0..<16 * (length paths + 2)];
              e = slice root (16 * (2 + i)) 16
          in i_type f = 2 \<and> i_nlink f = 1 \<and> map (fbyte (img m) f) [0..<unat (i_size f)] = file_data h (paths ! i)
             \<and> dirent_inum e = of_nat (2 + i) \<and> dirent_name e = entry_name (paths ! i))
     \<and> (\<forall>ip. i_type (disk_inode m 1 ip) = 1 \<and> 16 * (length paths + 2) \<le> unat (i_size (disk_inode m 1 ip)))"
proof -
  obtain m T C own where 1: "mkfs h (prog # fsimg # paths) = Ok m" and d: "image_done m T C own (2 + length paths)"
    and C: "C 1 = root_data paths" "T 1 = 1" "\<And>i. i < length paths \<Longrightarrow> C (2 + i) = file_data h (paths ! i) \<and> T (2 + i) = 2"
    using mkfs_done [OF assms] by metis
  note n200 = image_doneD(6) [OF d]
  have root: "map (fbyte (img m) (disk_inode m 1 ip)) [0..<16 * (length paths + 2)] = root_data paths" for ip
    using disk_inode_data [OF d, of 1 ip, unfolded C(1) length_root_data] by simp
  have f: "i_type (disk_inode m (2 + i) ip) = 2 \<and> i_nlink (disk_inode m (2 + i) ip) = 1 \<and>
      map (fbyte (img m) (disk_inode m (2 + i) ip)) [0..<unat (i_size (disk_inode m (2 + i) ip))] = file_data h (paths ! i)"
    if i: "i < length paths" for i ip
  proof -
    have j: "2 + i < 200" using n200 i by simp
    have ok: "inode_ok (din_at m (2 + i)) 2 (file_data h (paths ! i))" using image_doneD(2) [OF d, of "2 + i"] C(3) [OF i] i by simp
    then have "unat (i_size (disk_inode m (2 + i) ip)) = length (file_data h (paths ! i))"
      using disk_inode_sel(3) [OF j] by (simp add: inode_ok_def)
    then show ?thesis using ok disk_inode_sel(1,2) [OF j, of m ip] disk_inode_data [OF d, of "2 + i" ip] C(3) [OF i] i
      by (simp add: inode_ok_def)
  qed
  have e: "dirent_inum (slice (root_data paths) (16 * (2 + i)) 16) = of_nat (2 + i) \<and>
      dirent_name (slice (root_data paths) (16 * (2 + i)) 16) = entry_name (paths ! i)" if "i < length paths" for i
    unfolding root_slot [OF that] by (simp add: mk_dirent_sel entry_name_def ucast_of_nat del: of_nat_add add_2_eq_Suc)
  have "16 * (length paths + 2) \<le> unat (i_size (disk_inode m 1 ip))" for ip
  proof -
    let ?R = "16 * (length paths + 2)"
    have "?R div 1024 \<le> 3200 div 1024" by (rule div_le_mono) (use n200 in simp)
    then have "unat (i_size (disk_inode m 1 ip)) = (?R div 1024 + 1) * 1024"
      using image_doneD(5) [OF d, unfolded C(1) length_root_data] by (simp add: disk_inode_sel(3) del: of_nat_mult of_nat_add)
    then show ?thesis using next_block [of ?R] by simp
  qed
  moreover have "i_type (disk_inode m 1 ip) = 1" for ip using image_doneD(3) [OF d, unfolded C(2)] by (simp add: disk_inode_sel(1))
  ultimately show ?thesis
    using 1 image_doneD(7) [OF d] clear_zero [of "img m", OF image_doneD(8) [OF d]] f e
    unfolding Let_def by (intro exI [of _ m]) (simp only: root, blast)
qed

text \<open>A host with one file, which two reads return.\<close>

definition demo_host :: host where
  "demo_host = \<lparr>h_create = (\<lambda>_. True), h_sector = (\<lambda>_. True),
     h_file = (\<lambda>path. if path = ascii ''user/_echo'' then Some [ascii ''hel'', ascii ''lo''] else None)\<rparr>"

abbreviation demo_paths :: "byte list list" where
  "demo_paths \<equiv> [ascii ''user/_echo'']"

lemma demo_host_ok:
  "host_ok demo_host" "mkfs_fits demo_host demo_paths" "file_data demo_host (ascii ''user/_echo'') = ascii ''hello''"
  "entry_name (ascii ''user/_echo'') = ascii ''echo'' @ replicate 10 0"
proof -
  show "host_ok demo_host" by (simp add: host_ok_def demo_host_def)
  show f: "file_data demo_host (ascii ''user/_echo'') = ascii ''hello''" by (simp add: file_data_def demo_host_def ascii_def)
  show "entry_name (ascii ''user/_echo'') = ascii ''echo'' @ replicate 10 0"
    by (simp add: entry_name_def mk_shortname_def skip_underscore_def dirname14_def ascii_def)
  have "length (ascii ''hello'') = 5" by (simp add: ascii_def)
  then show "mkfs_fits demo_host demo_paths"
    using f by (simp add: mkfs_fits_def files_ok_def files_need_def need_def nb_def mk_shortname_def)
      (simp add: demo_host_def ascii_def)
qed

theorem mkfs_image_witness:
  "\<exists>m. mkfs demo_host (ascii ''mkfs'' # ascii ''fs.img'' # demo_paths) = Ok m \<and>
     (\<forall>ip. map (fbyte (img m) (disk_inode m 2 ip)) [0..<unat (i_size (disk_inode m 2 ip))] = ascii ''hello'')"
  using mkfs_image [OF demo_host_ok(1,2), of "ascii ''mkfs''" "ascii ''fs.img''"] by (auto simp: Let_def demo_host_ok(3))

subsection \<open>The bitmap\<close>

lemma mkfs_bm_block: "n < 2000 \<Longrightarrow> bm_block n mkfs_sb = 45"
  by (simp add: bm_block_def)

lemma image_free:
  assumes "image_done m T C own n"
  shows "free_blocks mkfs_sb (img m) = {fb m..<2000}" "bitmap_ok 2 mkfs_sb (img m)"
proof -
  note inv = image_doneD(1) [OF assms]
  have fb: "fb m \<le> 2000" "46 \<le> fb m" using image_okD(3,8) [OF inv] by simp_all
  have len: "length (img m 45) = 1024" by (simp add: image_doneD(9) [OF assms] length_mk_marks)
  have "b \<in> free_blocks mkfs_sb (img m) \<longleftrightarrow> b \<in> {fb m..<2000}" for b
    using mk_marks_free [of "fb m" b] fb by (auto simp: free_blocks_def mkfs_bm_block image_doneD(9) [OF assms])
  then show f: "free_blocks mkfs_sb (img m) = {fb m..<2000}" by blast
  have "of_nat b \<noteq> (45 :: uint32) \<and> \<not> in_log 2 (of_nat b)" if "fb m \<le> b" "b < 2000" for b
  proof -
    have u: "unat (of_nat b :: uint32) = b" using that by simp
    have "b \<noteq> unat (45 :: uint32)" using that fb(2) by simp
    then have "of_nat b \<noteq> (45 :: uint32)" using u by metis
    then show ?thesis using data_block(2) [of "of_nat b"] u that fb(2) by simp
  qed
  moreover have "\<not> in_log 2 45" by (simp add: in_log_def)
  ultimately show "bitmap_ok 2 mkfs_sb (img m)"
    using len fb(2) unfolding bitmap_ok_def f by (auto simp: mkfs_bm_block)
qed

text \<open>C20: the bitmap mkfs writes is right. It satisfies what the kernel's allocator relies on; every block of every
  file and of the root directory is marked in use, no block belongs to two of them or to two places of one file,
  and the blocks that are free are those from the first block that was not handed out to the end of the disk.\<close>

theorem mkfs_bitmap:
  assumes "host_ok h" and "mkfs_fits h paths"
  defines "blocks j \<equiv> nb (if j = 1 then 16 * (length paths + 2) else length (file_data h (paths ! (j - 2))))"
  shows "\<exists>m. mkfs h (prog # fsimg # paths) = Ok m \<and> bitmap_ok 2 mkfs_sb (img m)
     \<and> free_blocks mkfs_sb (img m) = {unat (mk_freeblock m)..<2000}
     \<and> (\<forall>j \<in> {1..<2 + length paths}. \<forall>b < blocks j. \<forall>ip.
          unat (baddr (img m) (disk_inode m j ip) b) < unat (mk_freeblock m)
          \<and> (\<forall>j' \<in> {1..<2 + length paths}. \<forall>b' < blocks j'.
               baddr (img m) (disk_inode m j ip) b = baddr (img m) (disk_inode m j' ip) b' \<longrightarrow> j = j' \<and> b = b'))"
proof -
  obtain m T C own where 1: "mkfs h (prog # fsimg # paths) = Ok m" and d: "image_done m T C own (2 + length paths)"
    and C: "C 1 = root_data paths" "T 1 = 1" "\<And>i. i < length paths \<Longrightarrow> C (2 + i) = file_data h (paths ! i) \<and> T (2 + i) = 2"
    using mkfs_done [OF assms(1,2)] by metis
  note inv = image_doneD(1) [OF d]
  have bl: "blocks j = nb (length (C j))" if "1 \<le> j" "j < 2 + length paths" for j
  proof (cases "j = 1")
    case False
    then have "j = 2 + (j - 2)" "j - 2 < length paths" using that by simp_all
    then show ?thesis using C(3) [of "j - 2"] False by (simp add: blocks_def)
  qed (use C(1) in \<open>simp add: blocks_def length_root_data\<close>)
  have own: "own (baddr (img m) (disk_inode m j ip) b) = Some (j, b)" if "1 \<le> j" "j < 2 + length paths" "b < blocks j" for j b ip
    using disk_inode_file(3) [OF inv that(1,2) image_doneD(6) [OF d] refl, of b ip] bl [OF that(1,2)] that(3) by simp
  have lt: "unat (baddr (img m) (disk_inode m j ip) b) < unat (mk_freeblock m)" if "1 \<le> j" "j < 2 + length paths" "b < blocks j" for j b ip
    using own [OF that, of ip] image_okD(4) [OF inv, of "baddr (img m) (disk_inode m j ip) b"] by simp
  have inj: "j = j' \<and> b = b'" if "1 \<le> j" "j < 2 + length paths" "b < blocks j" "1 \<le> j'" "j' < 2 + length paths" "b' < blocks j'"
    "baddr (img m) (disk_inode m j ip) b = baddr (img m) (disk_inode m j' ip) b'" for j b j' b' ip
    using own [OF that(1-3), of ip, unfolded that(7)] own [OF that(4-6), of ip] by simp
  show ?thesis
  proof (intro exI [of _ m] conjI ballI allI impI 1 image_free [OF d])
    fix j b ip
    assume j: "j \<in> {1..<2 + length paths}" "b < blocks j"
    then show "unat (baddr (img m) (disk_inode m j ip) b) < unat (mk_freeblock m)" by (intro lt) simp_all
    fix j' b'
    assume j': "j' \<in> {1..<2 + length paths}" "b' < blocks j'" "baddr (img m) (disk_inode m j ip) b = baddr (img m) (disk_inode m j' ip) b'"
    have "j = j' \<and> b = b'" by (rule inj [OF _ _ j(2) _ _ j'(2,3)]) (use j(1) j'(1) in simp_all)
    then show "j = j'" "b = b'" by simp_all
  qed
qed

theorem mkfs_bitmap_witness:
  "\<exists>m. mkfs demo_host (ascii ''mkfs'' # ascii ''fs.img'' # demo_paths) = Ok m \<and> bitmap_ok 2 mkfs_sb (img m)
     \<and> free_blocks mkfs_sb (img m) = {unat (mk_freeblock m)..<2000}"
  using mkfs_bitmap [OF demo_host_ok(1,2), of "ascii ''mkfs''" "ascii ''fs.img''"] by blast

subsection \<open>The kernel on the image\<close>

lemma file_ok_valid: "file_ok st V (i\<lparr>i_valid := v\<rparr>) ib hi = file_ok st V i ib hi" "fbyte V (i\<lparr>i_valid := v\<rparr>) = fbyte V i"
proof -
  have b: "baddr V (i\<lparr>i_valid := v\<rparr>) = baddr V i" by (rule baddr_addrs) simp
  show "file_ok st V (i\<lparr>i_valid := v\<rparr>) ib hi = file_ok st V i ib hi" by (simp add: file_ok_def b)
  show "fbyte V (i\<lparr>i_valid := v\<rparr>) = fbyte V i" by (simp add: fbyte_def b fun_eq_iff)
qed

lemma part_of_map:
  assumes "map f [0..<l] = c" "length c = l"
  shows "map f [a..<min (a + n) l] = take n (drop a c)"
  unfolding assms(1) [symmetric] by (simp add: drop_map take_map) (simp add: take_upt min_def)

text \<open>C3: the kernel reads from the image what mkfs was given. On a disk that holds the image, inside a transaction
  with the superblock loaded, \<open>ilock\<close> of a fresh entry of the inode table for the \<open>i\<close>-th file loads its inode,
  and \<open>readi\<close> then returns the requested part of the host's file.\<close>

theorem mkfs_kernel_reads:
  fixes s :: "('z) fs_state_scheme"
  assumes "host_ok h" and "mkfs_fits h paths" and "mkfs h (prog # fsimg # paths) = Ok m" and "i < length paths"
    and "tx p s" and "txview s = img m" and "sb s = mkfs_sb" and "i_dev (itable s ip) = log_dev (log_st s)"
    and "1 \<le> i_ref (itable s ip)" and "i_valid (itable s ip) = 0" and "sl_locked (sleeplocks s (InodeSleep ip)) = 0"
    and "i_inum (itable s ip) = of_nat (2 + i)" and "unat off + unat n < 2 ^ 32"
  defines "part \<equiv> take (unat n) (drop (unat off) (file_data h (paths ! i)))"
  shows "\<exists>s1 s2. ilock (Some ip) s = Ok s1 \<and> readi ip DLocal off n s1 = Ok ((int (length part), part), s2)"
proof -
  obtain m' T C own where m': "mkfs h (prog # fsimg # paths) = Ok m'" and d: "image_done m' T C own (2 + length paths)"
    and C: "\<And>i. i < length paths \<Longrightarrow> C (2 + i) = file_data h (paths ! i) \<and> T (2 + i) = 2"
    by (rule mkfs_done [OF assms(1,2), of prog fsimg]) blast
  have "m' = m" using m' assms(3) by simp
  note d = d [unfolded this]
  let ?j = "2 + i" and ?c = "file_data h (paths ! i)"
  have j: "1 \<le> ?j" "?j < 2 + length paths" "?j < 200" "C ?j = ?c" using assms(4) image_doneD(6) [OF d] C by simp_all
  let ?i = "disk_inode m ?j (itable s ip)"
  note inv = image_doneD(1) [OF d]
  have ok: "inode_ok (din_at m ?j) 2 ?c" using image_doneD(2) [OF d _ j(2)] C [OF assms(4)] by simp
  have sel: "i_type ?i = 2" "unat (i_size ?i) = length ?c"
    using ok disk_inode_sel(1,3) [OF j(3), of m "itable s ip"] by (simp_all add: inode_ok_def)
  have i: "?i = get_dinode (txview s (iblk ip s)) (ioff ip s) (itable s ip)"
    unfolding disk_inode_def iblk_def ioff_def assms(6,7,12) by (rule refl)
  obtain s1 where s1: "ilock (Some ip) s = Ok s1" "tx p s1" "txview s1 = txview s" "log_st s1 = log_st s"
    "itable s1 = (itable s)(ip := ?i\<lparr>i_valid := 1\<rparr>)"
    using ilock_loads [OF assms(5,8-11) i] sel(1) by auto
  have it: "itable s1 ip = ?i\<lparr>i_valid := 1\<rparr>" using s1(5) by simp
  have f: "file_ok 2 (txview s1) (itable s1 ip) (iblock ?j) (nb (length ?c) * BSIZE)"
    using disk_inode_file(1) [OF inv j(1,2) image_doneD(6) [OF d] refl, of "itable s ip"] s1(3) assms(6) j(4)
    by (simp add: it file_ok_valid)
  have dev: "i_dev (itable s1 ip) = log_dev (log_st s1)" using assms(8) s1(4) disk_inode_sel(5) [OF j(3), of m "itable s ip"] by (simp add: it)
  have sz: "unat (i_size (itable s1 ip)) = length ?c" using sel(2) by (simp add: it)
  have bytes: "map (fbyte (txview s1) (itable s1 ip)) [0..<length ?c] = ?c"
    using disk_inode_data [OF d j(1,2), of "itable s ip"] s1(3) assms(6) j(4) by (simp add: it file_ok_valid)
  have pt: "map (fbyte (txview s1) (itable s1 ip)) [unat off..<min (unat off + unat n) (length ?c)] = part"
    unfolding part_def by (rule part_of_map [OF bytes refl])
  then have "length part = min (unat off + unat n) (length ?c) - unat off" by (metis length_map length_upt)
  then show ?thesis using readi_local [OF s1(2) dev assms(13) f] sz nb_covers [of "length ?c"] pt s1(1) by auto
qed

text \<open>A kernel that has just started on the image, with an entry of the inode table for the first file.\<close>

definition demo_kernel :: "mkfs_state \<Rightarrow> fs_state" where
  "demo_kernel m = binit (demo_fs\<lparr>disk := img m, itable := (\<lambda>_. \<lparr>i_dev = 1, i_inum = 2, i_ref = 1, i_valid = 0, i_type = 0,
     i_major = 0, i_minor = 0, i_nlink = 0, i_size = 0, i_addrs = []\<rparr>)\<rparr>)"

lemma binit_inode_locks:
  fixes s :: "('z) bio_state_scheme"
  shows "sleeplocks (binit s) (InodeSleep ip) = sleeplocks s (InodeSleep ip)"
proof -
  have "sleeplocks (binit_loop bs s) (InodeSleep ip) = sleeplocks s (InodeSleep ip)" for bs and s :: "'z bio_state_scheme"
    by (induction bs arbitrary: s) (simp_all add: binit_loop.simps Let_def initsleeplock_def upd_slk_def upd_buf_def initlock_def)
  then show ?thesis by (simp add: binit_def Let_def upd_buf_def initlock_def)
qed

lemma demo_kernel_sel:
  assumes "clear 2 (img m)"
  shows "tx 0 (demo_kernel m)" "txview (demo_kernel m) = img m" "log_st (demo_kernel m) = log_st demo_log" "sb (demo_kernel m) = mkfs_sb"
    "itable (demo_kernel m) ip = \<lparr>i_dev = 1, i_inum = 2, i_ref = 1, i_valid = 0, i_type = 0,
       i_major = 0, i_minor = 0, i_nlink = 0, i_size = 0, i_addrs = []\<rparr>"
    "sl_locked (sleeplocks (demo_kernel m) (InodeSleep ip)) = 0"
proof -
  let ?s = "demo_fs\<lparr>disk := img m, itable := (\<lambda>_. \<lparr>i_dev = 1, i_inum = 2, i_ref = 1, i_valid = 0, i_type = 0,
     i_major = 0, i_minor = 0, i_nlink = 0, i_size = 0, i_addrs = []\<rparr>)\<rparr>"
  have run: "running 0 ?s" using demo_fs_sel(1) by (simp add: running_def quiet_def unheld_def curproc_def mycpu_def)
  have cold: "b_dev (bufs ?s b) = 0 \<and> b_refcnt (bufs ?s b) = 0" for b by (simp add: demo_fs_sel demo_bio_cold)
  have c: "clear (log_start (log_st ?s)) (disk ?s)" using assms by (simp add: demo_fs_sel demo_log_sel)
  note T = tx_binit [OF run cold _ _ _ c, folded demo_kernel_def]
  show "tx 0 (demo_kernel m)" by (rule T) (simp_all add: demo_fs_sel demo_log_sel)
  show "txview (demo_kernel m) = img m" by (subst T) (simp_all add: demo_fs_sel demo_log_sel)
  show "log_st (demo_kernel m) = log_st demo_log" by (subst T) (simp_all add: demo_fs_sel demo_log_sel)
  have "log_state.more (demo_kernel m) = log_state.more ?s" by (rule T) (simp_all add: demo_fs_sel demo_log_sel)
  from more_fs [OF this] show "sb (demo_kernel m) = mkfs_sb" "itable (demo_kernel m) ip = \<lparr>i_dev = 1, i_inum = 2, i_ref = 1, i_valid = 0,
     i_type = 0, i_major = 0, i_minor = 0, i_nlink = 0, i_size = 0, i_addrs = []\<rparr>" by (simp_all add: demo_fs_sel mkfs_sb_def)
  show "sl_locked (sleeplocks (demo_kernel m) (InodeSleep ip)) = 0"
    by (simp add: demo_kernel_def binit_inode_locks) (simp add: demo_fs_def demo_log_def demo_bio_def demo_con_def
      log_state.defs bio_state.defs con_state.defs demo_defs)
qed

theorem mkfs_kernel_reads_witness:
  "\<exists>m s1 s2. mkfs demo_host (ascii ''mkfs'' # ascii ''fs.img'' # demo_paths) = Ok m \<and>
     ilock (Some 0) (demo_kernel m) = Ok s1 \<and> readi 0 DLocal 1 3 s1 = Ok ((3, ascii ''ell''), s2)"
proof -
  obtain m T C own where m: "mkfs demo_host (ascii ''mkfs'' # ascii ''fs.img'' # demo_paths) = Ok m" "image_done m T C own (2 + length demo_paths)"
    by (rule mkfs_done [OF demo_host_ok(1,2)])
  note k = demo_kernel_sel [where m = m, OF clear_zero [of "img m", OF image_doneD(8) [OF m(2)]]]
  have "take 3 (drop 1 (ascii ''hello'')) = ascii ''ell''" "length (ascii ''ell'') = 3" by (simp_all add: ascii_def)
  then show ?thesis
    using mkfs_kernel_reads [OF demo_host_ok(1,2) m(1), of 0 0 "demo_kernel m" 0 1 3] k m(1)
    by (auto simp: demo_host_ok(3) demo_log_sel)
qed

subsection \<open>The size of the root directory\<close>

text \<open>C35: mkfs rounds the size of the root directory up to the next block even when its last block is full. With 62
  files, or 64 more, the size of the directory covers a block that was never allocated.\<close>

theorem mkfs_root_hole:
  assumes "host_ok h" and "mkfs_fits h paths" and "length paths + 2 = q * 64"
  shows "\<exists>m. mkfs h (prog # fsimg # paths) = Ok m \<and>
     (\<forall>ip. q * BSIZE < unat (i_size (disk_inode m 1 ip)) \<and> baddr (img m) (disk_inode m 1 ip) q = 0)"
proof -
  obtain m T C own where 1: "mkfs h (prog # fsimg # paths) = Ok m" and d: "image_done m T C own (2 + length paths)"
    and C: "C 1 = root_data paths" by (rule mkfs_done [OF assms(1,2), of prog fsimg])
  have len: "length (C 1) = q * 1024" using C assms(3) by (simp add: length_root_data)
  have q200: "q * 64 \<le> 200" using assms(3) image_doneD(6) [OF d] by simp
  have "unat (i_size (disk_inode m 1 ip)) = (q + 1) * 1024" for ip
    using image_doneD(5) [OF d, unfolded len] q200 by (simp add: disk_inode_sel(3) del: of_nat_mult of_nat_add)
  moreover have "dblk (img m) (din_at m 1) q = 0"
    using mappedD(4) [OF image_okD(6) [OF image_doneD(1) [OF d], of 1], of q] len nb_whole [of q] q200 by simp
  ultimately show ?thesis using 1 disk_inode_blocks [of 1 q "img m" m] q200 by auto
qed

theorem mkfs_root_hole_witness:
  "\<exists>m. mkfs \<lparr>h_create = (\<lambda>_. True), h_sector = (\<lambda>_. True), h_file = (\<lambda>_. Some [])\<rparr>
       (ascii ''mkfs'' # ascii ''fs.img'' # replicate 62 (ascii ''f'')) = Ok m \<and>
     (\<forall>ip. 1024 < unat (i_size (disk_inode m 1 ip)) \<and> baddr (img m) (disk_inode m 1 ip) 1 = 0)"
proof -
  let ?h = "\<lparr>h_create = (\<lambda>_. True), h_sector = (\<lambda>_. True), h_file = (\<lambda>_. Some [])\<rparr>"
  have "host_ok ?h" by (simp add: host_ok_def)
  moreover have "mkfs_fits ?h (replicate 62 (ascii ''f''))"
    by (simp add: mkfs_fits_def files_ok_def files_need_def file_data_def mk_shortname_def need_def nb_def sum_list_replicate ascii_def)
  ultimately show ?thesis using mkfs_root_hole [of ?h "replicate 62 (ascii ''f'')" 1] by simp
qed

end
