(* ===== verification/Sched.thy ===== *)
theory Sched
  imports Proc
begin

text \<open>
  The scheduler of src/kernel/proc.c over whole rounds of the process table, and the handshake of \<open>sleep\<close>
  and \<open>wakeup\<close> between two CPUs.

  What a process does between the \<open>swtch\<close> into it and the \<open>swtch\<close> back is an argument \<open>run\<close> of the
  scheduler: it takes the state in which the scheduler leaves for process \<open>p\<close> to the state in which
  \<open>sched\<close>, called by this process, leaves for the scheduler. \<open>time_slices\<close> says what the scheduler relies
  on: \<open>sched\<close> comes back with the lock of the process, and with this lock only (\<open>sched\<close> panics otherwise);
  and a process that was runnable is still runnable, since nobody but the scheduler of this CPU takes it.
\<close>

subsection \<open>Rounds of the scheduler\<close>

fun scheduler_loop :: "(nat \<Rightarrow> 'z proc_state_scheme \<Rightarrow> 'z proc_state_scheme) \<Rightarrow> nat list \<Rightarrow> ('z) proc_state_scheme \<Rightarrow>
    ('z proc_state_scheme, nat list \<times> 'z proc_state_scheme) res" where
  "scheduler_loop run [] s = Ok ([], s)"
| "scheduler_loop run (p # ps) s =
     rbind (acquire (ProcLock p) s) (\<lambda>s.
     if p_state (procs s p) = RUNNABLE then
       (let s = upd_proc p (\<lambda>q. q\<lparr>p_state := RUNNING\<rparr>) s;
            s = set_cpu_proc (Some p) s;
            s = run p s;
            s = set_cpu_proc None s
        in rbind (release (ProcLock p) s) (\<lambda>s. rbind (scheduler_loop run ps s) (\<lambda>(tr, s). Ok (p # tr, s))))
     else rbind (release (ProcLock p) s) (\<lambda>s. scheduler_loop run ps s))"

text \<open>\<open>scheduler_rounds\<close> is \<open>n\<close> rounds of the endless loop; its result lists, for each round, the processes it ran.\<close>

fun scheduler_rounds :: "(nat \<Rightarrow> 'z proc_state_scheme \<Rightarrow> 'z proc_state_scheme) \<Rightarrow> nat \<Rightarrow> ('z) proc_state_scheme \<Rightarrow>
    ('z proc_state_scheme, nat list list \<times> 'z proc_state_scheme) res" where
  "scheduler_rounds run 0 s = Ok ([], s)"
| "scheduler_rounds run (Suc n) s =
     rbind (scheduler_loop run [0..<NPROC] (intr_on s)) (\<lambda>(tr, s).
     rbind (scheduler_rounds run n s) (\<lambda>(trs, s). Ok (tr # trs, s)))"

definition scheduler :: "(nat \<Rightarrow> 'z proc_state_scheme \<Rightarrow> 'z proc_state_scheme) \<Rightarrow> nat \<Rightarrow> ('z) proc_state_scheme \<Rightarrow>
    ('z proc_state_scheme, nat list list \<times> 'z proc_state_scheme) res" where
  "scheduler run n s = scheduler_rounds run n (scheduler_start s)"

text \<open>The scheduler between two processes, the state it leaves in, and the state \<open>sched\<close> comes back in.\<close>

definition between :: "('z) proc_state_scheme \<Rightarrow> bool" where
  "between s \<longleftrightarrow> c_noff (mycpu s) = 0 \<and> (\<forall>q. unheld (ProcLock q) s)"

definition dispatched :: "nat \<Rightarrow> ('z) proc_state_scheme \<Rightarrow> ('z) proc_state_scheme" where
  "dispatched p s = set_cpu_proc (Some p) (upd_proc p (\<lambda>q. q\<lparr>p_state := RUNNING\<rparr>) s)"

abbreviation runnable :: "('z) proc_state_scheme \<Rightarrow> nat \<Rightarrow> bool" where
  "runnable s q \<equiv> p_state (procs s q) = RUNNABLE"

definition comes_back :: "nat \<Rightarrow> ('z) proc_state_scheme \<Rightarrow> ('z) proc_state_scheme \<Rightarrow> bool" where
  "comes_back p s t \<longleftrightarrow> (\<exists>u. t = acquired (ProcLock p) u \<and> quiet u \<and> between u \<and>
     (\<forall>q. q \<noteq> p \<longrightarrow> runnable s q \<longrightarrow> runnable u q))"

definition time_slices :: "(nat \<Rightarrow> 'z proc_state_scheme \<Rightarrow> 'z proc_state_scheme) \<Rightarrow> bool" where
  "time_slices run \<longleftrightarrow> (\<forall>p s. quiet s \<longrightarrow> between s \<longrightarrow> comes_back p s (run p (acquired (ProcLock p) (dispatched p s))))"

text \<open>The value \<open>intena\<close> has outside every critical section does not matter.\<close>

lemma acquired_settled:
  assumes "c_noff (mycpu s) = 0"
  obtains t where "acquired lk s = acquired lk t" "quiet t" "c_noff (mycpu t) = 0" "locks t = locks s"
    "machine.more t = machine.more s"
proof
  let ?t = "set_mycpu ((mycpu s)\<lparr>c_intena := c_intr (mycpu s)\<rparr>) s"
  show "acquired lk s = acquired lk ?t" using assms by (simp add: acquired_def push_off_eq set_mycpu_def mycpu_def)
  show "quiet ?t" "c_noff (mycpu ?t) = 0" "locks ?t = locks s" "machine.more ?t = machine.more s"
    using assms by (simp_all add: quiet_def)
qed

lemma procs_more: "machine.more s = machine.more t \<Longrightarrow> procs s = procs (t :: ('z) proc_state_scheme)"
  by (cases s, cases t) simp

lemma between_settled:
  fixes s :: "('z) proc_state_scheme"
  assumes "between s"
  obtains t where "acquired (ProcLock p) s = acquired (ProcLock p) t" "quiet t" "between t" "procs t = procs s"
proof -
  obtain t where t: "acquired (ProcLock p) s = acquired (ProcLock p) t" "quiet t" "c_noff (mycpu t) = 0" "locks t = locks s"
      "machine.more t = machine.more s"
    using assms acquired_settled [of s "ProcLock p"] by (auto simp: between_def)
  then show ?thesis using that [of t] assms procs_more [OF t(5)] by (simp add: between_def unheld_def)
qed

lemma set_cpu_proc_acquired [lock_simps]: "set_cpu_proc p (acquired lk s) = acquired lk (set_cpu_proc p s)"
  by (cases s; cases "mycpu s") (simp add: set_cpu_proc_def set_mycpu_def acquired_def push_off_eq mycpu_def)

lemma set_cpu_proc_lock_simps [lock_simps]:
  "unheld lk (set_cpu_proc p s) = unheld lk s"
  "quiet (set_cpu_proc p s) = quiet s" "c_noff (mycpu (set_cpu_proc p s)) = c_noff (mycpu s)"
  by (simp_all add: set_cpu_proc_def set_mycpu_def mycpu_def unheld_def quiet_def)

lemma procs_set_cpu_proc [simp]: "procs (set_cpu_proc p s) = procs s"
  by (simp add: set_cpu_proc_def set_mycpu_def)

lemma between_simps [simp]: "between (set_cpu_proc p s) = between s" "between (intr_on s) = between s"
  by (simp_all add: between_def lock_simps) (simp add: intr_on_def unheld_def)

lemma scheduler_loop_runs:
  assumes "between s" "time_slices run" "sorted_wrt (<) ps"
  shows "\<exists>tr s'. scheduler_loop run ps s = Ok (tr, s') \<and> between s' \<and> sorted_wrt (<) tr \<and> set tr \<subseteq> set ps
     \<and> (\<forall>q \<in> set ps. runnable s q \<longrightarrow> q \<in> set tr) \<and> (\<forall>q. q \<notin> set tr \<longrightarrow> runnable s q \<longrightarrow> runnable s' q)"
  using assms(1,3)
proof (induction ps arbitrary: s)
  case Nil
  then show ?case by simp
next
  case (Cons p ps)
  obtain t where t: "acquired (ProcLock p) s = acquired (ProcLock p) t" "quiet t" "between t" "procs t = procs s"
    using between_settled [OF Cons.prems(1)] .
  have unh: "unheld (ProcLock p) s" "unheld (ProcLock p) t" using Cons.prems(1) t(3) by (auto simp: between_def)
  have srt: "sorted_wrt (<) ps" "\<forall>q \<in> set ps. p < q" using Cons.prems(2) by auto
  show ?case
  proof (cases "runnable s p")
    case False
    then have "scheduler_loop run (p # ps) s = scheduler_loop run ps t"
      using unh t by (simp add: lock_simps)
    then show ?thesis using Cons.IH [OF t(3) srt(1)] False t(4) by fastforce
  next
    case True
    obtain u where u: "run p (acquired (ProcLock p) (dispatched p t)) = acquired (ProcLock p) u" "quiet u" "between u"
        "\<forall>q. q \<noteq> p \<longrightarrow> runnable t q \<longrightarrow> runnable u q"
      using assms(2) [unfolded time_slices_def comes_back_def, rule_format, OF t(2,3), of p] by blast
    let ?u = "set_cpu_proc None u"
    have "release (ProcLock p) (acquired (ProcLock p) ?u) = Ok ?u"
      using u(2,3) by (intro release_acquired_same) (simp_all add: lock_simps between_def)
    then have step: "scheduler_loop run (p # ps) s = rbind (scheduler_loop run ps ?u) (\<lambda>(tr, s). Ok (p # tr, s))"
      using unh t True u(1) by (simp add: lock_simps Let_def dispatched_def)
    have "between ?u" using u(3) by simp
    from Cons.IH [OF this srt(1)] obtain tr s' where r: "scheduler_loop run ps ?u = Ok (tr, s')" "between s'"
        "sorted_wrt (<) tr" "set tr \<subseteq> set ps" "\<forall>q \<in> set ps. runnable u q \<longrightarrow> q \<in> set tr"
        "\<forall>q. q \<notin> set tr \<longrightarrow> runnable u q \<longrightarrow> runnable s' q"
      by auto
    then show ?thesis using step srt(2) u(4) t(4) by (intro exI [of _ "p # tr"] exI [of _ s']) auto
  qed
qed

text \<open>A process that leaves the CPU runnable whenever it runs is runnable at the end of every round.\<close>

definition stays_runnable :: "nat \<Rightarrow> (nat \<Rightarrow> 'z proc_state_scheme \<Rightarrow> 'z proc_state_scheme) \<Rightarrow> bool" where
  "stays_runnable q run \<longleftrightarrow> (\<forall>s. quiet s \<longrightarrow> between s \<longrightarrow> runnable (run q (acquired (ProcLock q) (dispatched q s))) q)"

lemma scheduler_loop_keeps:
  assumes "between s" "time_slices run" "stays_runnable q run" "runnable s q" "scheduler_loop run ps s = Ok (tr, s')"
  shows "runnable s' q"
  using assms(1,4,5)
proof (induction ps arbitrary: s tr)
  case Nil
  then show ?case by simp
next
  case (Cons p ps)
  obtain t where t: "acquired (ProcLock p) s = acquired (ProcLock p) t" "quiet t" "between t" "procs t = procs s"
    using between_settled [OF Cons.prems(1)] .
  have unh: "unheld (ProcLock p) s" "unheld (ProcLock p) t" using Cons.prems(1) t(3) by (auto simp: between_def)
  show ?case
  proof (cases "runnable s p")
    case False
    then have "scheduler_loop run (p # ps) s = scheduler_loop run ps t" using unh t by (simp add: lock_simps)
    then show ?thesis using Cons.IH [OF t(3)] Cons.prems(2,3) t(4) by simp
  next
    case True
    obtain u where u: "run p (acquired (ProcLock p) (dispatched p t)) = acquired (ProcLock p) u" "quiet u" "between u"
        "\<forall>q. q \<noteq> p \<longrightarrow> runnable t q \<longrightarrow> runnable u q"
      using assms(2) [unfolded time_slices_def comes_back_def, rule_format, OF t(2,3), of p] by blast
    have "runnable u q"
      using assms(3) [unfolded stays_runnable_def, rule_format, OF t(2,3)] u(1,4) Cons.prems(2) t(4)
      by (cases "q = p") (simp_all add: lock_simps)
    moreover have "release (ProcLock p) (acquired (ProcLock p) (set_cpu_proc None u)) = Ok (set_cpu_proc None u)"
      using u(2,3) by (intro release_acquired_same) (simp_all add: lock_simps between_def)
    then obtain tr' where "scheduler_loop run ps (set_cpu_proc None u) = Ok (tr', s')"
      using Cons.prems(3) unh t True u(1) by (auto simp: lock_simps Let_def dispatched_def res_simps)
    ultimately show ?thesis using Cons.IH [of "set_cpu_proc None u"] u(3) by simp
  qed
qed

lemma scheduler_rounds_run:
  assumes "between s" "time_slices run" "q < NPROC" "runnable s q" "stays_runnable q run"
  shows "\<exists>trs s'. scheduler_rounds run n s = Ok (trs, s') \<and> length trs = n
     \<and> (\<forall>tr \<in> set trs. sorted_wrt (<) tr \<and> set tr \<subseteq> {..<NPROC} \<and> q \<in> set tr)"
  using assms(1,4)
proof (induction n arbitrary: s)
  case 0
  then show ?case by simp
next
  case (Suc n)
  have i: "between (intr_on s)" "procs (intr_on s) = procs s" using Suc.prems(1) by simp_all (simp add: intr_on_def set_mycpu_def)
  obtain tr s' where r: "scheduler_loop run [0..<NPROC] (intr_on s) = Ok (tr, s')" "between s'" "sorted_wrt (<) tr"
      "set tr \<subseteq> {..<NPROC}" "q \<in> set tr"
    using scheduler_loop_runs [OF i(1) assms(2), of "[0..<NPROC]"] i(2) assms(3) Suc.prems(2)
    by (auto simp: atLeast0LessThan simp del: upt_Suc)
  have "runnable s' q" using scheduler_loop_keeps [OF i(1) assms(2,5) _ r(1)] i(2) Suc.prems(2) by simp
  from Suc.IH [OF r(2) this] r show ?case by auto
qed

subsection \<open>Properties\<close>

text \<open>C8: no process starves. On one CPU, and for any processes that come back to the scheduler, the scheduler
  never gets stuck: every round ends, in it the processes run in the order of the table and each at most
  once, and a process that is runnable and gives the CPU back without sleeping runs in every round.\<close>

theorem scheduler_no_starvation:
  fixes s :: "('z) proc_state_scheme"
  assumes "between s" and "time_slices run" and "q < NPROC" and "runnable s q" and "stays_runnable q run"
  shows "\<exists>trs s'. scheduler run n s = Ok (trs, s') \<and> length trs = n
     \<and> (\<forall>tr \<in> set trs. sorted_wrt (<) tr \<and> set tr \<subseteq> {..<NPROC} \<and> q \<in> set tr)"
proof -
  have "between (scheduler_start s)" "procs (scheduler_start s) = procs s"
    using assms(1) by (simp_all add: scheduler_start_def)
  then show ?thesis using scheduler_rounds_run [OF _ assms(2,3) _ assms(5)] assms(4) by (simp add: scheduler_def)
qed

text \<open>A process that does nothing but \<open>yield\<close>: it comes back from \<open>sched\<close> in its last call of \<open>yield\<close>,
  and calls \<open>yield\<close> again.\<close>

definition yields :: "nat \<Rightarrow> ('z) proc_state_scheme \<Rightarrow> ('z) proc_state_scheme" where
  "yields p s = (case yield_resume p True s of Ok t \<Rightarrow> (case yield t of Slept u \<Rightarrow> u | _ \<Rightarrow> t) | _ \<Rightarrow> s)"

lemma sched_resume_acquired:
  assumes "c_noff (mycpu s) = 0"
  shows "sched_resume b (acquired lk s) = acquired lk (set_mycpu ((mycpu s)\<lparr>c_intr := b, c_intena := b\<rparr>) s)"
  using assms by (cases s; cases "mycpu s") (simp add: sched_resume_def set_mycpu_def acquired_def push_off_eq mycpu_def)

lemma yields_eq:
  fixes s :: "('z) proc_state_scheme"
  assumes "quiet s" "between s"
  shows "\<exists>u. yields p (acquired (ProcLock p) (dispatched p s)) = acquired (ProcLock p) u \<and> quiet u \<and> between u
     \<and> procs u = (procs s)(p := (procs s p)\<lparr>p_state := RUNNABLE\<rparr>)"
proof -
  define t where "t = set_mycpu ((mycpu (dispatched p s))\<lparr>c_intr := True, c_intena := True\<rparr>) (dispatched p s)"
  have n: "c_noff (mycpu (dispatched p s)) = 0" using assms by (simp add: dispatched_def lock_simps between_def)
  have t: "quiet t" "between t" "curproc t = Some p" "procs t = (procs s)(p := (procs s p)\<lparr>p_state := RUNNING\<rparr>)"
    using assms n by (simp_all add: t_def between_def quiet_def curproc_def unheld_def)
      (simp_all add: dispatched_def set_cpu_proc_def upd_proc_def set_mycpu_def mycpu_def)
  have "yield_resume p True (acquired (ProcLock p) (dispatched p s)) = Ok t"
    using t(1,2) by (simp add: yield_resume_def sched_resume_acquired [OF n] t_def [symmetric] release_acquired_same between_def)
  moreover have "yield t = Slept (acquired (ProcLock p) (upd_proc p (\<lambda>q. q\<lparr>p_state := RUNNABLE\<rparr>) t))"
    using t sched_eq [of "upd_proc p (\<lambda>q. q\<lparr>p_state := RUNNABLE\<rparr>) t" p]
    by (simp add: yield_def lock_simps deref_def between_def) (simp add: upd_proc_def)
  ultimately show ?thesis
    using t by (intro exI [of _ "upd_proc p (\<lambda>q. q\<lparr>p_state := RUNNABLE\<rparr>) t"])
      (simp add: yields_def lock_simps between_def, simp add: upd_proc_def)
qed

lemma yields_slices:
  "time_slices yields" "stays_runnable q (yields :: nat \<Rightarrow> 'z proc_state_scheme \<Rightarrow> 'z proc_state_scheme)"
proof -
  show "time_slices yields" using yields_eq by (fastforce simp: time_slices_def comes_back_def)
  have "runnable (yields q (acquired (ProcLock q) (dispatched q s))) q" if "quiet s" "between s" for s :: "'z proc_state_scheme"
    using yields_eq [OF that, of q] by (auto simp: lock_simps)
  then show "stays_runnable q (yields :: nat \<Rightarrow> 'z proc_state_scheme \<Rightarrow> 'z proc_state_scheme)"
    by (simp add: stays_runnable_def)
qed

definition demo_sched :: proc_state where
  "demo_sched = vm_state.extend (kmem_state.extend (machine.extend boot_machine \<lparr>freelist = 0\<rparr>) \<lparr>kernel_pagetable = 0, satp = (\<lambda>_. 0)\<rparr>)
     \<lparr>procs = (\<lambda>q. \<lparr>p_state = (if q = 1 \<or> q = 7 then RUNNABLE else UNUSED), p_chan = None, p_killed = 0, p_xstate = 0,
        p_pid = int q, p_parent = None, p_kstack = 0, p_sz = 0, p_pagetable = 0, p_trapframe = 0,
        p_context = \<lparr>ctx_ra = 0, ctx_sp = 0, ctx_s = []\<rparr>, p_ofile = [], p_cwd = None, p_name = []\<rparr>),
      nextpid = 8, initproc = Some 1, forkret_pc = 0\<rparr>"

theorem scheduler_no_starvation_witness:
  "\<exists>trs s'. scheduler yields 3 demo_sched = Ok (trs, s') \<and> length trs = 3 \<and> (\<forall>tr \<in> set trs. 7 \<in> set tr)"
proof -
  have "between demo_sched" "runnable demo_sched 7"
    by (simp_all add: demo_sched_def between_def unheld_def mycpu_def boot_machine_def idle_cpu_def
      machine.defs kmem_state.defs vm_state.defs)
  from scheduler_no_starvation [OF this(1) yields_slices(1) _ this(2) yields_slices(2), of 3] show ?thesis by (auto simp: NPROC_def)
qed

subsection \<open>Sleep and wakeup on two CPUs\<close>

text \<open>
  Process \<open>p\<close> waits, on one CPU, for a condition that lock \<open>lk\<close> protects; code on another CPU makes the
  condition true and calls \<open>wakeup\<close> on the channel \<open>ch\<close>. The two run interleaved, each step one action of
  \<open>sleep\<close>, of the scheduler that \<open>sched\<close> switches to, or of \<open>wakeup\<close> at process \<open>p\<close>; what other CPUs do
  (\<open>other\<close>) leaves the two locks, the process and the condition alone.
\<close>

datatype spc = Testing | Checked | Giving | Released | Marked | Off | Awake

datatype wpc = Before | Locked | Told | Looking | Looked | Leaving | After

record handshake =
  h_st :: proc_state
  h_cond :: bool
  h_s :: spc
  h_w :: wpc

definition at_cpu :: "nat \<Rightarrow> proc_state \<Rightarrow> proc_state" where
  "at_cpu i s = s\<lparr>tp := i\<rparr>"

inductive hand_step :: "nat \<Rightarrow> chan \<Rightarrow> lock \<Rightarrow> handshake \<Rightarrow> handshake \<Rightarrow> bool" for p ch lk where
  s_lock: "h_s c = Testing \<Longrightarrow> acquire lk (at_cpu i (h_st c)) = Ok s \<Longrightarrow>
     hand_step p ch lk c (c\<lparr>h_st := s, h_s := (if h_cond c then Awake else Checked)\<rparr>)"
| s_proc: "h_s c = Checked \<Longrightarrow> acquire (ProcLock p) (at_cpu i (h_st c)) = Ok s \<Longrightarrow>
     hand_step p ch lk c (c\<lparr>h_st := s, h_s := Giving\<rparr>)"
| s_release: "h_s c = Giving \<Longrightarrow> release lk (at_cpu i (h_st c)) = Ok s \<Longrightarrow>
     hand_step p ch lk c (c\<lparr>h_st := s, h_s := Released\<rparr>)"
| s_mark: "h_s c = Released \<Longrightarrow>
     hand_step p ch lk c (c\<lparr>h_st := sleeping p ch (at_cpu i (h_st c)), h_s := Marked\<rparr>)"
| s_off: "h_s c = Marked \<Longrightarrow> release (ProcLock p) (at_cpu i (h_st c)) = Ok s \<Longrightarrow>
     hand_step p ch lk c (c\<lparr>h_st := s, h_s := Off\<rparr>)"
| w_lock: "h_w c = Before \<Longrightarrow> acquire lk (at_cpu j (h_st c)) = Ok s \<Longrightarrow>
     hand_step p ch lk c (c\<lparr>h_st := s, h_w := Locked\<rparr>)"
| w_tell: "h_w c = Locked \<Longrightarrow> hand_step p ch lk c (c\<lparr>h_cond := True, h_w := Told\<rparr>)"
| w_proc: "h_w c = Told \<Longrightarrow> acquire (ProcLock p) (at_cpu j (h_st c)) = Ok s \<Longrightarrow>
     hand_step p ch lk c (c\<lparr>h_st := s, h_w := Looking\<rparr>)"
| w_wake: "h_w c = Looking \<Longrightarrow>
     hand_step p ch lk c (c\<lparr>h_st := (if p_state (procs (h_st c) p) = SLEEPING \<and> p_chan (procs (h_st c) p) = Some ch
         then upd_proc p (\<lambda>q. q\<lparr>p_state := RUNNABLE\<rparr>) (at_cpu j (h_st c)) else h_st c), h_w := Looked\<rparr>)"
| w_unproc: "h_w c = Looked \<Longrightarrow> release (ProcLock p) (at_cpu j (h_st c)) = Ok s \<Longrightarrow>
     hand_step p ch lk c (c\<lparr>h_st := s, h_w := Leaving\<rparr>)"
| w_unlock: "h_w c = Leaving \<Longrightarrow> release lk (at_cpu j (h_st c)) = Ok s \<Longrightarrow>
     hand_step p ch lk c (c\<lparr>h_st := s, h_w := After\<rparr>)"
| other: "locks s lk = locks (h_st c) lk \<Longrightarrow> locks s (ProcLock p) = locks (h_st c) (ProcLock p) \<Longrightarrow>
     procs s p = procs (h_st c) p \<Longrightarrow> hand_step p ch lk c (c\<lparr>h_st := s\<rparr>)"

inductive hand_reachable :: "nat \<Rightarrow> chan \<Rightarrow> lock \<Rightarrow> handshake \<Rightarrow> bool" for p ch lk where
  start: "h_s c = Testing \<Longrightarrow> h_w c = Before \<Longrightarrow> \<not> h_cond c \<Longrightarrow> p_state (procs (h_st c) p) = RUNNING \<Longrightarrow>
     unheld lk (h_st c) \<Longrightarrow> unheld (ProcLock p) (h_st c) \<Longrightarrow> hand_reachable p ch lk c"
| step: "hand_reachable p ch lk c \<Longrightarrow> hand_step p ch lk c d \<Longrightarrow> hand_reachable p ch lk d"

lemma acquire_OkD:
  fixes s :: "('z) proc_state_scheme"
  assumes "acquire lk s = Ok t"
  shows "lk_locked (locks s lk) = 0 \<and> lk_locked (locks t lk) \<noteq> 0 \<and> (\<forall>lk'. lk' \<noteq> lk \<longrightarrow> locks t lk' = locks s lk')
     \<and> procs t = procs s"
  using assms by (auto simp: acquire_def Let_def push_off_eq split: if_splits)

lemma release_OkD:
  fixes s :: "('z) proc_state_scheme"
  assumes "release lk s = Ok t"
  shows "lk_locked (locks t lk) = 0 \<and> (\<forall>lk'. lk' \<noteq> lk \<longrightarrow> locks t lk' = locks s lk') \<and> procs t = procs s"
  using assms by (auto simp: release_def pop_off_def Let_def intr_on_def set_mycpu_def split: if_splits)

lemma at_cpu_simps [simp]: "locks (at_cpu i s) = locks s" "procs (at_cpu i s) = procs s"
  by (simp_all add: at_cpu_def)

text \<open>Who has the lock of the condition, and who the lock of the process.\<close>

definition s_lk :: "spc \<Rightarrow> bool" where "s_lk x \<longleftrightarrow> x \<in> {Checked, Giving, Awake}"
definition s_pl :: "spc \<Rightarrow> bool" where "s_pl x \<longleftrightarrow> x \<in> {Giving, Released, Marked}"
definition w_lk :: "wpc \<Rightarrow> bool" where "w_lk x \<longleftrightarrow> x \<in> {Locked, Told, Looking, Looked, Leaving}"
definition w_pl :: "wpc \<Rightarrow> bool" where "w_pl x \<longleftrightarrow> x \<in> {Looking, Looked}"

lemmas pc_defs = s_lk_def s_pl_def w_lk_def w_pl_def

definition hand_inv :: "nat \<Rightarrow> chan \<Rightarrow> lock \<Rightarrow> handshake \<Rightarrow> bool" where
  "hand_inv p ch lk c \<longleftrightarrow>
     (lk_locked (locks (h_st c) lk) \<noteq> 0 \<longleftrightarrow> s_lk (h_s c) \<or> w_lk (h_w c)) \<and> \<not> (s_lk (h_s c) \<and> w_lk (h_w c)) \<and>
     (lk_locked (locks (h_st c) (ProcLock p)) \<noteq> 0 \<longleftrightarrow> s_pl (h_s c) \<or> w_pl (h_w c)) \<and> \<not> (s_pl (h_s c) \<and> w_pl (h_w c)) \<and>
     (h_cond c \<longleftrightarrow> h_w c \<notin> {Before, Locked}) \<and>
     (h_s c \<in> {Checked, Giving} \<longrightarrow> \<not> h_cond c) \<and>
     (h_s c \<in> {Testing, Checked, Giving, Released, Awake} \<longrightarrow> p_state (procs (h_st c) p) = RUNNING) \<and>
     (h_s c \<in> {Released, Marked} \<longrightarrow> h_w c \<in> {Before, Locked, Told}) \<and>
     (h_s c \<in> {Marked, Off} \<longrightarrow> (if h_w c \<in> {Before, Locked, Told, Looking}
        then p_state (procs (h_st c) p) = SLEEPING \<and> p_chan (procs (h_st c) p) = Some ch
        else p_state (procs (h_st c) p) = RUNNABLE))"

lemma hand_inv_step:
  assumes "hand_step p ch lk c d" "hand_inv p ch lk c" "lk \<noteq> ProcLock p"
  shows "hand_inv p ch lk d"
proof -
  note inv = assms(2) [unfolded hand_inv_def]
  note defs = hand_inv_def pc_defs sleeping_def upd_proc_def
  from assms(1) show ?thesis
  proof (cases rule: hand_step.cases)
    case (s_lock i s)
    then show ?thesis using inv assms(3) acquire_OkD [OF s_lock(3)] by (cases "h_w c") (auto simp: defs)
  next
    case (s_proc i s)
    then show ?thesis using inv assms(3) acquire_OkD [OF s_proc(3)] by (cases "h_w c") (auto simp: defs)
  next
    case (s_release i s)
    then show ?thesis using inv assms(3) release_OkD [OF s_release(3)] by (cases "h_w c") (auto simp: defs)
  next
    case (s_mark i)
    then show ?thesis using inv by (cases "h_w c") (auto simp: defs)
  next
    case (s_off i s)
    then show ?thesis using inv assms(3) release_OkD [OF s_off(3)] by (cases "h_w c") (auto simp: defs)
  next
    case (w_lock j s)
    then show ?thesis using inv assms(3) acquire_OkD [OF w_lock(3)] by (cases "h_s c") (auto simp: defs)
  next
    case w_tell
    then show ?thesis using inv by (cases "h_s c") (auto simp: defs)
  next
    case (w_proc j s)
    then show ?thesis using inv assms(3) acquire_OkD [OF w_proc(3)] by (cases "h_s c") (auto simp: defs)
  next
    case (w_wake j)
    then show ?thesis using inv by (cases "h_s c") (auto simp: defs)
  next
    case (w_unproc j s)
    then show ?thesis using inv assms(3) release_OkD [OF w_unproc(3)] by (cases "h_s c") (auto simp: defs)
  next
    case (w_unlock j s)
    then show ?thesis using inv assms(3) release_OkD [OF w_unlock(3)] by (cases "h_s c") (auto simp: defs)
  next
    case (other s)
    then have "hand_inv p ch lk d = hand_inv p ch lk c" unfolding hand_inv_def by simp
    then show ?thesis using assms(2) by simp
  qed
qed

lemma hand_reachable_inv: "hand_reachable p ch lk c \<Longrightarrow> lk \<noteq> ProcLock p \<Longrightarrow> hand_inv p ch lk c"
proof (induction rule: hand_reachable.induct)
  case (start c)
  then show ?case by (simp add: hand_inv_def pc_defs unheld_def)
next
  case (step c d)
  then show ?case using hand_inv_step [OF step.hyps(2)] by simp
qed

text \<open>C7: no wakeup is lost. Whatever the interleaving of a process that finds a condition false and goes to
  sleep with a CPU that makes the condition true and calls \<open>wakeup\<close>: once the CPU has returned from
  \<open>wakeup\<close>, the process is either awake or runnable; it is not left asleep.\<close>

theorem no_lost_wakeup:
  assumes "hand_reachable p ch lk c" and "lk \<noteq> ProcLock p" and "h_w c \<in> {Leaving, After}"
  shows "h_cond c \<and> p_state (procs (h_st c) p) \<noteq> SLEEPING \<and> (h_s c = Off \<longrightarrow> runnable (h_st c) p)"
  using hand_reachable_inv [OF assms(1,2)] assms(3) unfolding hand_inv_def
  by (cases "h_w c"; cases "h_s c") (simp_all add: pc_defs)

text \<open>A run in which the process goes to sleep first.\<close>

lemma demo_handshake:
  fixes s :: proc_state and ch :: chan
  assumes q: "quiet s" and u: "unheld lk s" "unheld (ProcLock p) s" and l: "lk \<noteq> ProcLock p" and t: "tp s = 0"
    and r: "p_state (procs s p) = RUNNING"
  defines "s2 \<equiv> upd_proc p (\<lambda>q. q\<lparr>p_state := RUNNABLE\<rparr>) (sleeping p ch s)"
  shows "hand_reachable p ch lk \<lparr>h_st = s2, h_cond = True, h_s = Off, h_w = After\<rparr>"
proof -
  let ?P = "ProcLock p" and ?s1 = "sleeping p ch s"
  let ?go = "hand_reachable p ch lk"
  have at [simp]: "at_cpu 0 x = x" if "tp x = 0" for x using that by (simp add: at_cpu_def)
  have tp: "tp ?s1 = 0" "tp s2 = 0" using t by (simp_all add: s2_def sleeping_def upd_proc_def)
  note u' = u l l [symmetric] q t tp
  have 0: "?go \<lparr>h_st = s, h_cond = False, h_s = Testing, h_w = Before\<rparr>" using u r by (intro hand_reachable.start) simp_all
  have 1: "?go \<lparr>h_st = acquired lk s, h_cond = False, h_s = Checked, h_w = Before\<rparr>"
    using hand_reachable.step [OF 0 hand_step.s_lock [of _ lk 0 "acquired lk s"]] u' by simp
  have 2: "?go \<lparr>h_st = acquired ?P (acquired lk s), h_cond = False, h_s = Giving, h_w = Before\<rparr>"
    using hand_reachable.step [OF 1 hand_step.s_proc [of _ p 0 "acquired ?P (acquired lk s)"]] u' by simp
  have 3: "?go \<lparr>h_st = acquired ?P s, h_cond = False, h_s = Released, h_w = Before\<rparr>"
    using hand_reachable.step [OF 2 hand_step.s_release [of _ lk 0 "acquired ?P s"]] u' by (simp add: release_acquired_inner)
  have 4: "?go \<lparr>h_st = acquired ?P ?s1, h_cond = False, h_s = Marked, h_w = Before\<rparr>"
    using hand_reachable.step [OF 3 hand_step.s_mark [of _ _ _ _ 0]] u' by (simp add: lock_simps)
  have 5: "?go \<lparr>h_st = ?s1, h_cond = False, h_s = Off, h_w = Before\<rparr>"
    using hand_reachable.step [OF 4 hand_step.s_off [of _ p 0 ?s1]] u' by (simp add: lock_simps)
  have 6: "?go \<lparr>h_st = acquired lk ?s1, h_cond = False, h_s = Off, h_w = Locked\<rparr>"
    using hand_reachable.step [OF 5 hand_step.w_lock [of _ lk 0 "acquired lk ?s1"]] u' by (simp add: lock_simps)
  have 7: "?go \<lparr>h_st = acquired lk ?s1, h_cond = True, h_s = Off, h_w = Told\<rparr>"
    using hand_reachable.step [OF 6 hand_step.w_tell] by simp
  have 8: "?go \<lparr>h_st = acquired ?P (acquired lk ?s1), h_cond = True, h_s = Off, h_w = Looking\<rparr>"
    using hand_reachable.step [OF 7 hand_step.w_proc [of _ p 0 "acquired ?P (acquired lk ?s1)"]] u' by (simp add: lock_simps)
  have 9: "?go \<lparr>h_st = acquired ?P (acquired lk s2), h_cond = True, h_s = Off, h_w = Looked\<rparr>"
    using hand_reachable.step [OF 8 hand_step.w_wake [of _ p ch lk 0]] u'
    by (simp add: lock_simps s2_def) (simp add: sleeping_def upd_proc_def lock_simps)
  have 10: "?go \<lparr>h_st = acquired lk s2, h_cond = True, h_s = Off, h_w = Leaving\<rparr>"
    using hand_reachable.step [OF 9 hand_step.w_unproc [of _ p 0 "acquired lk s2"]] u' by (simp add: lock_simps s2_def)
  show ?thesis
    using hand_reachable.step [OF 10 hand_step.w_unlock [of _ lk 0 s2]] u' by (simp add: lock_simps s2_def)
qed

theorem no_lost_wakeup_witness:
  "\<exists>c. hand_reachable 1 TicksChan TicksLock c \<and> h_w c = After \<and> h_s c = Off \<and> runnable (h_st c) 1"
proof -
  let ?s = "upd_proc 1 (\<lambda>q. q\<lparr>p_state := RUNNING\<rparr>) demo_sched"
  have "quiet ?s" "unheld lk ?s" "tp ?s = 0" "p_state (procs ?s 1) = RUNNING" for lk
    by (simp_all add: demo_sched_def upd_proc_def quiet_def unheld_def mycpu_def boot_machine_def idle_cpu_def
      machine.defs kmem_state.defs vm_state.defs)
  then have c: "hand_reachable 1 TicksChan TicksLock
      \<lparr>h_st = upd_proc 1 (\<lambda>q. q\<lparr>p_state := RUNNABLE\<rparr>) (sleeping 1 TicksChan ?s), h_cond = True, h_s = Off, h_w = After\<rparr>"
    (is "hand_reachable _ _ _ ?c") by (intro demo_handshake) simp_all
  then show ?thesis using no_lost_wakeup [OF c] by (intro exI [of _ ?c]) simp
qed

end
