(* ===== verification/Pipe.thy ===== *)
theory Pipe
  imports File
begin

text \<open>
  What a pipe promises: the bytes written are read in the order in which they were written, none lost
  and none duplicated. The ring of a pipe, with its counters that wrap around, is a queue of at most
  512 bytes; \<open>pipewrite\<close> appends to it what is in the memory of the writer, and \<open>piperead\<close> moves
  its front to the memory of the reader.
\<close>

subsection \<open>The queue\<close>

definition pipe_queue :: "pipe \<Rightarrow> byte list" where
  "pipe_queue x = ring PIPESIZE (pi_data x) (unat (pi_nread x)) (unat (pi_nwrite x - pi_nread x))"

definition pipe_wf :: "pipe \<Rightarrow> bool" where
  "pipe_wf x \<longleftrightarrow> length (pi_data x) = PIPESIZE \<and> unat (pi_nwrite x - pi_nread x) \<le> PIPESIZE"

lemma length_pipe_queue: "length (pipe_queue x) = unat (pi_nwrite x - pi_nread x)"
  by (simp add: pipe_queue_def ring_def)

lemma pipe_queue_Nil: "pipe_queue x = [] \<longleftrightarrow> pi_nread x = pi_nwrite x"
  using length_pipe_queue [of x] by (auto simp: unat_eq_0 simp flip: length_0_conv)

lemma unat_add_mod512:
  fixes r x :: uint32
  shows "unat (r + x) mod 512 = (unat r + unat x) mod 512"
  by (simp add: unat_word_ariths mod_mod_cancel)

definition pipe_push :: "byte \<Rightarrow> pipe \<Rightarrow> pipe" where
  "pipe_push c x = x\<lparr>pi_data := (pi_data x)[unat (pi_nwrite x) mod PIPESIZE := c], pi_nwrite := pi_nwrite x + 1\<rparr>"

lemma pipe_push_fields [simp]:
  "pi_readopen (pipe_push c x) = pi_readopen x" "pi_writeopen (pipe_push c x) = pi_writeopen x"
  "pi_nread (pipe_push c x) = pi_nread x"
  by (simp_all add: pipe_push_def)

text \<open>The test of \<open>pipewrite\<close> for a full pipe.\<close>

lemma pipe_full:
  assumes "pipe_wf x"
  shows "pi_nwrite x = pi_nread x + of_nat PIPESIZE \<longleftrightarrow> length (pipe_queue x) = PIPESIZE"
proof
  assume "length (pipe_queue x) = PIPESIZE"
  then have "pi_nwrite x - pi_nread x = of_nat PIPESIZE" unfolding length_pipe_queue by (metis word_of_nat_eq_iff unsigned_of_nat word_unat_eq_iff of_nat_unat ucast_id)
  then show "pi_nwrite x = pi_nread x + of_nat PIPESIZE" by (simp add: algebra_simps)
qed (simp add: length_pipe_queue)

lemma pipe_push_queue:
  assumes "pipe_wf x" and "length (pipe_queue x) < PIPESIZE"
  shows "pipe_queue (pipe_push c x) = pipe_queue x @ [c]" "pipe_wf (pipe_push c x)"
proof -
  define d where "d = pi_nwrite x - pi_nread x"
  have w: "pi_nwrite x = pi_nread x + d" by (simp add: d_def)
  have n: "unat d < 512" using assms(2) by (simp add: length_pipe_queue d_def)
  have "unat (d + 1) = Suc (unat d)" using n by (simp add: unat_word_ariths)
  moreover have "pi_nwrite x + 1 - pi_nread x = d + 1" by (simp add: w)
  ultimately show "pipe_queue (pipe_push c x) = pipe_queue x @ [c]" "pipe_wf (pipe_push c x)"
    using ring_push [OF n, of "pi_data x" "unat (pi_nread x)" c] assms(1) n unat_add_mod512 [of "pi_nread x" d]
    by (simp_all add: pipe_push_def pipe_queue_def pipe_wf_def w)
qed

lemma pipe_pop_queue:
  assumes "pipe_wf x" and "pi_nread x \<noteq> pi_nwrite x"
  shows "pipe_queue x = pi_data x ! (unat (pi_nread x) mod PIPESIZE) # pipe_queue (x\<lparr>pi_nread := pi_nread x + 1\<rparr>)"
    "pipe_wf (x\<lparr>pi_nread := pi_nread x + 1\<rparr>)"
proof -
  note d = unat_dist_Suc [OF assms(2) [symmetric]]
  have "ring 512 buf (unat (pi_nread x + 1)) n = ring 512 buf (Suc (unat (pi_nread x))) n" for buf :: "byte list" and n
    using unat_add_mod512 [of "pi_nread x" 1] ring_mod [of 512] by (metis Suc_eq_plus1 unat_1)
  then show "pipe_queue x = pi_data x ! (unat (pi_nread x) mod PIPESIZE) # pipe_queue (x\<lparr>pi_nread := pi_nread x + 1\<rparr>)"
    unfolding pipe_queue_def d by (simp add: ring_pop)
  show "pipe_wf (x\<lparr>pi_nread := pi_nread x + 1\<rparr>)" using assms(1) d by (simp add: pipe_wf_def)
qed

subsection \<open>Locks and memory\<close>

lemma file_lock_simps [lock_simps]:
  "pipes (acquired lk s) = pipes s" "ftable (acquired lk s) = ftable s"
  "(acquired lk s)\<lparr>pipes := x\<rparr> = acquired lk (s\<lparr>pipes := x\<rparr>)"
  "(acquired lk s)\<lparr>ftable := f\<rparr> = acquired lk (s\<lparr>ftable := f\<rparr>)"
  "unheld lk (s\<lparr>pipes := x\<rparr>) = unheld lk s" "unheld lk (s\<lparr>ftable := f\<rparr>) = unheld lk s"
  "quiet (s\<lparr>pipes := x\<rparr>) = quiet s" "quiet (s\<lparr>ftable := f\<rparr>) = quiet s"
  "curproc (s\<lparr>pipes := x\<rparr>) = curproc s" "curproc (s\<lparr>ftable := f\<rparr>) = curproc s"
  by (simp_all add: acquired_upd unheld_def quiet_def mycpu_def curproc_def)

lemma upd_pipe_lock_simps [lock_simps]:
  "upd_pipe a g (acquired lk s) = acquired lk (upd_pipe a g s)"
  "unheld lk (upd_pipe a g s) = unheld lk s" "quiet (upd_pipe a g s) = quiet s" "curproc (upd_pipe a g s) = curproc s"
  by (simp_all add: upd_pipe_def lock_simps)

lemma upd_pipe_fields [simp]:
  "procs (upd_pipe a g s) = procs s" "mem (upd_pipe a g s) = mem s" "freelist (upd_pipe a g s) = freelist s"
  "kend (upd_pipe a g s) = kend s" "pipes (upd_pipe a g s) = (pipes s)(a := g (pipes s a))"
  "mycpu (upd_pipe a g s) = mycpu s" "running p (upd_pipe a g s) = running p s"
  by (simp_all add: upd_pipe_def mycpu_def running_def lock_simps)

lemma mycpu_woken_on: "mycpu (woken_on ch ps s) = mycpu s"
  by (simp add: woken_on_def mycpu_def)

lemma killed_eq: "quiet s \<Longrightarrow> unheld (ProcLock p) s \<Longrightarrow> killed p s = Ok (p_killed (procs s p), s)"
  by (simp add: killed_def lock_simps Let_def)

lemma pt_inv_cong:
  assumes "mem t = mem s" "freelist t = freelist s" "kend t = kend s" "unheld KmemLock t" "quiet t"
  shows "pt_inv s l pt ps \<Longrightarrow> pt_inv t l pt ps"
  using assms by (auto simp: pt_inv_def kmem_inv_def ram_page_def)

lemma user_cong:
  assumes m: "mem t = mem s"
  shows "upa t pt va = upa s pt va" "ubyte t pt va = ubyte s pt va" "urange t pt va n = urange s pt va n"
    "uok t pt va n = uok s pt va n" "phys t pt va = phys s pt va"
proof -
  show u: "upa t pt va = upa s pt va" for va by (simp add: upa_def m)
  show b: "ubyte t pt va = ubyte s pt va" for va by (simp add: ubyte_def m u)
  show "urange t pt va n = urange s pt va n" "uok t pt va n = uok s pt va n" "phys t pt va = phys s pt va"
    by (simp_all add: urange_def uok_def phys_def u b)
qed

lemma urange_Suc: "urange s pt va (Suc n) = ubyte s pt va # urange s pt (va + 1) n"
  by (simp add: urange_def upt_conv_Cons map_Suc_upt [symmetric] add.assoc del: upt_Suc)

lemma copyin_byte:
  assumes "pt_inv s 2 pt ps" and "upa s pt va \<noteq> 0"
  shows "copyin pt va 1 s = Ok (0, [ubyte s pt va])"
  using copyin_spec [OF assms(1), of va 1] assms(2) by (simp add: uok_def urange_def)

subsection \<open>Writing\<close>

lemma pipewrite_loop_spec:
  fixes s :: "('z) file_state_scheme"
  assumes run: "running p s" and intr: "c_noff (mycpu s) = 0" and inv: "pt_inv s 2 (p_pagetable (procs s p)) ps"
    and ok: "\<forall>j < k. upa s (p_pagetable (procs s p)) (ad + of_nat (i + j)) \<noteq> 0"
    and wf: "pipe_wf (pipes s a)" and op: "pi_readopen (pipes s a)" "p_killed (procs s p) = 0"
  shows "\<exists>x. pipe_wf x \<and> pi_readopen x \<and> pi_writeopen x = pi_writeopen (pipes s a) \<and>
     (let room = PIPESIZE - length (pipe_queue (pipes s a));
          s' = woken (PipeReadChan a) (upd_pipe a (\<lambda>_. x) s)
      in pipe_queue x = pipe_queue (pipes s a) @ urange s (p_pagetable (procs s p)) (ad + of_nat i) (min room k) \<and>
         pipewrite_loop a p ad (int i) k (acquired (PipeLock a) s) =
           (if k \<le> room then Ok (int (i + k), s')
            else Slept (acquired (ProcLock p) (sleeping p (PipeWriteChan a) s'))))"
  using run intr inv ok wf op
proof (induction k arbitrary: i s)
  case 0
  have "pipewrite_loop a p ad (int i) 0 (acquired (PipeLock a) s) = Ok (int i, woken (PipeReadChan a) s)"
    using runningD [OF 0(1)] by (simp add: wakeup_eq lock_simps)
  moreover have "upd_pipe a (\<lambda>_. pipes s a) s = s" by (simp add: upd_pipe_def)
  ultimately show ?case using 0 by (intro exI [of _ "pipes s a"]) (simp add: urange_def)
next
  case (Suc k)
  note R = runningD [OF Suc.prems(1)]
  let ?pt = "p_pagetable (procs s p)" and ?L = "acquired (PipeLock a)"
  have kd: "killed p (?L s) = Ok (0, ?L s)" using R Suc.prems by (simp add: killed_eq lock_simps)
  show ?case
  proof (cases "length (pipe_queue (pipes s a)) = PIPESIZE")
    case True
    have "pipewrite_loop a p ad (int i) (Suc k) (?L s) =
        Slept (acquired (ProcLock p) (sleeping p (PipeWriteChan a) (woken (PipeReadChan a) s)))"
      using R Suc.prems kd True pipe_full [OF Suc.prems(5)]
      by (simp add: lock_simps wakeup_eq sleep_eq mycpu_woken_on)
    moreover have "upd_pipe a (\<lambda>_. pipes s a) s = s" by (simp add: upd_pipe_def)
    ultimately show ?thesis using Suc.prems True
      by (intro exI [of _ "pipes s a"]) (simp add: urange_def del: pipewrite_loop.simps)
  next
    case False
    then have lt: "length (pipe_queue (pipes s a)) < PIPESIZE" using Suc.prems(5) by (simp add: length_pipe_queue pipe_wf_def)
    let ?c = "ubyte s ?pt (ad + of_nat i)"
    let ?t = "upd_pipe a (pipe_push ?c) s"
    have step: "pipewrite_loop a p ad (int i) (Suc k) (?L s) = pipewrite_loop a p ad (int (Suc i)) k (?L ?t)"
    proof -
      have "upa s ?pt (ad + of_nat i) \<noteq> 0" using Suc.prems(4) [rule_format, of 0] by simp
      then have "copyin ?pt (ad + of_nat i) 1 (?L s) = Ok (0, [?c])"
        using copyin_byte [of "?L s" ?pt ps "ad + of_nat i"] Suc.prems R
        by (simp add: pt_inv_cong [of "?L s" s] user_cong [of "?L s" s] lock_simps)
      then show ?thesis using Suc.prems kd lt pipe_full [OF Suc.prems(5)] 
        by (simp add: lock_simps pipe_push_def [abs_def] add.commute [of 1])
    qed
    note push = pipe_push_queue [OF Suc.prems(5) lt, of ?c]
    have ok: "\<forall>j < k. upa ?t (p_pagetable (procs ?t p)) (ad + of_nat (Suc i + j)) \<noteq> 0"
    proof (intro allI impI)
      fix j assume "j < k"
      then have "upa s ?pt (ad + of_nat (i + Suc j)) \<noteq> 0" using Suc.prems(4) by blast
      then show "upa ?t (p_pagetable (procs ?t p)) (ad + of_nat (Suc i + j)) \<noteq> 0" by (simp add: user_cong [of ?t s])
    qed
    have inv: "pt_inv ?t 2 (p_pagetable (procs ?t p)) ps"
      using Suc.prems(3) R by (simp add: pt_inv_cong [of ?t s] lock_simps)
    let ?room = "PIPESIZE - length (pipe_queue (pipes s a))"
    have room: "PIPESIZE - length (pipe_queue (pipes ?t a)) = ?room - 1" "0 < ?room" using push lt by simp_all
    have range: "urange s ?pt (ad + of_nat i) (min ?room (Suc k)) = ?c # urange ?t ?pt (ad + of_nat (Suc i)) (min (?room - 1) k)"
      using room(2) by (cases ?room) (simp_all add: urange_Suc user_cong [of ?t s] ac_simps)
    have twice: "upd_pipe a (\<lambda>_. x) ?t = upd_pipe a (\<lambda>_. x) s" for x by (simp add: upd_pipe_def)
    have le: "Suc k \<le> ?room \<longleftrightarrow> k \<le> ?room - 1" using room(2) by linarith
    obtain x where "pipe_wf x" "pi_readopen x" "pi_writeopen x = pi_writeopen (pipes s a)"
      "pipe_queue x = pipe_queue (pipes ?t a) @ urange ?t ?pt (ad + of_nat (Suc i)) (min (?room - 1) k)"
      "pipewrite_loop a p ad (int (Suc i)) k (?L ?t) =
           (if k \<le> ?room - 1 then Ok (int (Suc i + k), woken (PipeReadChan a) (upd_pipe a (\<lambda>_. x) s))
            else Slept (acquired (ProcLock p) (sleeping p (PipeWriteChan a) (woken (PipeReadChan a) (upd_pipe a (\<lambda>_. x) s)))))"
      using Suc.IH [of ?t "Suc i", OF _ _ inv ok] Suc.prems push unfolding Let_def room(1) twice
      by (auto simp del: pipewrite_loop.simps)
    then show ?thesis unfolding step Let_def range le
      by (intro exI [of _ x]) (use push in \<open>simp del: pipewrite_loop.simps\<close>)
  qed
qed

subsection \<open>Reading\<close>

text \<open>A range of user memory that can be written without touching a page table or the free list, and in
  which no two addresses are the same byte.\<close>

definition user_buffer :: "('z) kmem_state_scheme \<Rightarrow> addr \<Rightarrow> addr list \<Rightarrow> uint64 \<Rightarrow> nat \<Rightarrow> bool" where
  "user_buffer s pt ps va n \<longleftrightarrow> pt_inv s 2 pt ps \<and> uok s pt va n \<and> inj_on (phys s pt) (addrs va n) \<and> n \<le> 2 ^ 63 \<and>
     (\<forall>x \<in> addrs va n. upa s pt x \<notin> tables s pt \<and> upa s pt x \<notin> set ps)"

lemma copyout_only_mem: "copyout pt va bs s = Ok (r, s') \<Longrightarrow> s' = s\<lparr>mem := mem s'\<rparr>"
proof (induction pt va bs s rule: copyout.induct)
  case (1 pt va bs s)
  show ?case
  proof (cases "bs = []")
    case False
    obtain pa where pa: "walkaddr pt (PGROUNDDOWN va) s = Ok pa"
      using 1(2) False by (cases "walkaddr pt (PGROUNDDOWN va) s") (auto simp: copyout.simps [of pt va])
    show ?thesis
    proof (cases "pa = 0")
      case True
      then show ?thesis using 1(2) False pa by (auto simp: copyout.simps [of pt va])
    next
      case nz: False
      let ?n = "min (to_page_end va) (length bs)"
      let ?s = "s\<lparr>mem := mem_write (mem s) (pa + (va - PGROUNDDOWN va)) (take ?n bs)\<rparr>"
      have "copyout pt (PGROUNDDOWN va + PGSIZE) (drop ?n bs) ?s = Ok (r, s')"
        using 1(2) False pa nz by (simp add: copyout.simps [of pt va] Let_def)
      from 1(1) [OF _ refl pa nz refl refl this] show ?thesis using False by simp
    qed
  qed (use 1 in \<open>simp add: copyout.simps [of pt va]\<close>)
qed

lemma user_buffer_cong:
  assumes "mem t = mem s" "freelist t = freelist s" "kend t = kend s" "unheld KmemLock t" "quiet t"
  shows "user_buffer s pt ps va n \<Longrightarrow> user_buffer t pt ps va n"
  using pt_inv_cong [OF assms, of 2 pt ps] user_cong [OF assms(1)] assms(1)
  by (auto simp: user_buffer_def inj_on_def)

lemma addrs_Suc: "addrs va (Suc n) = insert va (addrs (va + 1) n)"
  by (auto simp: addrs_def lessThan_Suc_eq_insert_0 image_image add.assoc)

lemma addrs_0 [simp]: "addrs va 0 = {}"
  by (simp add: addrs_def)

lemma addrs_tail:
  assumes "n < 2 ^ 63" and "x \<in> addrs (va + 1) n"
  shows "x \<noteq> va"
proof
  assume "x = va"
  then obtain i where i: "i < n" "va = va + 1 + of_nat i" using assms(2) by (auto simp: addrs_def)
  then have "(of_nat (Suc i) :: uint64) = 0" by (simp add: add.assoc)
  moreover have "unat (of_nat (Suc i) :: uint64) = Suc i" using i(1) assms(1) by (intro unat_of_nat64) simp
  ultimately show False by simp
qed

text \<open>Storing one byte of the buffer leaves a buffer of the rest.\<close>

lemma copyout_byte:
  assumes ub: "user_buffer s pt ps va (Suc n)"
  shows "\<exists>s'. copyout pt va [c] s = Ok (0, s') \<and> s' = s\<lparr>mem := mem s'\<rparr> \<and> mem s' = (mem s)(phys s pt va := c)
     \<and> user_buffer s' pt ps (va + 1) n \<and> upa s' pt = upa s pt"
proof -
  have one: "addrs va (Suc 0) = {va}" by (auto simp: addrs_def)
  have ok: "upa s pt va \<noteq> 0" using ub by (auto simp: user_buffer_def uok_def dest: spec [of _ 0])
  have "\<And>a. a \<in> addrs va (length [c]) \<Longrightarrow> upa s pt a \<noteq> 0 \<Longrightarrow> upa s pt a \<notin> tables s pt \<and> upa s pt a \<notin> set ps"
    using ub one by (simp add: user_buffer_def addrs_Suc)
  from copyout_spec [of s pt ps va "[c]", OF _ this] ub obtain r s' where c: "copyout pt va [c] s = Ok (r, s')" "pt_inv s' 2 pt ps"
     "vmap s' pt = vmap s pt" "tables s' pt = tables s pt" "r = (if uok s pt va 1 then 0 else -1)"
     "\<forall>x. x \<notin> phys s pt ` addrs va (Suc 0) \<longrightarrow> mem s' x = mem s x" "r = 0 \<Longrightarrow> mem s' (phys s pt va) = c"
    by (auto simp: user_buffer_def one)
  have r: "r = 0" using c(5) ok by (simp add: uok_def)
  have up: "upa s' pt = upa s pt" using c(3) by (simp add: upa_def fun_eq_iff)
  have ph: "phys s' pt = phys s pt" using up by (simp add: phys_def fun_eq_iff)
  have m: "mem s' = (mem s)(phys s pt va := c)" using c(6,7) r by (auto simp: one)
  have "user_buffer s' pt ps (va + 1) n"
    using ub c(2,4) unfolding user_buffer_def up ph addrs_Suc uok_def
    by (auto simp: up add.assoc elim!: allE [of _ "Suc _"])
  then show ?thesis using c(1) r m up copyout_only_mem [OF c(1)] by blast
qed

text \<open>The outcome of moving the first \<open>n\<close> bytes of the queue to the addresses from \<open>va\<close> on.\<close>

definition moved :: "addr \<Rightarrow> addr \<Rightarrow> uint64 \<Rightarrow> nat \<Rightarrow> ('z) file_state_scheme \<Rightarrow> memory \<Rightarrow> pipe \<Rightarrow> bool" where
  "moved a pt va n s m x \<longleftrightarrow> pipe_wf x \<and> pipe_queue x = drop n (pipe_queue (pipes s a)) \<and>
     pi_readopen x = pi_readopen (pipes s a) \<and> pi_writeopen x = pi_writeopen (pipes s a) \<and>
     (\<forall>j < n. m (phys s pt (va + of_nat j)) = pipe_queue (pipes s a) ! j) \<and>
     (\<forall>y. y \<notin> phys s pt ` addrs va n \<longrightarrow> m y = mem s y)"

lemma moved_Suc:
  fixes s :: "('z) file_state_scheme"
  assumes q: "pipe_queue (pipes s a) = c # pipe_queue (pipes t a)" "pi_readopen (pipes t a) = pi_readopen (pipes s a)"
     "pi_writeopen (pipes t a) = pi_writeopen (pipes s a)"
    and t: "mem t = (mem s)(phys s pt va := c)" "upa t pt = upa s pt"
    and inj: "inj_on (phys s pt) (addrs va (Suc n))" "n < 2 ^ 63"
    and m: "moved a pt (va + 1) n t m x"
  shows "moved a pt va (Suc n) s m x"
proof -
  have ph: "phys t pt = phys s pt" using t(2) by (simp add: phys_def fun_eq_iff)
  have "phys s pt va \<notin> phys s pt ` addrs (va + 1) n"
  proof
    assume "phys s pt va \<in> phys s pt ` addrs (va + 1) n"
    then obtain y where "y \<in> addrs (va + 1) n" "phys s pt va = phys s pt y" by blast
    then have "va = y" using inj(1) by (auto simp: addrs_Suc inj_on_def)
    then show False using addrs_tail [OF inj(2)] \<open>y \<in> addrs (va + 1) n\<close> by blast
  qed
  then have m0: "m (phys s pt va) = c" using m t(1) by (simp add: moved_def ph)
  have "m (phys s pt (va + of_nat j)) = pipe_queue (pipes s a) ! j" if "j < Suc n" for j
    using that m m0 by (cases j) (auto simp: moved_def ph q(1) add.assoc)
  then show ?thesis using m t(1) q by (auto simp: moved_def ph addrs_Suc)
qed

lemma piperead_copy_spec:
  fixes s :: "('z) file_state_scheme"
  assumes "pipe_wf (pipes s a)" and "user_buffer s (p_pagetable (procs s p)) ps (ad + of_nat i) k"
  shows "\<exists>m x. moved a (p_pagetable (procs s p)) (ad + of_nat i) (min k (length (pipe_queue (pipes s a)))) s m x \<and>
     piperead_copy a p ad (int i) k s =
       Ok (int (i + min k (length (pipe_queue (pipes s a)))), s\<lparr>mem := m, pipes := (pipes s)(a := x)\<rparr>)"
  using assms
proof (induction k arbitrary: i s)
  case 0
  then show ?case by (intro exI [of _ "mem s"] exI [of _ "pipes s a"]) (simp add: moved_def)
next
  case (Suc k)
  let ?pt = "p_pagetable (procs s p)" and ?va = "ad + of_nat i" and ?q = "pipe_queue (pipes s a)"
  show ?case
  proof (cases "pi_nread (pipes s a) = pi_nwrite (pipes s a)")
    case True
    then have "?q = []" by (simp add: pipe_queue_Nil)
    then show ?thesis using True Suc.prems(1)
      by (intro exI [of _ "mem s"] exI [of _ "pipes s a"]) (simp add: moved_def)
  next
    case False
    note pop = pipe_pop_queue [OF Suc.prems(1) False]
    define c where "c = pi_data (pipes s a) ! (unat (pi_nread (pipes s a)) mod PIPESIZE)"
    let ?x = "(pipes s a)\<lparr>pi_nread := pi_nread (pipes s a) + 1\<rparr>"
    let ?t = "upd_pipe a (\<lambda>x. x\<lparr>pi_nread := pi_nread x + 1\<rparr>) s"
    have q: "?q = c # pipe_queue ?x" using pop(1) by (simp add: c_def)
    have inv: "pt_inv s 2 ?pt ps" using Suc.prems(2) by (simp add: user_buffer_def)
    have "user_buffer ?t ?pt ps ?va (Suc k)"
      using inv by (intro user_buffer_cong [OF _ _ _ _ _ Suc.prems(2)]) (auto simp: lock_simps pt_inv_def kmem_inv_def)
    from copyout_byte [OF this, of c] obtain u where u: "copyout ?pt ?va [c] ?t = Ok (0, u)" "u = ?t\<lparr>mem := mem u\<rparr>"
      "mem u = (mem ?t)(phys ?t ?pt ?va := c)" "user_buffer u ?pt ps (?va + 1) k" "upa u ?pt = upa ?t ?pt" by blast
    have uf: "procs u = procs s" "pipes u = (pipes s)(a := ?x)" by (subst u(2), simp)+
    have step: "piperead_copy a p ad (int i) (Suc k) s = piperead_copy a p ad (int (Suc i)) k u"
      using False u(1) by (simp add: Let_def c_def add.commute)
    have upa: "upa u ?pt = upa s ?pt" and mu: "mem u = (mem s)(phys s ?pt ?va := c)"
      using u(3,5) user_cong [of ?t s] by (simp_all add: fun_eq_iff)
    have va: "?va + 1 = ad + of_nat (Suc i)" by (simp add: ac_simps)
    have ux: "pipes u a = ?x" by (simp add: uf)
    let ?n = "min k (length (pipe_queue (pipes u a)))"
    have "\<exists>m x. moved a ?pt (?va + 1) ?n u m x \<and>
        piperead_copy a p ad (int (Suc i)) k u = Ok (int (Suc i + ?n), u\<lparr>mem := m, pipes := (pipes u)(a := x)\<rparr>)"
      using Suc.IH [of u "Suc i", unfolded uf(1)] pop(2) u(4) unfolding va by (simp only: ux)
    then obtain m x where mx: "moved a ?pt (?va + 1) ?n u m x"
      "piperead_copy a p ad (int (Suc i)) k u = Ok (int (Suc i + ?n), u\<lparr>mem := m, pipes := (pipes u)(a := x)\<rparr>)" by blast
    have inj: "inj_on (phys s ?pt) (addrs ?va (Suc ?n))" "?n < 2 ^ 63"
      using Suc.prems(2) by (auto simp: user_buffer_def addrs_def elim!: inj_on_subset)
    have "moved a ?pt ?va (min (Suc k) (length ?q)) s m x"
      using moved_Suc [OF _ _ _ mu upa inj mx(1)] q by (simp add: uf)
    moreover have "u\<lparr>mem := m, pipes := (pipes u)(a := x)\<rparr> = s\<lparr>mem := m, pipes := (pipes s)(a := x)\<rparr>"
      by (subst u(2)) (simp add: uf upd_pipe_def)
    ultimately show ?thesis unfolding step mx(2) ux q by (intro exI [of _ m] exI [of _ x]) (simp add: fun_upd_def)
  qed
qed

subsection \<open>A machine with a pipe\<close>

text \<open>Process 0 has one page of memory, and there is an empty pipe at the address 4096.\<close>

definition demo_pipe :: file_state where
  "demo_pipe = fs_state.extend
     (log_state.extend
        (demo_log\<lparr>mem := mem one_user_page, procs := (\<lambda>_. blank_proc\<lparr>p_pagetable := 0x87ff1000\<rparr>)\<rparr>)
        \<lparr>sb = \<lparr>sb_magic = 0x10203040, sb_size = 2000, sb_nblocks = 1954, sb_ninodes = 200, sb_nlog = 30, sb_logstart = 2,
            sb_inodestart = 32, sb_bmapstart = 45\<rparr>,
         itable = (\<lambda>_. \<lparr>i_dev = 0, i_inum = 0, i_ref = 0, i_valid = 0, i_type = 0, i_major = 0, i_minor = 0, i_nlink = 0,
            i_size = 0, i_addrs = replicate 13 0\<rparr>)\<rparr>)
     \<lparr>ftable = (\<lambda>_. \<lparr>f_type = FD_NONE, f_ref = 0, f_readable = False, f_writable = False, f_pipe = 0, f_ip = 0, f_off = 0, f_major = 0\<rparr>),
      pipes = (\<lambda>_. \<lparr>pi_data = replicate 512 0, pi_nread = 0, pi_nwrite = 0, pi_readopen = True, pi_writeopen = True\<rparr>)\<rparr>"

lemma demo_pipe_running: "running 0 demo_pipe" "c_noff (mycpu demo_pipe) = 0"
  using demo_log_sel(1)
  by (simp_all add: demo_pipe_def demo_log_def demo_bio_def demo_con_def fs_state.defs log_state.defs bio_state.defs demo_defs
      running_def quiet_def unheld_def curproc_def mycpu_def idle_cpu_def boot_machine_def)

lemma demo_pipe_sel:
  "mem demo_pipe = mem one_user_page" "p_pagetable (procs demo_pipe 0) = 0x87ff1000" "p_killed (procs demo_pipe 0) = 0"
  "freelist demo_pipe = freelist one_user_page" "kend demo_pipe = kend one_user_page"
  "pipes demo_pipe a = \<lparr>pi_data = replicate 512 0, pi_nread = 0, pi_nwrite = 0, pi_readopen = True, pi_writeopen = True\<rparr>"
  by (simp_all add: demo_pipe_def demo_log_def demo_bio_def demo_con_def one_user_page_def blank_proc_def fs_state.defs log_state.defs
      bio_state.defs demo_defs)

lemma demo_pipe_queue:
  "pipe_wf (pipes demo_pipe a)" "pipe_queue (pipes demo_pipe a) = []" "pi_readopen (pipes demo_pipe a)" "pi_writeopen (pipes demo_pipe a)"
  by (simp_all add: pipe_wf_def pipe_queue_def demo_pipe_sel)

lemma demo_pipe_user:
  "pt_inv demo_pipe 2 (p_pagetable (procs demo_pipe 0)) []" "uok demo_pipe (p_pagetable (procs demo_pipe 0)) 0x10 2"
  "user_buffer demo_pipe (p_pagetable (procs demo_pipe 0)) [] 0x10 2"
proof -
  let ?s = one_user_page and ?pt = "0x87ff1000"
  note R = runningD [OF demo_pipe_running(1)]
  have pa: "PTE2PA (PA2PTE 0x87ff4000 OR (PTE_R OR PTE_W OR PTE_U) OR PTE_V) = 0x87ff4000"
    by (rule PTE2PA_mk) (simp_all add: page_aligned_def)
  have u: "upa ?s ?pt a = 0x87ff4000" if "a = 0x10 \<or> a = 0x11" for a
  proof -
    have "a < MAXVA" "pageno a = 0" using that by (auto simp: MAXVA_eq pageno_def)
    then show ?thesis using pa by (simp add: upa_def one_user_page_inv(3) bit_simps)
  qed
  have two: "{..<2} = {0, 1 :: nat}" by auto
  have ad: "addrs 0x10 2 = {0x10, 0x11}" by (simp add: addrs_def two)
  have ok: "uok ?s ?pt 0x10 2" using u by (auto simp: uok_def less_2_cases_iff)
  have inj: "inj_on (phys ?s ?pt) (addrs 0x10 2)" by (simp add: ad inj_on_def phys_def u PGROUNDDOWN_def)
  have "upa ?s ?pt x \<notin> tables ?s ?pt \<and> upa ?s ?pt x \<notin> set []" if "x \<in> addrs 0x10 2" for x
    using that u by (auto simp: ad one_user_page_inv(2))
  then have "user_buffer ?s ?pt [] 0x10 2" using one_user_page_inv(1) ok inj by (simp add: user_buffer_def)
  then show ub: "user_buffer demo_pipe (p_pagetable (procs demo_pipe 0)) [] 0x10 2"
    unfolding demo_pipe_sel(2) by (intro user_buffer_cong [of demo_pipe ?s]) (simp_all add: demo_pipe_sel R)
  show "pt_inv demo_pipe 2 (p_pagetable (procs demo_pipe 0)) []" "uok demo_pipe (p_pagetable (procs demo_pipe 0)) 0x10 2"
    using ub by (simp_all add: user_buffer_def)
qed

subsection \<open>Properties\<close>

text \<open>C13: \<open>pipewrite\<close> appends to the queue of the pipe, in order, the bytes at the address the writer gives:
  all of them if there is room, and then it returns their number; otherwise as many as fit, and then
  the writer sleeps until there is room. In both cases the processes that wait for bytes are woken,
  and nothing else changes.\<close>

theorem pipewrite_appends:
  fixes s :: "('z) file_state_scheme"
  assumes "running p s" and "c_noff (mycpu s) = 0" and "pt_inv s 2 (p_pagetable (procs s p)) ps"
    and "uok s (p_pagetable (procs s p)) ad n"
    and "pipe_wf (pipes s a)" and "pi_readopen (pipes s a)" and "p_killed (procs s p) = 0"
  shows "\<exists>x. pipe_wf x \<and>
     (let room = PIPESIZE - length (pipe_queue (pipes s a));
          s' = woken (PipeReadChan a) (upd_pipe a (\<lambda>_. x) s)
      in pipe_queue x = pipe_queue (pipes s a) @ take room (urange s (p_pagetable (procs s p)) ad n) \<and>
         pipewrite a ad (int n) s =
           (if n \<le> room then Ok (int n, s')
            else Slept (acquired (ProcLock p) (sleeping p (PipeWriteChan a) s'))))"
proof -
  have u: "\<forall>j < n. upa s (p_pagetable (procs s p)) (ad + of_nat (0 + j)) \<noteq> 0" using assms(4) by (simp add: uok_def)
  have "pipewrite a ad (int n) s = pipewrite_loop a p ad (int 0) n (acquired (PipeLock a) s)"
    using runningD [OF assms(1)] by (simp add: pipewrite_def lock_simps deref_def)
  moreover have "urange s pt ad (min r n) = take r (urange s pt ad n)" for pt r 
    by (cases "r \<le> n") (simp_all add: urange_def take_map)
  ultimately show ?thesis
    using pipewrite_loop_spec [OF assms(1-3) u assms(5-7)] unfolding Let_def by (elim ex_forward) simp
qed

text \<open>C14: \<open>piperead\<close> moves the front of the queue, as much of it as was asked for, to the address the reader
  gives, and returns the number of bytes. When the queue is empty it returns 0 if no one can write any
  more, and otherwise the reader sleeps until there are bytes. No other byte of memory changes, and
  the processes that wait for room are woken.\<close>

theorem piperead_takes:
  fixes s :: "('z) file_state_scheme"
  assumes "running p s" and "c_noff (mycpu s) = 0" and "user_buffer s (p_pagetable (procs s p)) ps ad n"
    and "pipe_wf (pipes s a)" and "p_killed (procs s p) = 0"
  shows "(if pipe_queue (pipes s a) = [] \<and> pi_writeopen (pipes s a)
      then piperead a ad (int n) s = Slept (acquired (ProcLock p) (sleeping p (PipeReadChan a) s))
      else (\<exists>m x. moved a (p_pagetable (procs s p)) ad (min n (length (pipe_queue (pipes s a)))) s m x \<and>
        piperead a ad (int n) s = Ok (int (min n (length (pipe_queue (pipes s a)))),
          woken (PipeWriteChan a) (s\<lparr>mem := m, pipes := (pipes s)(a := x)\<rparr>))))"
proof -
  note R = runningD [OF assms(1)]
  let ?L = "acquired (PipeLock a)" and ?pt = "p_pagetable (procs s p)" and ?n = "min n (length (pipe_queue (pipes s a)))"
  have rd: "piperead a ad (int n) s = piperead_loop a p ad (int n) (?L s)"
    using R by (simp add: piperead_def lock_simps deref_def)
  show ?thesis
  proof (cases "pipe_queue (pipes s a) = [] \<and> pi_writeopen (pipes s a)")
    case True
    then show ?thesis using R assms rd
      by (simp add: piperead_loop_def pipe_queue_Nil lock_simps killed_eq sleep_eq)
  next
    case False
    have "user_buffer (?L s) ?pt ps ad n" using R by (intro user_buffer_cong [OF _ _ _ _ _ assms(3)]) (simp_all add: lock_simps)
    then obtain m x where mx: "moved a ?pt ad ?n (?L s) m x"
        "piperead_copy a p ad 0 n (?L s) = Ok (int ?n, (?L s)\<lparr>mem := m, pipes := (pipes s)(a := x)\<rparr>)"
      using piperead_copy_spec [of "?L s" a p ps ad 0 n] assms(4) by (auto simp: lock_simps)
    have "moved a ?pt ad ?n s m x" using mx(1) user_cong [of "?L s" s] by (simp add: moved_def lock_simps image_def)
    then show ?thesis using False R mx(2) rd
      by (auto simp: piperead_loop_def pipe_queue_Nil lock_simps wakeup_eq)
  qed
qed

theorem pipewrite_appends_witness:
  "\<exists>s'. pipewrite 4096 0x10 2 demo_pipe = Ok (2, s')"
  using pipewrite_appends [OF demo_pipe_running demo_pipe_user(1,2) demo_pipe_queue(1) _ demo_pipe_sel(3), of 4096]
  by (auto simp: demo_pipe_queue Let_def)

theorem piperead_takes_witness:
  "piperead 4096 0x10 2 demo_pipe = Slept (acquired (ProcLock 0) (sleeping 0 (PipeReadChan 4096) demo_pipe))"
  using piperead_takes [OF demo_pipe_running demo_pipe_user(3) demo_pipe_queue(1) demo_pipe_sel(3), of 4096]
  by (simp add: demo_pipe_queue)

end
