(* ===== verification/Keep.thy ===== *)
theory Keep
  imports Syscall Pipe
begin

text \<open>
  What an operation does not touch. \<open>same_files s t\<close>: from \<open>s\<close> to \<open>t\<close> no entry of the file table has changed
  its reference count or its type, no process its open files, the CPU still runs the same process, and
  no process has become unused or a zombie. \<open>kept\<close> says this of the outcome of an operation, be it a
  return or a context switch. Every operation of the kernel below the file table keeps files in this
  sense; the rules for them (\<open>keep\<close>) let the proofs go through the code of each operation.
\<close>

named_theorems keep

subsection \<open>The relation\<close>

definition dead :: "procstate \<Rightarrow> bool" where
  "dead x \<longleftrightarrow> x = UNUSED \<or> x = ZOMBIE"

definition same_files :: "('z) file_state_scheme \<Rightarrow> ('z) file_state_scheme \<Rightarrow> bool" where
  "same_files s t \<longleftrightarrow> (\<forall>f. f_ref (ftable t f) = f_ref (ftable s f) \<and> f_type (ftable t f) = f_type (ftable s f))
     \<and> (\<forall>q. p_ofile (procs t q) = p_ofile (procs s q)) \<and> (\<forall>q. dead (p_state (procs t q)) \<longrightarrow> dead (p_state (procs s q)))
     \<and> curproc t = curproc s"

definition kept :: "('a \<Rightarrow> 'z file_state_scheme) \<Rightarrow> 'z file_state_scheme \<Rightarrow> ('z file_state_scheme, 'a) res \<Rightarrow> bool" where
  "kept st s m \<longleftrightarrow> (case m of Ok x \<Rightarrow> same_files s (st x) | Slept t \<Rightarrow> same_files s t | _ \<Rightarrow> True)"

lemma same_files_refl [simp, intro!]: "same_files s s"
  by (simp add: same_files_def)

lemma same_files_trans: "same_files r s \<Longrightarrow> same_files s t \<Longrightarrow> same_files r t"
  by (simp add: same_files_def)

lemma kept_simps [simp]:
  "kept st s (Ok x) = same_files s (st x)" "kept st s (Slept t) = same_files s t" "kept st s (Panic e)" "kept st s Spin"
  by (simp_all add: kept_def)

lemma kept_bind_st [keep]:
  "kept (\<lambda>x. x) s m \<Longrightarrow> (\<And>t. m = Ok t \<Longrightarrow> same_files s t \<Longrightarrow> kept st s (f t)) \<Longrightarrow> kept st s (rbind m f)"
  by (cases m) simp_all

lemma kept_bind_pair [keep]:
  "kept snd s m \<Longrightarrow> (\<And>a t. m = Ok (a, t) \<Longrightarrow> same_files s t \<Longrightarrow> kept st s (f (a, t))) \<Longrightarrow> kept st s (rbind m f)"
  by (cases m) auto

lemma kept_if [keep]: "(b \<Longrightarrow> kept st s m) \<Longrightarrow> (\<not> b \<Longrightarrow> kept st s m') \<Longrightarrow> kept st s (if b then m else m')"
  by simp

lemma kept_option [keep]:
  "(x = None \<Longrightarrow> kept st s m) \<Longrightarrow> (\<And>y. x = Some y \<Longrightarrow> kept st s (f y)) \<Longrightarrow> kept st s (case x of None \<Rightarrow> m | Some y \<Rightarrow> f y)"
  by (cases x) simp_all

lemma kept_deref [keep]: "(\<And>p. kept st s (f p)) \<Longrightarrow> kept st s (deref x f)"
  by (cases x) (simp_all add: deref_def)

text \<open>Updates of fields the relation does not look at.\<close>

lemma same_files_updates [simp]:
  "same_files s (t\<lparr>mem := a1\<rparr>) = same_files s t"
  "same_files s (t\<lparr>locks := a3\<rparr>) = same_files s t"
  "same_files s (t\<lparr>freelist := a4\<rparr>) = same_files s t"
  "same_files s (t\<lparr>nextpid := a5\<rparr>) = same_files s t"
  "same_files s (t\<lparr>initproc := a6\<rparr>) = same_files s t"
  "same_files s (t\<lparr>sleeplocks := a7\<rparr>) = same_files s t"
  "same_files s (t\<lparr>bufs := a8\<rparr>) = same_files s t"
  "same_files s (t\<lparr>disk := a9\<rparr>) = same_files s t"
  "same_files s (t\<lparr>writes := b1\<rparr>) = same_files s t"
  "same_files s (t\<lparr>log_st := b2\<rparr>) = same_files s t"
  "same_files s (t\<lparr>itable := b4\<rparr>) = same_files s t"
  "same_files s (t\<lparr>pipes := b5\<rparr>) = same_files s t"
  by (simp_all add: same_files_def curproc_def mycpu_def)

lemma same_files_con_updates [simp]:
  "same_files s (t\<lparr>uart_tx_buf := a1\<rparr>) = same_files s t" "same_files s (t\<lparr>uart_tx_w := a2\<rparr>) = same_files s t"
  "same_files s (t\<lparr>uart_tx_r := a3\<rparr>) = same_files s t" "same_files s (t\<lparr>u_out := a4\<rparr>) = same_files s t"
  "same_files s (t\<lparr>u_room := a5\<rparr>) = same_files s t" "same_files s (t\<lparr>u_in := a6\<rparr>) = same_files s t"
  "same_files s (t\<lparr>u_lcr := a7\<rparr>) = same_files s t" "same_files s (t\<lparr>u_config := a8\<rparr>) = same_files s t"
  "same_files s (t\<lparr>cons_buf := b2\<rparr>) = same_files s t" "same_files s (t\<lparr>cons_r := b3\<rparr>) = same_files s t"
  "same_files s (t\<lparr>cons_w := b4\<rparr>) = same_files s t" "same_files s (t\<lparr>cons_e := b5\<rparr>) = same_files s t"
  by (simp_all add: same_files_def curproc_def mycpu_def)

lemma same_files_upd [simp]:
  "same_files s (upd_slk i sl t) = same_files s t" "same_files s (upd_buf b bf t) = same_files s t"
  "same_files s (upd_log lf t) = same_files s t" "same_files s (upd_ino ip ino t) = same_files s t"
  "same_files s (upd_pipe a pf t) = same_files s t" "same_files s (initlock lk nm t) = same_files s t"
  "same_files s (tf_set p off v t) = same_files s t" "same_files s (bput b dat t) = same_files s t"
  by (simp_all add: upd_slk_def upd_buf_def upd_log_def upd_ino_def upd_pipe_def initlock_def tf_set_def bput_def)

text \<open>A change of a process that leaves its files alone and does not end it.\<close>

lemma same_files_upd_proc [intro!]:
  assumes "same_files s t" "\<And>x. p_ofile (g x) = p_ofile x" "\<And>x. dead (p_state (g x)) \<Longrightarrow> dead (p_state x)"
  shows "same_files s (upd_proc p g t)"
proof -
  have "same_files t (upd_proc p g t)" using assms(2,3) by (auto simp: same_files_def upd_proc_def curproc_def mycpu_def)
  then show ?thesis using assms(1) by (rule same_files_trans [rotated])
qed

lemma dead_simps [simp]: "dead UNUSED" "dead ZOMBIE" "\<not> dead USED" "\<not> dead SLEEPING" "\<not> dead RUNNABLE" "\<not> dead RUNNING"
  by (simp_all add: dead_def)

lemma same_files_upd_file [intro!]:
  assumes "same_files s t" "\<And>x. f_ref (g x) = f_ref x" "\<And>x. f_type (g x) = f_type x"
  shows "same_files s (upd_file f g t)"
  using assms by (auto simp: same_files_def upd_file_def curproc_def mycpu_def)

subsection \<open>Locks, the current process\<close>

lemma same_files_cpu [simp]:
  "c_proc c = c_proc (mycpu t) \<Longrightarrow> same_files s (set_mycpu c t) = same_files s t"
  by (simp add: same_files_def curproc_def) (simp add: set_mycpu_def)

lemma same_files_push_off [simp]: "same_files s (push_off t) = same_files s t"
  by (simp add: push_off_def Let_def intr_off_def)

lemma keep_acquire [keep]: "same_files s t \<Longrightarrow> kept (\<lambda>x. x) s (acquire lk t)"
  by (simp add: acquire_def Let_def)

lemma keep_pop_off [keep]: "same_files s t \<Longrightarrow> kept (\<lambda>x. x) s (pop_off t)"
  by (simp add: pop_off_def Let_def intr_on_def)

lemma keep_release [keep]: "same_files s t \<Longrightarrow> kept (\<lambda>x. x) s (release lk t)"
  by (auto simp: release_def intro!: keep)

lemma keep_myproc [keep]: "same_files s t \<Longrightarrow> kept snd s (myproc t)"
  by (auto simp: myproc_def Let_def intro!: keep)

subsection \<open>Memory\<close>

lemma keep_kalloc [keep]: "same_files s t \<Longrightarrow> kept snd s (kalloc t)"
  by (auto simp: kalloc_def Let_def intro!: keep)

lemma keep_kfree [keep]: "same_files s t \<Longrightarrow> kept (\<lambda>x. x) s (kfree a t)"
  by (auto simp: kfree_def Let_def intro!: keep)

lemma keep_walk_levels [keep]: "same_files s t \<Longrightarrow> kept snd s (walk_levels n pt va al t)"
  by (induction n arbitrary: pt t) (auto simp: Let_def intro!: keep)

lemma keep_walk [keep]: "same_files s t \<Longrightarrow> kept snd s (walk pt va al t)"
  by (auto simp: walk_def intro!: keep)

lemma keep_mappages_loop [keep]: "same_files s t \<Longrightarrow> kept snd s (mappages_loop pt a lst pa perm t)"
  by (induction pt a lst pa perm t rule: mappages_loop.induct) (subst mappages_loop.simps, auto simp: Let_def intro!: keep)

lemma keep_mappages [keep]: "same_files s t \<Longrightarrow> kept snd s (mappages pt va sz pa perm t)"
  by (auto simp: mappages_def Let_def intro!: keep)

lemma keep_uvmunmap_loop [keep]: "same_files s t \<Longrightarrow> kept (\<lambda>x. x) s (uvmunmap_loop pt a e fr t)"
  by (induction pt a e fr t rule: uvmunmap_loop.induct) (subst uvmunmap_loop.simps, auto simp: Let_def intro!: keep)

lemma keep_uvmunmap [keep]: "same_files s t \<Longrightarrow> kept (\<lambda>x. x) s (uvmunmap pt va n fr t)"
  by (auto simp: uvmunmap_def Let_def intro!: keep)

lemma keep_uvmcreate [keep]: "same_files s t \<Longrightarrow> kept snd s (uvmcreate t)"
  by (auto simp: uvmcreate_def Let_def intro!: keep)

lemma keep_uvmdealloc [keep]: "same_files s t \<Longrightarrow> kept snd s (uvmdealloc pt osz nsz t)"
  by (auto simp: uvmdealloc_def Let_def intro!: keep)

lemma keep_uvmalloc_loop [keep]: "same_files s t \<Longrightarrow> kept snd s (uvmalloc_loop pt a osz nsz x t)"
  by (induction pt a osz nsz x t rule: uvmalloc_loop.induct) (subst uvmalloc_loop.simps, auto simp: Let_def intro!: keep)

lemma keep_uvmalloc [keep]: "same_files s t \<Longrightarrow> kept snd s (uvmalloc pt osz nsz x t)"
  by (auto simp: uvmalloc_def Let_def intro!: keep)

lemma keep_freewalk_loop:
  "(\<And>a t. same_files s t \<Longrightarrow> kept (\<lambda>x. x) s (fw a t)) \<Longrightarrow> same_files s t \<Longrightarrow> kept (\<lambda>x. x) s (freewalk_loop fw pt n t)"
  by (induction n arbitrary: t) (auto simp: Let_def intro!: keep)

lemma keep_freewalk [keep]: "same_files s t \<Longrightarrow> kept (\<lambda>x. x) s (freewalk n pt t)"
  by (induction n arbitrary: pt t) (auto intro!: keep keep_freewalk_loop)

lemma keep_uvmfree [keep]: "same_files s t \<Longrightarrow> kept (\<lambda>x. x) s (uvmfree pt sz t)"
  by (auto simp: uvmfree_def intro!: keep)

lemma keep_uvmcopy_loop [keep]: "same_files s t \<Longrightarrow> kept snd s (uvmcopy_loop old new i sz t)"
  by (induction old new i sz t rule: uvmcopy_loop.induct) (subst uvmcopy_loop.simps, auto simp: Let_def intro!: keep)

lemma keep_uvmcopy [keep]: "same_files s t \<Longrightarrow> kept snd s (uvmcopy old new sz t)"
  by (auto simp: uvmcopy_def intro!: keep)

lemma keep_uvmclear [keep]: "same_files s t \<Longrightarrow> kept (\<lambda>x. x) s (uvmclear pt va t)"
  by (auto simp: uvmclear_def intro!: keep)

text \<open>Operations that return no state never switch away.\<close>

definition stays :: "('s, 'a) res \<Rightarrow> bool" where
  "stays m \<longleftrightarrow> (\<forall>t. m \<noteq> Slept t)"

lemma stays_simps [simp]: "stays (Ok x)" "stays (Panic e)" "stays Spin"
  by (simp_all add: stays_def)

lemma stays_bind: "stays m \<Longrightarrow> (\<And>x. m = Ok x \<Longrightarrow> stays (f x)) \<Longrightarrow> stays (rbind m f)"
  by (cases m) (simp_all add: stays_def)

lemma kept_bind_value: "stays m \<Longrightarrow> (\<And>x. m = Ok x \<Longrightarrow> kept st s (f x)) \<Longrightarrow> kept st s (rbind m f)"
  by (cases m) (simp_all add: stays_def)

lemma acquire_stays: "stays (acquire lk t)"
  by (simp add: acquire_def Let_def)

lemma release_stays: "stays (release lk t)"
  by (simp add: release_def pop_off_def Let_def)

lemma kalloc_stays: "stays (kalloc t)"
  by (auto simp: kalloc_def Let_def intro!: stays_bind acquire_stays release_stays)

lemma walk_levels_stays: "stays (walk_levels n pt va al t)"
  by (induction n arbitrary: pt t) (auto simp: Let_def intro!: stays_bind kalloc_stays)

lemma walkaddr_stays: "stays (walkaddr pt va t)"
  by (auto simp: walkaddr_def walk_def intro!: stays_bind walk_levels_stays)

lemma keep_walkaddr [keep]: "(\<And>x. walkaddr pt va t = Ok x \<Longrightarrow> kept st s (f x)) \<Longrightarrow> kept st s (rbind (walkaddr pt va t) f)"
  by (intro kept_bind_value walkaddr_stays)

lemma copyin_stays: "stays (copyin pt va n t)"
proof -
  have "stays (copyin_loop pt va n dst t)" for dst
    by (induction pt va n dst t rule: copyin_loop.induct)
      (subst copyin_loop.simps, auto simp: Let_def intro!: stays_bind walkaddr_stays)
  then show ?thesis by (simp add: copyin_def)
qed

lemma copyinstr_stays: "stays (copyinstr pt va n t)"
proof -
  have "stays (copyinstr_loop pt va n dst t)" for dst
    by (induction pt va n dst t rule: copyinstr_loop.induct)
      (subst copyinstr_loop.simps, auto simp: Let_def intro!: stays_bind walkaddr_stays split: prod.splits bool.splits)
  then show ?thesis by (simp add: copyinstr_def)
qed

lemma keep_copyin [keep]: "(\<And>x. kept st s (f x)) \<Longrightarrow> kept st s (rbind (copyin pt va n t) f)"
  by (intro kept_bind_value copyin_stays)

lemma keep_copyinstr [keep]: "(\<And>x. kept st s (f x)) \<Longrightarrow> kept st s (rbind (copyinstr pt va n t) f)"
  by (intro kept_bind_value copyinstr_stays)

lemma keep_copyout [keep]: "same_files s t \<Longrightarrow> kept snd s (copyout pt va bs t)"
  by (induction pt va bs t rule: copyout.induct) (subst copyout.simps, auto simp: Let_def intro!: keep_walkaddr)

subsection \<open>Processes\<close>

lemma keep_allocpid [keep]: "same_files s t \<Longrightarrow> kept snd s (allocpid t)"
  by (auto simp: allocpid_def Let_def intro!: keep)

lemma keep_proc_pagetable [keep]: "same_files s t \<Longrightarrow> kept snd s (proc_pagetable p t)"
  by (auto simp: proc_pagetable_def Let_def intro!: keep)

lemma keep_proc_freepagetable [keep]: "same_files s t \<Longrightarrow> kept (\<lambda>x. x) s (proc_freepagetable pt sz t)"
  by (auto simp: proc_freepagetable_def Let_def intro!: keep)

lemma keep_growproc [keep]: "same_files s t \<Longrightarrow> kept snd s (growproc n t)"
  by (auto simp: growproc_def Let_def intro!: keep)

lemma keep_sched [keep]: "same_files s t \<Longrightarrow> kept (\<lambda>x. x) s (sched t)"
  by (auto simp: sched_def Let_def intro!: keep)

lemma keep_yield [keep]: "same_files s t \<Longrightarrow> kept (\<lambda>x. x) s (yield t)"
  by (auto simp: yield_def Let_def intro!: keep)

lemma keep_sleep [keep]: "same_files s t \<Longrightarrow> kept st s (sleep ch lk t)"
  by (auto simp: sleep_def Let_def intro!: keep)

lemma keep_wakeup_loop [keep]: "same_files s t \<Longrightarrow> kept (\<lambda>x. x) s (wakeup_loop ch ps t)"
  by (induction ps arbitrary: t) (auto simp: Let_def intro!: keep)

lemma keep_wakeup [keep]: "same_files s t \<Longrightarrow> kept (\<lambda>x. x) s (wakeup ch t)"
  by (auto simp: wakeup_def Let_def intro!: keep)

lemma keep_kill_loop [keep]: "same_files s t \<Longrightarrow> kept snd s (kill_loop pid ps t)"
  by (induction ps arbitrary: t) (auto simp: Let_def intro!: keep)

lemma keep_kill [keep]: "same_files s t \<Longrightarrow> kept snd s (kill pid t)"
  by (auto simp: kill_def Let_def intro!: keep)

lemma keep_setkilled [keep]: "same_files s t \<Longrightarrow> kept (\<lambda>x. x) s (setkilled p t)"
  by (auto simp: setkilled_def Let_def intro!: keep)

lemma keep_killed [keep]: "same_files s t \<Longrightarrow> kept snd s (killed p t)"
  by (auto simp: killed_def Let_def intro!: keep)

lemma keep_either_copyout [keep]: "same_files s t \<Longrightarrow> kept snd s (either_copyout u a bs t)"
  by (auto simp: either_copyout_def Let_def intro!: keep)

lemma keep_either_copyin [keep]: "same_files s t \<Longrightarrow> kept snd s (either_copyin u a n t)"
  by (auto simp: either_copyin_def Let_def intro!: keep)

subsection \<open>Sleep locks, the console and the buffer cache\<close>

lemma keep_acquiresleep_loop [keep]: "same_files s t \<Longrightarrow> kept (\<lambda>x. x) s (acquiresleep_loop i t)"
  by (auto simp: acquiresleep_loop_def Let_def intro!: keep)

lemma keep_acquiresleep [keep]: "same_files s t \<Longrightarrow> kept (\<lambda>x. x) s (acquiresleep i t)"
  by (auto simp: acquiresleep_def Let_def intro!: keep)

lemma keep_releasesleep [keep]: "same_files s t \<Longrightarrow> kept (\<lambda>x. x) s (releasesleep i t)"
  by (auto simp: releasesleep_def Let_def intro!: keep)

lemma keep_holdingsleep [keep]: "same_files s t \<Longrightarrow> kept snd s (holdingsleep i t)"
  by (auto simp: holdingsleep_def Let_def intro!: keep)

lemma same_files_WriteReg [simp]: "same_files s (WriteReg r v t) = same_files s t"
  by (simp add: WriteReg_def)

lemma same_files_uart_wait_idle [simp]: "same_files s (uart_wait_idle t) = same_files s t"
  by (simp add: uart_wait_idle_def)

lemma keep_uartstart_loop [keep]: "same_files s t \<Longrightarrow> kept (\<lambda>x. x) s (uartstart_loop n t)"
  by (induction n arbitrary: t) (auto simp: Let_def intro!: keep)

lemma keep_uartstart [keep]: "same_files s t \<Longrightarrow> kept (\<lambda>x. x) s (uartstart t)"
  by (auto simp: uartstart_def Let_def intro!: keep)

lemma keep_uartputc_loop [keep]: "same_files s t \<Longrightarrow> kept (\<lambda>x. x) s (uartputc_loop c t)"
  by (auto simp: uartputc_loop_def Let_def intro!: keep)

lemma keep_uartputc [keep]: "same_files s t \<Longrightarrow> kept (\<lambda>x. x) s (uartputc c t)"
  by (auto simp: uartputc_def Let_def intro!: keep)

lemma keep_consolewrite_loop [keep]: "same_files s t \<Longrightarrow> kept snd s (consolewrite_loop u src i n t)"
  by (induction n arbitrary: i t) (auto simp: Let_def intro!: keep)

lemma keep_consolewrite [keep]: "same_files s t \<Longrightarrow> kept snd s (consolewrite u src n t)"
  by (auto simp: consolewrite_def Let_def intro!: keep)

lemma keep_consoleread_loop [keep]: "same_files s t \<Longrightarrow> kept snd s (consoleread_loop u dst tg n t)"
  by (induction n arbitrary: dst t) (auto simp: Let_def intro!: keep)

lemma keep_consoleread [keep]: "same_files s t \<Longrightarrow> kept snd s (consoleread u dst n t)"
  by (auto simp: consoleread_def Let_def intro!: keep)

lemma same_files_disk_transfer [simp]: "same_files s (disk_transfer b wr t) = same_files s t"
  by (simp add: disk_transfer_def)

lemma bget_find_stays: "stays (bget_find n dev blk b bf)"
  by (induction n arbitrary: b) (simp_all add: bget_find.simps)

lemma bget_lru_stays: "stays (bget_lru n b bf)"
  by (induction n arbitrary: b) (simp_all add: bget_lru.simps)

lemma keep_bget [keep]: "same_files s t \<Longrightarrow> kept snd s (bget dev blk t)"
  unfolding bget_def Let_def
  by (intro kept_bind_value [OF bget_find_stays] kept_bind_value [OF bget_lru_stays] keep_acquire keep_release keep_acquiresleep
      kept_bind_st kept_option) simp_all

lemma keep_bread [keep]: "same_files s t \<Longrightarrow> kept snd s (bread dev blk t)"
  by (auto simp: bread_def Let_def intro!: keep)

lemma keep_bwrite [keep]: "same_files s t \<Longrightarrow> kept (\<lambda>x. x) s (bwrite b t)"
  by (auto simp: bwrite_def Let_def intro!: keep)

lemma keep_brelse [keep]: "same_files s t \<Longrightarrow> kept (\<lambda>x. x) s (brelse b t)"
  by (auto simp: brelse_def Let_def intro!: keep)

lemma keep_bpin [keep]: "same_files s t \<Longrightarrow> kept (\<lambda>x. x) s (bpin b t)"
  by (auto simp: bpin_def Let_def intro!: keep)

lemma keep_bunpin [keep]: "same_files s t \<Longrightarrow> kept (\<lambda>x. x) s (bunpin b t)"
  by (auto simp: bunpin_def Let_def intro!: keep)

subsection \<open>The log\<close>

lemma keep_install_trans_loop [keep]: "same_files s t \<Longrightarrow> kept (\<lambda>x. x) s (install_trans_loop r ts t)"
  by (induction ts arbitrary: t) (auto simp: Let_def intro!: keep)

lemma keep_install_trans [keep]: "same_files s t \<Longrightarrow> kept (\<lambda>x. x) s (install_trans r t)"
  by (auto simp: install_trans_def Let_def intro!: keep)

lemma keep_read_head [keep]: "same_files s t \<Longrightarrow> kept (\<lambda>x. x) s (read_head t)"
  by (auto simp: read_head_def Let_def intro!: keep)

lemma keep_write_head [keep]: "same_files s t \<Longrightarrow> kept (\<lambda>x. x) s (write_head t)"
  by (auto simp: write_head_def Let_def intro!: keep)

lemma keep_begin_op_loop [keep]: "same_files s t \<Longrightarrow> kept (\<lambda>x. x) s (begin_op_loop t)"
  by (auto simp: begin_op_loop_def Let_def intro!: keep)

lemma keep_begin_op [keep]: "same_files s t \<Longrightarrow> kept (\<lambda>x. x) s (begin_op t)"
  by (auto simp: begin_op_def Let_def intro!: keep)

lemma keep_write_log_loop [keep]: "same_files s t \<Longrightarrow> kept (\<lambda>x. x) s (write_log_loop ts t)"
  by (induction ts arbitrary: t) (auto simp: Let_def intro!: keep)

lemma keep_write_log [keep]: "same_files s t \<Longrightarrow> kept (\<lambda>x. x) s (write_log t)"
  by (auto simp: write_log_def Let_def intro!: keep)

lemma keep_commit [keep]: "same_files s t \<Longrightarrow> kept (\<lambda>x. x) s (commit t)"
  by (auto simp: commit_def Let_def intro!: keep)

lemma keep_end_op [keep]: "same_files s t \<Longrightarrow> kept (\<lambda>x. x) s (end_op t)"
  by (auto simp: end_op_def Let_def intro!: keep)

lemma keep_log_write [keep]: "same_files s t \<Longrightarrow> kept (\<lambda>x. x) s (log_write b t)"
  by (auto simp: log_write_def Let_def intro!: keep)

subsection \<open>The file system\<close>

lemma keep_uartputc_sync [keep]: "same_files s t \<Longrightarrow> kept (\<lambda>x. x) s (uartputc_sync c t)"
  by (auto simp: uartputc_sync_def Let_def intro!: keep)

lemma keep_consputc [keep]: "same_files s t \<Longrightarrow> kept (\<lambda>x. x) s (consputc c t)"
  by (auto simp: consputc_def Let_def intro!: keep)

lemma keep_consputs [keep]: "same_files s t \<Longrightarrow> kept (\<lambda>x. x) s (consputs bs t)"
  by (induction bs arbitrary: t) (auto simp: Let_def intro!: keep)

lemma keep_printf [keep]: "same_files s t \<Longrightarrow> kept (\<lambda>x. x) s (printf fmt args t)"
  by (auto simp: printf_def Let_def intro!: keep)

lemma keep_bzero [keep]: "same_files s t \<Longrightarrow> kept (\<lambda>x. x) s (bzero dev b t)"
  by (auto simp: bzero_def Let_def intro!: keep)

lemma keep_balloc_loop [keep]: "same_files s t \<Longrightarrow> kept snd s (balloc_loop dev bs t)"
  by (induction bs arbitrary: t) (auto simp: Let_def intro!: keep)

lemma keep_balloc [keep]: "same_files s t \<Longrightarrow> kept snd s (balloc dev t)"
  by (auto simp: balloc_def Let_def intro!: keep)

lemma keep_bfree_block [keep]: "same_files s t \<Longrightarrow> kept (\<lambda>x. x) s (bfree_block dev b t)"
  by (auto simp: bfree_block_def Let_def intro!: keep)

lemma keep_iget [keep]: "same_files s t \<Longrightarrow> kept snd s (iget dev i t)"
  by (auto simp: iget_def Let_def intro!: keep)

lemma keep_ialloc_loop [keep]: "same_files s t \<Longrightarrow> kept snd s (ialloc_loop dev ty js t)"
  by (induction js arbitrary: t) (auto simp: Let_def intro!: keep)

lemma keep_ialloc [keep]: "same_files s t \<Longrightarrow> kept snd s (ialloc dev ty t)"
  by (auto simp: ialloc_def Let_def intro!: keep)

lemma keep_iupdate [keep]: "same_files s t \<Longrightarrow> kept (\<lambda>x. x) s (iupdate ip t)"
  by (auto simp: iupdate_def Let_def intro!: keep)

lemma keep_idup [keep]: "same_files s t \<Longrightarrow> kept snd s (idup ip t)"
  by (auto simp: idup_def Let_def intro!: keep)

lemma keep_ilock [keep]: "same_files s t \<Longrightarrow> kept (\<lambda>x. x) s (ilock ip t)"
  by (auto simp: ilock_def Let_def intro!: keep)

lemma keep_iunlock [keep]: "same_files s t \<Longrightarrow> kept (\<lambda>x. x) s (iunlock ip t)"
  by (auto simp: iunlock_def Let_def intro!: keep)

lemma keep_bmap [keep]: "same_files s t \<Longrightarrow> kept snd s (bmap ip bn t)"
  by (auto simp: bmap_def Let_def intro!: keep)

lemma keep_itrunc_direct [keep]: "same_files s t \<Longrightarrow> kept (\<lambda>x. x) s (itrunc_direct ip js t)"
  by (induction js arbitrary: t) (auto simp: Let_def intro!: keep)

lemma keep_itrunc_indirect [keep]: "same_files s t \<Longrightarrow> kept (\<lambda>x. x) s (itrunc_indirect ip bp js t)"
  by (induction js arbitrary: t) (auto simp: Let_def intro!: keep)

lemma keep_itrunc [keep]: "same_files s t \<Longrightarrow> kept (\<lambda>x. x) s (itrunc ip t)"
  by (auto simp: itrunc_def Let_def intro!: keep)

lemma keep_iput [keep]: "same_files s t \<Longrightarrow> kept (\<lambda>x. x) s (iput ip t)"
  by (auto simp: iput_def Let_def intro!: keep)

lemma keep_iunlockput [keep]: "same_files s t \<Longrightarrow> kept (\<lambda>x. x) s (iunlockput ip t)"
  by (auto simp: iunlockput_def Let_def intro!: keep)

lemma keep_io_copyout [keep]: "same_files s t \<Longrightarrow> kept snd s (io_copyout dst bs t)"
  by (cases dst) (auto intro!: keep)

lemma keep_io_copyin [keep]: "same_files s t \<Longrightarrow> kept snd s (io_copyin src n t)"
  by (cases src) (auto intro!: keep)

lemma keep_readi_loop [keep]: "same_files s t \<Longrightarrow> kept snd s (readi_loop ip dst off tot n acc t)"
  by (induction ip dst off tot n acc t rule: readi_loop.induct) (subst readi_loop.simps, auto simp: Let_def intro!: keep)

lemma keep_readi [keep]: "same_files s t \<Longrightarrow> kept snd s (readi ip dst off n t)"
  by (auto simp: readi_def Let_def intro!: keep)

lemma keep_writei_loop [keep]: "same_files s t \<Longrightarrow> kept snd s (writei_loop ip src off tot n t)"
  by (induction ip src off tot n t rule: writei_loop.induct) (subst writei_loop.simps, auto simp: Let_def intro!: keep)

lemma keep_writei [keep]: "same_files s t \<Longrightarrow> kept snd s (writei ip src off n t)"
  by (auto simp: writei_def Let_def intro!: keep)

lemma keep_dirlookup_loop [keep]: "same_files s t \<Longrightarrow> kept snd s (dirlookup_loop dp nm offs t)"
  by (induction offs arbitrary: t) (auto simp: Let_def intro!: keep)

lemma keep_dirlookup [keep]: "same_files s t \<Longrightarrow> kept snd s (dirlookup dp nm t)"
  by (auto simp: dirlookup_def Let_def intro!: keep)

lemma keep_dirlink_scan [keep]: "same_files s t \<Longrightarrow> kept snd s (dirlink_scan dp offs e t)"
  by (induction offs arbitrary: t) (auto simp: Let_def intro!: keep)

lemma keep_dirlink [keep]: "same_files s t \<Longrightarrow> kept snd s (dirlink dp nm inum t)"
  by (auto simp: dirlink_def Let_def intro!: keep)

lemma keep_namex_loop [keep]: "same_files s t \<Longrightarrow> kept snd s (namex_loop path par nm ip t)"
proof (induction "length path" arbitrary: path nm ip t rule: less_induct)
  case less
  then show ?case by (subst namex_loop.simps) (auto intro!: keep dest!: skipelem_shorter)
qed

lemma keep_namex [keep]: "same_files s t \<Longrightarrow> kept snd s (namex path par nm t)"
  by (auto simp: namex_def Let_def intro!: keep)

lemma keep_namei [keep]: "same_files s t \<Longrightarrow> kept snd s (namei path t)"
  by (auto simp: namei_def Let_def intro!: keep)

lemma keep_nameiparent [keep]: "same_files s t \<Longrightarrow> kept snd s (nameiparent path nm t)"
  by (auto simp: nameiparent_def Let_def intro!: keep)

subsection \<open>Files and programs\<close>

lemma keep_pipeclose [keep]: "same_files s t \<Longrightarrow> kept (\<lambda>x. x) s (pipeclose a w t)"
  by (auto simp: pipeclose_def Let_def intro!: keep)

lemma keep_pipewrite_loop [keep]: "same_files s t \<Longrightarrow> kept snd s (pipewrite_loop a pr ad i n t)"
  by (induction n arbitrary: i t) (auto simp: Let_def intro!: keep)

lemma keep_pipewrite [keep]: "same_files s t \<Longrightarrow> kept snd s (pipewrite a ad n t)"
  by (auto simp: pipewrite_def Let_def intro!: keep)

lemma keep_piperead_copy [keep]: "same_files s t \<Longrightarrow> kept snd s (piperead_copy a pr ad i n t)"
  by (induction n arbitrary: i t) (auto simp: Let_def intro!: keep)

lemma keep_piperead_loop [keep]: "same_files s t \<Longrightarrow> kept snd s (piperead_loop a pr ad n t)"
  by (auto simp: piperead_loop_def Let_def intro!: keep)

lemma keep_piperead [keep]: "same_files s t \<Longrightarrow> kept snd s (piperead a ad n t)"
  by (auto simp: piperead_def Let_def intro!: keep)

lemma kept_ftype [keep]:
  "kept st s m1 \<Longrightarrow> kept st s m2 \<Longrightarrow> kept st s m3 \<Longrightarrow> kept st s m4 \<Longrightarrow>
   kept st s (case x of FD_NONE \<Rightarrow> m1 | FD_PIPE \<Rightarrow> m2 | FD_INODE \<Rightarrow> m3 | FD_DEVICE \<Rightarrow> m4)"
  by (cases x) simp_all

lemma keep_filestat [keep]: "same_files s t \<Longrightarrow> kept snd s (filestat f ad t)"
  by (auto simp: filestat_def Let_def intro!: keep)

lemma keep_fileread [keep]: "same_files s t \<Longrightarrow> kept snd s (fileread f ad n t)"
  by (auto simp: fileread_def Let_def intro!: keep)

lemma keep_filewrite_loop [keep]: "same_files s t \<Longrightarrow> kept snd s (filewrite_loop f ad i left t)"
  by (induction f ad i left t rule: filewrite_loop.induct) (subst filewrite_loop.simps, auto simp: Let_def intro!: keep)

lemma keep_filewrite [keep]: "same_files s t \<Longrightarrow> kept snd s (filewrite f ad n t)"
  by (auto simp: filewrite_def Let_def intro!: keep)

lemma keep_loadseg_loop [keep]: "same_files s t \<Longrightarrow> kept snd s (loadseg_loop n pt va ip off sz i t)"
  by (induction n arbitrary: i t) (auto simp: Let_def intro!: keep)

lemma keep_loadseg [keep]: "same_files s t \<Longrightarrow> kept snd s (loadseg pt va ip off sz t)"
  by (auto simp: loadseg_def Let_def intro!: keep)

lemma keep_exec_load [keep]: "same_files s t \<Longrightarrow> kept snd s (exec_load ip pt n off sz t)"
  by (induction n arbitrary: off sz t) (auto simp: Let_def intro!: keep)

lemma keep_exec_args [keep]: "same_files s t \<Longrightarrow> kept snd s (exec_args pt base argc argv sp us t)"
  by (induction argv arbitrary: argc sp us t) (auto simp: Let_def intro!: keep)

lemma same_files_set_name [intro!]: "same_files s t \<Longrightarrow> same_files s (upd_proc p (set_name nm) t)"
  by (rule same_files_upd_proc) (simp_all add: set_name_def)

lemma keep_exec_bad [keep]: "same_files s t \<Longrightarrow> kept snd s (exec_bad pt sz mip t)"
  by (auto simp: exec_bad_def Let_def intro!: keep)

lemma keep_exec_commit [keep]: "same_files s t \<Longrightarrow> kept snd s (exec_commit path elf pt sz osz sp argc p t)"
  by (auto simp: exec_commit_def Let_def intro!: keep)

lemma keep_exec_stack [keep]: "same_files s t \<Longrightarrow> kept snd s (exec_stack path argv elf pt sz p t)"
  by (auto simp: exec_stack_def Let_def intro!: keep)

lemma keep_exec [keep]: "same_files s t \<Longrightarrow> kept snd s (exec path argv t)"
  by (auto simp: exec_def Let_def intro!: keep)

subsection \<open>System calls\<close>

lemma keep_fetchaddr [keep]: "same_files s t \<Longrightarrow> kept snd s (fetchaddr ad t)"
  by (auto simp: fetchaddr_def Let_def intro!: keep)

lemma keep_fetchstr [keep]: "same_files s t \<Longrightarrow> kept snd s (fetchstr ad n t)"
  by (auto simp: fetchstr_def Let_def intro!: keep)

lemma keep_argraw [keep]: "same_files s t \<Longrightarrow> kept snd s (argraw n t)"
  by (auto simp: argraw_def Let_def intro!: keep)

lemma keep_argint [keep]: "same_files s t \<Longrightarrow> kept snd s (argint n t)"
  by (auto simp: argint_def Let_def intro!: keep)

lemma keep_argaddr [keep]: "same_files s t \<Longrightarrow> kept snd s (argaddr n t)"
  by (auto simp: argaddr_def Let_def intro!: keep)

lemma keep_argstr [keep]: "same_files s t \<Longrightarrow> kept snd s (argstr n mx t)"
  by (auto simp: argstr_def Let_def intro!: keep)

lemma keep_argfd [keep]: "same_files s t \<Longrightarrow> kept snd s (argfd n t)"
  by (auto simp: argfd_def Let_def intro!: keep)

lemma keep_end_fail [keep]: "same_files s t \<Longrightarrow> kept snd s (end_fail t)"
  by (auto simp: end_fail_def Let_def intro!: keep)

lemma keep_put_fail [keep]: "same_files s t \<Longrightarrow> kept snd s (put_fail ip t)"
  by (auto simp: put_fail_def Let_def intro!: keep)

lemma keep_sys_read [keep]: "same_files s t \<Longrightarrow> kept snd s (sys_read t)"
  by (auto simp: sys_read_def Let_def intro!: keep)

lemma keep_sys_write [keep]: "same_files s t \<Longrightarrow> kept snd s (sys_write t)"
  by (auto simp: sys_write_def Let_def intro!: keep)

lemma keep_sys_fstat [keep]: "same_files s t \<Longrightarrow> kept snd s (sys_fstat t)"
  by (auto simp: sys_fstat_def Let_def intro!: keep)

lemma keep_link_bad [keep]: "same_files s t \<Longrightarrow> kept snd s (link_bad ip t)"
  by (auto simp: link_bad_def Let_def intro!: keep)

lemma keep_sys_link [keep]: "same_files s t \<Longrightarrow> kept snd s (sys_link t)"
  by (auto simp: sys_link_def Let_def intro!: keep)

lemma keep_isdirempty_loop [keep]: "same_files s t \<Longrightarrow> kept snd s (isdirempty_loop dp offs t)"
  by (induction offs arbitrary: t) (auto simp: Let_def intro!: keep)

lemma keep_isdirempty [keep]: "same_files s t \<Longrightarrow> kept snd s (isdirempty dp t)"
  by (auto simp: isdirempty_def Let_def intro!: keep)

lemma keep_unlink_entry [keep]: "same_files s t \<Longrightarrow> kept snd s (unlink_entry dp ip off t)"
  by (auto simp: unlink_entry_def Let_def intro!: keep)

lemma keep_sys_unlink [keep]: "same_files s t \<Longrightarrow> kept snd s (sys_unlink t)"
  by (auto simp: sys_unlink_def Let_def intro!: keep)

lemma keep_create_fail [keep]: "same_files s t \<Longrightarrow> kept snd s (create_fail ip dp t)"
  by (auto simp: create_fail_def Let_def intro!: keep)

lemma keep_create_link [keep]: "same_files s t \<Longrightarrow> kept snd s (create_link nm ty ip dp t)"
  by (auto simp: create_link_def Let_def intro!: keep)

lemma keep_create [keep]: "same_files s t \<Longrightarrow> kept snd s (create path ty mj mn t)"
  by (auto simp: create_def Let_def intro!: keep)

lemma keep_open_inode [keep]: "same_files s t \<Longrightarrow> kept snd s (open_inode path omode t)"
  by (auto simp: open_inode_def Let_def intro!: keep)

lemma keep_sys_mkdir [keep]: "same_files s t \<Longrightarrow> kept snd s (sys_mkdir t)"
  by (auto simp: sys_mkdir_def Let_def intro!: keep)

lemma keep_sys_mknod [keep]: "same_files s t \<Longrightarrow> kept snd s (sys_mknod t)"
  by (auto simp: sys_mknod_def Let_def intro!: keep)

lemma keep_sys_chdir [keep]: "same_files s t \<Longrightarrow> kept snd s (sys_chdir t)"
  by (auto simp: sys_chdir_def Let_def intro!: keep)

lemma keep_free_args [keep]: "same_files s t \<Longrightarrow> kept (\<lambda>x. x) s (free_args as t)"
  by (induction as arbitrary: t) (auto simp: Let_def intro!: keep)

lemma keep_exec_argv [keep]: "same_files s t \<Longrightarrow> kept snd s (exec_argv u i n argv t)"
  by (induction n arbitrary: i argv t) (auto simp: Let_def intro!: keep)

lemma keep_sys_exec [keep]: "same_files s t \<Longrightarrow> kept snd s (sys_exec t)"
  by (auto simp: sys_exec_def Let_def intro!: keep)

lemma keep_sys_getpid [keep]: "same_files s t \<Longrightarrow> kept snd s (sys_getpid t)"
  by (auto simp: sys_getpid_def Let_def intro!: keep)

lemma keep_sys_sbrk [keep]: "same_files s t \<Longrightarrow> kept snd s (sys_sbrk t)"
  by (auto simp: sys_sbrk_def Let_def intro!: keep)

lemma keep_sys_sleep_loop [keep]: "same_files s t \<Longrightarrow> kept snd s (sys_sleep_loop n t0 t)"
  by (auto simp: sys_sleep_loop_def Let_def intro!: keep)

lemma keep_sys_sleep [keep]: "same_files s t \<Longrightarrow> kept snd s (sys_sleep t)"
  by (auto simp: sys_sleep_def Let_def intro!: keep)

lemma keep_sys_kill [keep]: "same_files s t \<Longrightarrow> kept snd s (sys_kill t)"
  by (auto simp: sys_kill_def Let_def intro!: keep)

lemma keep_sys_uptime [keep]: "same_files s t \<Longrightarrow> kept snd s (sys_uptime t)"
  by (auto simp: sys_uptime_def Let_def intro!: keep)

text \<open>A process that was unused or a zombie may become unused.\<close>

lemma same_files_free:
  assumes "same_files s t" "dead (p_state (procs s p))" "\<And>x. p_ofile (g x) = p_ofile x"
  shows "same_files s (upd_proc p g t)"
  using assms by (auto simp: same_files_def upd_proc_def curproc_def mycpu_def)

lemma keep_freeproc:
  assumes "same_files s t" "dead (p_state (procs s p))"
  shows "kept (\<lambda>x. x) s (freeproc p t)"
  using assms by (auto simp: freeproc_def Let_def intro!: keep same_files_free)

lemma dead_before:
  "same_files s t \<Longrightarrow> p_state (procs t q) = ZOMBIE \<Longrightarrow> dead (p_state (procs s q))"
  "same_files s t \<Longrightarrow> p_state (procs t q) = UNUSED \<Longrightarrow> dead (p_state (procs s q))"
  by (simp_all add: same_files_def)

lemma keep_wait_scan [keep]: "same_files s t \<Longrightarrow> kept snd s (wait_scan p ad ps hk t)"
  by (induction ps arbitrary: hk t) (auto simp: Let_def intro!: keep keep_freeproc intro: dead_before)

lemma keep_wait_loop [keep]: "same_files s t \<Longrightarrow> kept snd s (wait_loop p ad t)"
  by (auto simp: wait_loop_def Let_def intro!: keep)

lemma keep_wait [keep]: "same_files s t \<Longrightarrow> kept snd s (wait ad t)"
  by (auto simp: wait_def Let_def intro!: keep)

lemma keep_sys_wait [keep]: "same_files s t \<Longrightarrow> kept snd s (sys_wait t)"
  by (auto simp: sys_wait_def Let_def intro!: keep)

lemma keep_allocproc_scan [keep]: "same_files s t \<Longrightarrow> kept snd s (allocproc_scan ps t)"
  by (induction ps arbitrary: t) (auto intro!: keep)

lemma allocproc_scan_found:
  "allocproc_scan ps t = Ok (Some p, u) \<Longrightarrow> p \<in> set ps \<and> p_state (procs u p) = UNUSED"
  by (induction ps arbitrary: t) (auto simp: res_simps split: if_splits)

lemma keep_allocproc [keep]: "same_files s t \<Longrightarrow> kept snd s (allocproc t)"
  by (auto simp: allocproc_def Let_def intro!: keep keep_freeproc dest!: allocproc_scan_found) (erule (1) dead_before(2))+

lemma kept_Ok: "kept st s m \<Longrightarrow> m = Ok x \<Longrightarrow> same_files s (st x)"
  by simp

lemma allocproc_Some:
  assumes "allocproc t = Ok (Some p, u)" "same_files s t"
  shows "p < NPROC" "dead (p_state (procs s p))" "\<not> dead (p_state (procs u p))"
proof -
  obtain t1 pid t2 tf t3 pt t4 where
    1: "allocproc_scan [0..<NPROC] t = Ok (Some p, t1)" "allocpid t1 = Ok (pid, t2)"
    and 2: "kalloc (upd_proc p (\<lambda>q. q\<lparr>p_state := USED\<rparr>) (upd_proc p (\<lambda>q. q\<lparr>p_pid := pid\<rparr>) t2)) = Ok (tf, t3)"
    and 3: "proc_pagetable p (upd_proc p (\<lambda>q. q\<lparr>p_trapframe := tf\<rparr>) t3) = Ok (pt, t4)"
    and u: "p_state (procs u p) = p_state (procs t4 p)"
    using assms(1) by (auto simp: allocproc_def Let_def res_simps split: if_splits option.splits) (auto simp: upd_proc_def)
  have "same_files s t1" using kept_Ok [OF keep_allocproc_scan [OF assms(2)] 1(1)] by simp
  with allocproc_scan_found [OF 1(1)] show "p < NPROC" "dead (p_state (procs s p))" by (auto intro: dead_before)
  let ?u = "upd_proc p (\<lambda>q. q\<lparr>p_state := USED\<rparr>) (upd_proc p (\<lambda>q. q\<lparr>p_pid := pid\<rparr>) t2)"
  have "same_files ?u t3" using kept_Ok [OF keep_kalloc [OF same_files_refl] 2] by simp
  then have "same_files ?u (upd_proc p (\<lambda>q. q\<lparr>p_trapframe := tf\<rparr>) t3)" by (rule same_files_upd_proc) simp_all
  then have "same_files ?u t4" using kept_Ok [OF keep_proc_pagetable 3] by simp
  moreover have "\<not> dead (p_state (procs ?u p))" by (simp add: upd_proc_def)
  ultimately show "\<not> dead (p_state (procs u p))" unfolding u by (auto simp: same_files_def)
qed

end
