(* ===== verification/Fdtable.thy ===== *)
theory Fdtable
  imports Keep
begin

text \<open>
  The descriptor tables of the processes against the table of open files. \<open>fds_inv e N s\<close>: every
  descriptor table has its 16 entries, and an entry that is in use is the number of an entry of the file
  table; a process that is unused or a zombie has no open files; the reference count of a file is the
  number of descriptors that refer to it plus \<open>e f\<close>, the references that are in the hands of running
  code; a file without a type, unless it is in \<open>N\<close>, has no descriptor; and a file without references has
  no type. Between system calls \<open>e\<close> is 0
  and \<open>N\<close> is empty (\<open>fds_ok\<close>).
\<close>

subsection \<open>The invariant\<close>

definition fd_refs :: "('z) proc_state_scheme \<Rightarrow> nat \<Rightarrow> nat" where
  "fd_refs s f = card {(q, fd). q < NPROC \<and> fd < NOFILE \<and> p_ofile (procs s q) ! fd = Some f}"

definition fds_inv :: "(nat \<Rightarrow> int) \<Rightarrow> nat set \<Rightarrow> ('z) file_state_scheme \<Rightarrow> bool" where
  "fds_inv e N s \<longleftrightarrow>
     (\<forall>q < NPROC. length (p_ofile (procs s q)) = NOFILE \<and> (\<forall>fd < NOFILE. \<forall>f. p_ofile (procs s q) ! fd = Some f \<longrightarrow> f < NFILE)
        \<and> (dead (p_state (procs s q)) \<longrightarrow> (\<forall>fd < NOFILE. p_ofile (procs s q) ! fd = None)))
     \<and> (\<forall>f < NFILE. f_ref (ftable s f) = int (fd_refs s f) + e f)
     \<and> (\<forall>f < NFILE. f \<notin> N \<longrightarrow> f_type (ftable s f) = FD_NONE \<longrightarrow> fd_refs s f = 0)
     \<and> (\<forall>f < NFILE. f_ref (ftable s f) = 0 \<longrightarrow> f_type (ftable s f) = FD_NONE)
     \<and> (\<exists>p < NPROC. curproc s = Some p \<and> \<not> dead (p_state (procs s p)))"

abbreviation fds_ok :: "('z) file_state_scheme \<Rightarrow> bool" where
  "fds_ok \<equiv> fds_inv (\<lambda>_. 0) {}"

lemma fds_inv_same:
  assumes "same_files s t" "fds_inv e N s"
  shows "fds_inv e N t"
proof -
  have r: "fd_refs t = fd_refs s" using assms(1) by (simp add: fd_refs_def same_files_def fun_eq_iff)
  show ?thesis using assms unfolding fds_inv_def r by (auto simp: same_files_def)
qed

lemma fds_invD:
  assumes "fds_inv e N s" "q < NPROC"
  shows "length (p_ofile (procs s q)) = NOFILE" "fd < NOFILE \<Longrightarrow> p_ofile (procs s q) ! fd = Some f \<Longrightarrow> f < NFILE"
    "dead (p_state (procs s q)) \<Longrightarrow> fd < NOFILE \<Longrightarrow> p_ofile (procs s q) ! fd = None"
  using assms by (auto simp: fds_inv_def)

lemma fds_inv_fileD:
  assumes "fds_inv e N s" "f < NFILE"
  shows "f_ref (ftable s f) = int (fd_refs s f) + e f" "f_ref (ftable s f) = 0 \<Longrightarrow> f_type (ftable s f) = FD_NONE"
    "f \<notin> N \<Longrightarrow> f_type (ftable s f) = FD_NONE \<Longrightarrow> fd_refs s f = 0"
  using assms by (simp_all add: fds_inv_def)

lemma fds_inv_cur:
  assumes "fds_inv e N s"
  obtains p where "p < NPROC" "curproc s = Some p" "\<not> dead (p_state (procs s p))"
  using assms by (auto simp: fds_inv_def)

text \<open>Storing in a descriptor table.\<close>

abbreviation set_fd :: "nat \<Rightarrow> nat \<Rightarrow> nat option \<Rightarrow> ('z) proc_state_scheme \<Rightarrow> ('z) proc_state_scheme" where
  "set_fd p fd x s \<equiv> upd_proc p (\<lambda>q. q\<lparr>p_ofile := (p_ofile q)[fd := x]\<rparr>) s"

lemma finite_fds [simp]: "finite {(q, fd). q < NPROC \<and> fd < NOFILE \<and> P q fd}"
  by (rule finite_subset [of _ "{..<NPROC} \<times> {..<NOFILE}"]) auto

lemma fd_refs_open:
  assumes "p < NPROC" "fd < NOFILE" "length (p_ofile (procs s p)) = NOFILE" "p_ofile (procs s p) ! fd = None"
  shows "fd_refs (set_fd p fd (Some f) s) g = (if g = f then Suc (fd_refs s g) else fd_refs s g)"
proof -
  let ?A = "\<lambda>s. {(q, fd). q < NPROC \<and> fd < NOFILE \<and> p_ofile (procs s q) ! fd = Some g}"
  have "?A (set_fd p fd (Some f) s) = (if g = f then insert (p, fd) (?A s) else ?A s)"
    using assms by (auto simp: upd_proc_def nth_list_update split: if_splits)
  moreover have "(p, fd) \<notin> ?A s" using assms(4) by simp
  ultimately show ?thesis using assms(4) by (simp add: fd_refs_def card_insert_if)
qed

lemma fd_refs_close:
  assumes "p < NPROC" "fd < NOFILE" "length (p_ofile (procs s p)) = NOFILE" "p_ofile (procs s p) ! fd = Some f"
  shows "fd_refs (set_fd p fd None s) g = (if g = f then fd_refs s g - 1 else fd_refs s g)" "0 < fd_refs s f"
proof -
  let ?A = "\<lambda>s g. {(q, fd). q < NPROC \<and> fd < NOFILE \<and> p_ofile (procs s q) ! fd = Some g}"
  have "?A (set_fd p fd None s) g = (if g = f then ?A s g - {(p, fd)} else ?A s g)"
    using assms by (auto simp: upd_proc_def nth_list_update split: if_splits)
  moreover have m: "(p, fd) \<in> ?A s f" using assms by simp
  ultimately show "fd_refs (set_fd p fd None s) g = (if g = f then fd_refs s g - 1 else fd_refs s g)"
    using assms by (simp add: fd_refs_def card_Diff_singleton_if)
  show "0 < fd_refs s f" using m by (auto simp: fd_refs_def card_gt_0_iff)
qed

lemma fds_inv_set_fd:
  assumes inv: "fds_inv e N s" and p: "p < NPROC" "fd < NOFILE" and x: "\<And>f. x = Some f \<Longrightarrow> f < NFILE \<and> \<not> dead (p_state (procs s p))"
    and refs: "\<And>g. g < NFILE \<Longrightarrow> int (fd_refs (set_fd p fd x s) g) + e' g = int (fd_refs s g) + e g"
    and typed: "\<And>g. g < NFILE \<Longrightarrow> g \<notin> N' \<Longrightarrow> f_type (ftable s g) = FD_NONE \<Longrightarrow> fd_refs (set_fd p fd x s) g = 0"
  shows "fds_inv e' N' (set_fd p fd x s)"
proof -
  let ?s = "set_fd p fd x s"
  have o: "p_ofile (procs ?s q) = (if q = p then (p_ofile (procs s p))[fd := x] else p_ofile (procs s q))" "ftable ?s = ftable s"
      "p_state (procs ?s q) = p_state (procs s q)" for q by (simp_all add: upd_proc_def)
  have len: "length (p_ofile (procs s p)) = NOFILE" using fds_invD(1) [OF inv p(1)] .
  have "length (p_ofile (procs ?s q)) = NOFILE \<and> (\<forall>fd < NOFILE. \<forall>f. p_ofile (procs ?s q) ! fd = Some f \<longrightarrow> f < NFILE)
        \<and> (dead (p_state (procs ?s q)) \<longrightarrow> (\<forall>fd < NOFILE. p_ofile (procs ?s q) ! fd = None))" if "q < NPROC" for q
    using fds_invD [OF inv that] len x p(2) unfolding o by (cases x) (auto simp: nth_list_update split: if_splits)
  moreover have "curproc ?s = curproc s" by (simp add: lock_simps)
  ultimately show ?thesis using inv refs typed unfolding fds_inv_def o by auto
qed

subsection \<open>Outcomes\<close>

text \<open>The value an operation returns satisfies \<open>Q\<close>, and a state in which it switches away satisfies \<open>R\<close>.\<close>

definition outcome :: "('a \<Rightarrow> bool) \<Rightarrow> ('s \<Rightarrow> bool) \<Rightarrow> ('s, 'a) res \<Rightarrow> bool" where
  "outcome Q R m \<longleftrightarrow> (case m of Ok x \<Rightarrow> Q x | Slept t \<Rightarrow> R t | _ \<Rightarrow> True)"

lemma outcome_simps [simp]: "outcome Q R (Ok x) = Q x" "outcome Q R (Slept t) = R t" "outcome Q R (Panic m)" "outcome Q R Spin"
  by (simp_all add: outcome_def)

lemma outcome_bind: "outcome Q R m \<Longrightarrow> (\<And>x. Q x \<Longrightarrow> outcome Q' R (f x)) \<Longrightarrow> outcome Q' R (rbind m f)"
  by (cases m) simp_all

lemma outcome_mono: "outcome Q R m \<Longrightarrow> (\<And>x. Q x \<Longrightarrow> Q' x) \<Longrightarrow> (\<And>t. R t \<Longrightarrow> R' t) \<Longrightarrow> outcome Q' R' m"
  by (cases m) simp_all

lemma outcome_deref: "(\<And>p. x = Some p \<Longrightarrow> outcome Q R (f p)) \<Longrightarrow> outcome Q R (deref x f)"
  by (cases x) (simp_all add: deref_def)

text \<open>After an operation that keeps files.\<close>

lemma outcome_kept: "kept st s m \<Longrightarrow> fds_inv e N s \<Longrightarrow> outcome (\<lambda>x. fds_inv e N (st x)) (fds_inv e N) m"
  by (cases m) (auto intro: fds_inv_same)

lemma outcome_kept_pair: "kept snd s m \<Longrightarrow> fds_inv e N s \<Longrightarrow> outcome (\<lambda>(v, t). fds_inv e N t) (fds_inv e N) m"
  by (cases m) (auto intro: fds_inv_same)

lemma outcome_kept_bind:
  assumes "kept (\<lambda>x. x) s m" "fds_inv e N s" "\<And>t. m = Ok t \<Longrightarrow> same_files s t \<Longrightarrow> fds_inv e N t \<Longrightarrow> outcome Q (fds_inv e N) (f t)"
  shows "outcome Q (fds_inv e N) (rbind m f)"
  using assms by (cases m) (auto intro: fds_inv_same)

lemma outcome_kept_bind_pair:
  assumes "kept snd s m" "fds_inv e N s"
    and "\<And>a t. m = Ok (a, t) \<Longrightarrow> same_files s t \<Longrightarrow> fds_inv e N t \<Longrightarrow> outcome Q (fds_inv e N) (f (a, t))"
  shows "outcome Q (fds_inv e N) (rbind m f)"
proof (cases m)
  case (Ok x)
  then show ?thesis using assms fds_inv_same [of s "snd x" e N] by (cases x) simp
qed (use assms fds_inv_same in auto)

lemma myproc_Ok: "myproc s = Ok (x, t) \<Longrightarrow> x = curproc s"
  by (auto simp: myproc_def Let_def res_simps curproc_def push_off_eq mycpu_def)

text \<open>\<open>argfd\<close> returns an entry of the table of the current process.\<close>

lemma argfd_Some:
  fixes s :: "('z) file_state_scheme"
  assumes "argfd n s = Ok (Some (fd, f), t)"
  shows "fd < NOFILE" "\<exists>p. curproc t = Some p \<and> p_ofile (procs t p) ! fd = Some f"
proof -
  obtain x t1 p where 1: "argint n s = Ok (x, t1)" "\<not> x < 0" "x < 16" "myproc t1 = Ok (Some p, t)" "fd = nat x"
    "p_ofile (procs t p) ! fd = Some f"
    using assms by (auto simp: argfd_def res_simps deref_def split: if_splits option.splits)
  then show "fd < NOFILE" by simp
  have "same_files t1 t" using kept_Ok [OF keep_myproc [OF same_files_refl] 1(4)] by simp
  then have "curproc t = Some p" using myproc_Ok [OF 1(4)] by (simp add: same_files_def)
  then show "\<exists>p. curproc t = Some p \<and> p_ofile (procs t p) ! fd = Some f" using 1(6) by blast
qed

text \<open>The part of \<open>same_files\<close> that is about processes.\<close>

definition same_fds :: "('z) proc_state_scheme \<Rightarrow> ('z) proc_state_scheme \<Rightarrow> bool" where
  "same_fds s t \<longleftrightarrow> (\<forall>q. p_ofile (procs t q) = p_ofile (procs s q)) \<and> (\<forall>q. dead (p_state (procs t q)) \<longrightarrow> dead (p_state (procs s q)))
     \<and> curproc t = curproc s"

lemma same_fds_of: "same_files s t \<Longrightarrow> same_fds s t"
  by (simp add: same_files_def same_fds_def)

lemma same_fds_trans: "same_fds r s \<Longrightarrow> same_fds s t \<Longrightarrow> same_fds r t"
  by (simp add: same_fds_def)

lemma same_fds_upd_file [simp]: "same_fds s (upd_file f g t) = same_fds s t" "same_fds (upd_file f g s) t = same_fds s t"
  by (simp_all add: same_fds_def upd_file_def curproc_def mycpu_def)

subsection \<open>Operations on the file table\<close>

lemma same_files_type: "same_files s t \<Longrightarrow> f_type (ftable t g) = f_type (ftable s g)"
  by (simp add: same_files_def)

lemma upd_file_same:
  "fd_refs (upd_file f g s) = fd_refs s" "procs (upd_file f g s) = procs s" "curproc (upd_file f g s) = curproc s"
  "ftable (upd_file f g s) = (ftable s)(f := g (ftable s f))"
  by (simp_all add: upd_file_def fd_refs_def curproc_def mycpu_def fun_eq_iff)

lemma fds_inv_upd_file:
  assumes i: "fds_inv e N s"
    and f: "f < NFILE \<Longrightarrow> f_ref (g (ftable s f)) = int (fd_refs s f) + e' f"
      "f < NFILE \<Longrightarrow> f \<notin> N' \<Longrightarrow> f_type (g (ftable s f)) = FD_NONE \<Longrightarrow> fd_refs s f = 0"
      "f < NFILE \<Longrightarrow> f_ref (g (ftable s f)) = 0 \<Longrightarrow> f_type (g (ftable s f)) = FD_NONE"
    and e: "\<And>h. h \<noteq> f \<Longrightarrow> e' h = e h" "N - {f} \<subseteq> N'"
  shows "fds_inv e' N' (upd_file f g s)"
proof -
  note I = i [unfolded fds_inv_def]
  have "f_ref (ftable (upd_file f g s) h) = int (fd_refs s h) + e' h" if "h < NFILE" for h
    using f(1) e(1) [of h] fds_inv_fileD(1) [OF i that] that unfolding upd_file_same by (cases "h = f") simp_all
  moreover have "fd_refs s h = 0" if "h < NFILE" "h \<notin> N'" "f_type (ftable (upd_file f g s) h) = FD_NONE" for h
    using f(2) e(2) fds_inv_fileD(3) [OF i that(1)] that unfolding upd_file_same by (cases "h = f") auto
  moreover have "f_type (ftable (upd_file f g s) h) = FD_NONE" if "h < NFILE" "f_ref (ftable (upd_file f g s) h) = 0" for h
    using f(3) fds_inv_fileD(2) [OF i that(1)] that unfolding upd_file_same by (cases "h = f") simp_all
  ultimately show ?thesis unfolding fds_inv_def upd_file_same(1-3) using I by blast
qed

lemma fds_inv_ref:
  assumes "fds_inv e N s" "\<And>x. f_type (g x) = f_type x" "f_ref (g (ftable s f)) = f_ref (ftable s f) + d"
    "f_ref (ftable s f) + d \<noteq> 0"
  shows "fds_inv (e(f := e f + d)) N (upd_file f g s)"
  using fds_inv_fileD [OF assms(1), of f] assms(2-4) by (intro fds_inv_upd_file [OF assms(1)]) auto

lemma fds_inv_typed:
  assumes "fds_inv e N s" "\<And>x. f_ref (g x) = f_ref x" "\<And>x. f_type (g x) \<noteq> FD_NONE" "f_ref (ftable s f) \<noteq> 0"
  shows "fds_inv e (N - {f}) (upd_file f g s)"
  using fds_inv_fileD [OF assms(1), of f] assms(2-4) by (intro fds_inv_upd_file [OF assms(1)]) auto

lemma outcome_stay_bind:
  assumes "stays m" "kept (\<lambda>x. x) s m" "fds_inv e N s" "\<And>t. same_files s t \<Longrightarrow> fds_inv e N t \<Longrightarrow> outcome Q R (f t)"
  shows "outcome Q R (rbind m f)"
proof (cases m)
  case (Ok t)
  then show ?thesis using assms fds_inv_same [of s t e N] by simp
qed (use assms(1) in \<open>simp_all add: stays_def\<close>)

lemmas acquire_bind = outcome_stay_bind [OF acquire_stays keep_acquire [OF same_files_refl]]
lemmas release_bind = outcome_stay_bind [OF release_stays keep_release [OF same_files_refl]]

lemma filealloc_fds:
  fixes s :: "('z) file_state_scheme"
  assumes "fds_inv e N s"
  shows "outcome (\<lambda>(r, t). case r of None \<Rightarrow> fds_inv e N t
     | Some f \<Rightarrow> f < NFILE \<and> fds_inv (e(f := e f + 1)) N t \<and> f_type (ftable t f) = FD_NONE \<and> (\<forall>g. f_type (ftable t g) = f_type (ftable s g)) \<and> curproc t = curproc s) R (filealloc s)"
  unfolding filealloc_def
proof (rule acquire_bind [OF assms])
  fix t :: "'z file_state_scheme" assume t: "fds_inv e N t" "same_files s t"
  show "outcome (\<lambda>(r, t). case r of None \<Rightarrow> fds_inv e N t
     | Some f \<Rightarrow> f < NFILE \<and> fds_inv (e(f := e f + 1)) N t \<and> f_type (ftable t f) = FD_NONE \<and> (\<forall>g. f_type (ftable t g) = f_type (ftable s g)) \<and> curproc t = curproc s) R
     (case find (\<lambda>f. f_ref (ftable t f) = 0) [0..<NFILE] of
       Some f \<Rightarrow> rbind (release FtableLock (upd_file f (\<lambda>x. x\<lparr>f_ref := 1\<rparr>) t)) (\<lambda>s. Ok (Some f, s))
     | None \<Rightarrow> rbind (release FtableLock t) (\<lambda>s. Ok (None, s)))"
  proof (cases "find (\<lambda>f. f_ref (ftable t f) = 0) [0..<NFILE]")
    case None
    then show ?thesis by (auto intro!: release_bind [OF t(1)])
  next
    case (Some f)
    then have f: "f < NFILE" "f_ref (ftable t f) = 0" by (auto simp: find_Some_iff)
    have i: "fds_inv (e(f := e f + 1)) N (upd_file f (\<lambda>x. x\<lparr>f_ref := 1\<rparr>) t)" using f by (intro fds_inv_ref [OF t(1)]) simp_all
    have ty: "f_type (ftable t f) = FD_NONE" "f_type (ftable (upd_file f (\<lambda>x. x\<lparr>f_ref := 1\<rparr>) t) g) = f_type (ftable s g)" for g
      using fds_inv_fileD(2) [OF t(1) f] same_files_type [OF t(2), of g] by (auto simp: upd_file_def)
    have "outcome (\<lambda>(r, t). case r of None \<Rightarrow> fds_inv e N t
       | Some f \<Rightarrow> f < NFILE \<and> fds_inv (e(f := e f + 1)) N t \<and> f_type (ftable t f) = FD_NONE \<and> (\<forall>g. f_type (ftable t g) = f_type (ftable s g)) \<and> curproc t = curproc s) R
       (Ok (Some f, u))" if "same_files (upd_file f (\<lambda>x. x\<lparr>f_ref := 1\<rparr>) t) u" "fds_inv (e(f := e f + 1)) N u" for u
      using that f(1) same_files_type [OF that(1)] ty same_files_type [OF t(2), of f] same_fds_of [OF that(1)] same_fds_of [OF t(2)]
      by (simp add: same_fds_def upd_file_same(3))
    then show ?thesis unfolding Some by (simp only: option.case) (rule release_bind [OF i])
  qed
qed

lemma filedup_fds:
  fixes s :: "('z) file_state_scheme"
  assumes "fds_inv e N s"
  shows "outcome (\<lambda>(g, t). g = f \<and> same_fds s t \<and> fds_inv (e(f := e f + 1)) N t) R (filedup f s)"
  unfolding filedup_def
proof (rule acquire_bind [OF assms])
  fix t :: "'z file_state_scheme" assume t: "fds_inv e N t" "same_files s t"
  have i: "fds_inv (e(f := e f + 1)) N (upd_file f (\<lambda>x. x\<lparr>f_ref := f_ref x + 1\<rparr>) t)" if "\<not> f_ref (ftable t f) < 1"
    using that by (intro fds_inv_ref [OF t(1)]) simp_all
  show "outcome (\<lambda>(g, t). g = f \<and> same_fds s t \<and> fds_inv (e(f := e f + 1)) N t) R
     (if f_ref (ftable t f) < 1 then Panic ''filedup''
      else rbind (release FtableLock (upd_file f (\<lambda>x. x\<lparr>f_ref := f_ref x + 1\<rparr>) t)) (\<lambda>s. Ok (f, s)))"
    using t(2) by (auto intro!: release_bind [OF i] dest!: same_fds_of intro: same_fds_trans)
qed

lemma fileclose_fds:
  fixes s :: "('z) file_state_scheme"
  assumes "fds_inv e N s" and f: "f < NFILE" and n: "1 \<le> e f \<or> f \<in> N"
  defines "e' \<equiv> e(f := e f - 1)"
  shows "outcome (fds_inv e' N) (fds_inv e' N) (fileclose f s)"
  unfolding fileclose_def
proof (rule acquire_bind [OF assms(1)])
  fix t :: "'z file_state_scheme" assume t: "fds_inv e N t"
  let ?t = "upd_file f (\<lambda>x. x\<lparr>f_ref := f_ref x - 1\<rparr>) t"
  let ?u = "upd_file f (\<lambda>x. x\<lparr>f_ref := 0, f_type := FD_NONE\<rparr>) ?t"
  show "outcome (fds_inv e' N) (fds_inv e' N) (if f_ref (ftable t f) < 1 then Panic ''fileclose''
     else let s = ?t in if f_ref (ftable s f) > 0 then release FtableLock s
          else let ff = ftable s f; s = upd_file f (\<lambda>x. x\<lparr>f_ref := 0, f_type := FD_NONE\<rparr>) s
               in rbind (release FtableLock s) (\<lambda>s. case f_type ff of
                    FD_PIPE \<Rightarrow> pipeclose (f_pipe ff) (f_writable ff) s | FD_NONE \<Rightarrow> Ok s
                  | _ \<Rightarrow> rbind (begin_op s) (\<lambda>s. rbind (iput (f_ip ff) s) (\<lambda>s. end_op s))))"
  proof (cases "f_ref (ftable ?t f) = 0")
    case False
    have i: "fds_inv e' N ?t" unfolding e'_def diff_conv_add_uminus
      by (intro fds_inv_ref [OF t]) (use False in \<open>simp_all add: upd_file_def\<close>)
    show ?thesis using False outcome_kept [OF keep_release [OF same_files_refl] i] by (auto simp: Let_def upd_file_def)
  next
    case True
    have one: "f_ref (ftable t f) = 1" using True by (simp add: upd_file_def)
    then have "int (fd_refs t f) + e f = 1" using t f by (auto simp: fds_inv_def)
    then have z: "f \<notin> N \<Longrightarrow> fd_refs t f = 0" "int (fd_refs t f) + e' f = 0" using n by (simp_all add: e'_def)
    have "?u = upd_file f (\<lambda>x. x\<lparr>f_ref := 0, f_type := FD_NONE\<rparr>) t" by (simp add: upd_file_def)
    then have u: "fds_inv e' N ?u" using z by (auto intro!: fds_inv_upd_file [OF t] simp: e'_def)
    have "kept (\<lambda>x. x) ?u (rbind (release FtableLock ?u) (\<lambda>s. case f_type (ftable ?t f) of
                    FD_PIPE \<Rightarrow> pipeclose (f_pipe (ftable ?t f)) (f_writable (ftable ?t f)) s | FD_NONE \<Rightarrow> Ok s
                  | _ \<Rightarrow> rbind (begin_op s) (\<lambda>s. rbind (iput (f_ip (ftable ?t f)) s) (\<lambda>s. end_op s))))"
      by (auto intro!: keep)
    from outcome_kept [OF this u] show ?thesis using True by (simp add: Let_def)
  qed
qed

text \<open>\<open>fdalloc\<close> takes the first free descriptor of the current process.\<close>

lemma fdalloc_fds:
  fixes s :: "('z) file_state_scheme"
  assumes "fds_inv e N s" and f: "f < NFILE" and n: "f \<in> N' \<or> f_type (ftable s f) \<noteq> FD_NONE" "N \<subseteq> N'"
  shows "outcome (\<lambda>(fd, t). if fd < 0 then fds_inv e N t \<and> same_files s t
     else fds_inv (e(f := e f - 1)) N' t \<and> (\<forall>g. f_type (ftable t g) = f_type (ftable s g) \<and> f_ref (ftable t g) = f_ref (ftable s g)) \<and>
       (\<exists>p. curproc s = Some p \<and> curproc t = Some p \<and> nat fd < NOFILE \<and> p_ofile (procs s p) ! nat fd = None
          \<and> p_ofile (procs t p) = (p_ofile (procs s p))[nat fd := Some f])) R (fdalloc f s)"
proof (cases "myproc s")
  case (Ok r)
  obtain x t where r: "r = (x, t)" by (cases r)
  have t: "same_files s t" "x = curproc s" using kept_Ok [OF keep_myproc [OF same_files_refl] Ok] myproc_Ok [OF Ok [unfolded r]] r by simp_all
  obtain p where p: "p < NPROC" "curproc s = Some p" "\<not> dead (p_state (procs s p))" using fds_inv_cur [OF assms(1)] .
  have ti: "fds_inv e N t" using fds_inv_same [OF t(1) assms(1)] .
  have sf: "p_ofile (procs t p) = p_ofile (procs s p)" "\<not> dead (p_state (procs t p))" "f_type (ftable t g) = f_type (ftable s g)"
      "f_ref (ftable t g) = f_ref (ftable s g)" for g
    using t(1) p(3) by (auto simp: same_files_def)
  show ?thesis
  proof (cases "find (\<lambda>fd. p_ofile (procs t p) ! fd = None) [0..<NOFILE]")
    case None
    then show ?thesis using Ok r t p(2) ti by (simp add: fdalloc_def deref_def)
  next
    case (Some fd)
    then have fd: "fd < NOFILE" "p_ofile (procs t p) ! fd = None" by (auto simp: find_Some_iff)
    note o = fd_refs_open [OF p(1) fd(1) fds_invD(1) [OF ti p(1)] fd(2)]
    have nz: "fd_refs t h = 0" if "h < NFILE" "h \<notin> N'" "f_type (ftable t h) = FD_NONE" for h
      using ti that n(2) by (auto simp: fds_inv_def)
    have "fds_inv (e(f := e f - 1)) N' (set_fd p fd (Some f) t)"
      using f sf(2) n(1) nz sf(3) by (intro fds_inv_set_fd [OF ti p(1) fd(1)]) (auto simp: o)
    moreover have "ftable (set_fd p fd (Some f) t) = ftable t" "p_ofile (procs (set_fd p fd (Some f) t) p) = (p_ofile (procs t p))[fd := Some f]"
      "curproc (set_fd p fd (Some f) t) = Some p"
      using t(1) p(2) by (simp_all add: upd_proc_def same_files_def curproc_def mycpu_def)
    ultimately show ?thesis using Some Ok r t p(2) fd sf by (simp add: fdalloc_def deref_def)
  qed
qed (use keep_myproc [OF same_files_refl, of s] in \<open>auto simp: fdalloc_def myproc_def pop_off_def Let_def split: if_splits\<close>)

subsection \<open>System calls\<close>

lemma fileclose_held:
  fixes s :: "('z) file_state_scheme"
  assumes "fds_inv (e(f := e f + 1)) N s" "f < NFILE" "0 \<le> e f"
  shows "outcome (fds_inv e N) (fds_inv e N) (fileclose f s)"
proof -
  have "(e(f := e f + 1))(f := (e(f := e f + 1)) f - 1) = e" by (simp add: fun_eq_iff)
  then show ?thesis using fileclose_fds [OF assms(1,2)] assms(3) by (simp del: fun_upd_upd)
qed

lemma sys_dup_fds:
  fixes s :: "('z) file_state_scheme"
  assumes "fds_ok s"
  shows "outcome (\<lambda>(v, t). fds_ok t) fds_ok (sys_dup s)"
  unfolding sys_dup_def
proof (rule outcome_kept_bind_pair [OF keep_argfd [OF same_files_refl] assms])
  fix a and t :: "'z file_state_scheme" assume a: "argfd 0 s = Ok (a, t)" and t: "fds_ok t"
  show "outcome (\<lambda>(v, t). fds_ok t) fds_ok (case (a, t) of (r, s) \<Rightarrow> (case r of None \<Rightarrow> Ok (-1, s) | Some (_, f) \<Rightarrow>
         rbind (fdalloc f s) (\<lambda>(fd, s). if fd < 0 then Ok (-1, s)
         else rbind (filedup f s) (\<lambda>(_, s). Ok (of_int fd, s)))))"
  proof (cases a)
    case None
    then show ?thesis using t by simp
  next
    case (Some x)
    obtain fd f where x: "a = Some (fd, f)" using Some by (cases x) simp
    obtain p where p: "curproc t = Some p" "fd < NOFILE" "p_ofile (procs t p) ! fd = Some f"
      using argfd_Some a x by blast
    then have pn: "p < NPROC" using fds_inv_cur [OF t] by auto
    have f: "f < NFILE" using fds_invD(2) [OF t pn p(2,3)] .
    have "fd_refs t f \<noteq> 0" using fd_refs_close(2) [OF pn p(2) fds_invD(1) [OF t pn] p(3)] by simp
    then have ty: "f_type (ftable t f) \<noteq> FD_NONE" using t f by (auto simp: fds_inv_def)
    have e: "((\<lambda>_. 0 :: int)(f := 0 - 1))(f := ((\<lambda>_. 0)(f := 0 - 1)) f + 1) = (\<lambda>_. 0)" by (simp add: fun_eq_iff)
    have "outcome (\<lambda>(v, t). fds_ok t) fds_ok (rbind (filedup f u) (\<lambda>(_, s). Ok (of_int k, s)))"
      if "fds_inv ((\<lambda>_. 0)(f := 0 - 1)) {} u" for u :: "'z file_state_scheme" and k
      by (rule outcome_bind [OF filedup_fds [OF that]]) (use e in auto)
    then show ?thesis unfolding x using ty f
      by (auto intro!: outcome_bind [OF fdalloc_fds [OF t, of f "{}"]] split: if_splits)
  qed
qed

lemma fd_taken_back:
  assumes i: "fds_inv e N s" and p: "p < NPROC" "fd < NOFILE" "p_ofile (procs s p) ! fd = Some f"
  shows "fds_inv (e(f := e f + 1)) N (set_fd p fd None s)"
proof -
  note c = fd_refs_close [OF p(1,2) fds_invD(1) [OF i p(1)] p(3)]
  show ?thesis using i c(2) by (intro fds_inv_set_fd [OF i p(1,2)]) (auto simp: c(1) fds_inv_def)
qed

lemma sys_close_fds:
  fixes s :: "('z) file_state_scheme"
  assumes "fds_ok s"
  shows "outcome (\<lambda>(v, t). fds_ok t) fds_ok (sys_close s)"
  unfolding sys_close_def
proof (rule outcome_kept_bind_pair [OF keep_argfd [OF same_files_refl] assms])
  fix a and t :: "'z file_state_scheme" assume a: "argfd 0 s = Ok (a, t)" and t: "fds_ok t"
  show "outcome (\<lambda>(v, t). fds_ok t) fds_ok (case (a, t) of (r, s) \<Rightarrow> (case r of None \<Rightarrow> Ok (-1, s) | Some (fd, f) \<Rightarrow>
         rbind (myproc s) (\<lambda>(mp, s). deref mp (\<lambda>p. rbind (fileclose f (set_fd p fd None s)) (\<lambda>s. Ok (0, s))))))"
  proof (cases a)
    case None
    then show ?thesis using t by simp
  next
    case (Some x)
    obtain fd f where x: "a = Some (fd, f)" using Some by (cases x) simp
    obtain p where p: "curproc t = Some p" "fd < NOFILE" "p_ofile (procs t p) ! fd = Some f"
      using argfd_Some a x by blast
    then have pn: "p < NPROC" using fds_inv_cur [OF t] by auto
    have f: "f < NFILE" using fds_invD(2) [OF t pn p(2,3)] .
    have "outcome (\<lambda>(v, t). fds_ok t) fds_ok (rbind (fileclose f (set_fd p fd None u)) (\<lambda>s. Ok (0, s)))"
      if u: "same_files t u" "fds_ok u" for u :: "'z file_state_scheme"
    proof -
      have "p_ofile (procs u p) ! fd = Some f" using u(1) p(3) by (simp add: same_files_def)
      from fileclose_held [OF fd_taken_back [OF u(2) pn p(2) this] f]
      have "outcome fds_ok fds_ok (fileclose f (set_fd p fd None u))" by simp
      then show ?thesis by (rule outcome_bind) simp
    qed
    then show ?thesis unfolding x using p(1)
      by (auto intro!: outcome_kept_bind_pair [OF keep_myproc [OF same_files_refl] t] outcome_deref dest!: myproc_Ok)
  qed
qed

lemma open_file_fds:
  fixes s :: "('z) file_state_scheme"
  assumes "fds_inv e {f} s" "f_ref (ftable s f) \<noteq> 0"
  shows "outcome (\<lambda>(v, t). fds_inv e {} t) (fds_inv e {}) (open_file omode ip f fd s)"
proof -
  define t where "t = upd_file f (\<lambda>x. x\<lparr>f_ip := ip, f_readable := \<not> has_mode omode O_WRONLY,
      f_writable := has_mode omode O_WRONLY \<or> has_mode omode O_RDWR\<rparr>)
    (if i_type (itable s ip) = T_DEVICE
               then upd_file f (\<lambda>x. x\<lparr>f_type := FD_DEVICE, f_major := i_major (itable s ip)\<rparr>) s
               else upd_file f (\<lambda>x. x\<lparr>f_type := FD_INODE, f_off := 0\<rparr>) s)"
  have "fds_inv e ({f} - {f}) (upd_file f (\<lambda>x. x\<lparr>f_type := FD_DEVICE, f_major := i_major (itable s ip)\<rparr>) s)"
    "fds_inv e ({f} - {f}) (upd_file f (\<lambda>x. x\<lparr>f_type := FD_INODE, f_off := 0\<rparr>) s)"
    by (intro fds_inv_typed [OF assms(1)]; simp add: assms(2))+
  then have i: "fds_inv e {} t" unfolding t_def
    by (intro fds_inv_same [OF same_files_upd_file [OF same_files_refl]]) simp_all
  have "kept snd t (open_file omode ip f fd s)"
    unfolding open_file_def Let_def t_def [symmetric] by (auto intro!: keep)
  from outcome_kept_pair [OF this i] show ?thesis .
qed

lemma sys_open_fds:
  fixes s :: "('z) file_state_scheme"
  assumes "fds_ok s"
  shows "outcome (\<lambda>(v, t). fds_ok t) fds_ok (sys_open s)"
proof -
  have put: "outcome (\<lambda>(v, t). fds_ok t) fds_ok (put_fail ip t)" if "fds_ok t" for ip and t :: "'z file_state_scheme"
    using outcome_kept_pair [OF keep_put_fail [OF same_files_refl] that] .
  have new: "outcome (\<lambda>(v, t). fds_ok t) fds_ok (rbind (fdalloc f t) (\<lambda>(fd, s).
       if fd < 0 then rbind (fileclose f s) (\<lambda>s. put_fail ip s) else open_file omode ip f fd s))"
    if t: "fds_inv ((\<lambda>_. 0)(f := 1)) {} t" and f: "f < NFILE" for f ip omode and t :: "'z file_state_scheme"
  proof (rule outcome_bind [OF fdalloc_fds [OF t f, of "{f}"]])
    have e: "((\<lambda>_. 0 :: int)(f := 1))(f := ((\<lambda>_. 0)(f := 1)) f - 1) = (\<lambda>_. 0)" by (simp add: fun_eq_iff)
    fix x :: "int \<times> 'z file_state_scheme"
    assume "case x of (fd, u) \<Rightarrow> if fd < 0 then fds_inv ((\<lambda>_. 0)(f := 1)) {} u \<and> same_files t u
      else fds_inv (((\<lambda>_. 0)(f := 1))(f := ((\<lambda>_. 0)(f := 1)) f - 1)) {f} u \<and>
        (\<forall>g. f_type (ftable u g) = f_type (ftable t g) \<and> f_ref (ftable u g) = f_ref (ftable t g)) \<and>
       (\<exists>p. curproc t = Some p \<and> curproc u = Some p \<and> nat fd < NOFILE \<and> p_ofile (procs t p) ! nat fd = None
          \<and> p_ofile (procs u p) = (p_ofile (procs t p))[nat fd := Some f])"
    moreover have "f_ref (ftable t f) \<noteq> 0" using fds_inv_fileD(1) [OF t f] by simp
    ultimately show "outcome (\<lambda>(v, t). fds_ok t) fds_ok (case x of (fd, s) \<Rightarrow>
       if fd < 0 then rbind (fileclose f s) (\<lambda>s. put_fail ip s) else open_file omode ip f fd s)"
      unfolding e using f
      by (cases x) (auto intro!: open_file_fds outcome_bind [OF fileclose_held [of "\<lambda>_. 0"]] put split: if_splits)
  qed simp_all
  show ?thesis unfolding sys_open_def using assms
    by (auto intro!: outcome_kept_bind_pair [OF keep_argint [OF same_files_refl]] outcome_kept_bind_pair [OF keep_argstr [OF same_files_refl]]
        outcome_kept_bind [OF keep_begin_op [OF same_files_refl]] outcome_kept_bind_pair [OF keep_open_inode [OF same_files_refl]]
        outcome_bind [OF filealloc_fds [of "\<lambda>_. 0", simplified]] put new split: option.splits)
qed

text \<open>One reference each to two files, which may be the same.\<close>

definition held2 :: "nat \<Rightarrow> nat \<Rightarrow> nat \<Rightarrow> int" where
  "held2 a b x = (if x = a then 1 else 0) + (if x = b then 1 else 0)"

lemma held2_eq:
  "held2 a b = ((\<lambda>_. 0)(b := 1))(a := ((\<lambda>_. 0)(b := 1)) a + 1)"
  "((\<lambda>_. 0)(a := 1))(b := ((\<lambda>_. 0)(a := 1)) b + 1) = held2 a b"
  "(held2 a b)(a := held2 a b a - 1) = (\<lambda>_. 0)(b := 1)"
  by (auto simp: held2_def fun_eq_iff)

text \<open>Closing an end of a pipe, or a file without a type, does not sleep; no file gets another type but none.\<close>

lemma myproc_stays: "stays (myproc s)"
  by (auto simp: myproc_def Let_def pop_off_def intro!: stays_bind)

lemma wakeup_stays: "stays (wakeup ch s)"
proof -
  have "stays (wakeup_loop ch ps s)" for ps
    by (induction ps arbitrary: s) (auto simp: Let_def intro!: stays_bind myproc_stays acquire_stays release_stays)
  then show ?thesis by (simp add: wakeup_def)
qed

lemma kfree_stays: "stays (kfree a s)"
  by (auto simp: kfree_def Let_def intro!: stays_bind acquire_stays release_stays)

lemma fileclose_stays:
  fixes s :: "('z) file_state_scheme"
  assumes "f_type (ftable s f) = FD_PIPE \<or> f_type (ftable s f) = FD_NONE"
  shows "stays (fileclose f s)"
  unfolding fileclose_def
proof (rule stays_bind [OF acquire_stays])
  fix t :: "'z file_state_scheme" assume "acquire FtableLock s = Ok t"
  then have "f_type (ftable t f) = FD_PIPE \<or> f_type (ftable t f) = FD_NONE"
    using kept_Ok [OF keep_acquire [OF same_files_refl], of FtableLock s t] assms by (simp add: same_files_def)
  then show "stays (if f_ref (ftable t f) < 1 then Panic ''fileclose''
     else (let s = upd_file f (\<lambda>x. x\<lparr>f_ref := f_ref x - 1\<rparr>) t
           in if f_ref (ftable s f) > 0 then release FtableLock s
              else (let ff = ftable s f; s = upd_file f (\<lambda>x. x\<lparr>f_ref := 0, f_type := FD_NONE\<rparr>) s
                    in rbind (release FtableLock s) (\<lambda>s. case f_type ff of
                         FD_PIPE \<Rightarrow> pipeclose (f_pipe ff) (f_writable ff) s | FD_NONE \<Rightarrow> Ok s
                       | _ \<Rightarrow> rbind (begin_op s) (\<lambda>s. rbind (iput (f_ip ff) s) (\<lambda>s. end_op s))))))"
    by (auto simp: Let_def upd_file_def pipeclose_def intro!: stays_bind release_stays acquire_stays wakeup_stays kfree_stays)
qed

lemma fileclose_types:
  fixes s :: "('z) file_state_scheme"
  assumes "fileclose f s = Ok t"
  shows "f_type (ftable t g) = f_type (ftable s g) \<or> f_type (ftable t g) = FD_NONE"
proof -
  obtain u where u: "acquire FtableLock s = Ok u" using assms by (auto simp: fileclose_def res_simps)
  have su: "same_files s u" using kept_Ok [OF keep_acquire [OF same_files_refl] u] by simp
  define v where "v = upd_file f (\<lambda>x. x\<lparr>f_ref := f_ref x - 1\<rparr>) u"
  define w where "w = upd_file f (\<lambda>x. x\<lparr>f_ref := 0, f_type := FD_NONE\<rparr>) v"
  have "kept (\<lambda>x. x) v (release FtableLock v)" "kept (\<lambda>x. x) w (rbind (release FtableLock w) (\<lambda>s. case f_type (ftable v f) of
       FD_PIPE \<Rightarrow> pipeclose (f_pipe (ftable v f)) (f_writable (ftable v f)) s | FD_NONE \<Rightarrow> Ok s
     | _ \<Rightarrow> rbind (begin_op s) (\<lambda>s. rbind (iput (f_ip (ftable v f)) s) (\<lambda>s. end_op s))))"
    by (auto intro!: keep)
  then have "same_files v t \<or> same_files w t"
    using assms u by (auto simp: fileclose_def Let_def v_def [symmetric] w_def [symmetric] split: if_splits)
  then show ?thesis using su by (auto simp: same_files_def v_def w_def upd_file_def split: if_splits)
qed

abbreviation pipe_end :: "('z) file_state_scheme \<Rightarrow> nat \<Rightarrow> bool" where
  "pipe_end s f \<equiv> f_type (ftable s f) = FD_PIPE \<or> f_type (ftable s f) = FD_NONE"

lemma close_two_fds:
  fixes s :: "('z) file_state_scheme"
  assumes "fds_inv (held2 a b) {} s" "a < NFILE" "b < NFILE" "pipe_end s a" "pipe_end s b"
  shows "outcome fds_ok R (rbind (fileclose a s) (\<lambda>s. fileclose b s))"
proof (cases "fileclose a s")
  case (Ok t)
  have "outcome (fds_inv ((\<lambda>_. 0)(b := 1)) {}) (fds_inv ((\<lambda>_. 0)(b := 1)) {}) (fileclose a s)"
    using fileclose_held [OF assms(1) [unfolded held2_eq(1)] assms(2)] by simp
  then have t: "fds_inv ((\<lambda>_. 0)(b := 0 + 1)) {} t" using Ok by simp
  have "pipe_end t b" using fileclose_types [OF Ok, of b] assms(5) by auto
  then have "stays (fileclose b t)" by (rule fileclose_stays)
  moreover have "outcome fds_ok fds_ok (fileclose b t)" using fileclose_held [OF t assms(3)] by simp
  ultimately show ?thesis using Ok by (cases "fileclose b t") (auto simp: stays_def)
qed (use fileclose_stays [OF assms(4)] in \<open>simp_all add: stays_def\<close>)

lemma close_both_eq: "close_both a b s = rbind (rbind (fileclose a s) (\<lambda>s. fileclose b s)) (\<lambda>s. Ok (-1, s))"
  by (simp add: close_both_def res_simps)

lemma close_both_fds:
  fixes s :: "('z) file_state_scheme"
  assumes "fds_inv (held2 a b) {} s" "a < NFILE" "b < NFILE" "pipe_end s a" "pipe_end s b"
  shows "outcome (\<lambda>(v, t). fds_ok t) R (close_both a b s)"
  unfolding close_both_eq by (rule outcome_bind [OF close_two_fds [OF assms]]) simp

text \<open>The two ends of a new pipe, each with one reference that is not yet a descriptor.\<close>

definition new_pipe :: "nat option \<Rightarrow> (nat \<times> nat) option \<times> ('z) file_state_scheme \<Rightarrow> bool" where
  "new_pipe p r = (case r of (None, t) \<Rightarrow> fds_ok t
     | (Some (a, b), t) \<Rightarrow> a < NFILE \<and> b < NFILE \<and> fds_inv (held2 a b) {} t \<and> f_type (ftable t a) = FD_PIPE \<and> f_type (ftable t b) = FD_PIPE
         \<and> curproc t = p)"

lemma pipealloc_made:
  fixes s :: "('z) file_state_scheme"
  assumes i: "fds_inv (held2 a b) {} s" and ab: "a < NFILE" "b < NFILE" and "pipe_end s a" "pipe_end s b"
  shows "outcome (new_pipe (curproc s)) fds_ok (rbind (kalloc s) (\<lambda>(pi, s).
     if pi = 0 then rbind (fileclose a s) (\<lambda>s. rbind (fileclose b s) (\<lambda>s. Ok (None, s)))
     else (let s = upd_pipe pi (\<lambda>x. x\<lparr>pi_readopen := True, pi_writeopen := True, pi_nwrite := 0, pi_nread := 0\<rparr>) s;
               s = initlock (PipeLock pi) ''pipe'' s;
               s = upd_file a (\<lambda>x. x\<lparr>f_type := FD_PIPE, f_readable := True, f_writable := False, f_pipe := pi\<rparr>) s;
               s = upd_file b (\<lambda>x. x\<lparr>f_type := FD_PIPE, f_readable := False, f_writable := True, f_pipe := pi\<rparr>) s
           in Ok (Some (a, b), s))))"
proof (cases "kalloc s")
  case (Ok r)
  obtain pi t where r: "r = (pi, t)" by (cases r)
  have st: "same_files s t" using kept_Ok [OF keep_kalloc [OF same_files_refl] Ok] r by simp
  have t: "fds_inv (held2 a b) {} t" "pipe_end t a" "pipe_end t b"
    using fds_inv_same [OF st i] assms(4,5) st by (simp_all add: same_files_def)
  define u where "u = initlock (PipeLock pi) ''pipe'' (upd_pipe pi (\<lambda>x. x\<lparr>pi_readopen := True, pi_writeopen := True, pi_nwrite := 0, pi_nread := 0\<rparr>) t)"
  have "same_files t u" by (simp add: u_def)
  then have u: "fds_inv (held2 a b) {} u" using fds_inv_same t(1) by blast
  have ref: "f_ref (ftable u a) \<noteq> 0" "f_ref (ftable u b) \<noteq> 0"
    using fds_inv_fileD(1) [OF u] ab by (simp_all add: held2_def)
  define v where "v = upd_file a (\<lambda>x. x\<lparr>f_type := FD_PIPE, f_readable := True, f_writable := False, f_pipe := pi\<rparr>) u"
  have v: "fds_inv (held2 a b) ({} - {a}) v" unfolding v_def using ref by (intro fds_inv_typed [OF u]) simp_all
  have vb: "f_ref (ftable v b) \<noteq> 0" using ref by (simp add: v_def upd_file_def)
  have "fds_inv (held2 a b) ({} - {a} - {b}) (upd_file b (\<lambda>x. x\<lparr>f_type := FD_PIPE, f_readable := False, f_writable := True, f_pipe := pi\<rparr>) v)"
    using vb by (intro fds_inv_typed [OF v]) simp_all
  then have w: "new_pipe (curproc s) (Some (a, b), upd_file b (\<lambda>x. x\<lparr>f_type := FD_PIPE, f_readable := False, f_writable := True, f_pipe := pi\<rparr>) v)"
    using ab st by (simp add: new_pipe_def v_def upd_file_same) (simp add: u_def same_files_def curproc_def mycpu_def upd_pipe_def initlock_def)
  have "outcome (new_pipe (curproc s)) fds_ok (rbind (rbind (fileclose a t) (\<lambda>s. fileclose b s)) (\<lambda>s. Ok (None, s)))"
    by (rule outcome_bind [OF close_two_fds [OF t(1) ab t(2,3)]]) (simp add: new_pipe_def)
  then show ?thesis using Ok r w by (simp add: Let_def u_def [symmetric] v_def [symmetric] res_simps)
qed (use kalloc_stays [of s] in \<open>simp_all add: stays_def\<close>)

lemma pipealloc_fds:
  fixes s :: "('z) file_state_scheme"
  assumes "fds_ok s"
  shows "outcome (new_pipe (curproc s)) fds_ok (pipealloc s)"
proof -
  have second: "outcome (new_pipe (curproc s)) fds_ok (rbind (filealloc t) (\<lambda>(f1, s). case f1 of
      None \<Rightarrow> rbind (fileclose a s) (\<lambda>s. Ok (None, s))
    | Some b \<Rightarrow> rbind (kalloc s) (\<lambda>(pi, s).
       if pi = 0 then rbind (fileclose a s) (\<lambda>s. rbind (fileclose b s) (\<lambda>s. Ok (None, s)))
       else (let s = upd_pipe pi (\<lambda>x. x\<lparr>pi_readopen := True, pi_writeopen := True, pi_nwrite := 0, pi_nread := 0\<rparr>) s;
               s = initlock (PipeLock pi) ''pipe'' s;
               s = upd_file a (\<lambda>x. x\<lparr>f_type := FD_PIPE, f_readable := True, f_writable := False, f_pipe := pi\<rparr>) s;
               s = upd_file b (\<lambda>x. x\<lparr>f_type := FD_PIPE, f_readable := False, f_writable := True, f_pipe := pi\<rparr>) s
           in Ok (Some (a, b), s)))))"
    if t: "fds_inv ((\<lambda>_. 0)(a := 1)) {} t" "a < NFILE" "f_type (ftable t a) = FD_NONE" "curproc t = curproc s" for a and t :: "'z file_state_scheme"
  proof (rule outcome_bind [OF filealloc_fds [OF t(1), unfolded held2_eq(2)]], goal_cases)
    case (1 x)
    obtain y u where x: "x = (y, u)" by (cases x)
    show ?case
    proof (cases y)
      case None
      have "outcome (new_pipe (curproc s)) fds_ok (rbind (fileclose a u) (\<lambda>s. Ok (None, s)))"
        using 1 None x t(2) by (intro outcome_bind [OF fileclose_held [of "\<lambda>_. 0"]]) (auto simp: new_pipe_def)
      then show ?thesis using None x by simp
    next
      case (Some b)
      then have "fds_inv (held2 a b) {} u" "b < NFILE" "pipe_end u a" "pipe_end u b" using 1 x t(3) by auto
      moreover have "curproc u = curproc s" using 1 x Some t(4) by simp
      ultimately show ?thesis using pipealloc_made [of a b u] t(2) unfolding x Some prod.case option.case by simp
    qed
  qed
  show ?thesis unfolding pipealloc_def
    by (rule outcome_bind [OF filealloc_fds [OF assms]]) (auto simp: new_pipe_def intro!: second split: option.splits)
qed

text \<open>The descriptors of \<open>sys_pipe\<close> are taken back before its files are closed.\<close>

lemma close_both_cleared:
  fixes s :: "('z) file_state_scheme"
  assumes i: "fds_ok s" and p: "p < NPROC" "x < NOFILE" "y < NOFILE" "x \<noteq> y" "p_ofile (procs s p) ! x = Some a" "p_ofile (procs s p) ! y = Some b"
    and "f_type (ftable s a) = FD_PIPE" "f_type (ftable s b) = FD_PIPE"
  shows "outcome (\<lambda>(v, t). fds_ok t) R (close_both a b (set_fd p y None (set_fd p x None s)))"
proof -
  have ab: "a < NFILE" "b < NFILE" using fds_invD(2) [OF i p(1)] p by blast+
  have 1: "fds_inv ((\<lambda>_. 0)(a := 1)) {} (set_fd p x None s)" using fd_taken_back [OF i p(1,2,5)] by simp
  have "p_ofile (procs (set_fd p x None s) p) ! y = Some b" using p(4,6) by (simp add: upd_proc_def)
  from fd_taken_back [OF 1 p(1,3) this] have "fds_inv (held2 a b) {} (set_fd p y None (set_fd p x None s))"
    unfolding held2_eq(2) .
  then show ?thesis using ab assms(8,9) by (intro close_both_fds) (simp_all add: upd_proc_def)
qed

lemma close_both_cleared1:
  fixes s :: "('z) file_state_scheme"
  assumes i: "fds_inv ((\<lambda>_. 0)(b := 1)) {} s" and p: "p < NPROC" "x < NOFILE" "p_ofile (procs s p) ! x = Some a"
    and "a < NFILE" "b < NFILE" "f_type (ftable s a) = FD_PIPE" "f_type (ftable s b) = FD_PIPE"
  shows "outcome (\<lambda>(v, t). fds_ok t) R (close_both a b (set_fd p x None s))"
  using fd_taken_back [OF i p] assms(5-8) by (intro close_both_fds) (simp_all add: upd_proc_def held2_eq(1))

text \<open>\<open>sys_pipe\<close> from the first and from the second descriptor on.\<close>

definition pipe_second :: "nat \<Rightarrow> uint64 \<Rightarrow> int \<Rightarrow> nat \<Rightarrow> nat \<Rightarrow> ('z) file_state_scheme \<Rightarrow> 'z sysret" where
  "pipe_second p fdarray fd0 a b s =
     rbind (fdalloc b s) (\<lambda>(fd1, s).
           if fd1 < 0 then close_both a b (clear_fd p fd0 s)
           else
             rbind (copyout (p_pagetable (procs s p)) fdarray (le_bytes 4 (of_int fd0 :: uint32)) s) (\<lambda>(r, s).
             rbind (if r < 0 then Ok (-1, s)
                    else copyout (p_pagetable (procs s p)) (fdarray + 4) (le_bytes 4 (of_int fd1 :: uint32)) s) (\<lambda>(r, s).
             if r < 0 then close_both a b (clear_fd p fd1 (clear_fd p fd0 s))
             else Ok (0, s))))"

definition pipe_first :: "nat \<Rightarrow> uint64 \<Rightarrow> nat \<Rightarrow> nat \<Rightarrow> ('z) file_state_scheme \<Rightarrow> 'z sysret" where
  "pipe_first p fdarray a b s =
     rbind (fdalloc a s) (\<lambda>(fd0, s). if fd0 < 0 then close_both a b s else pipe_second p fdarray fd0 a b s)"

lemma sys_pipe_eq:
  "sys_pipe s = rbind (myproc s) (\<lambda>(mp, s). deref mp (\<lambda>p. rbind (argaddr 0 s) (\<lambda>(fdarray, s).
     rbind (pipealloc s) (\<lambda>(r, s). case r of None \<Rightarrow> Ok (-1, s) | Some (a, b) \<Rightarrow> pipe_first p fdarray a b s))))"
  unfolding sys_pipe_def pipe_first_def pipe_second_def by (rule refl)

lemma pipe_second_fds:
  fixes s :: "('z) file_state_scheme"
  assumes i: "fds_inv ((\<lambda>_. 0)(b := 1)) {} s" and p: "p < NPROC" "curproc s = Some p" "nat fd0 < NOFILE" "p_ofile (procs s p) ! nat fd0 = Some a"
    and ab: "a < NFILE" "b < NFILE" "f_type (ftable s a) = FD_PIPE" "f_type (ftable s b) = FD_PIPE"
  shows "outcome (\<lambda>(v, t). fds_ok t) fds_ok (pipe_second p fdarray fd0 a b s)"
proof -
  have e: "((\<lambda>_. 0 :: int)(b := 1))(b := ((\<lambda>_. 0)(b := 1)) b - 1) = (\<lambda>_. 0)" by (simp add: fun_eq_iff)
  have fin: "outcome (\<lambda>(v, t). fds_ok t) fds_ok (if r < 0 then close_both a b (clear_fd p fd1 (clear_fd p fd0 u)) else Ok (0, u))"
    if t: "fds_ok t" "same_files t u" "p_ofile (procs t p) = (p_ofile (procs s p))[nat fd1 := Some b]" "nat fd1 < NOFILE"
      "p_ofile (procs s p) ! nat fd1 = None" "\<And>g. f_type (ftable t g) = f_type (ftable s g)" for r :: int and fd1 and t u :: "'z file_state_scheme"
  proof -
    have u: "fds_ok u" "p_ofile (procs u p) = (p_ofile (procs s p))[nat fd1 := Some b]" "\<And>g. f_type (ftable u g) = f_type (ftable s g)"
      using fds_inv_same [OF t(2,1)] t by (auto simp: same_files_def)
    have ne: "nat fd0 \<noteq> nat fd1" using p(4) t(5) by auto
    have len: "length (p_ofile (procs s p)) = NOFILE" using fds_invD(1) [OF i p(1)] .
    have "outcome (\<lambda>(v, t). fds_ok t) fds_ok (close_both a b (set_fd p (nat fd1) None (set_fd p (nat fd0) None u)))"
      using u ne p(3,4) t(4) ab len by (intro close_both_cleared p(1)) simp_all
    then show ?thesis using u(1) by (simp add: clear_fd_def)
  qed
  have neg: "outcome (\<lambda>(v, t). fds_ok t) fds_ok (close_both a b (clear_fd p fd0 t))"
    if "fds_inv ((\<lambda>_. 0)(b := 1)) {} t" "same_files s t" for t :: "'z file_state_scheme"
    unfolding clear_fd_def using that p ab by (intro close_both_cleared1) (simp_all add: same_files_def)
  show ?thesis unfolding pipe_second_def
  proof (rule outcome_bind [OF fdalloc_fds [OF i ab(2), of "{}", unfolded e]], goal_cases)
    case (3 x)
    then show ?case using p neg
      by (auto intro!: outcome_kept_bind_pair [OF keep_copyout [OF same_files_refl]] outcome_kept_bind_pair [OF kept_if] keep fin
          intro: same_files_trans split: if_splits)
  qed (use ab in simp_all)
qed

lemma pipe_first_fds:
  fixes s :: "('z) file_state_scheme"
  assumes i: "fds_inv (held2 a b) {} s" and p: "p < NPROC" "curproc s = Some p"
    and ab: "a < NFILE" "b < NFILE" "f_type (ftable s a) = FD_PIPE" "f_type (ftable s b) = FD_PIPE"
  shows "outcome (\<lambda>(v, t). fds_ok t) fds_ok (pipe_first p fdarray a b s)"
  unfolding pipe_first_def
proof (rule outcome_bind [OF fdalloc_fds [OF i ab(1), of "{}", unfolded held2_eq(3)]], goal_cases)
  case (3 x)
  obtain fd0 v where x: "x = (fd0, v)" by (cases x)
  show ?case
  proof (cases "fd0 < 0")
    case True
    then show ?thesis using 3 x i ab by (auto intro!: close_both_fds simp: same_files_def)
  next
    case False
    have len: "length (p_ofile (procs s p)) = NOFILE" using fds_invD(1) [OF i p(1)] .
    have "fds_inv ((\<lambda>_. 0)(b := 1)) {} v" "curproc v = Some p" "nat fd0 < NOFILE" "p_ofile (procs v p) ! nat fd0 = Some a"
      "f_type (ftable v a) = FD_PIPE" "f_type (ftable v b) = FD_PIPE" using 3 x False p ab len by auto
    from pipe_second_fds [OF this(1) p(1) this(2-4) ab(1,2) this(5,6)] show ?thesis using False x by simp
  qed
qed (use ab in simp_all)

lemma sys_pipe_fds:
  fixes s :: "('z) file_state_scheme"
  assumes "fds_ok s"
  shows "outcome (\<lambda>(v, t). fds_ok t) fds_ok (sys_pipe s)"
proof -
  obtain p where p: "p < NPROC" "curproc s = Some p" using fds_inv_cur [OF assms] by auto
  have alloc: "outcome (\<lambda>(v, t). fds_ok t) fds_ok (rbind (pipealloc t) (\<lambda>(r, s). case r of None \<Rightarrow> Ok (-1, s)
     | Some (a, b) \<Rightarrow> pipe_first p fdarray a b s))" if t: "fds_ok t" "curproc t = Some p" for fdarray and t :: "'z file_state_scheme"
  proof (cases "pipealloc t")
    case (Ok r)
    have "new_pipe (Some p) r" using pipealloc_fds [OF t(1)] Ok t(2) by simp
    then show ?thesis using Ok pipe_first_fds [OF _ p(1)] by (auto simp: new_pipe_def split: prod.splits option.splits)
  qed (use pipealloc_fds [OF t(1)] in simp_all)
  show ?thesis unfolding sys_pipe_eq using p assms
    by (auto intro!: outcome_kept_bind_pair [OF keep_myproc [OF same_files_refl]] outcome_kept_bind_pair [OF keep_argaddr [OF same_files_refl]]
      outcome_deref alloc dest!: myproc_Ok simp: same_files_def)
qed

subsection \<open>Fork\<close>

text \<open>Handing a file to a free descriptor of a process.\<close>

lemma fd_given:
  assumes i: "fds_inv (e(f := e f + 1)) N s" and p: "p < NPROC" "fd < NOFILE" "p_ofile (procs s p) ! fd = None" "\<not> dead (p_state (procs s p))"
    and f: "f < NFILE" "f_type (ftable s f) \<noteq> FD_NONE"
  shows "fds_inv e N (set_fd p fd (Some f) s)"
proof -
  note o = fd_refs_open [OF p(1,2) fds_invD(1) [OF i p(1)] p(3)]
  show ?thesis using fds_inv_fileD(3) [OF i] f p(4) by (intro fds_inv_set_fd [OF i p(1,2)]) (auto simp: o)
qed

lemma filedup_Ok:
  fixes s :: "('z) file_state_scheme"
  assumes "fds_inv e N s" "filedup f s = Ok (g, t)"
  shows "g = f" "same_fds s t" "fds_inv (e(f := e f + 1)) N t" "f_type (ftable t h) = f_type (ftable s h)"
proof -
  show "g = f" "same_fds s t" "fds_inv (e(f := e f + 1)) N t" using filedup_fds [OF assms(1), of f "\<lambda>_. True"] assms(2) by simp_all
  obtain u where u: "acquire FtableLock s = Ok u" "release FtableLock (upd_file f (\<lambda>x. x\<lparr>f_ref := f_ref x + 1\<rparr>) u) = Ok t"
    using assms(2) by (auto simp: filedup_def res_simps split: if_splits)
  have "same_files s u" "same_files (upd_file f (\<lambda>x. x\<lparr>f_ref := f_ref x + 1\<rparr>) u) t"
    using kept_Ok [OF keep_acquire [OF same_files_refl] u(1)] kept_Ok [OF keep_release [OF same_files_refl] u(2)] by simp_all
  then show "f_type (ftable t h) = f_type (ftable s h)" by (simp add: same_files_def upd_file_def split: if_splits)
qed

lemma filedup_stays: "stays (filedup f s)"
  by (auto simp: filedup_def intro!: stays_bind acquire_stays release_stays)

lemma fork_files_fds:
  fixes s :: "('z) file_state_scheme"
  assumes "fds_ok s" "p < NPROC" "np < NPROC" "np \<noteq> p" "\<not> dead (p_state (procs s np))" "distinct is" "set is \<subseteq> {..<NOFILE}"
    and "\<And>i. i \<in> set is \<Longrightarrow> p_ofile (procs s np) ! i = None"
  shows "outcome fds_ok R (fork_files p np is s)"
  using assms
proof (induction "is" arbitrary: s)
  case Nil
  then show ?case by simp
next
  case (Cons i js)
  show ?case
  proof (cases "p_ofile (procs s p) ! i")
    case None
    then show ?thesis using Cons by simp
  next
    case (Some f)
    have i: "i < NOFILE" using Cons.prems(7) by simp
    have f: "f < NFILE" using fds_invD(2) [OF Cons.prems(1,2) i Some] .
    have "fd_refs s f \<noteq> 0" using fd_refs_close(2) [OF Cons.prems(2) i fds_invD(1) [OF Cons.prems(1,2)] Some] by simp
    then have ty: "f_type (ftable s f) \<noteq> FD_NONE" using fds_inv_fileD(3) [OF Cons.prems(1) f] by auto
    show ?thesis
    proof (cases "filedup f s")
      case (Ok r)
      obtain g t where r: "r = (g, t)" by (cases r)
      note d = filedup_Ok [OF Cons.prems(1) Ok [unfolded r]]
      have t: "p_ofile (procs t np) = p_ofile (procs s np)" "\<not> dead (p_state (procs t np))"
        using d(2) Cons.prems(5) by (auto simp: same_fds_def)
      have other: "(p_ofile (procs s np))[i := x] ! k = p_ofile (procs s np) ! k" if "k \<in> set js" for x k
        using that Cons.prems(6) by (cases "k = i") auto
      have "fds_ok (set_fd np i (Some g) t)"
        using t Cons.prems(3,5,8) i f ty d by (intro fd_given) simp_all
      then have "outcome fds_ok R (fork_files p np js (set_fd np i (Some g) t))"
        using Cons.prems t other by (intro Cons.IH) (auto simp: upd_proc_def)
      then show ?thesis using Some Ok r by simp
    qed (use filedup_stays [of f s] Some in \<open>simp_all add: stays_def\<close>)
  qed
qed

text \<open>\<open>fork\<close> in three parts: the new process with a copy of the memory, the open files, and the rest.\<close>

definition fork_publish :: "nat \<Rightarrow> nat \<Rightarrow> ('z) file_state_scheme \<Rightarrow> ('z file_state_scheme, int \<times> 'z file_state_scheme) res" where
  "fork_publish p np s = rbind (deref (p_cwd (procs s p)) (\<lambda>c. idup c s)) (\<lambda>(c, s).
       let s = upd_proc np (\<lambda>q. q\<lparr>p_cwd := Some c\<rparr>) s; s = upd_proc np (set_name (p_name (procs s p))) s; pid = p_pid (procs s np)
       in rbind (release (ProcLock np) s) (\<lambda>s. rbind (acquire WaitLock s) (\<lambda>s.
          rbind (release WaitLock (upd_proc np (\<lambda>q. q\<lparr>p_parent := Some p\<rparr>) s)) (\<lambda>s. rbind (acquire (ProcLock np) s) (\<lambda>s.
          rbind (release (ProcLock np) (upd_proc np (\<lambda>q. q\<lparr>p_state := RUNNABLE\<rparr>) s)) (\<lambda>s. Ok (pid, s)))))))"

definition fork_child :: "nat \<Rightarrow> nat \<Rightarrow> ('z) file_state_scheme \<Rightarrow> ('z file_state_scheme, int \<times> 'z file_state_scheme) res" where
  "fork_child p np s =
     (let s = upd_proc np (\<lambda>q. q\<lparr>p_sz := p_sz (procs s p)\<rparr>) s;
          s = s\<lparr>mem := mem_write (mem s) (p_trapframe (procs s np)) (mem_read (mem s) (p_trapframe (procs s p)) 288)\<rparr>;
          s = tf_set np TF_a0 0 s
      in rbind (fork_files p np [0..<NOFILE] s) (\<lambda>s. fork_publish p np s))"

lemma fork_eq:
  "fork s = rbind (myproc s) (\<lambda>(mp, s). deref mp (\<lambda>p. rbind (allocproc s) (\<lambda>(mnp, s).
     case mnp of None \<Rightarrow> Ok (-1, s)
     | Some np \<Rightarrow> rbind (uvmcopy (p_pagetable (procs s p)) (p_pagetable (procs s np)) (p_sz (procs s p)) s) (\<lambda>(r, s).
         if r < 0 then rbind (freeproc np s) (\<lambda>s. rbind (release (ProcLock np) s) (\<lambda>s. Ok (-1, s)))
         else fork_child p np s))))"
  unfolding fork_def fork_child_def fork_publish_def by (rule refl)

lemma fork_child_fds:
  fixes s :: "('z) file_state_scheme"
  assumes i: "fds_ok s" and p: "p < NPROC" "\<not> dead (p_state (procs s p))"
    and u: "same_files s u" "np < NPROC" "dead (p_state (procs s np))" "\<not> dead (p_state (procs u np))"
  shows "outcome (\<lambda>(v, t). fds_ok t) fds_ok (fork_child p np u)"
proof -
  define v where "v = upd_proc np (\<lambda>q. q\<lparr>p_sz := p_sz (procs u p)\<rparr>) u"
  define w where "w = tf_set np TF_a0 0 (v\<lparr>mem := mem_write (mem v) (p_trapframe (procs v np)) (mem_read (mem v) (p_trapframe (procs v p)) 288)\<rparr>)"
  have uw: "same_files u w" by (auto simp: w_def v_def)
  have w: "fds_ok w" "\<not> dead (p_state (procs w np))" "\<And>i. i < NOFILE \<Longrightarrow> p_ofile (procs w np) ! i = None"
    using fds_inv_same [OF same_files_trans [OF u(1) uw] i] uw u fds_invD(3) [OF i u(2,3)] by (auto simp: same_files_def)
  have "np \<noteq> p" using u(3) p(2) by auto
  then have "outcome fds_ok fds_ok (fork_files p np [0..<NOFILE] w)" using w u(2) p(1) by (intro fork_files_fds) auto
  moreover have "outcome (\<lambda>(v, t). fds_ok t) fds_ok (fork_publish p np t)" if "fds_ok t" for t :: "'z file_state_scheme"
    by (rule outcome_kept_pair [OF _ that]) (auto simp: fork_publish_def Let_def intro!: keep)
  ultimately show ?thesis unfolding fork_child_def Let_def v_def [symmetric] w_def [symmetric] by (rule outcome_bind)
qed

lemma fork_fds:
  fixes s :: "('z) file_state_scheme"
  assumes i: "fds_ok s"
  shows "outcome (\<lambda>(v, t). fds_ok t) fds_ok (fork s)"
  unfolding fork_eq
proof (rule outcome_kept_bind_pair [OF keep_myproc [OF same_files_refl] i], goal_cases)
  case (1 a t)
  obtain p where p: "p < NPROC" "curproc s = Some p" "\<not> dead (p_state (procs s p))" using fds_inv_cur [OF i] by auto
  have a: "a = Some p" using myproc_Ok [OF 1(1)] p(2) by simp
  show ?case unfolding a prod.case deref_def option.case
  proof (rule outcome_kept_bind_pair [OF keep_allocproc [OF 1(2)] i], goal_cases)
    case (1 b u)
    note alloc = this
    show ?case
    proof (cases b)
      case None
      then show ?thesis using alloc by simp
    next
      case (Some np)
      note np = allocproc_Some [OF alloc(1) [unfolded Some] \<open>same_files s t\<close>]
      show ?thesis unfolding Some prod.case option.case
      proof (rule outcome_kept_bind_pair [OF keep_uvmcopy [OF alloc(2)] i], goal_cases)
        case (1 r v)
        have "kept snd s (rbind (freeproc np v) (\<lambda>s. rbind (release (ProcLock np) s) (\<lambda>s. Ok (-1 :: int, s))))"
          using 1(2) np(2) by (auto intro!: keep keep_freeproc)
        note bad = outcome_kept_pair [OF this i]
        have "same_files u v" using kept_Ok [OF keep_uvmcopy [OF same_files_refl] 1(1)] by simp
        then have "\<not> dead (p_state (procs v np))" using np(3) by (auto simp: same_files_def)
        then show ?case using bad fork_child_fds [OF i p(1,3) 1(2) np(1,2)] by simp
      qed
    qed
  qed
qed

subsection \<open>All system calls\<close>

lemma outcome_never: "(\<And>x. outcome (\<lambda>_. False) R (f x)) \<Longrightarrow> outcome (\<lambda>_. True) R m \<Longrightarrow> outcome (\<lambda>_. False) R (rbind m f)"
  by (cases m) simp_all

lemma outcome_any: "outcome (\<lambda>_. True) (\<lambda>_. True) m"
  by (cases m) simp_all

lemma exit_never_returns: "outcome (\<lambda>_. False) (\<lambda>_. True) (exit n s)"
  unfolding exit_def Let_def
  by (intro outcome_never outcome_any) (auto simp: deref_def intro!: outcome_never outcome_any split: option.splits prod.splits)

lemma sys_exit_never_returns: "outcome (\<lambda>_. False) (\<lambda>_. True) (sys_exit s)"
  unfolding sys_exit_def by (rule outcome_never [OF _ outcome_any]) (auto intro!: exit_never_returns outcome_never outcome_any)

lemma if_option_Some: "(if b then x else y) = Some z \<Longrightarrow> (b \<Longrightarrow> x = Some z \<Longrightarrow> P) \<Longrightarrow> (\<not> b \<Longrightarrow> y = Some z \<Longrightarrow> P) \<Longrightarrow> P"
  by (auto split: if_splits)

definition sysno :: "('z) proc_state_scheme \<Rightarrow> int" where
  "sysno s = (case curproc s of Some p \<Rightarrow> sint (ucast (tf_get p TF_a7 s) :: uint32) | None \<Rightarrow> 0)"

lemma myproc_frame: "myproc (s :: ('z) proc_state_scheme) = Ok (x, t) \<Longrightarrow> mem t = mem s \<and> procs t = procs s"
  by (auto simp: myproc_def Let_def res_simps pop_off_def push_off_eq intr_on_def set_mycpu_def split: if_splits)

lemma same_files_tf_set: "same_files s (tf_set p off v s)"
  by simp

lemma syscall_from:
  fixes s :: "('z) tick_state_scheme"
  assumes "myproc s = Ok (Some p, t)"
  shows "syscall s =
    (case (if 0 < sint (ucast (tf_get p TF_a7 t) :: uint32) \<and> sint (ucast (tf_get p TF_a7 t) :: uint32) < 22
           then syscalls (nat (sint (ucast (tf_get p TF_a7 t) :: uint32))) else None) of
       Some h \<Rightarrow> rbind (h t) (\<lambda>(v, s). Ok (tf_set p TF_a0 v s))
     | None \<Rightarrow> rbind (printf (Some (ascii ''%d %s: unknown sys call %d'' @ [10]))
         [AInt (of_int (p_pid (procs t p))), AStr (Some (p_name (procs t p))), AInt (of_int (sint (ucast (tf_get p TF_a7 t) :: uint32)))] t)
           (\<lambda>s. Ok (tf_set p TF_a0 (-1) s)))"
  unfolding syscall_def assms rbind.simps prod.case deref_def option.case Let_def by (rule refl)

lemma handlers_fds:
  fixes s :: "('z) tick_state_scheme"
  assumes "fds_ok s" "syscalls n = Some h"
  shows "outcome (\<lambda>(v, t). fds_ok t) (\<lambda>t. n \<noteq> 2 \<longrightarrow> fds_ok t) (h s)"
proof -
  note kept = keep_sys_wait keep_sys_read keep_sys_kill keep_sys_exec keep_sys_fstat keep_sys_chdir keep_sys_getpid keep_sys_sbrk
    keep_sys_sleep keep_sys_uptime keep_sys_write keep_sys_mknod keep_sys_unlink keep_sys_link keep_sys_mkdir
  have x: "outcome (\<lambda>(v, t). fds_ok t) (\<lambda>_. True) (sys_exit s)"
    using sys_exit_never_returns by (rule outcome_mono) simp_all
  have f: "outcome (\<lambda>(v, t). fds_ok t) fds_ok (sys_fork s)"
    unfolding sys_fork_def by (rule outcome_bind [OF fork_fds [OF assms(1)]]) auto
  note changed = f sys_pipe_fds [OF assms(1)] sys_dup_fds [OF assms(1)] sys_open_fds [OF assms(1)] sys_close_fds [OF assms(1)]
  show ?thesis
    using assms(2) unfolding syscalls_def by (elim if_option_Some) (auto simp: changed x intro!: outcome_kept_pair [OF _ assms(1)] kept)
qed


text \<open>A machine on which process 0 has one open file and calls \<open>dup(0)\<close>.\<close>

definition demo_fds :: tick_state where
  "demo_fds = file_state.extend
     (demo_pipe\<lparr>mem := store64 (\<lambda>_. 0) 168 10,
        procs := (\<lambda>q. blank_proc\<lparr>p_state := if q = 0 then RUNNING else UNUSED,
           p_ofile := if q = 0 then Some 5 # replicate 15 None else replicate 16 None\<rparr>),
        ftable := (\<lambda>f. \<lparr>f_type = if f = 5 then FD_PIPE else FD_NONE, f_ref = if f = 5 then 1 else 0, f_readable = True,
           f_writable = False, f_pipe = 4096, f_ip = 0, f_off = 0, f_major = 0\<rparr>)\<rparr>)
     \<lparr>ticks = 0\<rparr>"

lemma demo_fds_sel:
  "procs demo_fds q = blank_proc\<lparr>p_state := if q = 0 then RUNNING else UNUSED,
     p_ofile := if q = 0 then Some 5 # replicate 15 None else replicate 16 None\<rparr>"
  "f_ref (ftable demo_fds f) = (if f = 5 then 1 else 0)" "f_type (ftable demo_fds f) = (if f = 5 then FD_PIPE else FD_NONE)"
  "mem demo_fds = store64 (\<lambda>_. 0) 168 10"
  by (simp_all add: demo_fds_def demo_pipe_def file_state.defs)

lemma demo_fds_running: "running 0 demo_fds" "curproc demo_fds = Some 0"
  using demo_pipe_running(1)
  by (simp_all add: demo_fds_def file_state.defs running_def quiet_def unheld_def curproc_def mycpu_def)

lemma demo_fds_refs: "fd_refs demo_fds f = (if f = 5 then 1 else 0)"
proof -
  have "{(q, fd). q < NPROC \<and> fd < NOFILE \<and> p_ofile (procs demo_fds q) ! fd = Some f} = (if f = 5 then {(0, 0)} else {})"
    by (auto simp: NPROC_def demo_fds_sel nth_Cons split: nat.splits if_splits)
  then show ?thesis by (simp add: fd_refs_def)
qed

lemma demo_fds_ok: "fds_ok demo_fds"
  by (auto simp: fds_inv_def NPROC_def demo_fds_refs demo_fds_sel demo_fds_running nth_Cons split: nat.splits if_splits)

lemma demo_fds_regs: "tf_get 0 TF_a7 demo_fds = 10" "tf_get 0 TF_a0 demo_fds = 0"
proof -
  have "store64 (\<lambda>_. 0) 168 10 (112 + word_of_nat i) = 0" if "i < 8" for i
  proof -
    have "i \<in> {0, 1, 2, 3, 4, 5, 6, 7}" using that by auto
    then show ?thesis by (auto simp: store64_other)
  qed
  then have "load64 (store64 (\<lambda>_. 0) 168 10) 112 = 0" by (intro load64_zeroed)
  then show "tf_get 0 TF_a7 demo_fds = 10" "tf_get 0 TF_a0 demo_fds = 0"
    by (simp_all add: tf_get_def demo_fds_sel blank_proc_def)
qed

lemma demo_fds_sysno: "sysno demo_fds = 10"
  by (simp add: sysno_def demo_fds_running demo_fds_regs)

lemma demo_fds_dup: "\<exists>t. syscall demo_fds = Ok t \<and> f_ref (ftable t 5) = 2"
proof -
  note R = runningD [OF demo_fds_running(1)]
  have m: "myproc demo_fds = Ok (Some 0, demo_fds)" using R by (simp add: myproc_eq)
  have u: "[0..<16] = 0 # 1 # [2..<16]" by (simp add: upt_conv_Cons)
  show ?thesis
    using R
    by (simp add: syscall_from [OF m] demo_fds_regs syscalls_def sys_dup_def argfd_def argint_def argraw_def fdalloc_def filedup_def
        myproc_eq deref_def lock_simps demo_fds_running demo_fds_sel u upd_file_def upd_proc_def tf_set_def)
qed


end
