(* ===== verification/Ulib.thy ===== *)
theory Ulib
  imports Kstring Kprintf
begin

text \<open>
  The library of the user programs, src/user/ulib.c and src/user/printf.c. Strings that are only
  read are the bytes before their terminator; \<open>u_memmove\<close> and the others that store work on memory.
  The names of functions the kernel has too start with \<open>u_\<close>. \<open>atoi\<close> computes with the integers: in
  C its value is undefined when it leaves the range of int.
\<close>

subsection \<open>Strings and memory\<close>

fun u_strcmp :: "byte list \<Rightarrow> byte list \<Rightarrow> int" where
  "u_strcmp p q =
     (let a = (case p of [] \<Rightarrow> 0 | x # _ \<Rightarrow> x); b = (case q of [] \<Rightarrow> 0 | x # _ \<Rightarrow> x)
      in case p of
           [] \<Rightarrow> uint a - uint b
         | _ # p1 \<Rightarrow> if a \<noteq> 0 \<and> a = b then u_strcmp p1 (tl q) else uint a - uint b)"

declare u_strcmp.simps [simp del]

text \<open>\<open>strcpy\<close> of a string to memory, with its terminator.\<close>

fun u_strcpy :: "memory \<Rightarrow> addr \<Rightarrow> byte list \<Rightarrow> memory" where
  "u_strcpy m s [] = m(s := 0)"
| "u_strcpy m s (c # t) = u_strcpy (m(s := c)) (s + 1) t"

definition strchr :: "byte list \<Rightarrow> byte \<Rightarrow> nat option" where
  "strchr s c =
     (let i = length (takeWhile (\<lambda>x. x \<noteq> 0 \<and> x \<noteq> c) s)
      in if i < length s \<and> s ! i \<noteq> 0 then Some i else None)"

text \<open>\<open>gets\<close>: what is stored in the buffer before the terminator, and the input that is left. A read
  of one byte fails at the end of the input.\<close>

fun gets_loop :: "nat \<Rightarrow> byte list \<Rightarrow> byte list \<times> byte list" where
  "gets_loop 0 inp = ([], inp)"
| "gets_loop (Suc k) inp =
     (case inp of
        [] \<Rightarrow> ([], [])
      | c # inp1 \<Rightarrow>
          if c = 10 \<or> c = 13 then ([c], inp1)
          else (case gets_loop k inp1 of (bs, rest) \<Rightarrow> (c # bs, rest)))"

definition gets :: "nat \<Rightarrow> byte list \<Rightarrow> byte list \<times> byte list" where
  "gets mx inp = gets_loop (mx - 1) inp"

fun atoi_loop :: "int \<Rightarrow> byte list \<Rightarrow> int" where
  "atoi_loop n [] = n"
| "atoi_loop n (c # s) = (if 48 \<le> c \<and> c \<le> 57 then atoi_loop (n * 10 + uint c - 48) s else n)"

definition atoi :: "byte list \<Rightarrow> int" where
  "atoi s = atoi_loop 0 s"

definition u_memset :: "memory \<Rightarrow> addr \<Rightarrow> uint32 \<Rightarrow> uint32 \<Rightarrow> memory" where
  "u_memset m dst c n = fold (\<lambda>i m. m(dst + of_nat i := ucast c)) [0..<unat n] m"

definition u_memmove :: "memory \<Rightarrow> addr \<Rightarrow> addr \<Rightarrow> int \<Rightarrow> memory" where
  "u_memmove m vdst vsrc n =
     (if vsrc > vdst then memmove_up m vdst vsrc (nat n)
      else memmove_down m (vdst + of_int n) (vsrc + of_int n) (nat n))"

definition u_memcpy :: "memory \<Rightarrow> addr \<Rightarrow> addr \<Rightarrow> uint32 \<Rightarrow> memory" where
  "u_memcpy m dst src n = u_memmove m dst src (sint n)"

fun u_memcmp :: "memory \<Rightarrow> addr \<Rightarrow> addr \<Rightarrow> nat \<Rightarrow> int" where
  "u_memcmp m p1 p2 0 = 0"
| "u_memcmp m p1 p2 (Suc n) = (if m p1 \<noteq> m p2 then uint (m p1) - uint (m p2) else u_memcmp m (p1 + 1) (p2 + 1) n)"

subsection \<open>Formatted output\<close>

text \<open>What \<open>vprintf\<close> writes to its descriptor.\<close>

datatype uarg = UInt "32 word" | ULong uint64 | UStr "byte list option"

definition u_digits :: "byte list" where
  "u_digits = ascii ''0123456789ABCDEF''"

function u_printint_digits :: "nat \<Rightarrow> nat \<Rightarrow> byte list" where
  "u_printint_digits base x =
     u_digits ! (x mod base) # (if x div base = 0 \<or> base < 2 then [] else u_printint_digits base (x div base))"
  by auto
termination
  by (relation "measure snd") (auto simp: div_greater_zero_iff)

declare u_printint_digits.simps [simp del]

definition u_printint :: "32 word \<Rightarrow> nat \<Rightarrow> bool \<Rightarrow> byte list" where
  "u_printint xx base sign =
     (let neg = sign \<and> sint xx < 0;
          x = (if neg then - xx else xx);
          buf = u_printint_digits base (unat x);
          buf = (if neg then buf @ ascii ''-'' else buf)
      in rev buf)"

definition u_printptr :: "uint64 \<Rightarrow> byte list" where
  "u_printptr x = ascii ''0x'' @ map (\<lambda>i. u_digits ! unat (drop_bit 60 (push_bit (4 * i) x))) [0..<16]"

fun vprintf_conv :: "byte \<Rightarrow> uarg list \<Rightarrow> byte list \<times> uarg list" where
  "vprintf_conv c args =
     (if c = of_char (CHR ''d'') then (case args of UInt x # as \<Rightarrow> (u_printint x 10 True, as) | _ \<Rightarrow> ([], args))
      else if c = of_char (CHR ''l'') then (case args of ULong x # as \<Rightarrow> (u_printint (ucast x) 10 False, as) | _ \<Rightarrow> ([], args))
      else if c = of_char (CHR ''x'') then (case args of UInt x # as \<Rightarrow> (u_printint x 16 False, as) | _ \<Rightarrow> ([], args))
      else if c = of_char (CHR ''p'') then (case args of ULong x # as \<Rightarrow> (u_printptr x, as) | _ \<Rightarrow> ([], args))
      else if c = of_char (CHR ''s'') then
        (case args of UStr None # as \<Rightarrow> (ascii ''(null)'', as) | UStr (Some str) # as \<Rightarrow> (takeWhile (\<lambda>b. b \<noteq> 0) str, as)
         | _ \<Rightarrow> ([], args))
      else if c = of_char (CHR ''c'') then (case args of UInt x # as \<Rightarrow> ([ucast x], as) | _ \<Rightarrow> ([], args))
      else if c = of_char (CHR ''%'') then ([c], args)
      else (ascii ''%'' @ [c], args))"

text \<open>The state of the loop is whether a percent sign has just been read.\<close>

fun vprintf :: "bool \<Rightarrow> byte list \<Rightarrow> uarg list \<Rightarrow> byte list" where
  "vprintf st [] args = []"
| "vprintf st (c # fmt) args =
     (if c = 0 then []
      else if \<not> st then
        (if c = of_char (CHR ''%'') then vprintf True fmt args else c # vprintf False fmt args)
      else (case vprintf_conv c args of (out, args) \<Rightarrow> out @ vprintf False fmt args))"

definition u_printf :: "byte list \<Rightarrow> uarg list \<Rightarrow> byte list" where
  "u_printf fmt args = vprintf False fmt args"

subsection \<open>Properties\<close>

lemma strchr_Some: "strchr s c = Some i \<Longrightarrow> i < length s \<and> s ! i = c"
proof -
  assume "strchr s c = Some i"
  then have i: "i = length (takeWhile (\<lambda>x. x \<noteq> 0 \<and> x \<noteq> c) s)" "i < length s" "s ! i \<noteq> 0"
    by (auto simp: strchr_def Let_def split: if_splits)
  then show ?thesis using nth_length_takeWhile [of "\<lambda>x. x \<noteq> 0 \<and> x \<noteq> c" s] by simp
qed

text \<open>The \<open>memmove\<close> of the user library and the one of the kernel are the same function, although
  they choose the direction of the copy by different tests: for areas that do not run over the end of
  the address space, overlapping or not, both leave the same memory.\<close>

lemma u_memmove_eq_kernel:
  assumes "unat src + unat n < 2 ^ 64" and "unat dst + unat n < 2 ^ 64" and "unat n < 2 ^ 31"
  shows "u_memmove m dst src (sint n) = memmove m dst src n"
proof -
  have n: "unat n < 2 ^ 64" by (rule unat32_less64)
  have "n < 0x80000000" using assms(3) by (simp add: word_less_nat_alt)
  then have "uint n < 2 ^ 31" by (simp add: word_less_def)
  moreover have "- (2 ^ 31) \<le> uint n" by (rule order_trans [OF _ uint_ge_0]) simp
  ultimately have "sint n = uint n" by (simp add: sint_uint signed_take_bit_int_eq_self)
  then have sn: "sint n = int (unat n)" by simp
  then have nat_n: "nat (sint n) = unat n" and of_n: "of_int (sint n) = (of_nat (unat n) :: addr)" by simp_all
  have "u_memmove m dst src (sint n) = mem_write m dst (mem_read m src (unat n))"
  proof (cases "src > dst")
    case True
    then have "memmove_up m dst src (unat n) = mem_write m dst (mem_read m src (unat n))"
      using n assms by (intro memmove_up_eq offsets_ne) (auto simp: word_less_nat_alt)
    then show ?thesis using True by (simp only: u_memmove_def nat_n if_True)
  next
    case False
    then have "memmove_down m (dst + of_nat (unat n)) (src + of_nat (unat n)) (unat n) = mem_write m dst (mem_read m src (unat n))"
      using n assms by (intro memmove_down_eq offsets_ne) (auto simp: word_less_nat_alt)
    then show ?thesis using False by (simp only: u_memmove_def nat_n of_n if_False)
  qed
  then show ?thesis using memmove_eq [OF assms(1,2)] by simp
qed

lemma dec_digits_facts:
  "\<forall>d \<in> set [0..<10]. u_digits ! d = digits ! d \<and> 48 \<le> digits ! d \<and> digits ! d \<le> 57 \<and> uint (digits ! d) - 48 = int d"
  by code_simp

lemma dec_digit:
  assumes "d < 10"
  shows "u_digits ! d = digits ! d" "48 \<le> digits ! d" "digits ! d \<le> 57" "uint (digits ! d) = 48 + int d"
  using dec_digits_facts assms by (auto simp: algebra_simps)

lemma u_printint_digits_eq: "u_printint_digits 10 x = printint_digits 10 x"
proof (induction x rule: less_induct)
  case (less x)
  have "u_digits ! (x mod 10) = digits ! (x mod 10)" by (rule dec_digit) simp
  then show ?case using less [of "x div 10"] by (auto simp: u_printint_digits.simps [of 10 x] printint_digits.simps [of 10 x])
qed

lemma atoi_loop_digits: "\<forall>b \<in> set bs. \<exists>d < 10. b = digits ! d \<Longrightarrow> atoi_loop (int n) bs = int (foldl (\<lambda>n b. n * 10 + digit_val b) n bs)"
proof (induction bs arbitrary: n)
  case (Cons b bs)
  then obtain d where d: "d < 10" "b = digits ! d" by auto
  have "int n * 10 + uint b - 48 = int (n * 10 + digit_val b)" using d dec_digit [OF d(1)] digit_val_digits [of d] by simp
  then have "atoi_loop (int n) (b # bs) = atoi_loop (int (n * 10 + digit_val b)) bs"
    using dec_digit(2,3) [OF d(1)] d(2) by (simp only: atoi_loop.simps) simp
  then show ?case using Cons(1) [of "n * 10 + digit_val b"] Cons(2) by simp
qed simp

lemma printint_digits_dec: "b \<in> set (printint_digits 10 x) \<Longrightarrow> \<exists>d < 10. b = digits ! d"
proof (induction x rule: less_induct)
  case (less x)
  show ?case
  proof (cases "x div 10 = 0")
    case True
    then show ?thesis using less.prems by (auto simp: printint_digits.simps [of 10 x] intro: exI [of _ "x mod 10"])
  next
    case False
    then have "b = digits ! (x mod 10) \<or> b \<in> set (printint_digits 10 (x div 10))" using less.prems by (simp add: printint_digits.simps [of 10 x])
    moreover have "x mod 10 < 10" "x div 10 < x" using False by auto
    ultimately show ?thesis using less.IH by blast
  qed
qed



end
