(* ===== verification/Grep.thy ===== *)
theory Grep
  imports Ulib
begin

text \<open>
  The user program src/user/grep.c. Strings are the bytes before
  their terminator. Reading from a descriptor takes the input that is left and the sizes in which
  the kernel happens to deliver it: a read gives at least one byte unless there is none or none is
  asked for, and never more than was asked for.
\<close>

abbreviation (input) ch_caret :: byte where "ch_caret \<equiv> 94"
abbreviation (input) ch_star :: byte where "ch_star \<equiv> 42"
abbreviation (input) ch_dollar :: byte where "ch_dollar \<equiv> 36"
abbreviation (input) ch_dot :: byte where "ch_dot \<equiv> 46"
abbreviation (input) newline :: byte where "newline \<equiv> 10"

function matchhere :: "byte list \<Rightarrow> byte list \<Rightarrow> bool"
  and matchstar :: "byte \<Rightarrow> byte list \<Rightarrow> byte list \<Rightarrow> bool" where
  "matchhere re text =
     (case re of
        [] \<Rightarrow> True
      | c # re1 \<Rightarrow>
          if re1 \<noteq> [] \<and> hd re1 = ch_star then matchstar c (tl re1) text
          else if c = ch_dollar \<and> re1 = [] then text = []
          else case text of
                 [] \<Rightarrow> False
               | x # text1 \<Rightarrow> if c = ch_dot \<or> c = x then matchhere re1 text1 else False)"
| "matchstar c re text =
     (if matchhere re text then True
      else case text of
             [] \<Rightarrow> False
           | x # text1 \<Rightarrow> if x = c \<or> c = ch_dot then matchstar c re text1 else False)"
  by pat_completeness auto
termination
  by (relation "measures [\<lambda>a. case a of Inl (re, text) \<Rightarrow> length re | Inr (c, re, text) \<Rightarrow> length re + 1,
        \<lambda>a. case a of Inl (re, text) \<Rightarrow> 0 | Inr (c, re, text) \<Rightarrow> length text]") auto

declare matchhere.simps [simp del] matchstar.simps [simp del]

text \<open>The loop of \<open>match\<close> tries every suffix of the text, the empty one last.\<close>

fun match_loop :: "byte list \<Rightarrow> byte list \<Rightarrow> bool" where
  "match_loop re [] = matchhere re []"
| "match_loop re (x # text) = (if matchhere re (x # text) then True else match_loop re text)"

definition match :: "byte list \<Rightarrow> byte list \<Rightarrow> bool" where
  "match re text = (if re \<noteq> [] \<and> hd re = ch_caret then matchhere (tl re) text else match_loop re text)"

text \<open>\<open>read\<close>: the bytes delivered, the input that is left and the sizes of the later reads.\<close>

definition read_some :: "nat \<Rightarrow> byte list \<Rightarrow> nat list \<Rightarrow> byte list \<times> byte list \<times> nat list" where
  "read_some n inp ks =
     (let k = min n (case ks of [] \<Rightarrow> n | k # _ \<Rightarrow> max 1 k)
      in (take k inp, drop k inp, tl ks))"

text \<open>The inner loop of \<open>grep\<close>: what it writes and what stays in the buffer.\<close>

function grep_lines :: "byte list \<Rightarrow> byte list \<Rightarrow> byte list \<times> byte list" where
  "grep_lines pattern p =
     (case strchr p newline of
        None \<Rightarrow> ([], p)
      | Some i \<Rightarrow>
          (let line = take i p
           in case grep_lines pattern (drop (Suc i) p) of (out, rest) \<Rightarrow>
                ((if match pattern line then line @ [newline] else []) @ out, rest)))"
  by pat_completeness auto
termination
  by (relation "measure (\<lambda>(pattern, p). length p)") (auto dest!: strchr_Some)

declare grep_lines.simps [simp del]

text \<open>\<open>buf\<close> are the bytes the 1024-byte buffer holds at the beginning of a round.\<close>

function grep_loop :: "byte list \<Rightarrow> byte list \<Rightarrow> byte list \<Rightarrow> nat list \<Rightarrow> byte list" where
  "grep_loop pattern buf inp ks =
     (case read_some (1023 - length buf) inp ks of (d, inp1, ks1) \<Rightarrow>
        if d = [] then []
        else (case grep_lines pattern (buf @ d) of (out, rest) \<Rightarrow> out @ grep_loop pattern rest inp1 ks1))"
  by pat_completeness auto
termination
  by (relation "measure (\<lambda>(pattern, buf, inp, ks). length inp)") (auto simp: read_some_def Let_def)

declare grep_loop.simps [simp del]

definition grep :: "byte list \<Rightarrow> byte list \<Rightarrow> nat list \<Rightarrow> byte list" where
  "grep pattern inp ks = grep_loop pattern [] inp ks"

text \<open>\<open>main\<close>: what it writes on the standard output and its exit status. \<open>files\<close> are the contents of the
  files that can be opened; the message on wrong usage goes to the standard error.\<close>

fun grep_files :: "byte list \<Rightarrow> (byte list \<Rightarrow> byte list option) \<Rightarrow> nat list \<Rightarrow> byte list list \<Rightarrow> byte list \<times> int" where
  "grep_files pattern files ks [] = ([], 0)"
| "grep_files pattern files ks (name # names) =
     (case files name of
        None \<Rightarrow> (ascii ''grep: cannot open '' @ name @ [newline], 1)
      | Some inp \<Rightarrow> (case grep_files pattern files ks names of (out, status) \<Rightarrow> (grep pattern inp ks @ out, status)))"

definition grep_main :: "byte list list \<Rightarrow> (byte list \<Rightarrow> byte list option) \<Rightarrow> byte list \<Rightarrow> nat list \<Rightarrow> byte list \<times> int" where
  "grep_main argv files stdin ks =
     (if length argv \<le> 1 then ([], 1)
      else if length argv \<le> 2 then (grep (argv ! 1) stdin ks, 0)
      else grep_files (argv ! 1) files ks (drop 2 argv))"

subsection \<open>The language of a pattern\<close>

text \<open>\<open>pat re u v\<close>: the pattern \<open>re\<close> matches \<open>u\<close> where \<open>v\<close> follows.\<close>

inductive pat :: "byte list \<Rightarrow> byte list \<Rightarrow> byte list \<Rightarrow> bool" where
  empty: "pat [] [] v"
| end_of_line: "pat [ch_dollar] [] []"
| char: "pat re u v \<Longrightarrow> c = ch_dot \<or> c = x \<Longrightarrow> re = [] \<or> hd re \<noteq> ch_star \<Longrightarrow> c \<noteq> ch_dollar \<or> re \<noteq> [] \<Longrightarrow> pat (c # re) (x # u) v"
| star: "pat re u v \<Longrightarrow> \<forall>x \<in> set w. c = ch_dot \<or> x = c \<Longrightarrow> pat (c # ch_star # re) (w @ u) v"

inductive_simps pat_Nil: "pat [] u v"
inductive_cases pat_ConsE: "pat (c # re) u v"

definition at_start :: "byte list \<Rightarrow> byte list \<Rightarrow> bool" where
  "at_start re text \<longleftrightarrow> (\<exists>u v. text = u @ v \<and> pat re u v)"

lemma at_startI: "pat re u v \<Longrightarrow> at_start re (u @ v)"
  by (auto simp: at_start_def)

lemma at_startE: "at_start re text \<Longrightarrow> (\<And>u v. text = u @ v \<Longrightarrow> pat re u v \<Longrightarrow> P) \<Longrightarrow> P"
  by (auto simp: at_start_def)

lemma at_start_star:
  "at_start (c # ch_star # re) tx \<longleftrightarrow>
     (\<exists>w t. tx = w @ t \<and> (\<forall>x \<in> set w. c = ch_dot \<or> x = c) \<and> at_start re t)"
proof
  assume "at_start (c # ch_star # re) tx"
  then show "\<exists>w t. tx = w @ t \<and> (\<forall>x \<in> set w. c = ch_dot \<or> x = c) \<and> at_start re t"
  proof (rule at_startE)
    fix u v assume "tx = u @ v" "pat (c # ch_star # re) u v"
    from this(2) obtain w u' where "u = w @ u'" "pat re u' v" "\<forall>x \<in> set w. c = ch_dot \<or> x = c"
      by (auto elim: pat_ConsE)
    then show ?thesis using \<open>tx = u @ v\<close> by (intro exI [of _ w] exI [of _ "u' @ v"]) (auto intro: at_startI)
  qed
next
  assume "\<exists>w t. tx = w @ t \<and> (\<forall>x \<in> set w. c = ch_dot \<or> x = c) \<and> at_start re t"
  then show "at_start (c # ch_star # re) tx"
    by (auto elim!: at_startE) (metis append.assoc at_startI pat.star)+
qed

lemma at_start_char:
  assumes "re = [] \<or> hd re \<noteq> ch_star" and "c \<noteq> ch_dollar \<or> re \<noteq> []"
  shows "at_start (c # re) tx \<longleftrightarrow> (\<exists>x t. tx = x # t \<and> (c = ch_dot \<or> c = x) \<and> at_start re t)"
proof
  assume "at_start (c # re) tx"
  then show "\<exists>x t. tx = x # t \<and> (c = ch_dot \<or> c = x) \<and> at_start re t"
  proof (rule at_startE)
    fix u v assume t: "tx = u @ v" and "pat (c # re) u v"
    from this(2) obtain x u' where "u = x # u'" "pat re u' v" "c = ch_dot \<or> c = x"
      using assms by (cases rule: pat_ConsE) auto
    then show ?thesis using t by (auto intro: at_startI)
  qed
next
  assume "\<exists>x t. tx = x # t \<and> (c = ch_dot \<or> c = x) \<and> at_start re t"
  then obtain x u v where "tx = (x # u) @ v" "c = ch_dot \<or> c = x" "pat re u v" by (auto simp: at_start_def)
  then show "at_start (c # re) tx" using assms at_startI [of "c # re" "x # u" v] by (auto intro: pat.char)
qed

lemma at_start_simps:
  "at_start [] tx" "at_start [ch_dollar] tx \<longleftrightarrow> tx = []"
proof -
  show "at_start [] tx" using at_startI [OF pat.empty, of tx] by simp
  show "at_start [ch_dollar] tx \<longleftrightarrow> tx = []"
  proof
    assume "tx = []"
    then show "at_start [ch_dollar] tx" using at_startI [OF pat.end_of_line] by simp
  qed (auto elim!: at_startE pat_ConsE)
qed

subsection \<open>The matcher and the language\<close>

lemma matchhere_at_start:
  "matchhere re tx \<longleftrightarrow> at_start re tx"
  "matchstar c re tx \<longleftrightarrow> at_start (c # ch_star # re) tx"
proof (induction re tx and c re tx rule: matchhere_matchstar.induct)
  case (1 re tx)
  show ?case
  proof (cases re)
    case Nil
    then show ?thesis by (simp add: matchhere.simps at_start_simps)
  next
    case (Cons c re1)
    consider (star) "re1 \<noteq> []" "hd re1 = ch_star" | (dollar) "\<not> (re1 \<noteq> [] \<and> hd re1 = ch_star)" "c = ch_dollar" "re1 = []"
      | (char) "re1 = [] \<or> hd re1 \<noteq> ch_star" "c \<noteq> ch_dollar \<or> re1 \<noteq> []" by blast
    then show ?thesis
    proof cases
      case star
      then have "re1 = ch_star # tl re1" by (cases re1) auto
      then show ?thesis using 1(1) [OF Cons] star Cons by (simp add: matchhere.simps)
    next
      case dollar
      then show ?thesis using Cons by (simp add: matchhere.simps at_start_simps)
    next
      case char
      then show ?thesis using 1(2) [OF Cons] Cons at_start_char [OF char, of tx]
        by (auto simp: matchhere.simps [of "c # re1"] split: list.splits)
    qed
  qed
next
  case (2 c re tx)
  show ?case
  proof (cases "at_start re tx")
    case True
    then have "at_start (c # ch_star # re) tx" unfolding at_start_star by (intro exI [of _ "[]"] exI [of _ tx]) simp
    then show ?thesis using 2(1) True by (simp add: matchstar.simps [of c re tx])
  next
    case False
    have "at_start (c # ch_star # re) tx \<longleftrightarrow> (\<exists>x t. tx = x # t \<and> (c = ch_dot \<or> x = c) \<and> at_start (c # ch_star # re) t)"
    proof
      assume "at_start (c # ch_star # re) tx"
      then obtain w t where w: "tx = w @ t" "\<forall>x \<in> set w. c = ch_dot \<or> x = c" "at_start re t"
        unfolding at_start_star by blast
      then obtain x w' where "w = x # w'" using False by (cases w) auto
      then show "\<exists>x t. tx = x # t \<and> (c = ch_dot \<or> x = c) \<and> at_start (c # ch_star # re) t"
        using w unfolding at_start_star by auto
    next
      assume "\<exists>x t. tx = x # t \<and> (c = ch_dot \<or> x = c) \<and> at_start (c # ch_star # re) t"
      then obtain x w t where "tx = (x # w) @ t" "\<forall>x \<in> set (x # w). c = ch_dot \<or> x = c" "at_start re t"
        unfolding at_start_star by auto
      then show "at_start (c # ch_star # re) tx" unfolding at_start_star by blast
    qed
    then show ?thesis using 2 False by (auto simp: matchstar.simps [of c re tx] split: list.splits)
  qed
qed

lemma match_loop_suffixes: "match_loop re tx \<longleftrightarrow> (\<exists>t u. tx = t @ u \<and> matchhere re u)"
proof (induction tx)
  case (Cons x tx)
  then show ?case by (auto simp: Cons_eq_append_conv)
qed simp

text \<open>C22: \<open>grep\<close> matches the lines its pattern describes. For every pattern and every line the recursive
  matcher answers yes exactly when the line contains, or with a leading caret starts with, a string
  of the pattern's language, in which a dot stands for any character, a star for any number of the
  character before it, and a dollar sign at the end for the end of the line.\<close>

theorem match_language:
  "match re tx \<longleftrightarrow>
     (if re \<noteq> [] \<and> hd re = ch_caret then \<exists>u v. tx = u @ v \<and> pat (tl re) u v
      else \<exists>t u v. tx = t @ u @ v \<and> pat re u v)"
  by (auto simp: match_def match_loop_suffixes matchhere_at_start at_start_def)

subsection \<open>Lines\<close>

text \<open>The lines of an input, and what is behind the last newline.\<close>

fun split_lines :: "byte list \<Rightarrow> byte list list \<times> byte list" where
  "split_lines [] = ([], [])"
| "split_lines (b # bs) =
     (case split_lines bs of (ls, r) \<Rightarrow>
        if b = newline then ([] # ls, r)
        else case ls of [] \<Rightarrow> ([], b # r) | l # ls1 \<Rightarrow> ((b # l) # ls1, r))"

definition grep_spec :: "byte list \<Rightarrow> byte list \<Rightarrow> byte list" where
  "grep_spec pattern inp = concat (map (\<lambda>l. l @ [newline]) (filter (match pattern) (fst (split_lines inp))))"

definition short_lines :: "byte list \<Rightarrow> bool" where
  "short_lines inp \<longleftrightarrow> (\<forall>l \<in> set (fst (split_lines inp)). length l \<le> 1022) \<and> length (snd (split_lines inp)) \<le> 1022"

lemma split_lines_none: "newline \<notin> set r \<Longrightarrow> split_lines r = ([], r)"
  by (induction r) auto

lemma split_lines_line: "newline \<notin> set l \<Longrightarrow> split_lines (l @ newline # bs) = (l # fst (split_lines bs), snd (split_lines bs))"
  by (induction l) (auto split: prod.splits)

lemma split_lines_rest: "newline \<notin> set (snd (split_lines bs))"
  by (induction bs) (auto split: prod.splits list.splits)

lemma split_lines_subset: "set (snd (split_lines bs)) \<subseteq> set bs"
  by (induction bs) (auto split: prod.splits list.splits)

lemma split_lines_append:
  "split_lines (bs @ cs) =
     (fst (split_lines bs) @ fst (split_lines (snd (split_lines bs) @ cs)), snd (split_lines (snd (split_lines bs) @ cs)))"
proof (induction bs)
  case (Cons b bs)
  show ?case
  proof (cases "b = newline")
    case True
    then show ?thesis using Cons by (auto split: prod.splits)
  next
    case False
    then show ?thesis using Cons by (auto split: prod.splits list.splits)
  qed
qed simp

lemma grep_spec_append:
  "grep_spec pattern (bs @ cs) = grep_spec pattern bs @ grep_spec pattern (snd (split_lines bs) @ cs)"
  by (subst grep_spec_def, subst split_lines_append) (simp add: grep_spec_def)

lemma strchr_none: "newline \<notin> set p \<Longrightarrow> strchr p newline = None"
  using strchr_Some [of p newline] by (cases "strchr p newline") (auto, metis nth_mem)

lemma strchr_line: "0 \<notin> set l \<Longrightarrow> newline \<notin> set l \<Longrightarrow> strchr (l @ newline # bs) newline = Some (length l)"
proof -
  assume "0 \<notin> set l" "newline \<notin> set l"
  then have "takeWhile (\<lambda>x. x \<noteq> 0 \<and> x \<noteq> newline) (l @ newline # bs) = l" by (subst takeWhile_append2) auto
  then show ?thesis by (simp add: strchr_def)
qed

lemma grep_lines_spec:
  "0 \<notin> set p \<Longrightarrow> grep_lines pattern p = (grep_spec pattern p, snd (split_lines p))"
proof (induction pattern p rule: grep_lines.induct)
  case (1 pattern p)
  show ?case
  proof (cases "newline \<in> set p")
    case False
    then show ?thesis by (simp add: grep_lines.simps [of _ p] strchr_none split_lines_none grep_spec_def)
  next
    case True
    obtain l bs where p: "p = l @ newline # bs" and l: "newline \<notin> set l" using split_list_first [OF True] by blast
    have c: "strchr p newline = Some (length l)" using 1(2) l by (simp add: p strchr_line)
    have d: "drop (Suc (length l)) p = bs" "take (length l) p = l" by (simp_all add: p)
    have "grep_lines pattern bs = (grep_spec pattern bs, snd (split_lines bs))" using 1(1) [OF c refl] 1(2) by (simp add: d) (simp add: p)
    then show ?thesis
      by (simp add: grep_lines.simps [of _ p] c d) (simp add: p grep_spec_def split_lines_line [OF l])
  qed
qed

lemma short_lines_prefix: "short_lines (buf @ inp) \<Longrightarrow> newline \<notin> set buf \<Longrightarrow> length buf \<le> 1022"
proof (induction inp rule: split_lines.induct)
  case 1
  then show ?case by (simp add: short_lines_def split_lines_none)
next
  case (2 b bs)
  show ?case
  proof (cases "newline \<in> set (b # bs)")
    case True
    then obtain l cs where "b # bs = l @ newline # cs" and l: "newline \<notin> set l" using split_list_first by metis
    moreover have "newline \<notin> set (buf @ l)" using 2(3) l by simp
    ultimately show ?thesis using 2(2) split_lines_line [of "buf @ l" cs] by (simp add: short_lines_def)
  next
    case False
    then show ?thesis using 2(2,3) by (simp add: short_lines_def split_lines_none)
  qed
qed

lemma grep_loop_spec:
  "0 \<notin> set (buf @ inp) \<Longrightarrow> newline \<notin> set buf \<Longrightarrow> short_lines (buf @ inp) \<Longrightarrow> grep_loop pattern buf inp ks = grep_spec pattern (buf @ inp)"
proof (induction pattern buf inp ks rule: grep_loop.induct)
  case (1 pattern buf inp ks)
  obtain d inp1 ks1 where r: "read_some (1023 - length buf) inp ks = (d, inp1, ks1)" by (metis prod_cases3)
  have di: "inp = d @ inp1" using r by (auto simp: read_some_def Let_def)
  have len: "length buf \<le> 1022" using short_lines_prefix 1(3,4) by blast
  show ?case
  proof (cases "d = []")
    case True
    then have "inp = []" using r len by (auto simp: read_some_def Let_def split: list.splits if_splits)
    then show ?thesis using True r 1(3) by (simp add: grep_loop.simps [of _ buf] grep_spec_def split_lines_none)
  next
    case False
    have z: "0 \<notin> set (buf @ d)" using 1(2) di by auto
    define rest where "rest = snd (split_lines (buf @ d))"
    have lines: "grep_lines pattern (buf @ d) = (grep_spec pattern (buf @ d), rest)" using grep_lines_spec [OF z] by (simp add: rest_def)
    have "set rest \<subseteq> set (buf @ d)" unfolding rest_def by (rule split_lines_subset)
    then have "0 \<notin> set (rest @ inp1)" using 1(2) di z by auto
    moreover have "newline \<notin> set rest" unfolding rest_def by (rule split_lines_rest)
    moreover have "short_lines (rest @ inp1)" using 1(4) split_lines_append [of "buf @ d" inp1] by (auto simp: short_lines_def rest_def di)
    ultimately have "grep_loop pattern rest inp1 ks1 = grep_spec pattern (rest @ inp1)"
      using 1(1) [OF r [symmetric] refl False lines [symmetric]] by blast
    then show ?thesis
      using False r lines grep_spec_append [of pattern "buf @ d" inp1] by (simp add: grep_loop.simps [of _ buf] di rest_def)
  qed
qed

text \<open>C23: \<open>grep\<close> prints exactly the lines that match, in order, however the kernel cuts the input into
  reads, as long as no line is longer than 1022 characters and the input has no zero bytes. What is
  behind the last newline is not a line and is not printed.\<close>

theorem grep_prints_matching_lines:
  assumes "0 \<notin> set inp" and "short_lines inp"
  shows "grep pattern inp ks = grep_spec pattern inp"
  using grep_loop_spec [of "[]" inp pattern ks] assms by (simp add: grep_def)

theorem grep_prints_matching_lines_witness:
  "grep (ascii ''b'') (ascii ''ab'' @ [10] @ ascii ''c'' @ [10] @ ascii ''b'') [1, 2, 9] = ascii ''ab'' @ [10]"
  using grep_prints_matching_lines [of "ascii ''ab'' @ [10] @ ascii ''c'' @ [10] @ ascii ''b''" "ascii ''b''" "[1, 2, 9]"]
  by (simp add: ascii_def short_lines_def grep_spec_def match_def matchhere.simps matchstar.simps)

lemma grep_loop_long:
  "newline \<notin> set (take 1023 (buf @ inp)) \<Longrightarrow> length buf \<le> 1023 \<Longrightarrow> grep_loop pattern buf inp ks = []"
proof (induction pattern buf inp ks rule: grep_loop.induct)
  case (1 pattern buf inp ks)
  obtain d inp1 ks1 where r: "read_some (1023 - length buf) inp ks = (d, inp1, ks1)" by (metis prod_cases3)
  have di: "inp = d @ inp1" "length (buf @ d) \<le> 1023" using r 1(3) by (auto simp: read_some_def Let_def)
  have "take 1023 (buf @ inp) = (buf @ d) @ take (1023 - length (buf @ d)) inp1" using di by simp
  then have "newline \<notin> set (buf @ d)" using 1(2) by (metis Un_iff set_append)
  then have lines: "grep_lines pattern (buf @ d) = ([], buf @ d)" by (simp add: grep_lines.simps [of _ "buf @ d"] strchr_none)
  show ?case
  proof (cases "d = []")
    case False
    then have "grep_loop pattern (buf @ d) inp1 ks1 = []"
      using 1(1) [OF r [symmetric] refl False lines [symmetric]] 1(2) di by simp
    then show ?thesis using False r lines by (simp add: grep_loop.simps [of _ buf])
  qed (use r in \<open>simp add: grep_loop.simps [of _ buf]\<close>)
qed

text \<open>C39: a line of 1023 characters or more makes \<open>grep\<close> stop without a word. If the input starts with
  such a line, nothing at all is printed, whatever matches in that line or in the lines after it: the
  buffer is full, the next read is asked for 0 bytes and its result is taken for the end of the file.\<close>

theorem grep_gives_up_on_long_line:
  assumes "newline \<notin> set (take 1023 inp)"
  shows "grep pattern inp ks = []"
  using grep_loop_long [of "[]" inp pattern ks] assms by (simp add: grep_def)

theorem grep_gives_up_on_long_line_witness:
  "grep (ascii ''b'') (replicate 1023 97 @ [10] @ ascii ''b'' @ [10]) [] = []"
  using grep_gives_up_on_long_line [of "replicate 1023 97 @ [10] @ ascii ''b'' @ [10]" "ascii ''b''" "[]"]
  by simp

end
