(* ===== verification/Sh.thy ===== *)
theory Sh
  imports Ulib
begin

text \<open>
  The parser of the shell, src/user/sh.c. The line is \<open>buf\<close>, the bytes before its terminator; pointers
  into it are positions, and the position \<open>length buf\<close> is that of the terminator. A parsed command
  holds the positions of its words, beginning and end, as the code does; \<open>nulterminate\<close> then writes a
  terminator at every end, in the line itself. \<open>panic\<close> of the shell prints and exits: \<open>PPanic\<close>; the
  leftovers \<open>parsecmd\<close> prints before are not part of the result. The constructors allocate a structure
  each and are taken to get it; a constructor of \<open>cmd\<close> stands for the structure. The functions that call each other take a bound on the depth of the calls and the rounds of the loops,
  and give \<open>PFuel\<close> when it is used up; \<open>parsecmd\<close> passes one that is enough for every line (theorem
  \<open>parsecmd_terminates\<close>). The lines are at most 99 bytes long, so that positions do not overflow.
\<close>

subsection \<open>Tokens\<close>

definition whitespace :: "byte list" where
  "whitespace = [32, 9, 13, 10, 11]"

definition symbols :: "byte list" where
  "symbols = ascii ''<|>&;()''"

definition at_pos :: "byte list \<Rightarrow> nat \<Rightarrow> byte" where
  "at_pos buf s = (if s < length buf then buf ! s else 0)"

definition skip_ws :: "byte list \<Rightarrow> nat \<Rightarrow> nat" where
  "skip_ws buf s = s + length (takeWhile (\<lambda>c. c \<in> set whitespace) (drop s buf))"

abbreviation (input) tok_a :: byte where "tok_a \<equiv> 97"
abbreviation (input) tok_plus :: byte where "tok_plus \<equiv> 43"
abbreviation (input) c_gt :: byte where "c_gt \<equiv> 62"
abbreviation (input) c_lt :: byte where "c_lt \<equiv> 60"

text \<open>The kind of the token, where it begins and ends, and the new position.\<close>

definition gettoken :: "byte list \<Rightarrow> nat \<Rightarrow> byte \<times> nat \<times> nat \<times> nat" where
  "gettoken buf s =
     (let q = skip_ws buf s;
          c = at_pos buf q;
          (ret, eq) =
            (if c = 0 then (0, q)
             else if c \<in> set (ascii ''|();&<'') then (c, q + 1)
             else if c = c_gt then (if at_pos buf (q + 1) = c_gt then (tok_plus, q + 2) else (c, q + 1))
             else (tok_a, q + length (takeWhile (\<lambda>c. c \<notin> set whitespace \<and> c \<notin> set symbols) (drop q buf))))
      in (ret, q, eq, skip_ws buf eq))"

definition peek :: "byte list \<Rightarrow> nat \<Rightarrow> byte list \<Rightarrow> bool \<times> nat" where
  "peek buf s toks =
     (let s = skip_ws buf s
      in (at_pos buf s \<noteq> 0 \<and> at_pos buf s \<in> set toks, s))"

subsection \<open>Commands\<close>

datatype cmd = EXEC "(nat \<times> nat) list" | REDIR cmd nat nat int int | PIPE cmd cmd | LIST cmd cmd | BACK cmd

datatype 'a presult = POk 'a | PPanic string | PFuel

primrec pbind :: "'a presult \<Rightarrow> ('a \<Rightarrow> 'b presult) \<Rightarrow> 'b presult" where
  "pbind (POk x) f = f x"
| "pbind (PPanic e) f = PPanic e"
| "pbind PFuel f = PFuel"

text \<open>A word is added to the \<open>execcmd\<close> inside the redirections that have been put around it.\<close>

fun add_arg :: "nat \<times> nat \<Rightarrow> cmd \<Rightarrow> cmd" where
  "add_arg a (EXEC args) = EXEC (args @ [a])"
| "add_arg a (REDIR c q eq mode fd) = REDIR (add_arg a c) q eq mode fd"
| "add_arg a c = c"

definition redir_switch :: "byte \<Rightarrow> cmd \<Rightarrow> nat \<Rightarrow> nat \<Rightarrow> cmd" where
  "redir_switch tok c q eq =
     (if tok = c_lt then REDIR c q eq 0 0
      else if tok = c_gt then REDIR c q eq 0x601 1
      else if tok = tok_plus then REDIR c q eq 0x201 1
      else c)"

fun parseredirs :: "nat \<Rightarrow> byte list \<Rightarrow> cmd \<Rightarrow> nat \<Rightarrow> (cmd \<times> nat) presult" where
  "parseredirs 0 buf c s = PFuel"
| "parseredirs (Suc n) buf c s =
     (case peek buf s (ascii ''<>'') of (b, s) \<Rightarrow>
        if \<not> b then POk (c, s)
        else (case gettoken buf s of (tok, _, _, s) \<Rightarrow>
              case gettoken buf s of (t, q, eq, s) \<Rightarrow>
                if t \<noteq> tok_a then PPanic ''missing file for redirection''
                else parseredirs n buf (redir_switch tok c q eq) s))"

text \<open>The loop of \<open>parseexec\<close>, with the number of words so far.\<close>

fun parseargs :: "nat \<Rightarrow> byte list \<Rightarrow> cmd \<Rightarrow> nat \<Rightarrow> nat \<Rightarrow> (cmd \<times> nat) presult" where
  "parseargs 0 buf ret argc s = PFuel"
| "parseargs (Suc n) buf ret argc s =
     (case peek buf s (ascii ''|)&;'') of (b, s) \<Rightarrow>
        if b then POk (ret, s)
        else (case gettoken buf s of (tok, q, eq, s) \<Rightarrow>
              if tok = 0 then POk (ret, s)
              else if tok \<noteq> tok_a then PPanic ''syntax''
              else if argc + 1 \<ge> 10 then PPanic ''too many args''
              else pbind (parseredirs n buf (add_arg (q, eq) ret) s) (\<lambda>(ret, s). parseargs n buf ret (argc + 1) s)))"

text \<open>The loop of \<open>parseline\<close> over ampersands.\<close>

fun parseback :: "nat \<Rightarrow> byte list \<Rightarrow> cmd \<Rightarrow> nat \<Rightarrow> (cmd \<times> nat) presult" where
  "parseback 0 buf c s = PFuel"
| "parseback (Suc n) buf c s =
     (case peek buf s (ascii ''&'') of (b, s) \<Rightarrow>
        if b then (case gettoken buf s of (_, _, _, s) \<Rightarrow> parseback n buf (BACK c) s) else POk (c, s))"

fun parseline :: "nat \<Rightarrow> byte list \<Rightarrow> nat \<Rightarrow> (cmd \<times> nat) presult"
  and parsepipe :: "nat \<Rightarrow> byte list \<Rightarrow> nat \<Rightarrow> (cmd \<times> nat) presult"
  and parseexec :: "nat \<Rightarrow> byte list \<Rightarrow> nat \<Rightarrow> (cmd \<times> nat) presult"
  and parseblock :: "nat \<Rightarrow> byte list \<Rightarrow> nat \<Rightarrow> (cmd \<times> nat) presult" where
  "parseline 0 buf s = PFuel"
| "parseline (Suc n) buf s =
     pbind (parsepipe n buf s) (\<lambda>(c, s).
     pbind (parseback n buf c s) (\<lambda>(c, s).
     case peek buf s (ascii '';'') of (b, s) \<Rightarrow>
       if b then (case gettoken buf s of (_, _, _, s) \<Rightarrow>
                  pbind (parseline n buf s) (\<lambda>(r, s). POk (LIST c r, s)))
       else POk (c, s)))"
| "parsepipe 0 buf s = PFuel"
| "parsepipe (Suc n) buf s =
     pbind (parseexec n buf s) (\<lambda>(c, s).
     case peek buf s (ascii ''|'') of (b, s) \<Rightarrow>
       if b then (case gettoken buf s of (_, _, _, s) \<Rightarrow>
                  pbind (parsepipe n buf s) (\<lambda>(r, s). POk (PIPE c r, s)))
       else POk (c, s))"
| "parseexec 0 buf s = PFuel"
| "parseexec (Suc n) buf s =
     (case peek buf s (ascii ''('') of (b, s) \<Rightarrow>
        if b then parseblock n buf s
        else pbind (parseredirs n buf (EXEC []) s) (\<lambda>(ret, s). parseargs n buf ret 0 s))"
| "parseblock 0 buf s = PFuel"
| "parseblock (Suc n) buf s =
     (case peek buf s (ascii ''('') of (b, s) \<Rightarrow>
        if \<not> b then PPanic ''parseblock''
        else (case gettoken buf s of (_, _, _, s) \<Rightarrow>
              pbind (parseline n buf s) (\<lambda>(c, s).
              case peek buf s (ascii '')'') of (b, s) \<Rightarrow>
                if \<not> b then PPanic ''syntax - missing )''
                else (case gettoken buf s of (_, _, _, s) \<Rightarrow> parseredirs n buf c s))))"

text \<open>The line with its terminator, and the terminators \<open>nulterminate\<close> adds.\<close>

fun nulterminate :: "cmd \<Rightarrow> byte list \<Rightarrow> byte list" where
  "nulterminate (EXEC args) m = fold (\<lambda>(q, eq) m. m[eq := 0]) args m"
| "nulterminate (REDIR c q eq mode fd) m = (nulterminate c m)[eq := 0]"
| "nulterminate (PIPE l r) m = nulterminate r (nulterminate l m)"
| "nulterminate (LIST l r) m = nulterminate r (nulterminate l m)"
| "nulterminate (BACK c) m = nulterminate c m"

definition parsecmd :: "byte list \<Rightarrow> (cmd \<times> byte list) presult" where
  "parsecmd buf =
     pbind (parseline (4 * length buf + 8) buf 0) (\<lambda>(c, s).
     case peek buf s [] of (_, s) \<Rightarrow>
       if s \<noteq> length buf then PPanic ''syntax''
       else POk (c, nulterminate c (buf @ [0])))"

subsection \<open>Positions\<close>

definition is_delim :: "byte \<Rightarrow> bool" where
  "is_delim c = (c \<in> set whitespace \<or> c \<in> set symbols)"

text \<open>A word: a maximal run of bytes that are neither white space nor symbols.\<close>

definition is_word :: "byte list \<Rightarrow> nat \<times> nat \<Rightarrow> bool" where
  "is_word buf w \<longleftrightarrow> (case w of (q, eq) \<Rightarrow>
     q < eq \<and> eq \<le> length buf \<and> (\<forall>i \<in> {q..<eq}. \<not> is_delim (buf ! i)) \<and>
     (eq < length buf \<longrightarrow> is_delim (buf ! eq)))"

lemma takeWhile_drop_stop:
  assumes "s \<le> length xs" and "e = s + length (takeWhile P (drop s xs))"
  shows "s \<le> e" "e \<le> length xs" "\<forall>i \<in> {s..<e}. P (xs ! i)" "e < length xs \<Longrightarrow> \<not> P (xs ! e)"
proof -
  let ?t = "takeWhile P (drop s xs)"
  have len: "length ?t \<le> length xs - s" using length_takeWhile_le [of P "drop s xs"] by simp
  show "s \<le> e" "e \<le> length xs" using assms len by simp_all
  show "\<forall>i \<in> {s..<e}. P (xs ! i)"
  proof
    fix i assume "i \<in> {s..<e}"
    then have j: "i - s < length ?t" "i = s + (i - s)" using assms by auto
    then have "?t ! (i - s) \<in> set ?t" by (intro nth_mem)
    then have "P (?t ! (i - s))" using set_takeWhileD by fastforce
    moreover have "?t ! (i - s) = xs ! i" using j len by (simp add: takeWhile_nth)
    ultimately show "P (xs ! i)" by simp
  qed
  assume "e < length xs"
  then have "length ?t < length (drop s xs)" using assms by simp
  then have "\<not> P (drop s xs ! length ?t)" by (rule nth_length_takeWhile)
  then show "\<not> P (xs ! e)" using assms by simp
qed

lemma skip_ws_bounds:
  assumes "s \<le> length buf"
  shows "s \<le> skip_ws buf s" "skip_ws buf s \<le> length buf"
    "skip_ws buf s < length buf \<Longrightarrow> buf ! skip_ws buf s \<notin> set whitespace"
  using takeWhile_drop_stop [OF assms skip_ws_def] by auto

lemma word_end:
  assumes q: "q < length buf" "\<not> is_delim (buf ! q)"
    and e: "e = q + length (takeWhile (\<lambda>c. c \<notin> set whitespace \<and> c \<notin> set symbols) (drop q buf))"
  shows "is_word buf (q, e)"
proof -
  note stop = takeWhile_drop_stop [OF _ e]
  have "e \<noteq> q"
  proof
    assume "e = q"
    then show False using stop(4) q by (simp add: is_delim_def)
  qed
  then show ?thesis using stop q unfolding is_word_def is_delim_def by (auto simp: order.strict_iff_order)
qed

lemma symbols_eq: "set symbols = {60, 124, 62, 38, 59, 40, 41}"
  by (simp add: symbols_def ascii_def)

lemma ascii_simple_tokens: "set (ascii ''|();&<'') = {124, 40, 41, 59, 38, 60}"
  by (simp add: ascii_def)

lemma at_pos_nonzero: "at_pos buf q \<noteq> 0 \<Longrightarrow> q < length buf \<and> at_pos buf q = buf ! q"
  by (simp add: at_pos_def split: if_splits)

text \<open>The span of a token.\<close>

lemma gettoken_span:
  assumes s: "s \<le> length buf" and g: "gettoken buf s = (t, q, e, s')"
  shows "q = skip_ws buf s \<and> q \<le> e \<and> e \<le> length buf \<and> s' = skip_ws buf e \<and> (t \<noteq> 0 \<longrightarrow> q < e) \<and>
    (t = tok_a \<longrightarrow> is_word buf (q, e)) \<and> (at_pos buf q \<noteq> 0 \<longrightarrow> t \<noteq> 0)"
proof -
  have q: "q = skip_ws buf s" and s': "s' = skip_ws buf e"
    using g by (auto simp: gettoken_def Let_def split: prod.splits if_splits)
  have le: "q \<le> length buf" using s q skip_ws_bounds(2) by simp
  consider (nul) "at_pos buf q = 0" | (sym) "at_pos buf q \<in> set (ascii ''|();&<'')"
    | (gt) "at_pos buf q = c_gt"
    | (other) "at_pos buf q \<noteq> 0" "at_pos buf q \<notin> set (ascii ''|();&<'')" "at_pos buf q \<noteq> c_gt" by blast
  then show ?thesis
  proof cases
    case nul
    then have "t = 0" "e = q" using g q by (auto simp: gettoken_def Let_def)
    then show ?thesis using nul q s' le by simp
  next
    case sym
    then have nz: "at_pos buf q \<noteq> 0" by (auto simp: ascii_simple_tokens)
    have "t = at_pos buf q" "e = q + 1" using sym nz g q by (auto simp: gettoken_def Let_def)
    then show ?thesis using sym nz q s' at_pos_nonzero [OF nz] by (auto simp: ascii_simple_tokens)
  next
    case gt
    then have nz: "at_pos buf q \<noteq> 0" by simp
    have "(t = tok_plus \<and> e = q + 2 \<and> at_pos buf (q + 1) = c_gt) \<or> (t = c_gt \<and> e = q + 1)"
      using gt g q by (auto simp: gettoken_def Let_def ascii_simple_tokens split: if_splits)
    then show ?thesis using q s' at_pos_nonzero [OF nz] at_pos_nonzero [of buf "q + 1"] by auto
  next
    case other
    then have t: "t = tok_a"
      and e: "e = q + length (takeWhile (\<lambda>c. c \<notin> set whitespace \<and> c \<notin> set symbols) (drop q buf))"
      using g q by (auto simp: gettoken_def Let_def)
    note qb = at_pos_nonzero [OF other(1)]
    have "\<not> is_delim (buf ! q)"
      using other qb skip_ws_bounds(3) [OF s] q by (auto simp: is_delim_def symbols_eq ascii_simple_tokens)
    then have w: "is_word buf (q, e)" by (intro word_end e conjunct1 [OF qb])
    then have "q < e \<and> e \<le> length buf" by (simp add: is_word_def)
    then show ?thesis using w t q s' by simp
  qed
qed

lemma gettoken_le:
  assumes "s \<le> length buf" and "gettoken buf s = (t, q, e, s')"
  shows "s \<le> s'" "s' \<le> length buf" "t \<noteq> 0 \<Longrightarrow> s < s'"
  using gettoken_span [OF assms] skip_ws_bounds [OF assms(1)] skip_ws_bounds(1,2) [of e buf] by auto

lemma peek_le:
  assumes "s \<le> length buf" and "peek buf s toks = (b, s')"
  shows "s \<le> s'" "s' \<le> length buf"
  using assms skip_ws_bounds [of s buf] by (auto simp: peek_def Let_def)

lemma skip_ws_idem: "s \<le> length buf \<Longrightarrow> skip_ws buf (skip_ws buf s) = skip_ws buf s"
  using skip_ws_bounds [of s buf]
  by (cases "skip_ws buf s < length buf") (auto simp: skip_ws_def [of _ "skip_ws buf s"] skip_ws_def [of _ "length buf"] Cons_nth_drop_Suc [symmetric])

text \<open>What \<open>peek\<close> has seen, \<open>gettoken\<close> consumes.\<close>

lemma peek_gettoken:
  assumes "s \<le> length buf" "peek buf s toks = (True, s1)" "gettoken buf s1 = (t, q, e, s2)"
  shows "s1 < s2" "s2 \<le> length buf" "s < s2"
proof -
  have s1: "s1 = skip_ws buf s" "at_pos buf s1 \<noteq> 0" using assms by (auto simp: peek_def Let_def)
  have le: "s1 \<le> length buf" using assms(1) s1 skip_ws_bounds by simp
  have "q = s1" using gettoken_span [OF le assms(3)] s1 skip_ws_idem [OF assms(1)] by simp
  then have "t \<noteq> 0" using gettoken_span [OF le assms(3)] s1 by simp
  then show "s1 < s2" "s2 \<le> length buf" using gettoken_le [OF le assms(3)] by simp_all
  then show "s < s2" using s1 skip_ws_bounds(1) [OF assms(1)] by simp
qed

subsection \<open>What every parsing function gives\<close>

fun cmd_words :: "cmd \<Rightarrow> (nat \<times> nat) list" where
  "cmd_words (EXEC args) = args"
| "cmd_words (REDIR c q eq mode fd) = cmd_words c @ [(q, eq)]"
| "cmd_words (PIPE l r) = cmd_words l @ cmd_words r"
| "cmd_words (LIST l r) = cmd_words l @ cmd_words r"
| "cmd_words (BACK c) = cmd_words c"

text \<open>The vector of every \<open>execcmd\<close> has room for its words and the null pointer after them.\<close>

fun argv_fits :: "cmd \<Rightarrow> bool" where
  "argv_fits (EXEC args) = (length args < 10)"
| "argv_fits (REDIR c q eq mode fd) = argv_fits c"
| "argv_fits (PIPE l r) = (argv_fits l \<and> argv_fits r)"
| "argv_fits (LIST l r) = (argv_fits l \<and> argv_fits r)"
| "argv_fits (BACK c) = argv_fits c"

text \<open>An \<open>execcmd\<close> with \<open>n\<close> words, inside redirections.\<close>

fun exec_of :: "nat \<Rightarrow> cmd \<Rightarrow> bool" where
  "exec_of n (EXEC args) = (length args = n)"
| "exec_of n (REDIR c q eq mode fd) = exec_of n c"
| "exec_of n c = False"

definition good_cmd :: "byte list \<Rightarrow> cmd \<Rightarrow> bool" where
  "good_cmd buf c \<longleftrightarrow> (\<forall>w \<in> set (cmd_words c). is_word buf w) \<and> argv_fits c"

text \<open>A result that is a command of the line, read from \<open>s\<close> on, or a panic.\<close>

definition good :: "byte list \<Rightarrow> nat \<Rightarrow> (cmd \<Rightarrow> bool) \<Rightarrow> (cmd \<times> nat) presult \<Rightarrow> bool" where
  "good buf s P r = (case r of
     POk (c, s') \<Rightarrow> s \<le> s' \<and> s' \<le> length buf \<and> good_cmd buf c \<and> P c
   | PPanic e \<Rightarrow> True
   | PFuel \<Rightarrow> False)"

lemma good_simps [simp]:
  "good buf s P (POk (c, s')) \<longleftrightarrow> s \<le> s' \<and> s' \<le> length buf \<and> good_cmd buf c \<and> P c"
  "good buf s P (PPanic e)" "\<not> good buf s P PFuel"
  by (simp_all add: good_def)

lemma good_bind:
  assumes "good buf s P r"
    and "\<And>c s'. s \<le> s' \<Longrightarrow> s' \<le> length buf \<Longrightarrow> good_cmd buf c \<Longrightarrow> P c \<Longrightarrow> good buf s Q (f (c, s'))"
  shows "good buf s Q (pbind r f)"
  using assms by (cases r) auto

lemma good_weaken: "good buf s P r \<Longrightarrow> s0 \<le> s \<Longrightarrow> (\<And>c. P c \<Longrightarrow> Q c) \<Longrightarrow> good buf s0 Q r"
  by (cases r) auto

lemma good_cmd_simps [simp]:
  "good_cmd buf (REDIR c q e m d) \<longleftrightarrow> good_cmd buf c \<and> is_word buf (q, e)"
  "good_cmd buf (PIPE l r) \<longleftrightarrow> good_cmd buf l \<and> good_cmd buf r"
  "good_cmd buf (LIST l r) \<longleftrightarrow> good_cmd buf l \<and> good_cmd buf r"
  "good_cmd buf (BACK c) \<longleftrightarrow> good_cmd buf c"
  "good_cmd buf (EXEC [])"
  by (auto simp: good_cmd_def)

lemma add_arg_good:
  assumes "good_cmd buf c" "exec_of n c" "Suc n < 10" "is_word buf w"
  shows "good_cmd buf (add_arg w c)" "exec_of (Suc n) (add_arg w c)"
  using assms by (induction w c rule: add_arg.induct) (auto simp: good_cmd_def)

lemma parseredirs_good:
  assumes "s \<le> length buf" "good_cmd buf c" "length buf - s < n"
  shows "good buf s (\<lambda>c'. \<forall>k. exec_of k c \<longrightarrow> exec_of k c') (parseredirs n buf c s)"
  using assms
proof (induction n arbitrary: c s)
  case (Suc n)
  obtain b s1 where pk: "peek buf s (ascii ''<>'') = (b, s1)" by fastforce
  obtain tok q0 e0 s2 where g1: "gettoken buf s1 = (tok, q0, e0, s2)" by (metis prod_cases4)
  obtain t q e s3 where g2: "gettoken buf s2 = (t, q, e, s3)" by (metis prod_cases4)
  show ?case
  proof (cases "b \<and> t = tok_a")
    case True
    note l = peek_gettoken [OF Suc.prems(1) pk [unfolded True [THEN conjunct1, THEN eqTrueI]] g1]
    note sp = gettoken_span [OF l(2) g2] gettoken_le [OF l(2) g2]
    have "good buf s3 (\<lambda>c'. \<forall>k. exec_of k (redir_switch tok c q e) \<longrightarrow> exec_of k c')
      (parseredirs n buf (redir_switch tok c q e) s3)"
      using Suc.prems l sp True by (intro Suc.IH) (auto simp: redir_switch_def)
    then have "good buf s (\<lambda>c'. \<forall>k. exec_of k c \<longrightarrow> exec_of k c') (parseredirs n buf (redir_switch tok c q e) s3)"
      using l sp by (elim good_weaken) (auto simp: redir_switch_def)
    then show ?thesis using True by (simp add: pk g1 g2)
  next
    case False
    then show ?thesis using Suc.prems peek_le [OF Suc.prems(1) pk] by (auto simp: pk g1 g2)
  qed
qed simp

lemma parseargs_good:
  assumes "s \<le> length buf" "good_cmd buf c" "exec_of k c" "length buf - s < n"
  shows "good buf s (\<lambda>_. True) (parseargs n buf c k s)"
  using assms
proof (induction n arbitrary: c s k)
  case (Suc n)
  obtain b s1 where pk: "peek buf s (ascii ''|)&;'') = (b, s1)" by fastforce
  obtain t q e s2 where g: "gettoken buf s1 = (t, q, e, s2)" by (metis prod_cases4)
  note le1 = peek_le [OF Suc.prems(1) pk]
  note sp = gettoken_span [OF le1(2) g] gettoken_le [OF le1(2) g]
  show ?case
  proof (cases "\<not> b \<and> t = tok_a \<and> Suc k < 10")
    case True
    have a: "good_cmd buf (add_arg (q, e) c)" "exec_of (Suc k) (add_arg (q, e) c)"
      using True sp Suc.prems by (auto intro: add_arg_good)
    have lt: "length buf - s2 < n" "s \<le> s2" using True le1 sp Suc.prems by auto
    have "good buf s2 (\<lambda>_. True) (pbind (parseredirs n buf (add_arg (q, e) c) s2) (\<lambda>(c, s). parseargs n buf c (Suc k) s))"
    proof (rule good_bind [OF parseredirs_good [OF sp(3) a(1) lt(1)]])
      fix c' s' assume "s2 \<le> s'" "s' \<le> length buf" "good_cmd buf c'"
        "\<forall>k. exec_of k (add_arg (q, e) c) \<longrightarrow> exec_of k c'"
      moreover from this have "length buf - s' < n" using lt by linarith
      ultimately show "good buf s2 (\<lambda>_. True) (case (c', s') of (c, s) \<Rightarrow> parseargs n buf c (Suc k) s)"
        using Suc.IH [of s' c' "Suc k"] a by (auto intro: good_weaken)
    qed
    then have "good buf s (\<lambda>_. True) (pbind (parseredirs n buf (add_arg (q, e) c) s2) (\<lambda>(c, s). parseargs n buf c (Suc k) s))"
      using lt by (auto intro: good_weaken)
    then show ?thesis using True by (simp add: pk g)
  next
    case False
    then show ?thesis using Suc.prems le1 sp by (auto simp: pk g)
  qed
qed simp

lemma parseback_good:
  assumes "s \<le> length buf" "good_cmd buf c" "length buf - s < n"
  shows "good buf s (\<lambda>_. True) (parseback n buf c s)"
  using assms
proof (induction n arbitrary: c s)
  case (Suc n)
  obtain b s1 where pk: "peek buf s (ascii ''&'') = (b, s1)" by fastforce
  obtain t q e s2 where g: "gettoken buf s1 = (t, q, e, s2)" by (metis prod_cases4)
  show ?case
  proof (cases b)
    case True
    note l = peek_gettoken [OF Suc.prems(1) pk [unfolded True [THEN eqTrueI]] g]
    have "good buf s2 (\<lambda>_. True) (parseback n buf (BACK c) s2)" using Suc.prems l by (intro Suc.IH) auto
    then have "good buf s (\<lambda>_. True) (parseback n buf (BACK c) s2)" using l by (auto intro: good_weaken)
    then show ?thesis using True by (simp add: pk g)
  next
    case False
    then show ?thesis using Suc.prems peek_le [OF Suc.prems(1) pk] by (simp add: pk)
  qed
qed simp

text \<open>The functions that look for a token, and go on after it when it is there.\<close>

lemma good_peek:
  assumes s0: "s \<le> s0" "s0 \<le> length buf"
    and yes: "\<And>s2. s0 < s2 \<Longrightarrow> s2 \<le> length buf \<Longrightarrow> good buf s2 Q (f s2)"
    and no: "\<And>s1. s0 \<le> s1 \<Longrightarrow> s1 \<le> length buf \<Longrightarrow> good buf s Q (g s1)"
  shows "good buf s Q (case peek buf s0 toks of (b, s1) \<Rightarrow>
    if b then (case gettoken buf s1 of (_, _, _, s2) \<Rightarrow> f s2) else g s1)"
proof -
  obtain b s1 where pk: "peek buf s0 toks = (b, s1)" by fastforce
  obtain t q e s2 where g: "gettoken buf s1 = (t, q, e, s2)" by (metis prod_cases4)
  show ?thesis
  proof (cases b)
    case True
    note l = peek_gettoken [OF s0(2) pk [unfolded True [THEN eqTrueI]] g]
    have "good buf s Q (f s2)" using good_weaken [OF yes] s0 l by auto
    then show ?thesis using True by (simp add: pk g)
  next
    case False
    then show ?thesis using no peek_le [OF s0(2) pk] by (simp add: pk)
  qed
qed

definition enough :: "byte list \<Rightarrow> nat \<Rightarrow> nat \<Rightarrow> nat \<Rightarrow> bool" where
  "enough buf s k n \<longleftrightarrow> s \<le> length buf \<and> 4 * (length buf - s) + k \<le> n"

lemma enough_Suc: "enough buf s (Suc k) (Suc n) \<Longrightarrow> enough buf s k n"
  by (simp add: enough_def)

lemma enough_later: "enough buf s k n \<Longrightarrow> s < s' \<Longrightarrow> s' \<le> length buf \<Longrightarrow> enough buf s' (k + 4) n"
  by (auto simp: enough_def)

lemma enough_loop: "enough buf s (Suc k) n \<Longrightarrow> s \<le> s' \<Longrightarrow> length buf - s' < n"
  by (auto simp: enough_def)

lemma good_wrap:
  assumes "good buf s P r" "\<And>c. good_cmd buf c \<Longrightarrow> good_cmd buf (w c)"
  shows "good buf s (\<lambda>_. True) (pbind r (\<lambda>(c, s). POk (w c, s)))"
  using assms by (auto intro: good_bind)

lemma parsepipe_step:
  assumes n: "enough buf s 3 (Suc n)"
    and exec: "\<And>s. enough buf s 2 n \<Longrightarrow> good buf s (\<lambda>_. True) (parseexec n buf s)"
    and pipe: "\<And>s. enough buf s 3 n \<Longrightarrow> good buf s (\<lambda>_. True) (parsepipe n buf s)"
  shows "good buf s (\<lambda>_. True) (parsepipe (Suc n) buf s)"
proof -
  have e2: "enough buf s 2 n" using n by (simp add: enough_def)
  show ?thesis unfolding parsepipe.simps
  proof (rule good_bind [OF exec [OF e2]], unfold prod.case, rule good_peek)
    fix c s' s2 assume "s \<le> s'" "s' < s2" "s2 \<le> length buf" "good_cmd buf c"
    then show "good buf s2 (\<lambda>_. True) (pbind (parsepipe n buf s2) (\<lambda>(r, s). POk (PIPE c r, s)))"
      using enough_later [OF e2, of s2] by (intro good_wrap [OF pipe]) (auto simp: enough_def)
  qed auto
qed

lemma parseline_step:
  assumes n: "enough buf s 4 (Suc n)"
    and pipe: "\<And>s. enough buf s 3 n \<Longrightarrow> good buf s (\<lambda>_. True) (parsepipe n buf s)"
    and line: "\<And>s. enough buf s 4 n \<Longrightarrow> good buf s (\<lambda>_. True) (parseline n buf s)"
  shows "good buf s (\<lambda>_. True) (parseline (Suc n) buf s)"
proof -
  have e3: "enough buf s 3 n" using n by (simp add: enough_def)
  have list: "good buf s (\<lambda>_. True) (case peek buf s' (ascii '';'') of (b, s) \<Rightarrow>
      if b then (case gettoken buf s of (_, _, _, s) \<Rightarrow> pbind (parseline n buf s) (\<lambda>(r, s). POk (LIST c r, s)))
      else POk (c, s))" if s': "s \<le> s'" "s' \<le> length buf" and c: "good_cmd buf c" for c s'
  proof (rule good_peek [OF s'])
    fix s2 assume "s' < s2" "s2 \<le> length buf"
    then show "good buf s2 (\<lambda>_. True) (pbind (parseline n buf s2) (\<lambda>(r, s). POk (LIST c r, s)))"
      using s' c enough_later [OF e3, of s2] by (intro good_wrap [OF line]) (auto simp: enough_def)
  qed (use s' c in auto)
  show ?thesis unfolding parseline.simps
  proof (rule good_bind [OF pipe [OF e3]], unfold prod.case)
    fix c s' assume s': "s \<le> s'" "s' \<le> length buf" "good_cmd buf c"
    then have "good buf s (\<lambda>_. True) (parseback n buf c s')"
      using parseback_good [of s' buf c n] enough_loop [of buf s 2 n s'] e3 by (auto intro: good_weaken)
    then show "good buf s (\<lambda>_. True) (pbind (parseback n buf c s') (\<lambda>(c, s).
        case peek buf s (ascii '';'') of (b, s) \<Rightarrow>
          if b then (case gettoken buf s of (_, _, _, s) \<Rightarrow> pbind (parseline n buf s) (\<lambda>(r, s). POk (LIST c r, s)))
          else POk (c, s)))"
      by (rule good_bind) (use list in simp)
  qed
qed

lemma parseexec_step:
  assumes n: "enough buf s 2 (Suc n)"
    and block: "\<And>s. enough buf s 1 n \<Longrightarrow> good buf s (\<lambda>_. True) (parseblock n buf s)"
  shows "good buf s (\<lambda>_. True) (parseexec (Suc n) buf s)"
proof -
  have e1: "enough buf s 1 n" and s: "s \<le> length buf" using n by (simp_all add: enough_def)
  obtain b s1 where pk: "peek buf s (ascii ''('') = (b, s1)" by fastforce
  note le = peek_le [OF s pk]
  have lt: "length buf - s' < n" if "s1 \<le> s'" for s' using enough_loop [of buf s 0 n s'] e1 le that by simp
  have "good buf s1 (\<lambda>_. True) (parseblock n buf s1)" using e1 le by (intro block) (auto simp: enough_def)
  moreover have "good buf s1 (\<lambda>_. True) (pbind (parseredirs n buf (EXEC []) s1) (\<lambda>(ret, s). parseargs n buf ret 0 s))"
  proof (rule good_bind [OF parseredirs_good [OF le(2) _ lt]], simp_all)
    fix c s' assume "s1 \<le> s'" "s' \<le> length buf" "good_cmd buf c" "exec_of 0 c"
    then show "good buf s1 (\<lambda>_. True) (parseargs n buf c 0 s')"
      using parseargs_good [of s' buf c 0 n] lt [of s'] by (auto intro: good_weaken)
  qed
  ultimately show ?thesis using le by (auto simp: pk intro: good_weaken)
qed

lemma parseblock_step:
  assumes n: "enough buf s 1 (Suc n)"
    and line: "\<And>s. enough buf s 4 n \<Longrightarrow> good buf s (\<lambda>_. True) (parseline n buf s)"
  shows "good buf s (\<lambda>_. True) (parseblock (Suc n) buf s)"
proof -
  have e0: "enough buf s 0 n" and s: "s \<le> length buf" using n by (simp_all add: enough_def)
  have flip: "(case p of (b, s) \<Rightarrow> if \<not> b then PPanic m else f s) = (case p of (b, s) \<Rightarrow> if b then f s else PPanic m)"
    for p :: "bool \<times> nat" and m f by (simp split: prod.split)
  show ?thesis unfolding parseblock.simps flip
  proof (rule good_peek [OF _ s])
    fix s2 assume s2: "s < s2" "s2 \<le> length buf"
    then have e4: "enough buf s2 4 n" using enough_later [OF e0] by simp
    show "good buf s2 (\<lambda>_. True) (pbind (parseline n buf s2) (\<lambda>(c, s).
        case peek buf s (ascii '')'') of (b, s) \<Rightarrow>
          if b then (case gettoken buf s of (_, _, _, s) \<Rightarrow> parseredirs n buf c s) else PPanic ''syntax - missing )''))"
    proof (rule good_bind [OF line [OF e4]], unfold prod.case, rule good_peek)
      fix c s' s3 assume "s2 \<le> s'" "s' < s3" "s3 \<le> length buf" "good_cmd buf c"
      then show "good buf s3 (\<lambda>_. True) (parseredirs n buf c s3)"
        using parseredirs_good [of s3 buf c n] enough_loop [of buf s2 3 n s3] e4 by (auto intro: good_weaken)
    qed auto
  qed auto
qed

lemma parse_good:
  "(enough buf s 4 n \<longrightarrow> good buf s (\<lambda>_. True) (parseline n buf s)) \<and>
   (enough buf s 3 n \<longrightarrow> good buf s (\<lambda>_. True) (parsepipe n buf s)) \<and>
   (enough buf s 2 n \<longrightarrow> good buf s (\<lambda>_. True) (parseexec n buf s)) \<and>
   (enough buf s 1 n \<longrightarrow> good buf s (\<lambda>_. True) (parseblock n buf s))"
proof (induction n arbitrary: s)
  case 0
  then show ?case by (simp add: enough_def)
next
  case (Suc n)
  then show ?case by (blast intro: parseline_step parsepipe_step parseexec_step parseblock_step)
qed

lemma parseline_good: "good buf 0 (\<lambda>_. True) (parseline (4 * length buf + 8) buf 0)"
  using parse_good by (simp add: enough_def)

subsection \<open>The words of a parsed line\<close>

lemma nulterminate_eq:
  "nulterminate c m = fold (\<lambda>(q, e) m. m[e := 0]) (cmd_words c) m"
  by (induction c arbitrary: m) simp_all

lemma nulterminate_nth:
  assumes "i < length m"
  shows "fold (\<lambda>(q, e) m. m[e := 0]) ws m ! i = (if \<exists>q. (q, i) \<in> set ws then 0 else m ! i)"
  using assms
proof (induction ws arbitrary: m)
  case (Cons w ws)
  obtain q e where "w = (q, e)" by (cases w)
  then show ?case using Cons by (cases "i = e") auto
qed simp

lemma nulterminate_length: "length (fold (\<lambda>(q, e) m. m[e := 0]) ws m) = length m"
  by (induction ws arbitrary: m) auto

text \<open>The C string at a position.\<close>

definition string_at :: "byte list \<Rightarrow> nat \<Rightarrow> byte list" where
  "string_at m q = takeWhile (\<lambda>c. c \<noteq> 0) (drop q m)"

lemma string_at_eq:
  assumes "q \<le> e" "e < length m" "m ! e = 0" "\<forall>i \<in> {q..<e}. m ! i \<noteq> 0"
  shows "string_at m q = take (e - q) (drop q m)"
proof -
  have "takeWhile (\<lambda>c. c \<noteq> 0) (drop q m) = take (e - q) (drop q m)"
    by (rule takeWhile_eq_take_P_nth) (use assms in auto)
  then show ?thesis by (simp add: string_at_def)
qed

text \<open>No terminator falls inside another word.\<close>

lemma word_untouched:
  assumes "is_word buf (q, e)" "is_word buf (q', e')" "i \<in> {q..<e}"
  shows "e' \<noteq> i"
  using assms by (auto simp: is_word_def)

lemma nulterminate_words:
  assumes buf: "0 \<notin> set buf" and ws: "\<forall>w \<in> set ws. is_word buf w" and w: "(q, e) \<in> set ws"
  shows "string_at (fold (\<lambda>(q, e) m. m[e := 0]) ws (buf @ [0])) q = take (e - q) (drop q buf)"
proof -
  let ?m = "fold (\<lambda>(q, e) m. m[e := 0]) ws (buf @ [0])"
  have wd: "is_word buf (q, e)" using ws w by blast
  then have le: "q < e" "e \<le> length buf" by (simp_all add: is_word_def)
  have len: "length ?m = Suc (length buf)" by (simp add: nulterminate_length)
  have same: "?m ! i = buf ! i" if "i \<in> {q..<e}" for i
  proof -
    have "\<nexists>q. (q, i) \<in> set ws" using word_untouched [OF wd _ that] ws by blast
    then show ?thesis using that le by (simp add: nulterminate_nth nth_append)
  qed
  have "string_at ?m q = take (e - q) (drop q ?m)"
  proof (rule string_at_eq)
    show "?m ! e = 0" using le w by (auto simp: nulterminate_nth)
    show "\<forall>i \<in> {q..<e}. ?m ! i \<noteq> 0" using same buf le by (auto simp: in_set_conv_nth)
  qed (use le len in auto)
  also have "\<dots> = take (e - q) (drop q buf)"
    by (rule nth_equalityI) (use le len same in auto)
  finally show ?thesis .
qed

lemma parsecmd_cases:
  assumes "parsecmd buf = POk (c, m)"
  shows "good_cmd buf c \<and> m = nulterminate c (buf @ [0])"
  using assms parseline_good [of buf]
  by (cases "parseline (4 * length buf + 8) buf 0") (auto simp: parsecmd_def split: prod.splits if_splits)

text \<open>A larger bound changes nothing.\<close>

lemma pbind_mono:
  assumes "pbind r f \<noteq> PFuel" "r \<noteq> PFuel \<Longrightarrow> r' = r" "\<And>x. r = POk x \<Longrightarrow> f x \<noteq> PFuel \<Longrightarrow> f' x = f x"
  shows "pbind r' f' = pbind r f"
  using assms by (cases r) auto

lemma parseredirs_mono: "parseredirs n buf c s \<noteq> PFuel \<Longrightarrow> n \<le> m \<Longrightarrow> parseredirs m buf c s = parseredirs n buf c s"
proof (induction n arbitrary: c s m)
  case (Suc n)
  then obtain m' where m: "m = Suc m'" "n \<le> m'" by (cases m) auto
  show ?case using Suc.prems(1) unfolding m by (auto split: prod.splits intro!: Suc.IH m)
qed simp

lemma parseback_mono: "parseback n buf c s \<noteq> PFuel \<Longrightarrow> n \<le> m \<Longrightarrow> parseback m buf c s = parseback n buf c s"
proof (induction n arbitrary: c s m)
  case (Suc n)
  then obtain m' where m: "m = Suc m'" "n \<le> m'" by (cases m) auto
  show ?case using Suc.prems(1) unfolding m by (auto split: prod.splits intro!: Suc.IH m)
qed simp

lemma parseargs_mono: "parseargs n buf c k s \<noteq> PFuel \<Longrightarrow> n \<le> m \<Longrightarrow> parseargs m buf c k s = parseargs n buf c k s"
proof (induction n arbitrary: c k s m)
  case (Suc n)
  then obtain m' where m: "m = Suc m'" "n \<le> m'" by (cases m) auto
  show ?case using Suc.prems(1) unfolding m
    by (auto split: prod.splits intro!: pbind_mono parseredirs_mono Suc.IH m)
qed simp

lemma parse_mono:
  "n \<le> m \<Longrightarrow>
   (parseline n buf s \<noteq> PFuel \<longrightarrow> parseline m buf s = parseline n buf s) \<and>
   (parsepipe n buf s \<noteq> PFuel \<longrightarrow> parsepipe m buf s = parsepipe n buf s) \<and>
   (parseexec n buf s \<noteq> PFuel \<longrightarrow> parseexec m buf s = parseexec n buf s) \<and>
   (parseblock n buf s \<noteq> PFuel \<longrightarrow> parseblock m buf s = parseblock n buf s)"
proof (induction n arbitrary: s m)
  case (Suc n)
  then obtain m' where m: "m = Suc m'" "n \<le> m'" by (cases m) auto
  note IH = Suc.IH [OF m(2), THEN conjunct1, rule_format]
    Suc.IH [OF m(2), THEN conjunct2, THEN conjunct1, rule_format]
    Suc.IH [OF m(2), THEN conjunct2, THEN conjunct2, THEN conjunct1, rule_format]
    Suc.IH [OF m(2), THEN conjunct2, THEN conjunct2, THEN conjunct2, rule_format]
  have "parseline m buf s = parseline (Suc n) buf s" if "parseline (Suc n) buf s \<noteq> PFuel"
    using that unfolding m by (auto split: prod.splits intro!: pbind_mono parseback_mono IH m)
  moreover have "parsepipe m buf s = parsepipe (Suc n) buf s" if "parsepipe (Suc n) buf s \<noteq> PFuel"
    using that unfolding m by (auto split: prod.splits intro!: pbind_mono IH m)
  moreover have "parseexec m buf s = parseexec (Suc n) buf s" if "parseexec (Suc n) buf s \<noteq> PFuel"
    using that unfolding m by (auto split: prod.splits intro!: pbind_mono parseredirs_mono parseargs_mono IH m)
  moreover have "parseblock m buf s = parseblock (Suc n) buf s" if "parseblock (Suc n) buf s \<noteq> PFuel"
    using that unfolding m by (auto split: prod.splits intro!: pbind_mono parseredirs_mono IH m)
  ultimately show ?case by simp
qed simp

lemma parseline_nofuel: "parseline (4 * length buf + 8) buf 0 \<noteq> PFuel"
  using parseline_good [of buf] by auto

text \<open>C25: The parser of the shell returns on every line: with the bound \<open>parsecmd\<close> passes, the calls come
  to a command or a panic, and with any larger bound to the same one.\<close>

theorem parsecmd_terminates:
  "parsecmd buf \<noteq> PFuel \<and> parseline (4 * length buf + 8 + k) buf 0 = parseline (4 * length buf + 8) buf 0"
proof
  show "parsecmd buf \<noteq> PFuel"
    using parseline_nofuel [of buf]
    by (cases "parseline (4 * length buf + 8) buf 0") (auto simp: parsecmd_def split: prod.splits)
  show "parseline (4 * length buf + 8 + k) buf 0 = parseline (4 * length buf + 8) buf 0"
    using parse_mono [of "4 * length buf + 8" "4 * length buf + 8 + k" buf 0] parseline_nofuel by simp
qed

text \<open>C24: When the shell has parsed a line, every word of the command - argument or file name - is a maximal
  run of bytes of the line that are neither white space nor symbols, and the C string that begins where
  the word does is that word: the terminators written into the line end each word and cut none.\<close>

theorem parsecmd_words:
  assumes "parsecmd buf = POk (c, m)" and "0 \<notin> set buf" and "(q, e) \<in> set (cmd_words c)"
  shows "is_word buf (q, e) \<and> string_at m q = take (e - q) (drop q buf)"
  using assms parsecmd_cases [OF assms(1)] nulterminate_words [OF assms(2), of "cmd_words c" q e]
  by (auto simp: good_cmd_def nulterminate_eq)

lemma parsecmd_demo:
  "parsecmd (ascii ''a>b|c;'') = POk (LIST (PIPE (REDIR (EXEC [(0, 1)]) 2 3 1537 1) (EXEC [(4, 5)])) (EXEC []), ascii ''a'' @ 0 # ascii ''b'' @ 0 # ascii ''c'' @ [0, 0])"
  by code_simp

theorem parsecmd_words_witness:
  "is_word (ascii ''a>b|c;'') (2, 3) \<and>
   string_at (ascii ''a'' @ 0 # ascii ''b'' @ 0 # ascii ''c'' @ [0, 0]) 2 = ascii ''b''"
  using parsecmd_words [OF parsecmd_demo, of 2 3] by (simp add: ascii_def)

end
