(* ===== verification/Spec2Isabelle.thy ===== *)
theory Spec2Isabelle
  imports Boot Asm_Switch Mkfs_Kernel Sched Fdtable Grep Sh
begin

text \<open>
  The xv6 kernel for RISC-V, src/kernel: a small Unix-like kernel with processes, virtual memory, a
  file system with a crash-safe log, pipes, a console and a disk driver. This library models the
  kernel function by function and proves what its parts promise to each other.

  \<^bold>\<open>How the code is represented.\<close> The state of the kernel is one record that grows along the layers:
  \<open>machine\<close> (memory, CPUs, spin locks), \<open>kmem_state\<close> (the free list), \<open>vm_state\<close>, \<open>proc_state\<close> (the
  process table), \<open>slk_state\<close> (sleep locks), \<open>con_state\<close> (serial line and console), \<open>bio_state\<close> (buffers
  and disk), \<open>log_state\<close>, \<open>fs_state\<close> (superblock and inode table), \<open>file_state\<close> (file table and pipes),
  \<open>tick_state\<close>, \<open>vdisk_state\<close>, \<open>trap_state\<close> and \<open>boot_state\<close>. A function works on any extension of the
  record it needs. Its result is \<open>Ok\<close> with a value and the new state, \<open>Panic\<close> with the message of the
  panic, \<open>Spin\<close> when it loops for ever, or \<open>Slept\<close> with the state in which the process gives up the
  CPU; \<open>rbind\<close> sequences them. Machine integers are words of their width. Pointers to elements of the
  kernel's tables are indices; pages, page tables, trapframes and user memory are bytes of \<open>mem\<close>.

  \<^bold>\<open>Theories.\<close>
  \<^item> \<open>Xv6_Prelude\<close>: the outcome type, little-endian encodings, lists as arrays.
  \<^item> \<open>Kstring\<close>: string.c. Copying, comparing and measuring memory areas, overlapping ones included.
  \<^item> \<open>Spinlock\<close>: spinlock.c. The operations, mutual exclusion over all interleavings of the CPUs, and
    the collapse of a critical section to its effect (\<open>lock_simps\<close>), which all later theories use.
  \<^item> \<open>Kalloc\<close>: kalloc.c. The free list threaded through memory; pages are neither lost nor given out twice.
  \<^item> \<open>Vm\<close>, \<open>Vm_Map\<close>: vm.c. Page tables in memory; \<open>mappages\<close> against the mapping it implements, and
    copies to and from user memory.
  \<^item> \<open>Proc\<close>, \<open>Process\<close>: proc.c. Scheduling, sleep and wakeup, wait and kill; fork and exit.
  \<^item> \<open>Sleeplock\<close>: sleeplock.c.
  \<^item> \<open>Kprintf\<close>, \<open>Uart\<close>, \<open>Console\<close>: printf.c, uart.c, console.c. Numbers print as their digits; the serial
    line keeps the order of what is written.
  \<^item> \<open>Bio\<close>, \<open>Bio_Cache\<close>: bio.c. The buffer list and the cache it implements; the interface its clients
    use is the locale \<open>block_cache\<close>, interpreted on the operations of bio.c.
  \<^item> \<open>Log\<close>, \<open>Log_Crash\<close>, \<open>Log_Commit\<close>: log.c. Transactions, commit and recovery; a crash at any point
    leaves all of a transaction or none.
  \<^item> \<open>Fs\<close>: fs.c. Blocks, inodes, directories and path names.
  \<^item> \<open>File\<close>: file.c and pipe.c.
  \<^item> \<open>Exec\<close>, \<open>Sysarg\<close>, \<open>Sysfile\<close>, \<open>Syscall\<close>: exec.c, syscall.c, sysfile.c, sysproc.c.
  \<^item> \<open>Virtio\<close>: virtio_disk.c. \<open>Trap\<close>: trap.c and plic.c. \<open>Boot\<close>: start.c and main.c.
  \<^item> \<open>Asm\<close>, \<open>Asm_Switch\<close>: the assembly files as instruction lists with an interpreter; traps and context
    switches preserve the registers they should.

  \<^bold>\<open>Loops and bounds.\<close> Loops over tables recurse over the list of indices; loops over data recurse with
  a termination measure. Loops whose end depends on the state take a bound and give \<open>Spin\<close> when it is
  used up: \<open>freewalk\<close> (depth 3, the levels of a page table), \<open>kill_line\<close> (the length of the line),
  \<open>uartintr_loop\<close> (the bytes that wait), \<open>free_chain\<close> (the descriptors there are, since freeing one
  twice panics) and \<open>loadseg\<close> (the pages of the segment). A loop that sleeps stops with \<open>Slept\<close>; the
  definition of the loop is what the process runs when it is woken.

  \<^bold>\<open>Concurrency.\<close> Except for the spin locks, whose interleavings are a step relation, an operation is one
  sequential run on one CPU. The effect of a completed disk transfer is \<open>disk_transfer\<close>.

  \<^bold>\<open>Not modelled.\<close> The user programs under src/user and the image builder src/mkfs are separate programs
  outside the kernel. usertests.c, grind.c, stressfs.c, forktest.c, rhtest.c and the grading scripts are
  tests. ramdisk.c is not part of the build. kernel.ld and the Makefile are build files. The generated
  usys.S is not under src.
\<close>

end
